(* ===== verification/Kern_Prelude.thy ===== *)
theory Kern_Prelude
  imports Main "HOL-Library.Word"
begin

unbundle bit_operations_syntax

text \<open>
  Shared vocabulary of the development: the machine integer types of an LP64 NetBSD
  kernel, the errno values the modelled code returns, and generic lemmas on words that
  several components use.
\<close>

section \<open>Machine integers\<close>

type_synonym u8 = "8 word"
type_synonym u16 = "16 word"
type_synonym u32 = "32 word"
type_synonym u64 = "64 word"

section \<open>Error codes\<close>

text \<open>The \<^verbatim>\<open>errno\<close> values the modelled functions return.\<close>

datatype errno = EPERM | ENOENT | EINTR | EIO | EBADF | EOPNOTSUPP | ENOMEM | EBUSY | EEXIST | ENOTDIR | EISDIR | EINVAL
  | EFBIG | ENOSPC | EAGAIN | EDEADLK | ENAMETOOLONG | ENOTEMPTY | ENOLCK

section \<open>Generic facts\<close>

lemma bit_word_exp [simp]: "bit (2 ^ n :: 'a::len word) j \<longleftrightarrow> j = n \<and> n < LENGTH('a)"
  by (auto simp: bit_simps)

lemma unat_u64_less: "unat (x :: u64) < 2 ^ 64"
  using unsigned_less [where 'a = nat and w = x] by simp

lemma unat_exp_u64: "n < 64 \<Longrightarrow> unat (2 ^ n :: u64) = 2 ^ n"
proof -
  assume "n < 64"
  then have "(2 :: nat) ^ n < 2 ^ 64" by (rule power_strict_increasing) simp
  then show ?thesis using unat_of_nat [where 'a = 64, of "2 ^ n"] by simp
qed

lemma unat_ucast_u32_u64 [simp]: "unat (ucast (k :: u32) :: u64) = unat k"
proof -
  have "unat k < 2 ^ 32" using unsigned_less [of k] by simp
  then have "unat k < 2 ^ 64" by (rule less_trans) simp
  then show ?thesis by (simp add: unsigned_ucast_eq take_bit_nat_eq_self)
qed

lemma unat_ucast_u8_u32 [simp]: "unat (ucast (d :: u8) :: u32) = unat d"
proof -
  have "unat d < 2 ^ 8" using unsigned_less [of d] by simp
  then have "unat d < 2 ^ 32" by (rule less_trans) simp
  then show ?thesis by (simp add: unsigned_ucast_eq take_bit_nat_eq_self)
qed

end
