(* ===== verification/Bpf_Filter.thy ===== *)
theory Bpf_Filter
  imports Kern_Prelude
begin

text \<open>
  The BPF virtual machine of \<^verbatim>\<open>src/sys/net/bpf_filter.c\<close>: the packet accessors over mbuf
  chains, the interpreter \<open>bpf_filter_ext\<close> and the validator \<open>bpf_validate_ext\<close>, in the
  kernel configuration (\<^verbatim>\<open>_KERNEL\<close>).

  Undefined behaviour of the C code (a read outside an array, a read of an uninitialised
  memory word, a shift by 32 or more, a division by zero, a null pointer) is an explicit
  outcome \<open>Stuck\<close>, so that its absence is a theorem and not an assumption.
\<close>

section \<open>Instructions, contexts and arguments\<close>

record bpf_insn =
  insn_code :: u16
  insn_jt :: u8
  insn_jf :: u8
  insn_k :: u32

abbreviation (input) BPF_STMT :: "u16 \<Rightarrow> u32 \<Rightarrow> bpf_insn" where
  "BPF_STMT c k \<equiv> \<lparr>insn_code = c, insn_jt = 0, insn_jf = 0, insn_k = k\<rparr>"

abbreviation (input) BPF_JUMP :: "u16 \<Rightarrow> u32 \<Rightarrow> u8 \<Rightarrow> u8 \<Rightarrow> bpf_insn" where
  "BPF_JUMP c k t f \<equiv> \<lparr>insn_code = c, insn_jt = t, insn_jf = f, insn_k = k\<rparr>"

text \<open>The packet is a flat buffer when \<open>buflen\<close> is not zero and an mbuf chain otherwise.\<close>

datatype bpf_pkt = Contig "u8 list" | Chain "u8 list list"

text \<open>\<open>args_mem\<close> holds \<open>None\<close> in the words that nobody has written yet;
  \<open>args_arg\<close> is an opaque pointer handed to the coprocessor functions.\<close>

record bpf_args =
  args_pkt :: bpf_pkt
  args_wirelen :: u64
  args_buflen :: u64
  args_mem :: "u32 option list"
  args_arg :: nat

text \<open>A coprocessor function takes the argument block and the accumulator, and may write
  the block.  The context it also receives in C is read-only, so it is closed over.\<close>

type_synonym bpf_copfunc = "bpf_args \<Rightarrow> u32 \<Rightarrow> u32 \<times> bpf_args"

record bpf_ctx =
  ctx_copfuncs :: "bpf_copfunc list option"
  ctx_nfuncs :: u64
  ctx_extwords :: u64
  ctx_preinited :: u32

definition BPF_MEMWORDS :: nat where "BPF_MEMWORDS = 16"
definition BPF_MAX_MEMWORDS :: u64 where "BPF_MAX_MEMWORDS = 30"
definition BPF_MAXINSNS :: nat where "BPF_MAXINSNS = 512"

definition BPF_MEMWORD_INIT :: "u32 \<Rightarrow> u32" where
  "BPF_MEMWORD_INIT k = push_bit (unat k) 1"

definition bpf_create :: bpf_ctx where
  "bpf_create = \<lparr>ctx_copfuncs = None, ctx_nfuncs = 0, ctx_extwords = 0, ctx_preinited = 0\<rparr>"

definition bpf_set_cop :: "bpf_ctx \<Rightarrow> bpf_copfunc list option \<Rightarrow> u64 \<Rightarrow> bpf_ctx" where
  "bpf_set_cop bc funcs n = bc\<lparr>ctx_copfuncs := funcs, ctx_nfuncs := n\<rparr>"

text \<open>\<open>None\<close> is \<open>EINVAL\<close>, with the context unchanged.\<close>

definition bpf_set_extmem :: "bpf_ctx \<Rightarrow> u64 \<Rightarrow> u32 \<Rightarrow> bpf_ctx option" where
  "bpf_set_extmem bc nwords preinited =
     (if nwords > BPF_MAX_MEMWORDS \<or> drop_bit (unat nwords) preinited \<noteq> 0 then None
      else Some (bc\<lparr>ctx_extwords := nwords, ctx_preinited := preinited\<rparr>))"

subsection \<open>Instruction encoding\<close>

definition BPF_CLASS :: "u16 \<Rightarrow> u16" where "BPF_CLASS c = c AND 0x07"
definition BPF_MODE :: "u16 \<Rightarrow> u16" where "BPF_MODE c = c AND 0xe0"
definition BPF_OP :: "u16 \<Rightarrow> u16" where "BPF_OP c = c AND 0xf0"
definition BPF_SRC :: "u16 \<Rightarrow> u16" where "BPF_SRC c = c AND 0x08"
definition BPF_MISCOP :: "u16 \<Rightarrow> u16" where "BPF_MISCOP c = c AND 0xf8"

abbreviation (input) BPF_LD :: u16 where "BPF_LD \<equiv> 0x00"
abbreviation (input) BPF_LDX :: u16 where "BPF_LDX \<equiv> 0x01"
abbreviation (input) BPF_ST :: u16 where "BPF_ST \<equiv> 0x02"
abbreviation (input) BPF_STX :: u16 where "BPF_STX \<equiv> 0x03"
abbreviation (input) BPF_ALU :: u16 where "BPF_ALU \<equiv> 0x04"
abbreviation (input) BPF_JMP :: u16 where "BPF_JMP \<equiv> 0x05"
abbreviation (input) BPF_RET :: u16 where "BPF_RET \<equiv> 0x06"
abbreviation (input) BPF_MISC :: u16 where "BPF_MISC \<equiv> 0x07"
abbreviation (input) BPF_W :: u16 where "BPF_W \<equiv> 0x00"
abbreviation (input) BPF_H :: u16 where "BPF_H \<equiv> 0x08"
abbreviation (input) BPF_B :: u16 where "BPF_B \<equiv> 0x10"
abbreviation (input) BPF_IMM :: u16 where "BPF_IMM \<equiv> 0x00"
abbreviation (input) BPF_ABS :: u16 where "BPF_ABS \<equiv> 0x20"
abbreviation (input) BPF_IND :: u16 where "BPF_IND \<equiv> 0x40"
abbreviation (input) BPF_MEM :: u16 where "BPF_MEM \<equiv> 0x60"
abbreviation (input) BPF_LEN :: u16 where "BPF_LEN \<equiv> 0x80"
abbreviation (input) BPF_MSH :: u16 where "BPF_MSH \<equiv> 0xa0"
abbreviation (input) BPF_ADD :: u16 where "BPF_ADD \<equiv> 0x00"
abbreviation (input) BPF_SUB :: u16 where "BPF_SUB \<equiv> 0x10"
abbreviation (input) BPF_MUL :: u16 where "BPF_MUL \<equiv> 0x20"
abbreviation (input) BPF_DIV :: u16 where "BPF_DIV \<equiv> 0x30"
abbreviation (input) BPF_OR :: u16 where "BPF_OR \<equiv> 0x40"
abbreviation (input) BPF_AND :: u16 where "BPF_AND \<equiv> 0x50"
abbreviation (input) BPF_LSH :: u16 where "BPF_LSH \<equiv> 0x60"
abbreviation (input) BPF_RSH :: u16 where "BPF_RSH \<equiv> 0x70"
abbreviation (input) BPF_NEG :: u16 where "BPF_NEG \<equiv> 0x80"
abbreviation (input) BPF_MOD :: u16 where "BPF_MOD \<equiv> 0x90"
abbreviation (input) BPF_XOR :: u16 where "BPF_XOR \<equiv> 0xa0"
abbreviation (input) BPF_JA :: u16 where "BPF_JA \<equiv> 0x00"
abbreviation (input) BPF_JEQ :: u16 where "BPF_JEQ \<equiv> 0x10"
abbreviation (input) BPF_JGT :: u16 where "BPF_JGT \<equiv> 0x20"
abbreviation (input) BPF_JGE :: u16 where "BPF_JGE \<equiv> 0x30"
abbreviation (input) BPF_JSET :: u16 where "BPF_JSET \<equiv> 0x40"
abbreviation (input) BPF_K :: u16 where "BPF_K \<equiv> 0x00"
abbreviation (input) BPF_X :: u16 where "BPF_X \<equiv> 0x08"
abbreviation (input) BPF_A :: u16 where "BPF_A \<equiv> 0x10"
abbreviation (input) BPF_TAX :: u16 where "BPF_TAX \<equiv> 0x00"
abbreviation (input) BPF_COP :: u16 where "BPF_COP \<equiv> 0x20"
abbreviation (input) BPF_COPX :: u16 where "BPF_COPX \<equiv> 0x40"
abbreviation (input) BPF_TXA :: u16 where "BPF_TXA \<equiv> 0x80"

section \<open>Packet access\<close>

text \<open>The kinds of undefined behaviour, and the outcome of reading the packet: a value,
  the failure the code reports with \<open>*err = 1\<close> or \<open>return 0\<close>, or undefined behaviour.\<close>

datatype bpf_ub = UB_pc | UB_pkt | UB_mem | UB_uninit | UB_shift | UB_div | UB_null

datatype xres = XVal u32 | XErr | XUB bpf_ub

definition rd8 :: "u8 list \<Rightarrow> nat \<Rightarrow> u32 option" where
  "rd8 bs i = (if i < length bs then Some (ucast (bs ! i)) else None)"

definition be16 :: "u32 \<Rightarrow> u32 \<Rightarrow> u32" where
  "be16 a b = push_bit 8 a OR b"

definition be32 :: "u32 \<Rightarrow> u32 \<Rightarrow> u32 \<Rightarrow> u32 \<Rightarrow> u32" where
  "be32 a b c d = push_bit 24 a OR push_bit 16 b OR push_bit 8 c OR d"

definition xub :: "u32 option \<Rightarrow> xres" where
  "xub v = (case v of None \<Rightarrow> XUB UB_pkt | Some w \<Rightarrow> XVal w)"

text \<open>\<open>EXTRACT_SHORT\<close> and \<open>EXTRACT_LONG\<close>: \<open>be16dec\<close> and \<open>be32dec\<close> at offset \<open>i\<close>.\<close>

definition extract_short :: "u8 list \<Rightarrow> nat \<Rightarrow> xres" where
  "extract_short bs i =
     xub (case (rd8 bs i, rd8 bs (i + 1)) of
            (Some a, Some b) \<Rightarrow> Some (be16 a b) | _ \<Rightarrow> None)"

definition extract_long :: "u8 list \<Rightarrow> nat \<Rightarrow> xres" where
  "extract_long bs i =
     xub (case (rd8 bs i, rd8 bs (i + 1), rd8 bs (i + 2), rd8 bs (i + 3)) of
            (Some a, Some b, Some c, Some d) \<Rightarrow> Some (be32 a b c d) | _ \<Rightarrow> None)"

text \<open>\<open>MINDEX\<close> walks the chain to the mbuf that holds offset \<open>k\<close>; \<open>None\<close> is its
  \<open>return 0\<close>.\<close>

fun mindex :: "u8 list list \<Rightarrow> nat \<Rightarrow> (u8 list \<times> u8 list list \<times> nat) option" where
  "mindex [] k = None"
| "mindex (m # ms) k = (if k \<ge> length m then mindex ms (k - length m) else Some (m, ms, k))"

definition m_xword :: "u8 list list \<Rightarrow> u32 \<Rightarrow> xres" where
  "m_xword m k0 =
     (if m = [] then XUB UB_null
      else case mindex m (unat k0) of None \<Rightarrow> XErr
      | Some (cp, m_next, k) \<Rightarrow>
          let r = length cp - k in
          if r \<ge> 4 then extract_long cp k
          else (case m_next of
                  [] \<Rightarrow> XErr
                | np # _ \<Rightarrow>
                    if r + length np < 4 then XErr
                    else if r = 1 then
                      xub (case (rd8 cp k, rd8 np 0, rd8 np 1, rd8 np 2) of
                        (Some a, Some b, Some c, Some d) \<Rightarrow> Some (be32 a b c d) | _ \<Rightarrow> None)
                    else if r = 2 then
                      xub (case (rd8 cp k, rd8 cp (k + 1), rd8 np 0, rd8 np 1) of
                        (Some a, Some b, Some c, Some d) \<Rightarrow> Some (be32 a b c d) | _ \<Rightarrow> None)
                    else
                      xub (case (rd8 cp k, rd8 cp (k + 1), rd8 cp (k + 2), rd8 np 0) of
                        (Some a, Some b, Some c, Some d) \<Rightarrow> Some (be32 a b c d) | _ \<Rightarrow> None)))"

definition m_xhalf :: "u8 list list \<Rightarrow> u32 \<Rightarrow> xres" where
  "m_xhalf m k0 =
     (if m = [] then XUB UB_null
      else case mindex m (unat k0) of None \<Rightarrow> XErr
      | Some (cp, m_next, k) \<Rightarrow>
          if length cp - k \<ge> 2 then extract_short cp k
          else (case m_next of
                  [] \<Rightarrow> XErr
                | np # _ \<Rightarrow>
                    xub (case (rd8 cp k, rd8 np 0) of
                      (Some a, Some b) \<Rightarrow> Some (be16 a b) | _ \<Rightarrow> None)))"

definition m_xbyte :: "u8 list list \<Rightarrow> u32 \<Rightarrow> xres" where
  "m_xbyte m k0 =
     (if m = [] then XUB UB_null
      else case mindex m (unat k0) of None \<Rightarrow> XErr
      | Some (cp, m_next, k) \<Rightarrow> xub (rd8 cp k))"

text \<open>The accessors used by the interpreter: reading a flat buffer as an mbuf chain, or an
  mbuf chain as a flat buffer, is undefined.\<close>

definition xword :: "bpf_pkt \<Rightarrow> u32 \<Rightarrow> xres" where
  "xword p k = (case p of Chain m \<Rightarrow> m_xword m k | Contig _ \<Rightarrow> XUB UB_pkt)"

definition xhalf :: "bpf_pkt \<Rightarrow> u32 \<Rightarrow> xres" where
  "xhalf p k = (case p of Chain m \<Rightarrow> m_xhalf m k | Contig _ \<Rightarrow> XUB UB_pkt)"

definition xbyte :: "bpf_pkt \<Rightarrow> u32 \<Rightarrow> xres" where
  "xbyte p k = (case p of Chain m \<Rightarrow> m_xbyte m k | Contig _ \<Rightarrow> XUB UB_pkt)"

definition EXTRACT_LONG :: "bpf_pkt \<Rightarrow> u32 \<Rightarrow> xres" where
  "EXTRACT_LONG p k = (case p of Contig bs \<Rightarrow> extract_long bs (unat k) | Chain _ \<Rightarrow> XUB UB_pkt)"

definition EXTRACT_SHORT :: "bpf_pkt \<Rightarrow> u32 \<Rightarrow> xres" where
  "EXTRACT_SHORT p k = (case p of Contig bs \<Rightarrow> extract_short bs (unat k) | Chain _ \<Rightarrow> XUB UB_pkt)"

definition EXTRACT_BYTE :: "bpf_pkt \<Rightarrow> u32 \<Rightarrow> xres" where
  "EXTRACT_BYTE p k = (case p of Contig bs \<Rightarrow> xub (rd8 bs (unat k)) | Chain _ \<Rightarrow> XUB UB_pkt)"

subsection \<open>The packet loads of the interpreter\<close>

text \<open>\<open>p\<close> is the interpreter's local copy of \<open>args->pkt\<close>, taken at entry.\<close>

definition ld_w_abs :: "bpf_pkt \<Rightarrow> bpf_args \<Rightarrow> u32 \<Rightarrow> xres" where
  "ld_w_abs p args k =
     (if ucast k > args_buflen args \<or> 4 > args_buflen args - ucast k then
        if args_buflen args \<noteq> 0 then XErr else xword (args_pkt args) k
      else EXTRACT_LONG p k)"

definition ld_h_abs :: "bpf_pkt \<Rightarrow> bpf_args \<Rightarrow> u32 \<Rightarrow> xres" where
  "ld_h_abs p args k =
     (if ucast k > args_buflen args \<or> 2 > args_buflen args - ucast k then
        if args_buflen args \<noteq> 0 then XErr else xhalf (args_pkt args) k
      else EXTRACT_SHORT p k)"

definition ld_b_abs :: "bpf_pkt \<Rightarrow> bpf_args \<Rightarrow> u32 \<Rightarrow> xres" where
  "ld_b_abs p args k =
     (if ucast k \<ge> args_buflen args then
        if args_buflen args \<noteq> 0 then XErr else xbyte (args_pkt args) k
      else EXTRACT_BYTE p k)"

definition ld_w_ind :: "bpf_pkt \<Rightarrow> bpf_args \<Rightarrow> u32 \<Rightarrow> u32 \<Rightarrow> xres" where
  "ld_w_ind p args X pk =
     (let k = X + pk in
      if k < X \<or> ucast k \<ge> args_buflen args \<or> 4 > args_buflen args - ucast k then
        if k < X \<or> args_buflen args \<noteq> 0 then XErr else xword (args_pkt args) k
      else EXTRACT_LONG p k)"

definition ld_h_ind :: "bpf_pkt \<Rightarrow> bpf_args \<Rightarrow> u32 \<Rightarrow> u32 \<Rightarrow> xres" where
  "ld_h_ind p args X pk =
     (let k = X + pk in
      if k < X \<or> ucast k \<ge> args_buflen args \<or> 2 > args_buflen args - ucast k then
        if k < X \<or> args_buflen args \<noteq> 0 then XErr else xhalf (args_pkt args) k
      else EXTRACT_SHORT p k)"

definition ld_b_ind :: "bpf_pkt \<Rightarrow> bpf_args \<Rightarrow> u32 \<Rightarrow> u32 \<Rightarrow> xres" where
  "ld_b_ind p args X pk =
     (let k = X + pk in
      if k < X \<or> ucast k \<ge> args_buflen args then
        if k < X \<or> args_buflen args \<noteq> 0 then XErr else xbyte (args_pkt args) k
      else EXTRACT_BYTE p k)"

definition ldx_msh :: "bpf_pkt \<Rightarrow> bpf_args \<Rightarrow> u32 \<Rightarrow> xres" where
  "ldx_msh p args k =
     (let x = (if ucast k \<ge> args_buflen args then
                 if args_buflen args \<noteq> 0 then XErr else xbyte (args_pkt args) k
               else EXTRACT_BYTE p k)
      in case x of XVal v \<Rightarrow> XVal (push_bit 2 (v AND 0xf)) | _ \<Rightarrow> x)"

section \<open>The interpreter\<close>

record bpf_state =
  st_pc :: nat
  st_A :: u32
  st_X :: u32
  st_args :: bpf_args

text \<open>One pass through the body of the loop: the next state, a \<open>return\<close>, or
  undefined behaviour.  \<open>Continue\<close> carries the \<open>++pc\<close> of the next pass.\<close>

datatype bpf_out = Return u32 | Stuck bpf_ub
datatype bpf_step = Continue bpf_state | Done bpf_out

definition step_next :: "bpf_state \<Rightarrow> bpf_step" where
  "step_next s = Continue (s\<lparr>st_pc := st_pc s + 1\<rparr>)"

definition step_jump :: "bpf_state \<Rightarrow> nat \<Rightarrow> bpf_step" where
  "step_jump s off = Continue (s\<lparr>st_pc := st_pc s + off + 1\<rparr>)"

definition setA :: "bpf_state \<Rightarrow> u32 \<Rightarrow> bpf_step" where
  "setA s v = step_next (s\<lparr>st_A := v\<rparr>)"

definition setX :: "bpf_state \<Rightarrow> u32 \<Rightarrow> bpf_step" where
  "setX s v = step_next (s\<lparr>st_X := v\<rparr>)"

definition load_res :: "(u32 \<Rightarrow> bpf_step) \<Rightarrow> xres \<Rightarrow> bpf_step" where
  "load_res f x = (case x of XVal v \<Rightarrow> f v | XErr \<Rightarrow> Done (Return 0) | XUB u \<Rightarrow> Done (Stuck u))"

definition mem_read :: "bpf_args \<Rightarrow> u32 \<Rightarrow> xres" where
  "mem_read args k =
     (if unat k < length (args_mem args)
      then (case args_mem args ! unat k of None \<Rightarrow> XUB UB_uninit | Some v \<Rightarrow> XVal v)
      else XUB UB_mem)"

definition mem_write :: "bpf_state \<Rightarrow> u32 \<Rightarrow> u32 \<Rightarrow> bpf_step" where
  "mem_write s k v =
     (if unat k < length (args_mem (st_args s))
      then step_next (s\<lparr>st_args := (st_args s)
             \<lparr>args_mem := (args_mem (st_args s))[unat k := Some v]\<rparr>\<rparr>)
      else Done (Stuck UB_mem))"

text \<open>The cases of the \<open>switch\<close>, one definition per group; \<open>None\<close> when the code is not
  of the group.\<close>

definition bpf_ret :: "bpf_insn \<Rightarrow> bpf_state \<Rightarrow> bpf_step option" where
  "bpf_ret i s =
     (let c = insn_code i in
      if c = BPF_RET OR BPF_K then Some (Done (Return (insn_k i)))
      else if c = BPF_RET OR BPF_A then Some (Done (Return (st_A s)))
      else None)"

definition bpf_ld_pkt :: "bpf_pkt \<Rightarrow> bpf_insn \<Rightarrow> bpf_state \<Rightarrow> bpf_step option" where
  "bpf_ld_pkt p i s =
     (let c = insn_code i; k = insn_k i; args = st_args s; X = st_X s in
      if c = BPF_LD OR BPF_W OR BPF_ABS then Some (load_res (setA s) (ld_w_abs p args k))
      else if c = BPF_LD OR BPF_H OR BPF_ABS then Some (load_res (setA s) (ld_h_abs p args k))
      else if c = BPF_LD OR BPF_B OR BPF_ABS then Some (load_res (setA s) (ld_b_abs p args k))
      else if c = BPF_LD OR BPF_W OR BPF_LEN then Some (setA s (ucast (args_wirelen args)))
      else if c = BPF_LDX OR BPF_W OR BPF_LEN then Some (setX s (ucast (args_wirelen args)))
      else if c = BPF_LD OR BPF_W OR BPF_IND then Some (load_res (setA s) (ld_w_ind p args X k))
      else if c = BPF_LD OR BPF_H OR BPF_IND then Some (load_res (setA s) (ld_h_ind p args X k))
      else if c = BPF_LD OR BPF_B OR BPF_IND then Some (load_res (setA s) (ld_b_ind p args X k))
      else if c = BPF_LDX OR BPF_MSH OR BPF_B then Some (load_res (setX s) (ldx_msh p args k))
      else None)"

definition bpf_ld_st :: "bpf_insn \<Rightarrow> bpf_state \<Rightarrow> bpf_step option" where
  "bpf_ld_st i s =
     (let c = insn_code i; k = insn_k i; args = st_args s in
      if c = BPF_LD OR BPF_IMM then Some (setA s k)
      else if c = BPF_LDX OR BPF_IMM then Some (setX s k)
      else if c = BPF_LD OR BPF_MEM then Some (load_res (setA s) (mem_read args k))
      else if c = BPF_LDX OR BPF_MEM then Some (load_res (setX s) (mem_read args k))
      else if c = BPF_ST then Some (mem_write s k (st_A s))
      else if c = BPF_STX then Some (mem_write s k (st_X s))
      else None)"

definition bpf_jmp :: "bpf_insn \<Rightarrow> bpf_state \<Rightarrow> bpf_step option" where
  "bpf_jmp i s =
     (let c = insn_code i; k = insn_k i; A = st_A s; X = st_X s;
          br = (\<lambda>b. Some (step_jump s (if b then unat (insn_jt i) else unat (insn_jf i)))) in
      if c = BPF_JMP OR BPF_JA then Some (step_jump s (unat k))
      else if c = BPF_JMP OR BPF_JGT OR BPF_K then br (A > k)
      else if c = BPF_JMP OR BPF_JGE OR BPF_K then br (A \<ge> k)
      else if c = BPF_JMP OR BPF_JEQ OR BPF_K then br (A = k)
      else if c = BPF_JMP OR BPF_JSET OR BPF_K then br (A AND k \<noteq> 0)
      else if c = BPF_JMP OR BPF_JGT OR BPF_X then br (A > X)
      else if c = BPF_JMP OR BPF_JGE OR BPF_X then br (A \<ge> X)
      else if c = BPF_JMP OR BPF_JEQ OR BPF_X then br (A = X)
      else if c = BPF_JMP OR BPF_JSET OR BPF_X then br (A AND X \<noteq> 0)
      else None)"

text \<open>A C shift of a 32-bit value by 32 or more is undefined.\<close>

definition alu_lsh :: "bpf_state \<Rightarrow> u32 \<Rightarrow> bpf_step" where
  "alu_lsh s n = (if n < 32 then setA s (push_bit (unat n) (st_A s)) else Done (Stuck UB_shift))"

definition alu_rsh :: "bpf_state \<Rightarrow> u32 \<Rightarrow> bpf_step" where
  "alu_rsh s n = (if n < 32 then setA s (drop_bit (unat n) (st_A s)) else Done (Stuck UB_shift))"

definition bpf_alu_x :: "bpf_insn \<Rightarrow> bpf_state \<Rightarrow> bpf_step option" where
  "bpf_alu_x i s =
     (let c = insn_code i; A = st_A s; X = st_X s in
      if c = BPF_ALU OR BPF_ADD OR BPF_X then Some (setA s (A + X))
      else if c = BPF_ALU OR BPF_SUB OR BPF_X then Some (setA s (A - X))
      else if c = BPF_ALU OR BPF_MUL OR BPF_X then Some (setA s (A * X))
      else if c = BPF_ALU OR BPF_DIV OR BPF_X then
        Some (if X = 0 then Done (Return 0) else setA s (A div X))
      else if c = BPF_ALU OR BPF_MOD OR BPF_X then
        Some (if X = 0 then Done (Return 0) else setA s (A mod X))
      else if c = BPF_ALU OR BPF_AND OR BPF_X then Some (setA s (A AND X))
      else if c = BPF_ALU OR BPF_OR OR BPF_X then Some (setA s (A OR X))
      else if c = BPF_ALU OR BPF_XOR OR BPF_X then Some (setA s (A XOR X))
      else if c = BPF_ALU OR BPF_LSH OR BPF_X then Some (alu_lsh s X)
      else if c = BPF_ALU OR BPF_RSH OR BPF_X then Some (alu_rsh s X)
      else None)"

definition bpf_alu_k :: "bpf_insn \<Rightarrow> bpf_state \<Rightarrow> bpf_step option" where
  "bpf_alu_k i s =
     (let c = insn_code i; A = st_A s; k = insn_k i in
      if c = BPF_ALU OR BPF_ADD OR BPF_K then Some (setA s (A + k))
      else if c = BPF_ALU OR BPF_SUB OR BPF_K then Some (setA s (A - k))
      else if c = BPF_ALU OR BPF_MUL OR BPF_K then Some (setA s (A * k))
      else if c = BPF_ALU OR BPF_DIV OR BPF_K then
        Some (if k = 0 then Done (Stuck UB_div) else setA s (A div k))
      else if c = BPF_ALU OR BPF_MOD OR BPF_K then
        Some (if k = 0 then Done (Stuck UB_div) else setA s (A mod k))
      else if c = BPF_ALU OR BPF_AND OR BPF_K then Some (setA s (A AND k))
      else if c = BPF_ALU OR BPF_OR OR BPF_K then Some (setA s (A OR k))
      else if c = BPF_ALU OR BPF_XOR OR BPF_K then Some (setA s (A XOR k))
      else if c = BPF_ALU OR BPF_LSH OR BPF_K then Some (alu_lsh s k)
      else if c = BPF_ALU OR BPF_RSH OR BPF_K then Some (alu_rsh s k)
      else if c = BPF_ALU OR BPF_NEG then Some (setA s (- A))
      else None)"

text \<open>A coprocessor call: \<open>A = fn(bc, args, A)\<close>.\<close>

definition bpf_call_cop :: "bpf_ctx option \<Rightarrow> u32 \<Rightarrow> bpf_state \<Rightarrow> bpf_step" where
  "bpf_call_cop bc n s =
     (case bc of None \<Rightarrow> Done (Stuck UB_null)
      | Some b \<Rightarrow>
          if ucast n < ctx_nfuncs b then
            (case ctx_copfuncs b of None \<Rightarrow> Done (Stuck UB_null)
             | Some fns \<Rightarrow>
                 if unat n < length fns then
                   (let (a, args') = (fns ! unat n) (st_args s) (st_A s)
                    in step_next (s\<lparr>st_A := a, st_args := args'\<rparr>))
                 else Done (Stuck UB_mem))
          else Done (Return 0))"

definition bpf_misc :: "bpf_ctx option \<Rightarrow> bpf_insn \<Rightarrow> bpf_state \<Rightarrow> bpf_step option" where
  "bpf_misc bc i s =
     (let c = insn_code i in
      if c = BPF_MISC OR BPF_TAX then Some (setX s (st_A s))
      else if c = BPF_MISC OR BPF_TXA then Some (setA s (st_X s))
      else if c = BPF_MISC OR BPF_COP then Some (bpf_call_cop bc (insn_k i) s)
      else if c = BPF_MISC OR BPF_COPX then Some (bpf_call_cop bc (st_X s) s)
      else None)"

definition or_else :: "'a option \<Rightarrow> 'a option \<Rightarrow> 'a option" where
  "or_else a b = (case a of None \<Rightarrow> b | Some _ \<Rightarrow> a)"

text \<open>The whole \<open>switch\<close>; its \<open>default\<close> is \<open>return 0\<close>.\<close>

definition bpf_exec :: "bpf_ctx option \<Rightarrow> bpf_pkt \<Rightarrow> bpf_insn \<Rightarrow> bpf_state \<Rightarrow> bpf_step" where
  "bpf_exec bc p i s =
     (case or_else (bpf_ret i s) (or_else (bpf_ld_pkt p i s) (or_else (bpf_ld_st i s)
             (or_else (bpf_jmp i s) (or_else (bpf_alu_x i s) (or_else (bpf_alu_k i s)
             (bpf_misc bc i s)))))) of
        None \<Rightarrow> Done (Return 0) | Some r \<Rightarrow> r)"

text \<open>The \<open>for (;;)\<close> loop, with fuel: \<open>None\<close> is a run that has not ended yet.\<close>

fun bpf_loop :: "nat \<Rightarrow> bpf_ctx option \<Rightarrow> bpf_insn list \<Rightarrow> bpf_pkt \<Rightarrow> bpf_state \<Rightarrow> bpf_out option" where
  "bpf_loop 0 bc f p s = None"
| "bpf_loop (Suc n) bc f p s =
     (if st_pc s < length f then
        (case bpf_exec bc p (f ! st_pc s) s of
           Done r \<Rightarrow> Some r | Continue s' \<Rightarrow> bpf_loop n bc f p s')
      else Some (Stuck UB_pc))"

definition bpf_filter_ext ::
    "nat \<Rightarrow> bpf_ctx option \<Rightarrow> bpf_insn list option \<Rightarrow> bpf_args \<Rightarrow> bpf_out option" where
  "bpf_filter_ext fuel bc pc args =
     (case pc of None \<Rightarrow> Some (Return (- 1))
      | Some f \<Rightarrow> bpf_loop fuel bc f (args_pkt args) \<lparr>st_pc = 0, st_A = 0, st_X = 0, st_args = args\<rparr>)"

definition bpf_filter ::
    "nat \<Rightarrow> bpf_insn list option \<Rightarrow> bpf_pkt \<Rightarrow> u32 \<Rightarrow> u32 \<Rightarrow> bpf_out option" where
  "bpf_filter fuel pc p wirelen buflen =
     bpf_filter_ext fuel None pc
       \<lparr>args_pkt = p, args_wirelen = ucast wirelen, args_buflen = ucast buflen,
        args_mem = replicate BPF_MEMWORDS None, args_arg = 0\<rparr>"

section \<open>The validator\<close>

definition ctx_memwords :: "bpf_ctx option \<Rightarrow> nat" where
  "ctx_memwords bc =
     (let extwords = (case bc of None \<Rightarrow> 0 | Some b \<Rightarrow> ctx_extwords b)
      in if extwords \<noteq> 0 then unat extwords else BPF_MEMWORDS)"

definition ctx_init :: "bpf_ctx option \<Rightarrow> u32" where
  "ctx_init bc =
     (let extwords = (case bc of None \<Rightarrow> 0 | Some b \<Rightarrow> ctx_extwords b)
      in if extwords \<noteq> 0 then (case bc of None \<Rightarrow> 0 | Some b \<Rightarrow> ctx_preinited b) else 0)"

text \<open>The checks of one class of instructions.  The state of the validator is the set of
  memory words that may be uninitialised at the current instruction and, for every
  instruction, those that may be uninitialised when it is reached by a jump; \<open>None\<close> is
  \<open>goto out\<close>.\<close>

type_synonym vstate = "u32 \<times> u32 list"

definition val_ld :: "nat \<Rightarrow> bpf_insn \<Rightarrow> vstate \<Rightarrow> vstate option" where
  "val_ld memwords p = (\<lambda>(invalid, mem).
     if BPF_MODE (insn_code p) = BPF_MEM then
       if unat (insn_k p) \<ge> memwords then None
       else if invalid AND BPF_MEMWORD_INIT (insn_k p) \<noteq> 0 then None
       else Some (invalid, mem)
     else if BPF_MODE (insn_code p) \<in> {BPF_ABS, BPF_IND, BPF_MSH, BPF_IMM, BPF_LEN}
     then Some (invalid, mem) else None)"

definition val_st :: "nat \<Rightarrow> bpf_insn \<Rightarrow> vstate \<Rightarrow> vstate option" where
  "val_st memwords p = (\<lambda>(invalid, mem).
     if unat (insn_k p) \<ge> memwords then None
     else Some (invalid AND NOT (BPF_MEMWORD_INIT (insn_k p)), mem))"

definition val_alu :: "bpf_insn \<Rightarrow> vstate \<Rightarrow> vstate option" where
  "val_alu p v =
     (let c = insn_code p in
      if BPF_OP c \<in> {BPF_ADD, BPF_SUB, BPF_MUL, BPF_OR, BPF_XOR, BPF_AND, BPF_LSH, BPF_RSH, BPF_NEG}
      then Some v
      else if BPF_OP c \<in> {BPF_DIV, BPF_MOD} then
        if BPF_SRC c = BPF_K \<and> insn_k p = 0 then None else Some v
      else None)"

definition val_jmp :: "u32 \<Rightarrow> nat \<Rightarrow> bpf_insn \<Rightarrow> vstate \<Rightarrow> vstate option" where
  "val_jmp len i p = (\<lambda>(invalid, mem).
     let from = of_nat i + 1 :: u32; c = insn_code p in
     if BPF_OP c = BPF_JA then
       (let t = from + insn_k p in
        if t \<ge> len then None
        else if t < from then None
        else Some (0, mem[unat t := mem ! unat t OR invalid]))
     else if BPF_OP c \<in> {BPF_JEQ, BPF_JGT, BPF_JGE, BPF_JSET} then
       (let t = from + ucast (insn_jt p); e = from + ucast (insn_jf p) in
        if t \<ge> len \<or> e \<ge> len then None
        else let mem1 = mem[unat t := mem ! unat t OR invalid]
             in Some (0, mem1[unat e := mem1 ! unat e OR invalid]))
     else None)"

definition val_misc :: "bpf_ctx option \<Rightarrow> bpf_insn \<Rightarrow> vstate \<Rightarrow> vstate option" where
  "val_misc bc p v =
     (let c = insn_code p in
      if BPF_MISCOP c \<in> {BPF_COP, BPF_COPX} then
        (case bc of None \<Rightarrow> None
         | Some b \<Rightarrow>
             if ctx_copfuncs b = None then None
             else if BPF_MISCOP c = BPF_COP \<and> ucast (insn_k p) \<ge> ctx_nfuncs b then None
             else Some v)
      else Some v)"

text \<open>One pass through the loop of the validator.\<close>

definition validate_insn :: "bpf_ctx option \<Rightarrow> u32 \<Rightarrow> nat \<Rightarrow> bpf_insn \<Rightarrow> vstate \<Rightarrow> vstate option" where
  "validate_insn bc len i p = (\<lambda>(invalid0, mem).
     let invalid = invalid0 OR mem ! i; c = BPF_CLASS (insn_code p) in
     if c = BPF_LD \<or> c = BPF_LDX then val_ld (ctx_memwords bc) p (invalid, mem)
     else if c = BPF_ST \<or> c = BPF_STX then val_st (ctx_memwords bc) p (invalid, mem)
     else if c = BPF_ALU then val_alu p (invalid, mem)
     else if c = BPF_JMP then val_jmp len i p (invalid, mem)
     else if c = BPF_RET then Some (invalid, mem)
     else if c = BPF_MISC then val_misc bc p (invalid, mem)
     else None)"

function validate_loop :: "bpf_ctx option \<Rightarrow> bpf_insn list \<Rightarrow> u32 \<Rightarrow> nat \<Rightarrow> vstate \<Rightarrow> bool" where
  "validate_loop bc f len i v =
     (if i < unat len then
        (case validate_insn bc len i (f ! i) v of
           None \<Rightarrow> False | Some v' \<Rightarrow> validate_loop bc f len (i + 1) v')
      else True)"
  by pat_completeness auto
termination
  by (relation "measure (\<lambda>(bc, f, len, i, v). unat len - i)") auto

declare validate_loop.simps [simp del]

text \<open>\<open>f\<close> points to at least \<open>signed_len\<close> instructions when \<open>signed_len\<close> is positive.\<close>

definition bpf_validate_ext :: "bpf_ctx option \<Rightarrow> bpf_insn list \<Rightarrow> int \<Rightarrow> bool" where
  "bpf_validate_ext bc f signed_len =
     (let len = word_of_int signed_len :: u32 in
      if len < 1 then False
      else if unat len > BPF_MAXINSNS then False
      else if insn_code (f ! (unat len - 1)) \<noteq> BPF_RET OR BPF_K
            \<and> insn_code (f ! (unat len - 1)) \<noteq> BPF_RET OR BPF_A then False
      else validate_loop bc f len 0 (NOT (ctx_init bc), replicate (unat len) 0))"

definition bpf_validate :: "bpf_insn list \<Rightarrow> int \<Rightarrow> bool" where
  "bpf_validate f signed_len = bpf_validate_ext None f signed_len"

end
