(* ===== verification/Bpf_Safety.thy ===== *)
theory Bpf_Safety
  imports Bpf_Filter
begin

text \<open>
  Safety of validated BPF programs, the agreement of the packet accessors on mbuf chains and
  flat buffers, and the two gaps the proofs show: an unchecked second mbuf in \<open>m_xhalf\<close> and
  shift amounts the validator does not look at.
\<close>

section \<open>Packet access\<close>

lemma rd8_None [simp]: "rd8 bs i = None \<longleftrightarrow> length bs \<le> i"
  by (auto simp: rd8_def)

lemma rd8_Some: "i < length bs \<Longrightarrow> rd8 bs i = Some (ucast (bs ! i))"
  by (simp add: rd8_def)

lemma mindex_Some:
  "mindex ms k = Some (cp, nx, k') \<Longrightarrow>
     \<exists>pre. ms = pre @ cp # nx \<and> k' < length cp \<and> k = length (concat pre) + k'"
proof (induction ms k rule: mindex.induct)
  case (2 m ms k)
  show ?case
  proof (cases "length m \<le> k")
    case True
    with 2 obtain pre where "ms = pre @ cp # nx" "k' < length cp" "k - length m = length (concat pre) + k'"
      by auto
    with True show ?thesis by (intro exI [of _ "m # pre"]) auto
  next
    case False
    with 2 show ?thesis by (intro exI [of _ "[]"]) auto
  qed
qed simp

lemma mindex_None: "mindex ms k = None \<longleftrightarrow> length (concat ms) \<le> k"
  by (induction ms k rule: mindex.induct) auto

definition load_ok :: "xres \<Rightarrow> bool" where
  "load_ok x \<longleftrightarrow> (\<forall>u. x \<noteq> XUB u)"

lemma load_ok_simps [simp]: "load_ok (XVal v)" "load_ok XErr" "\<not> load_ok (XUB u)"
  by (auto simp: load_ok_def)

lemma xub_ok [simp]: "load_ok (xub v) \<longleftrightarrow> v \<noteq> None"
  by (auto simp: xub_def split: option.splits)

lemma extract_long_ok: "i + 4 \<le> length bs \<Longrightarrow> load_ok (extract_long bs i)"
  by (simp add: extract_long_def rd8_Some)

lemma extract_short_ok: "i + 2 \<le> length bs \<Longrightarrow> load_ok (extract_short bs i)"
  by (simp add: extract_short_def rd8_Some)

lemma m_xword_ok: "m \<noteq> [] \<Longrightarrow> load_ok (m_xword m k)"
  by (auto simp: m_xword_def Let_def rd8_Some extract_long_ok dest!: mindex_Some
      split: option.splits list.splits)

lemma m_xbyte_ok: "m \<noteq> [] \<Longrightarrow> load_ok (m_xbyte m k)"
  by (auto simp: m_xbyte_def rd8_Some dest!: mindex_Some split: option.splits)

lemma m_xhalf_ok:
  assumes "m \<noteq> []" and "[] \<notin> set (tl m)"
  shows "load_ok (m_xhalf m k)"
proof (cases "mindex m (unat k)")
  case None
  with assms show ?thesis by (simp add: m_xhalf_def)
next
  case (Some x)
  then obtain cp nx k' where x: "mindex m (unat k) = Some (cp, nx, k')" by (cases x) auto
  then obtain pre where m: "m = pre @ cp # nx" and k': "k' < length cp"
    using mindex_Some by blast
  have "nx = np # r \<Longrightarrow> np \<noteq> []" for np r
    using assms(2) m by (cases pre) auto
  with x k' assms show ?thesis
    by (auto simp: m_xhalf_def rd8_Some extract_short_ok split: list.splits)
qed

text \<open>The packet of an argument block: a flat buffer of at least \<open>buflen\<close> bytes, or an mbuf
  chain whose continuation mbufs are not empty.\<close>

definition wf_pkt :: "bpf_args \<Rightarrow> bool" where
  "wf_pkt args \<longleftrightarrow>
     (case args_pkt args of
        Contig bs \<Rightarrow> args_buflen args \<noteq> 0 \<and> unat (args_buflen args) \<le> length bs
      | Chain m \<Rightarrow> args_buflen args = 0 \<and> m \<noteq> [] \<and> [] \<notin> set (tl m))"

lemma buflen_room:
  assumes "ucast (k::u32) \<le> (b::u64)" and "w \<le> b - ucast k"
  shows "unat k + unat w \<le> unat b"
  using assms by (simp add: word_le_nat_alt unat_sub)

lemmas pkt_defs = ld_w_abs_def ld_h_abs_def ld_b_abs_def ld_w_ind_def ld_h_ind_def ld_b_ind_def
  ldx_msh_def xword_def xhalf_def xbyte_def EXTRACT_LONG_def EXTRACT_SHORT_def EXTRACT_BYTE_def

lemma ld_w_room:
  "\<not> (ucast (k::u32) > (b::u64) \<or> 4 > b - ucast k) \<Longrightarrow> unat b \<le> n \<Longrightarrow> unat k + 4 \<le> n"
  "\<not> (ucast (k::u32) > (b::u64) \<or> 2 > b - ucast k) \<Longrightarrow> unat b \<le> n \<Longrightarrow> unat k + 2 \<le> n"
  "\<not> (ucast (k::u32) \<ge> (b::u64)) \<Longrightarrow> unat b \<le> n \<Longrightarrow> unat k < n"
  using buflen_room [of k b 4] buflen_room [of k b 2] by (auto simp: not_less not_le)
    (simp add: word_less_nat_alt)

lemma buflen_zero [simp]:
  "ucast (k::u32) > (0::u64) \<or> 4 > 0 - (ucast k :: u64)"
  "ucast (k::u32) > (0::u64) \<or> 2 > 0 - (ucast k :: u64)"
  by (cases "(ucast k :: u64) = 0"; simp add: word_greater_zero_iff)+

lemma ld_abs_ok:
  assumes "wf_pkt args" and "args_pkt args = p"
  shows "load_ok (ld_w_abs p args k) \<and> load_ok (ld_h_abs p args k) \<and> load_ok (ld_b_abs p args k)"
proof (cases p)
  case (Contig bs)
  with assms ld_w_room [of "args_buflen args" k "length bs"]
  show ?thesis
    by (auto simp: wf_pkt_def pkt_defs extract_long_ok extract_short_ok)
next
  case (Chain m)
  with assms show ?thesis
    using buflen_zero [of k] by (auto simp: wf_pkt_def pkt_defs m_xword_ok m_xhalf_ok m_xbyte_ok)
qed

text \<open>The indirect loads are absolute loads at \<open>X + k\<close>, guarded against wrap-around.\<close>

lemma ld_ind_abs:
  "ld_w_ind p args X k = (if X + k < X then XErr else ld_w_abs p args (X + k))"
  "ld_h_ind p args X k = (if X + k < X then XErr else ld_h_abs p args (X + k))"
  "ld_b_ind p args X k = (if X + k < X then XErr else ld_b_abs p args (X + k))"
  by (auto simp: pkt_defs Let_def)

lemma ldx_msh_abs:
  "ldx_msh p args k = (case ld_b_abs p args k of XVal v \<Rightarrow> XVal (push_bit 2 (v AND 0xf)) | x \<Rightarrow> x)"
  by (auto simp: pkt_defs Let_def split: xres.splits)

lemma pkt_loads_ok:
  assumes "wf_pkt args" and "args_pkt args = p"
  shows "load_ok (ld_w_abs p args k)" "load_ok (ld_h_abs p args k)" "load_ok (ld_b_abs p args k)"
    "load_ok (ld_w_ind p args X k)" "load_ok (ld_h_ind p args X k)" "load_ok (ld_b_ind p args X k)"
    "load_ok (ldx_msh p args k)"
  using ld_abs_ok [OF assms]
  by (auto simp: ld_ind_abs ldx_msh_abs split: xres.splits) (metis load_ok_simps(3))

section \<open>One instruction\<close>

text \<open>\<open>uninit_in iv m\<close>: every uninitialised word of \<open>m\<close> is marked in \<open>iv\<close>.\<close>

definition uninit_in :: "u32 \<Rightarrow> u32 option list \<Rightarrow> bool" where
  "uninit_in iv m \<longleftrightarrow> (\<forall>j < length m. m ! j = None \<longrightarrow> bit iv j)"

text \<open>A context is well formed when its external memory fits the bit mask, it has as many
  functions as it says, and every coprocessor function leaves the packet alone, keeps the
  size of the memory store and does not uninitialise a word of it.\<close>

definition cop_ok :: "bpf_copfunc \<Rightarrow> bool" where
  "cop_ok fn \<longleftrightarrow> (\<forall>args a. let args' = snd (fn args a) in
     args_pkt args' = args_pkt args \<and> args_buflen args' = args_buflen args
     \<and> length (args_mem args') = length (args_mem args)
     \<and> (\<forall>j < length (args_mem args). args_mem args ! j \<noteq> None \<longrightarrow> args_mem args' ! j \<noteq> None))"

definition wf_ctx :: "bpf_ctx option \<Rightarrow> bool" where
  "wf_ctx bc = (case bc of None \<Rightarrow> True
     | Some b \<Rightarrow> ctx_extwords b \<le> BPF_MAX_MEMWORDS
         \<and> (case ctx_copfuncs b of None \<Rightarrow> True
            | Some fns \<Rightarrow> unat (ctx_nfuncs b) \<le> length fns \<and> list_all cop_ok fns))"

definition wf_args :: "bpf_ctx option \<Rightarrow> bpf_args \<Rightarrow> bool" where
  "wf_args bc args \<longleftrightarrow> wf_pkt args \<and> length (args_mem args) = ctx_memwords bc"

text \<open>What a pass of the validator over instruction \<open>i\<close> guarantees of running it.\<close>

definition covers :: "nat \<Rightarrow> u32 \<Rightarrow> u32 list \<Rightarrow> bpf_state \<Rightarrow> bool" where
  "covers i iv mem s \<longleftrightarrow> i \<le> st_pc s \<and>
     uninit_in (if st_pc s = i then (if i < length mem then iv OR mem ! i else iv) else mem ! st_pc s)
       (args_mem (st_args s))"

definition is_shift :: "bpf_insn \<Rightarrow> bool" where
  "is_shift i \<longleftrightarrow> insn_code i \<in> {0x64, 0x6c, 0x74, 0x7c} \<and> (insn_code i \<in> {0x64, 0x74} \<longrightarrow> insn_k i \<ge> 32)"

definition out_ok :: "bpf_insn list \<Rightarrow> bpf_out \<Rightarrow> bool" where
  "out_ok f r \<longleftrightarrow> (case r of Return _ \<Rightarrow> True | Stuck u \<Rightarrow> u = UB_shift \<and> list_ex is_shift f)"

definition step_ok :: "bpf_ctx option \<Rightarrow> bpf_pkt \<Rightarrow> bpf_insn \<Rightarrow> nat \<Rightarrow> u32 \<Rightarrow> u32 list \<Rightarrow> bpf_step \<Rightarrow> bool" where
  "step_ok bc p ins i iv mem r = (case r of
     Done r \<Rightarrow> out_ok [ins] r
   | Continue s' \<Rightarrow> wf_args bc (st_args s') \<and> args_pkt (st_args s') = p
        \<and> covers (i + 1) iv mem s' \<and> (st_pc s' = i + 1 \<or> st_pc s' < length mem))"

lemma uninit_in_mono: "uninit_in a m \<Longrightarrow> (\<And>j. bit a j \<Longrightarrow> bit b j) \<Longrightarrow> uninit_in b m"
  by (auto simp: uninit_in_def)

lemma step_ok_next:
  assumes "wf_args bc (st_args s)" "args_pkt (st_args s) = p" "uninit_in iv (args_mem (st_args s))" "st_pc s = i"
  shows "step_ok bc p ins i iv mem (step_next s)"
  using assms by (auto simp: step_ok_def step_next_def covers_def bit_or_iff elim: uninit_in_mono)

lemma step_ok_set:
  assumes "wf_args bc (st_args s)" "args_pkt (st_args s) = p" "uninit_in iv (args_mem (st_args s))" "st_pc s = i"
  shows "step_ok bc p ins i iv mem (setA s v)" "step_ok bc p ins i iv mem (setX s v)"
  using assms by (auto simp: setA_def setX_def intro!: step_ok_next)

lemma step_ok_load:
  assumes "wf_args bc (st_args s)" "args_pkt (st_args s) = p" "uninit_in iv (args_mem (st_args s))" "st_pc s = i"
    and "load_ok x"
  shows "step_ok bc p ins i iv mem (load_res (setA s) x)" "step_ok bc p ins i iv mem (load_res (setX s) x)"
  using assms(5) step_ok_set [OF assms(1-4)]
  by (auto simp: load_res_def step_ok_def out_ok_def split: xres.splits)

lemma step_ok_shift:
  assumes "wf_args bc (st_args s)" "args_pkt (st_args s) = p" "uninit_in iv (args_mem (st_args s))" "st_pc s = i"
    and "32 \<le> n \<Longrightarrow> is_shift ins"
  shows "step_ok bc p ins i iv mem (alu_lsh s n)" "step_ok bc p ins i iv mem (alu_rsh s n)"
  using assms(5) step_ok_set [OF assms(1-4)]
  by (auto simp: alu_lsh_def alu_rsh_def step_ok_def out_ok_def not_less)

lemma step_ok_return [simp]: "step_ok bc p ins i iv mem (Done (Return v))"
  by (simp add: step_ok_def out_ok_def)

text \<open>A validated instruction, group by group.\<close>

lemmas validate_defs = validate_insn_def val_ld_def val_st_def val_alu_def val_misc_def
  BPF_CLASS_def BPF_MODE_def BPF_OP_def BPF_SRC_def BPF_MISCOP_def

lemma ret_ok: "bpf_ret ins s = Some r \<Longrightarrow> step_ok bc p ins i iv mem r"
  by (auto simp: bpf_ret_def Let_def split: if_splits)

lemma ld_pkt_ok:
  assumes "bpf_ld_pkt p ins s = Some r"
    and "wf_args bc (st_args s)" "args_pkt (st_args s) = p" "st_pc s = i"
    and "uninit_in (iv0 OR mem0 ! i) (args_mem (st_args s))"
    and "validate_insn bc len i ins (iv0, mem0) = Some (iv, mem)"
  shows "step_ok bc p ins i iv mem r"
proof -
  have c: "BPF_CLASS (insn_code ins) = 0 \<or> BPF_CLASS (insn_code ins) = 1"
    "BPF_MODE (insn_code ins) \<noteq> 0x60"
    using assms(1) by (auto simp: bpf_ld_pkt_def Let_def BPF_CLASS_def BPF_MODE_def split: if_splits)
  then have iv: "iv = iv0 OR mem0 ! i" and "mem = mem0"
    using assms(6) by (auto simp: validate_insn_def val_ld_def Let_def split: if_splits)
  then have u: "uninit_in iv (args_mem (st_args s))" using assms(5) by simp
  have "wf_pkt (st_args s)" using assms(2) by (simp add: wf_args_def)
  note l = pkt_loads_ok [OF this assms(3)]
  show ?thesis
    using assms(1) by (auto simp: bpf_ld_pkt_def Let_def split: if_splits
      intro!: step_ok_load [OF assms(2,3) u assms(4)] step_ok_set [OF assms(2,3) u assms(4)] l)
qed

lemma memwords_le: "wf_ctx bc \<Longrightarrow> ctx_memwords bc \<le> 30"
  by (auto simp: wf_ctx_def ctx_memwords_def BPF_MAX_MEMWORDS_def BPF_MEMWORDS_def word_le_nat_alt
      Let_def split: option.splits)

lemma memword_init_bit: "unat k < 32 \<Longrightarrow> bit (BPF_MEMWORD_INIT k) j \<longleftrightarrow> j = unat k"
  by (simp add: BPF_MEMWORD_INIT_def)

lemma and_memword_init: "unat k < 32 \<Longrightarrow> iv AND BPF_MEMWORD_INIT k = 0 \<longleftrightarrow> \<not> bit iv (unat k)"
  by (simp add: BPF_MEMWORD_INIT_def and_exp_eq_0_iff_not_bit)

lemma mem_read_ok:
  assumes "uninit_in iv (args_mem args)" "unat k < length (args_mem args)" "\<not> bit iv (unat k)"
  shows "load_ok (mem_read args k)"
  using assms by (auto simp: mem_read_def uninit_in_def split: option.splits)

lemma mem_write_ok:
  assumes "wf_args bc (st_args s)" "args_pkt (st_args s) = p" "st_pc s = i"
    and "uninit_in iv (args_mem (st_args s))" "unat k < ctx_memwords bc" "ctx_memwords bc \<le> 30"
  shows "step_ok bc p ins i (iv AND NOT (BPF_MEMWORD_INIT k)) mem (mem_write s k v)"
  using assms unfolding mem_write_def
  by (auto intro!: step_ok_next simp: wf_args_def wf_pkt_def uninit_in_def bit_and_iff bit_not_iff
      memword_init_bit nth_list_update split: if_splits bpf_pkt.splits)

lemma ld_st_ok:
  assumes "bpf_ld_st ins s = Some r" and "wf_ctx bc"
    and "wf_args bc (st_args s)" "args_pkt (st_args s) = p" "st_pc s = i"
    and "uninit_in (iv0 OR mem0 ! i) (args_mem (st_args s))"
    and "validate_insn bc len i ins (iv0, mem0) = Some (iv, mem)"
  shows "step_ok bc p ins i iv mem r"
proof -
  let ?k = "insn_k ins" and ?c = "insn_code ins" and ?iv = "iv0 OR mem0 ! i"
  have lt: "unat ?k < ctx_memwords bc \<Longrightarrow> unat ?k < 32" using memwords_le [OF assms(2)] by simp
  have len: "length (args_mem (st_args s)) = ctx_memwords bc" using assms(3) by (simp add: wf_args_def)
  consider (reg) "?c \<in> {0, 1, 0x60, 0x61}" | (st) "?c = 2 \<or> ?c = 3"
    using assms(1) by (auto simp: bpf_ld_st_def Let_def split: if_splits)
  then show ?thesis
  proof cases
    case st
    then obtain v where "iv = ?iv AND NOT (BPF_MEMWORD_INIT ?k)" "unat ?k < ctx_memwords bc" "r = mem_write s ?k v"
      using assms(1,7) by (auto simp: bpf_ld_st_def validate_defs Let_def split: if_splits)
    with mem_write_ok [OF assms(3-6) _ memwords_le [OF assms(2)]] show ?thesis by simp
  next
    case reg
    then have iv: "iv = ?iv" using assms(7) by (auto simp: validate_defs Let_def split: if_splits)
    then have u: "uninit_in iv (args_mem (st_args s))" using assms(6) by simp
    have "?c \<in> {0x60, 0x61} \<Longrightarrow> load_ok (mem_read (st_args s) ?k)"
      using assms(7) u iv
      by (auto simp: validate_defs Let_def len and_memword_init lt intro!: mem_read_ok split: if_splits)
    then show ?thesis
      using reg assms(1) by (auto simp: bpf_ld_st_def Let_def split: if_splits
          intro!: step_ok_set [OF assms(3,4) u assms(5)] step_ok_load [OF assms(3,4) u assms(5)])
  qed
qed

lemma alu_ok:
  assumes "bpf_alu_x ins s = Some r \<or> bpf_alu_k ins s = Some r"
    and "wf_args bc (st_args s)" "args_pkt (st_args s) = p" "st_pc s = i"
    and "uninit_in (iv0 OR mem0 ! i) (args_mem (st_args s))"
    and "validate_insn bc len i ins (iv0, mem0) = Some (iv, mem)"
  shows "step_ok bc p ins i iv mem r"
proof -
  have c: "BPF_CLASS (insn_code ins) = 4"
    using assms(1) by (auto simp: bpf_alu_x_def bpf_alu_k_def Let_def BPF_CLASS_def split: if_splits)
  then have iv: "iv = iv0 OR mem0 ! i" 
    using assms(6) by (auto simp: validate_insn_def val_alu_def Let_def split: if_splits)
  then have u: "uninit_in iv (args_mem (st_args s))" using assms(5) by simp
  have nz: "insn_code ins = 0x34 \<or> insn_code ins = 0x94 \<Longrightarrow> insn_k ins \<noteq> 0"
    using assms(6) by (auto simp: validate_defs Let_def split: if_splits)
  note rules = step_ok_set [OF assms(2,3) u assms(4)] step_ok_shift [OF assms(2,3) u assms(4)]
  show ?thesis
    using assms(1)
  proof
    assume "bpf_alu_x ins s = Some r"
    then show ?thesis
      by (auto simp: bpf_alu_x_def Let_def is_shift_def split: if_splits intro!: rules)
  next
    assume "bpf_alu_k ins s = Some r"
    then show ?thesis
      using nz by (auto simp: bpf_alu_k_def Let_def is_shift_def split: if_splits intro!: rules)
  qed
qed

lemma cop_call_ok:
  assumes "wf_ctx bc" "wf_args bc (st_args s)" "args_pkt (st_args s) = p" "st_pc s = i"
    and "uninit_in iv (args_mem (st_args s))"
    and "bc = Some b" "ctx_copfuncs b = Some fns"
  shows "step_ok bc p ins i iv mem (bpf_call_cop bc n s)"
proof (cases "ucast n < ctx_nfuncs b")
  case True
  obtain a args' where fn: "(fns ! unat n) (st_args s) (st_A s) = (a, args')" by fastforce
  from True assms(1,6,7) have n: "unat n < length fns" and ok: "cop_ok (fns ! unat n)"
    by (auto simp: wf_ctx_def word_less_nat_alt list_all_length)
  from ok have args': "args_pkt args' = args_pkt (st_args s)" "args_buflen args' = args_buflen (st_args s)"
    "length (args_mem args') = length (args_mem (st_args s))"
    "\<forall>j < length (args_mem (st_args s)). args_mem (st_args s) ! j \<noteq> None \<longrightarrow> args_mem args' ! j \<noteq> None"
    unfolding cop_ok_def Let_def by (metis fn snd_conv)+
  then have "uninit_in iv (args_mem args')" using assms(5) by (auto simp: uninit_in_def)
  with True n assms args' show ?thesis
    by (auto simp: bpf_call_cop_def fn wf_args_def wf_pkt_def intro!: step_ok_next split: bpf_pkt.splits)
qed (use assms in \<open>simp add: bpf_call_cop_def\<close>)

lemma misc_ok:
  assumes "bpf_misc bc ins s = Some r" and "wf_ctx bc"
    and "wf_args bc (st_args s)" "args_pkt (st_args s) = p" "st_pc s = i"
    and "uninit_in (iv0 OR mem0 ! i) (args_mem (st_args s))"
    and "validate_insn bc len i ins (iv0, mem0) = Some (iv, mem)"
  shows "step_ok bc p ins i iv mem r"
proof -
  let ?c = "insn_code ins"
  have c: "BPF_CLASS ?c = 7" using assms(1)
    by (auto simp: bpf_misc_def Let_def BPF_CLASS_def split: if_splits)
  then have iv: "iv = iv0 OR mem0 ! i" 
    using assms(7) by (auto simp: validate_insn_def val_misc_def Let_def split: if_splits option.splits)
  then have u: "uninit_in iv (args_mem (st_args s))" using assms(6) by simp
  have cop: "step_ok bc p ins i iv mem (bpf_call_cop bc n s)" if code: "?c = 0x27 \<or> ?c = 0x47" for n
  proof -
    from code obtain b fns where "bc = Some b" "ctx_copfuncs b = Some fns"
      using assms(7) by (auto simp: validate_defs Let_def split: if_splits option.splits)
    then show ?thesis by (rule cop_call_ok [OF assms(2-5) u])
  qed
  show ?thesis
    using assms(1) cop by (auto simp: bpf_misc_def Let_def split: if_splits
      intro!: step_ok_set [OF assms(3,4) u assms(5)])
qed

text \<open>A jump lands on an instruction whose entry in the validator's table covers the words
  that are uninitialised at the jump.\<close>

definition grows :: "u32 list \<Rightarrow> u32 list \<Rightarrow> bool" where
  "grows mem mem' \<longleftrightarrow> length mem' = length mem \<and>
     (\<forall>j < length mem. \<forall>b. bit (mem ! j) b \<longrightarrow> bit (mem' ! j) b)"

lemma grows_refl [simp]: "grows mem mem"
  by (simp add: grows_def)

lemma grows_trans: "grows a b \<Longrightarrow> grows b c \<Longrightarrow> grows a c"
  by (auto simp: grows_def)

lemma grows_blend: "grows mem (mem[t := mem ! t OR iv])"
  by (cases "t < length mem") (auto simp: grows_def nth_list_update bit_or_iff)

lemma val_jmp_grows: "val_jmp len i ins (iv, mem) = Some (iv', mem') \<Longrightarrow> grows mem mem'"
  by (auto simp: val_jmp_def Let_def split: if_splits intro: grows_blend grows_trans)

lemma validate_insn_grows:
  "validate_insn bc len i ins (iv, mem) = Some (iv', mem') \<Longrightarrow> grows mem mem'"
  by (auto simp: validate_insn_def val_ld_def val_st_def val_alu_def val_misc_def Let_def
      split: if_splits option.splits dest: val_jmp_grows)

definition jump_ok :: "nat \<Rightarrow> u32 \<Rightarrow> u32 list \<Rightarrow> nat \<Rightarrow> bool" where
  "jump_ok i iv mem t \<longleftrightarrow> i < t \<and> t < length mem \<and> (\<forall>b. bit iv b \<longrightarrow> bit (mem ! t) b)"

lemma jump_target:
  assumes "(of_nat i + 1 + d :: u32) < len" "of_nat i + 1 \<le> (of_nat i + 1 + d :: u32)"
    "i < unat len" "unat len \<le> 512"
  shows "unat (of_nat i + 1 + d :: u32) = i + 1 + unat d" "i + 1 + unat d < unat len"
proof -
  have i: "unat (of_nat i + 1 :: u32) = i + 1"
    using assms(3,4) by (simp add: unat_word_ariths unat_of_nat)
  show "unat (of_nat i + 1 + d :: u32) = i + 1 + unat d"
    using assms(2) i by (metis unat_plus_simple)
  with assms(1) show "i + 1 + unat d < unat len" by (simp add: word_less_nat_alt)
qed

lemma blend_ok: "t < length mem \<Longrightarrow> i < t \<Longrightarrow> jump_ok i iv (mem[t := mem ! t OR iv]) t"
  by (auto simp: jump_ok_def bit_or_iff)

lemma jump_ok_grows: "jump_ok i iv mem t \<Longrightarrow> grows mem mem' \<Longrightarrow> jump_ok i iv mem' t"
  by (auto simp: jump_ok_def grows_def)

lemma val_ja_ok:
  assumes "val_jmp len i ins (iv, mem) = Some (iv', mem')" "BPF_OP (insn_code ins) = 0"
    and "length mem = unat len" "i < unat len" "unat len \<le> 512"
  shows "jump_ok i iv mem' (i + 1 + unat (insn_k ins))"
proof -
  let ?t = "of_nat i + 1 + insn_k ins :: u32"
  from assms(1,2) have t: "?t < len" "of_nat i + 1 \<le> ?t" and mem': "mem' = mem[unat ?t := mem ! unat ?t OR iv]"
    by (auto simp: val_jmp_def Let_def not_le not_less split: if_splits)
  from jump_target [OF t assms(4,5)] assms(3) mem' show ?thesis by (auto intro!: blend_ok)
qed

lemma val_jcond_ok:
  assumes "val_jmp len i ins (iv, mem) = Some (iv', mem')" "BPF_OP (insn_code ins) \<noteq> 0"
    and "length mem = unat len" "i < unat len" "unat len \<le> 512"
  shows "jump_ok i iv mem' (i + 1 + unat (insn_jt ins)) \<and> jump_ok i iv mem' (i + 1 + unat (insn_jf ins))"
proof -
  let ?t = "of_nat i + 1 + ucast (insn_jt ins) :: u32" and ?e = "of_nat i + 1 + ucast (insn_jf ins) :: u32"
  let ?mem1 = "mem[unat ?t := mem ! unat ?t OR iv]"
  have nowrap: "of_nat i + 1 \<le> (of_nat i + 1 + ucast d :: u32)" for d :: u8
  proof -
    have "unat d < 256" using unsigned_less [of d] by simp
    moreover have "unat (of_nat i + 1 :: u32) = i + 1"
      using assms(4,5) by (simp add: unat_word_ariths unat_of_nat)
    ultimately show ?thesis using assms(4,5) by (simp add: no_olen_add_nat)
  qed
  from assms(1,2) have t: "?t < len" and e: "?e < len" and mem': "mem' = ?mem1[unat ?e := ?mem1 ! unat ?e OR iv]"
    by (auto simp: val_jmp_def Let_def not_le not_less split: if_splits)
  note jt = jump_target [OF t nowrap assms(4,5)] and je = jump_target [OF e nowrap assms(4,5)]
  have "jump_ok i iv ?mem1 (i + 1 + unat (insn_jt ins))"
    using blend_ok [of "unat ?t" mem i iv] jt assms(3) by simp
  then have "jump_ok i iv mem' (i + 1 + unat (insn_jt ins))"
    unfolding mem' by (rule jump_ok_grows) (rule grows_blend)
  moreover have "jump_ok i iv mem' (i + 1 + unat (insn_jf ins))"
    using blend_ok [of "unat ?e" ?mem1 i iv] je assms(3) unfolding mem' by simp
  ultimately show ?thesis by simp
qed

lemma step_ok_jump:
  assumes "wf_args bc (st_args s)" "args_pkt (st_args s) = p" "st_pc s = i"
    and "uninit_in iv (args_mem (st_args s))" "jump_ok i iv mem (i + 1 + d)"
  shows "step_ok bc p ins i iv' mem (step_jump s d)"
  using assms by (auto simp: step_ok_def step_jump_def covers_def jump_ok_def bit_or_iff
      elim!: uninit_in_mono)

lemma jmp_ok:
  assumes "bpf_jmp ins s = Some r"
    and "wf_args bc (st_args s)" "args_pkt (st_args s) = p" "st_pc s = i"
    and "uninit_in (iv0 OR mem0 ! i) (args_mem (st_args s))"
    and "validate_insn bc len i ins (iv0, mem0) = Some (iv, mem)"
    and "length mem0 = unat len" "i < unat len" "unat len \<le> 512"
  shows "step_ok bc p ins i iv mem r"
proof -
  have c: "BPF_CLASS (insn_code ins) = 5"
    using assms(1) by (auto simp: bpf_jmp_def Let_def BPF_CLASS_def split: if_splits)
  then have v: "val_jmp len i ins (iv0 OR mem0 ! i, mem0) = Some (iv, mem)"
    using assms(6) by (simp add: validate_insn_def Let_def)
  note st = step_ok_jump [OF assms(2-5)]
  show ?thesis
  proof (cases "BPF_OP (insn_code ins) = 0")
    case True
    with assms(1) have "r = step_jump s (unat (insn_k ins))"
      by (auto simp: bpf_jmp_def Let_def BPF_OP_def split: if_splits)
    with st [OF val_ja_ok [OF v True assms(7-9)]] show ?thesis by simp
  next
    case False
    with assms(1) have "r = step_jump s (unat (insn_jt ins)) \<or> r = step_jump s (unat (insn_jf ins))"
      by (auto simp: bpf_jmp_def Let_def BPF_OP_def split: if_splits)
    with st val_jcond_ok [OF v False assms(7-9)] show ?thesis by blast
  qed
qed

theorem exec_ok:
  assumes "wf_ctx bc" "wf_args bc (st_args s)" "args_pkt (st_args s) = p" "st_pc s = i"
    and "uninit_in (iv0 OR mem0 ! i) (args_mem (st_args s))"
    and "validate_insn bc len i ins (iv0, mem0) = Some (iv, mem)"
    and "length mem0 = unat len" "i < unat len" "unat len \<le> 512"
  shows "step_ok bc p ins i iv mem (bpf_exec bc p ins s)"
  unfolding bpf_exec_def or_else_def
  using ret_ok [of ins s] ld_pkt_ok [OF _ assms(2-6)] ld_st_ok [OF _ assms(1-6)]
    jmp_ok [OF _ assms(2-9)] alu_ok [OF _ assms(2-6)] misc_ok [OF _ assms(1-6)]
  by (simp split: option.splits)

section \<open>The whole program\<close>

lemma ret_ends:
  "insn_code ins = 6 \<or> insn_code ins = 0x16 \<Longrightarrow> \<exists>v. bpf_exec bc p ins s = Done (Return v)"
  by (auto simp: bpf_exec_def or_else_def bpf_ret_def)

lemma out_ok_mono: "out_ok [f ! i] r \<Longrightarrow> i < length f \<Longrightarrow> out_ok f r"
  by (auto simp: out_ok_def list_ex_iff split: bpf_out.splits)

lemma validate_loop_safe:
  assumes "validate_loop bc f len i (iv, mem)" "wf_ctx bc"
    and "wf_args bc (st_args s)" "args_pkt (st_args s) = p"
    and "covers i iv mem s" "st_pc s < unat len"
    and "length mem = unat len" "unat len = length f" "unat len \<le> 512"
    and "insn_code (last f) = 6 \<or> insn_code (last f) = 0x16"
    and "unat len - st_pc s \<le> n"
  shows "\<exists>r. bpf_loop n bc f p s = Some r \<and> out_ok f r"
  using assms
proof (induction "unat len - i" arbitrary: i iv mem s n)
  case 0
  then show ?case by (auto simp: covers_def)
next
  case (Suc d)
  from Suc.prems(5) Suc.hyps(2) have i: "i < unat len" "i \<le> st_pc s" by (auto simp: covers_def)
  with Suc.prems(1) obtain iv' mem' where v: "validate_insn bc len i (f ! i) (iv, mem) = Some (iv', mem')"
    and loop: "validate_loop bc f len (i + 1) (iv', mem')"
    by (subst (asm) validate_loop.simps) (auto split: option.splits)
  note g = validate_insn_grows [OF v]
  have d: "d = unat len - (i + 1)" and len': "length mem' = unat len"
    using Suc.hyps(2) g Suc.prems(7) by (auto simp: grows_def)
  show ?case
  proof (cases "st_pc s = i")
    case False
    with Suc.prems(5-7) g have "covers (i + 1) iv' mem' s"
      by (auto simp: covers_def grows_def bit_or_iff elim!: uninit_in_mono)
    then show ?thesis
      by (rule Suc.hyps(1) [OF d loop Suc.prems(2-4) _ Suc.prems(6) len' Suc.prems(8-11)])
  next
    case True
    with Suc.prems(5,7) i have u: "uninit_in (iv OR mem ! i) (args_mem (st_args s))" by (simp add: covers_def)
    have ok: "step_ok bc p (f ! i) i iv' mem' (bpf_exec bc p (f ! i) s)"
      by (rule exec_ok [OF Suc.prems(2-4) True u v Suc.prems(7) i(1) Suc.prems(9)])
    from Suc.prems(11) i True obtain m where n: "n = Suc m" by (cases n) auto
    show ?thesis
    proof (cases "bpf_exec bc p (f ! i) s")
      case (Done r)
      with ok i n True Suc.prems(8) show ?thesis
        by (auto simp: step_ok_def dest: out_ok_mono)
    next
      case (Continue s')
      have "i + 1 \<noteq> unat len"
      proof
        assume "i + 1 = unat len"
        with Suc.prems(8,10) have "insn_code (f ! i) = 6 \<or> insn_code (f ! i) = 0x16"
          by (metis add_diff_cancel_right' last_conv_nth length_greater_0_conv less_add_one not_less_zero neq0_conv)
        then show False using ret_ends [of "f ! i" bc p s] Continue by auto
      qed
      with ok Continue i len' have "st_pc s' < unat len" by (auto simp: step_ok_def covers_def)
      moreover have "unat len - st_pc s' \<le> m"
        using ok Continue n Suc.prems(11) True i(1) by (auto simp: step_ok_def covers_def)
      ultimately have "\<exists>r. bpf_loop m bc f p s' = Some r \<and> out_ok f r"
        using ok Continue by (intro Suc.hyps(1) [OF d loop Suc.prems(2) _ _ _ _ len' Suc.prems(8-10)])
          (auto simp: step_ok_def)
      with n Continue True i Suc.prems(8) show ?thesis by auto
    qed
  qed
qed

lemma bpf_loop_mono: "bpf_loop n bc f p s = Some r \<Longrightarrow> n \<le> m \<Longrightarrow> bpf_loop m bc f p s = Some r"
proof (induction n bc f p s arbitrary: m rule: bpf_loop.induct)
  case (2 n bc f p s)
  then obtain m' where "m = Suc m'" by (cases m) auto
  with 2 show ?case by (auto split: if_splits bpf_step.splits)
qed simp


definition demo_prog :: "bpf_insn list" where
  "demo_prog =
     [BPF_STMT (BPF_LD OR BPF_H OR BPF_ABS) 12, BPF_STMT BPF_ST 3,
      BPF_JUMP (BPF_JMP OR BPF_JEQ OR BPF_K) 0x0800 0 2,
      BPF_STMT (BPF_LDX OR BPF_MEM) 3, BPF_STMT (BPF_RET OR BPF_K) 96, BPF_STMT (BPF_RET OR BPF_K) 0]"

definition demo_args :: bpf_args where
  "demo_args = \<lparr>args_pkt = Contig (replicate 12 0 @ [8, 0]), args_wirelen = 14, args_buflen = 14,
     args_mem = replicate 16 None, args_arg = 0\<rparr>"


section \<open>Mbuf chains and flat buffers\<close>

lemma rd8_append:
  "rd8 (xs @ ys) i = (if i < length xs then rd8 xs i else rd8 ys (i - length xs))"
  by (auto simp: rd8_def nth_append)

lemma rd8_at [simp]: "rd8 (xs @ ys) (length xs + i) = rd8 ys i"
  by (simp add: rd8_append)

definition reach :: "u8 list list \<Rightarrow> nat \<Rightarrow> nat" where
  "reach m k = (case mindex m k of None \<Rightarrow> 0
     | Some (cp, nx, k') \<Rightarrow> length cp - k' + (case nx of [] \<Rightarrow> 0 | np # _ \<Rightarrow> length np))"

lemma m_xword_flat:
  assumes x: "mindex m k = Some (cp, nx, k')" and k: "k = unat w" and m: "m \<noteq> []"
  shows "m_xword m w = (if reach m k < 4 then XErr else extract_long (cp @ concat nx) k')"
proof -
  from mindex_Some [OF x] have k': "k' < length cp" by auto
  show ?thesis
  proof (cases "4 \<le> length cp - k'")
    case True
    then have "k' + 3 < length cp" by linarith
    moreover from True x have "4 \<le> reach m k" by (simp add: reach_def)
    ultimately show ?thesis using True x m k by (simp add: m_xword_def extract_long_def Let_def rd8_append)
  next
    case False
    with k' consider "length cp = k' + 1" | "length cp = k' + 2" | "length cp = k' + 3" by linarith
    then show ?thesis
      using x m k by cases (auto simp: m_xword_def extract_long_def Let_def rd8_append rd8_Some reach_def split: list.splits)
  qed
qed

lemma m_xhalf_flat:
  assumes x: "mindex m k = Some (cp, nx, k')" and k: "k = unat w" and m: "m \<noteq> []" and r: "2 \<le> reach m k"
  shows "m_xhalf m w = extract_short (cp @ concat nx) k'"
proof -
  from mindex_Some [OF x] have k': "k' < length cp" by auto
  show ?thesis
  proof (cases "2 \<le> length cp - k'")
    case True
    then have "k' + 1 < length cp" by linarith
    with True x m k show ?thesis by (simp add: m_xhalf_def extract_short_def rd8_append)
  next
    case False
    with k' have "length cp = k' + 1" by linarith
    then show ?thesis
      using x m k r by (auto simp: m_xhalf_def extract_short_def rd8_append rd8_def xub_def reach_def nth_append
          split: list.splits)
  qed
qed



text \<open>\<open>flat bs\<close> turns the view of a packet held in the single mbuf \<open>bs\<close> (\<open>buflen\<close> zero) into
  the view of the same bytes as a flat buffer.\<close>

definition flat :: "u8 list \<Rightarrow> bpf_state \<Rightarrow> bpf_state" where
  "flat bs s = s\<lparr>st_args := (st_args s)\<lparr>args_pkt := Contig bs, args_buflen := of_nat (length bs)\<rparr>\<rparr>"

fun flat_step :: "u8 list \<Rightarrow> bpf_step \<Rightarrow> bpf_step" where
  "flat_step bs (Continue s) = Continue (flat bs s)"
| "flat_step bs (Done r) = Done r"

lemma flat_simps [simp]:
  "st_pc (flat bs s) = st_pc s" "st_A (flat bs s) = st_A s" "st_X (flat bs s) = st_X s"
  "args_mem (st_args (flat bs s)) = args_mem (st_args s)"
  "args_wirelen (st_args (flat bs s)) = args_wirelen (st_args s)"
  by (simp_all add: flat_def)

lemma flat_steps [simp]:
  "setA (flat bs s) v = flat_step bs (setA s v)" "setX (flat bs s) v = flat_step bs (setX s v)"
  "step_jump (flat bs s) d = flat_step bs (step_jump s d)"
  "mem_write (flat bs s) k v = flat_step bs (mem_write s k v)"
  "alu_lsh (flat bs s) n = flat_step bs (alu_lsh s n)" "alu_rsh (flat bs s) n = flat_step bs (alu_rsh s n)"
  "load_res (setA (flat bs s)) x = flat_step bs (load_res (setA s) x)"
  "load_res (setX (flat bs s)) x = flat_step bs (load_res (setX s) x)"
  "mem_read (st_args (flat bs s)) k = mem_read (st_args s) k"
  by (auto simp: setA_def setX_def step_next_def step_jump_def mem_write_def alu_lsh_def alu_rsh_def
      load_res_def mem_read_def flat_def split: xres.splits)

lemma single_mbuf:
  "m_xword [bs] k = (if unat k + 4 \<le> length bs then extract_long bs (unat k) else XErr)"
  "m_xhalf [bs] k = (if unat k + 2 \<le> length bs then extract_short bs (unat k) else XErr)"
  "m_xbyte [bs] k = (if unat k < length bs then xub (rd8 bs (unat k)) else XErr)"
  by (auto simp: m_xword_def m_xhalf_def m_xbyte_def Let_def)

lemma flat_room:
  assumes "length bs < 2 ^ 31"
  shows "(ucast (k::u32) > (of_nat (length bs) :: u64) \<or> 4 > of_nat (length bs) - (ucast k :: u64)) \<longleftrightarrow> \<not> unat k + 4 \<le> length bs"
    "(ucast (k::u32) > (of_nat (length bs) :: u64) \<or> 2 > of_nat (length bs) - (ucast k :: u64)) \<longleftrightarrow> \<not> unat k + 2 \<le> length bs"
    "ucast (k::u32) \<ge> (of_nat (length bs) :: u64) \<longleftrightarrow> \<not> unat k < length bs"
proof -
  have l: "unat (of_nat (length bs) :: u64) = length bs" using assms by (simp add: unat_of_nat)
  have sub: "unat (of_nat (length bs) - ucast k :: u64) = length bs - unat k" if "unat k \<le> length bs"
    using that l by (subst unat_sub) (simp_all add: word_le_nat_alt)
  show "(ucast (k::u32) > (of_nat (length bs) :: u64) \<or> 4 > of_nat (length bs) - (ucast k :: u64)) \<longleftrightarrow> \<not> unat k + 4 \<le> length bs"
    "(ucast (k::u32) > (of_nat (length bs) :: u64) \<or> 2 > of_nat (length bs) - (ucast k :: u64)) \<longleftrightarrow> \<not> unat k + 2 \<le> length bs"
    "ucast (k::u32) \<ge> (of_nat (length bs) :: u64) \<longleftrightarrow> \<not> unat k < length bs"
    using sub by (cases "unat k \<le> length bs"; auto simp: word_less_nat_alt word_le_nat_alt l)+
qed

lemma flat_loads:
  assumes "args_pkt (st_args s) = Chain [bs]" "args_buflen (st_args s) = 0" "bs \<noteq> []" "length bs < 2 ^ 31"
  shows "ld_w_abs (Contig bs) (st_args (flat bs s)) k = ld_w_abs (Chain [bs]) (st_args s) k"
    "ld_h_abs (Contig bs) (st_args (flat bs s)) k = ld_h_abs (Chain [bs]) (st_args s) k"
    "ld_b_abs (Contig bs) (st_args (flat bs s)) k = ld_b_abs (Chain [bs]) (st_args s) k"
proof -
  have nz: "(of_nat (length bs) :: u64) \<noteq> 0"
  proof
    assume "(of_nat (length bs) :: u64) = 0"
    then have "unat (of_nat (length bs) :: u64) = 0" by simp
    with assms(3,4) show False by (simp add: unat_of_nat)
  qed
  show "ld_w_abs (Contig bs) (st_args (flat bs s)) k = ld_w_abs (Chain [bs]) (st_args s) k"
    "ld_h_abs (Contig bs) (st_args (flat bs s)) k = ld_h_abs (Chain [bs]) (st_args s) k"
    "ld_b_abs (Contig bs) (st_args (flat bs s)) k = ld_b_abs (Chain [bs]) (st_args s) k"
    using buflen_zero [of k] unfolding pkt_defs flat_def
    by (simp_all add: assms(1,2) flat_room [OF assms(4)] nz single_mbuf del: not_le)
qed

lemma flat_exec:
  assumes "args_pkt (st_args s) = Chain [bs]" "args_buflen (st_args s) = 0" "bs \<noteq> []" "length bs < 2 ^ 31"
  shows "bpf_exec None (Contig bs) ins (flat bs s) = flat_step bs (bpf_exec None (Chain [bs]) ins s)"
proof -
  have "bpf_ld_pkt (Contig bs) ins (flat bs s) = map_option (flat_step bs) (bpf_ld_pkt (Chain [bs]) ins s)"
    by (simp add: bpf_ld_pkt_def Let_def flat_loads [OF assms] ld_ind_abs ldx_msh_abs)
  moreover have "bpf_ret ins (flat bs s) = map_option (flat_step bs) (bpf_ret ins s)"
    "bpf_ld_st ins (flat bs s) = map_option (flat_step bs) (bpf_ld_st ins s)"
    "bpf_jmp ins (flat bs s) = map_option (flat_step bs) (bpf_jmp ins s)"
    "bpf_alu_x ins (flat bs s) = map_option (flat_step bs) (bpf_alu_x ins s)"
    "bpf_alu_k ins (flat bs s) = map_option (flat_step bs) (bpf_alu_k ins s)"
    "bpf_misc None ins (flat bs s) = map_option (flat_step bs) (bpf_misc None ins s)"
    by (simp_all add: bpf_ret_def bpf_ld_st_def bpf_jmp_def bpf_alu_x_def bpf_alu_k_def bpf_misc_def
        bpf_call_cop_def Let_def)
  ultimately show ?thesis
    by (simp add: bpf_exec_def or_else_def split: option.splits)
qed

lemma exec_frame:
  "bpf_exec None p ins s = Continue s' \<Longrightarrow>
     args_pkt (st_args s') = args_pkt (st_args s) \<and> args_buflen (st_args s') = args_buflen (st_args s)"
  by (auto simp: bpf_exec_def or_else_def bpf_ret_def bpf_ld_pkt_def bpf_ld_st_def bpf_jmp_def bpf_alu_x_def
      bpf_alu_k_def bpf_misc_def bpf_call_cop_def setA_def setX_def step_next_def step_jump_def load_res_def
      mem_write_def alu_lsh_def alu_rsh_def Let_def split: if_splits option.splits xres.splits)

lemma flat_loop:
  assumes "args_pkt (st_args s) = Chain [bs]" "args_buflen (st_args s) = 0" "bs \<noteq> []" "length bs < 2 ^ 31"
  shows "bpf_loop n None f (Contig bs) (flat bs s) = bpf_loop n None f (Chain [bs]) s"
  using assms(1,2)
proof (induction n arbitrary: s)
  case (Suc n)
  note fe = flat_exec [OF Suc.prems assms(3,4), of "f ! st_pc s"]
  show ?case
  proof (cases "bpf_exec None (Chain [bs]) (f ! st_pc s) s")
    case (Continue s')
    with exec_frame [OF Continue] Suc.prems have "bpf_loop n None f (Contig bs) (flat bs s') = bpf_loop n None f (Chain [bs]) s'"
      by (intro Suc.IH) auto
    with Continue fe show ?thesis by simp
  qed (use fe in simp)
qed simp

text \<open>A filter gives the same result on a packet held in one mbuf (\<open>buflen\<close> zero, the
  accessors walk the chain) as on the same bytes in a flat buffer, for every program,
  validated or not.\<close>

theorem bpf_filter_mbuf_flat:
  assumes "bs \<noteq> []" and "length bs < 2 ^ 31"
  shows "bpf_filter n (Some f) (Chain [bs]) wirelen 0 = bpf_filter n (Some f) (Contig bs) wirelen (of_nat (length bs))"
proof -
  let ?s = "\<lparr>st_pc = 0, st_A = 0, st_X = 0, st_args = \<lparr>args_pkt = Chain [bs], args_wirelen = ucast wirelen,
      args_buflen = 0, args_mem = replicate BPF_MEMWORDS None, args_arg = 0\<rparr>\<rparr>"
  have "ucast (of_nat (length bs) :: u32) = (of_nat (length bs) :: u64)"
    using assms(2) by (simp add: word_eq_iff_unsigned unsigned_of_nat take_bit_nat_eq_self)
  then show ?thesis
    using flat_loop [of ?s bs n f] assms by (simp add: bpf_filter_def bpf_filter_ext_def flat_def)
qed

theorem bpf_filter_mbuf_flat_witness:
  "bpf_filter 6 (Some demo_prog) (Chain [replicate 12 0 @ [8, 0]]) 14 0 = Some (Return 96) \<and>
   bpf_filter 6 (Some demo_prog) (Chain [replicate 12 0 @ [8, 0]]) 14 0
     = bpf_filter 6 (Some demo_prog) (Contig (replicate 12 0 @ [8, 0])) 14 14"
proof -
  have "bpf_filter 6 (Some demo_prog) (Chain [replicate 12 0 @ [8, 0]]) 14 0 = Some (Return 96)" by code_simp
  then show ?thesis using bpf_filter_mbuf_flat [of "replicate 12 0 @ [8, 0]" 6 demo_prog 14] by simp
qed

section \<open>Two gaps\<close>

text \<open>\<open>m_xhalf\<close> does not check the length of the second mbuf, as \<open>m_xword\<close> does: when a half
  word starts at the last byte of an mbuf and the next mbuf is empty, it reads a byte outside
  the data, while \<open>m_xword\<close> never does.\<close>

theorem m_xhalf_empty_next:
  "m_xhalf ([x] # [] # rest) 0 = XUB UB_pkt \<and> load_ok (m_xword ([x] # [] # rest) k)"
  by (simp add: m_xhalf_def m_xword_ok rd8_def xub_def)

text \<open>The validator accepts a shift by a constant of 32 or more, which C leaves undefined:
  running the accepted program executes it.\<close>

theorem bpf_validate_shift_gap:
  "bpf_validate [BPF_STMT (BPF_ALU OR BPF_LSH OR BPF_K) 32, BPF_STMT (BPF_RET OR BPF_A) 0] 2 \<and>
   bpf_filter 2 (Some [BPF_STMT (BPF_ALU OR BPF_LSH OR BPF_K) 32, BPF_STMT (BPF_RET OR BPF_A) 0])
     (Contig [0]) 1 1 = Some (Stuck UB_shift)"
  by code_simp

end
