(* ===== verification/Extent.thy ===== *)
theory Extent
  imports Kern_Prelude
begin

text \<open>
  The extent manager of \<^verbatim>\<open>src/sys/kern/subr_extent.c\<close>: a resource map of an address range,
  kept as a sorted list of allocated regions.  The linked list of region descriptors is a
  list; a pointer into it is a position, 0 for \<open>NULL\<close> and \<open>n\<close> for the \<open>n\<close>-th region.
  \<open>u_long\<close> is 64 bits wide (LP64) and wraps.  The code between \<open>mutex_enter\<close> and
  \<open>mutex_exit\<close> is one step; a sleep on the condition variable is a result of its own,
  and waking up is a new call of the part of the code that follows the sleep.
  \<open>diag\<close> says whether the kernel is built with \<^verbatim>\<open>DIAGNOSTIC\<close>.
\<close>

section \<open>State\<close>

record extent_region =
  er_start :: u64
  er_end :: u64
  er_alloc :: bool   \<comment> \<open>\<open>ER_ALLOC\<close> in \<open>er_flags\<close>\<close>

record extent =
  ex_name :: string
  ex_regions :: "extent_region list"
  ex_start :: u64
  ex_end :: u64
  exf_fixed :: bool         \<comment> \<open>\<open>EXF_FIXED\<close>, \<open>EXF_NOCOALESCE\<close>, \<open>EXF_EARLY\<close> in \<open>ex_flags\<close>\<close>
  exf_nocoalesce :: bool
  exf_early :: bool
  ex_flwanted :: bool
  fex_freelist :: "extent_region list"

text \<open>The flags argument of the operations, one field per bit.\<close>

record extent_flags =
  EX_WAITOK :: bool
  EX_FAST :: bool
  EX_CATCH :: bool
  EX_NOCOALESCE :: bool
  EX_MALLOCOK :: bool
  EX_WAITSPACE :: bool
  EX_BOUNDZERO :: bool
  EX_EARLY :: bool

text \<open>Results of an operation: a value, an error, a panic, or asleep: waiting for a region
  descriptor, or waiting for space with the descriptor it holds.\<close>

datatype 'a ex_res = ExOk 'a | ExErr errno | ExPanic | ExWaitDesc | ExWaitSpace extent_region

section \<open>Region descriptors\<close>

definition new_region :: extent_region where
  "new_region = \<lparr>er_start = 0, er_end = 0, er_alloc = True\<rparr>"

text \<open>\<open>pool_ok\<close> is the answer of \<open>pool_get\<close> with \<open>PR_NOWAIT\<close>; with \<open>PR_WAITOK\<close> it always
  succeeds.\<close>

definition extent_pool_get :: "bool \<Rightarrow> extent_flags \<Rightarrow> extent_region ex_res" where
  "extent_pool_get pool_ok flags =
     (if EX_WAITOK flags \<or> pool_ok then ExOk new_region else ExErr ENOMEM)"

definition extent_alloc_region_descriptor ::
    "bool \<Rightarrow> extent \<Rightarrow> extent_flags \<Rightarrow> extent_region ex_res \<times> extent" where
  "extent_alloc_region_descriptor pool_ok ex flags =
     (if exf_fixed ex then
        (case fex_freelist ex of
           rp # fl \<Rightarrow> (ExOk rp, ex\<lparr>fex_freelist := fl\<rparr>)
         | [] \<Rightarrow>
             if EX_MALLOCOK flags then (extent_pool_get pool_ok flags, ex)
             else if \<not> EX_WAITOK flags then (ExErr ENOMEM, ex)
             else (ExWaitDesc, ex\<lparr>ex_flwanted := True\<rparr>))
      else (extent_pool_get pool_ok flags, ex))"

definition extent_free_region_descriptor :: "extent \<Rightarrow> extent_region \<Rightarrow> extent" where
  "extent_free_region_descriptor ex rp =
     (if exf_fixed ex then
        let ex1 = (if er_alloc rp then
                     if ex_flwanted ex then ex\<lparr>fex_freelist := rp\<lparr>er_alloc := True\<rparr> # fex_freelist ex\<rparr>
                     else ex
                   else ex\<lparr>fex_freelist := rp\<lparr>er_alloc := False\<rparr> # fex_freelist ex\<rparr>)
        in if \<not> exf_early ex then ex1\<lparr>ex_flwanted := False\<rparr> else ex1
      else ex)"

section \<open>Creation and destruction\<close>

text \<open>The loop that carves descriptors out of the fixed storage: \<open>rsize\<close> is
  \<open>ALIGN(sizeof(struct extent_region))\<close>.\<close>

function extent_carve :: "nat \<Rightarrow> nat \<Rightarrow> extent_region list \<Rightarrow> extent_region list" where
  "extent_carve rsize sz fl =
     (if 0 < rsize \<and> rsize \<le> sz
      then extent_carve rsize (sz - rsize) (\<lparr>er_start = 0, er_end = 0, er_alloc = False\<rparr> # fl) else fl)"
  by pat_completeness auto
termination by (relation "measure (\<lambda>(rsize, sz, fl). sz)") auto

declare extent_carve.simps [simp del]

text \<open>\<open>storage\<close> is the size of the fixed storage the caller provides, if any;
  \<open>fexsize\<close> is \<open>ALIGN(sizeof(struct extent_fixed))\<close>, a multiple of the alignment already.
  \<open>mem_ok\<close> is the answer of \<open>kmem_alloc\<close> with \<open>KM_NOSLEEP\<close>.\<close>

definition extent_create ::
    "bool \<Rightarrow> bool \<Rightarrow> u64 \<Rightarrow> u64 \<Rightarrow> string \<Rightarrow> u64 \<Rightarrow> u64 \<Rightarrow> u64 option \<Rightarrow> extent_flags \<Rightarrow> extent ex_res" where
  "extent_create diag mem_ok fexsize rsize name start xend storage flags =
     (if diag \<and> xend < start then ExPanic
      else if diag \<and> (case storage of Some sz \<Rightarrow> sz < fexsize | None \<Rightarrow> False) then ExPanic
      else
        let ex = \<lparr>ex_name = name, ex_regions = [], ex_start = start, ex_end = xend,
                  exf_fixed = (storage \<noteq> None), exf_nocoalesce = EX_NOCOALESCE flags,
                  exf_early = EX_EARLY flags, ex_flwanted = False, fex_freelist = []\<rparr>
        in case storage of
             Some sz \<Rightarrow> ExOk (ex\<lparr>fex_freelist := extent_carve (unat rsize) (unat (sz - fexsize)) []\<rparr>)
           | None \<Rightarrow> if EX_WAITOK flags \<or> mem_ok then ExOk ex else ExErr ENOMEM)"

text \<open>The loop over the regions of \<open>extent_destroy\<close>; what is left is the storage of a fixed
  extent, with every descriptor back on its free list or in the pool.\<close>

function extent_destroy :: "extent \<Rightarrow> extent" where
  "extent_destroy ex =
     (case ex_regions ex of
        [] \<Rightarrow> ex
      | orp # rs \<Rightarrow> extent_destroy (extent_free_region_descriptor (ex\<lparr>ex_regions := rs\<rparr>) orp))"
  by pat_completeness auto
termination
  by (relation "measure (length \<circ> ex_regions)")
    (auto simp: extent_free_region_descriptor_def Let_def)

declare extent_destroy.simps [simp del]

section \<open>Inserting a region\<close>

text \<open>\<open>after\<close> is a position in the list of regions.\<close>

definition extent_insert_at :: "extent \<Rightarrow> nat \<Rightarrow> extent_region \<Rightarrow> u64 \<Rightarrow> u64 \<Rightarrow> extent" where
  "extent_insert_at ex n rp start sz =
     ex\<lparr>ex_regions := take n (ex_regions ex)
        @ rp\<lparr>er_start := start, er_end := start + (sz - 1)\<rparr> # drop n (ex_regions ex)\<rparr>"

definition extent_insert_and_optimize ::
    "extent \<Rightarrow> u64 \<Rightarrow> u64 \<Rightarrow> nat \<Rightarrow> extent_region \<Rightarrow> extent" where
  "extent_insert_and_optimize ex start sz after rp =
     (let rs = ex_regions ex in
      if after = 0 then
        (if \<not> exf_nocoalesce ex \<and> rs \<noteq> [] \<and> start + sz = er_start (rs ! 0)
         then extent_free_region_descriptor (ex\<lparr>ex_regions := rs[0 := (rs ! 0)\<lparr>er_start := start\<rparr>]\<rparr>) rp
         else extent_insert_at ex 0 rp start sz)
      else if exf_nocoalesce ex then extent_insert_at ex after rp start sz
      else
        let a = rs ! (after - 1);
            appended = (er_end a + 1 = start);
            rs1 = (if appended then rs[after - 1 := a\<lparr>er_end := start + (sz - 1)\<rparr>] else rs)
        in if after < length rs \<and> start + sz = er_start (rs1 ! after) then
             (if appended then
                let nextr = rs1 ! after;
                    rs2 = rs1[after - 1 := (rs1 ! (after - 1))\<lparr>er_end := er_end nextr\<rparr>];
                    ex2 = ex\<lparr>ex_regions := take after rs2 @ drop (after + 1) rs2\<rparr>
                in extent_free_region_descriptor (extent_free_region_descriptor ex2 nextr) rp
              else extent_free_region_descriptor
                     (ex\<lparr>ex_regions := rs1[after := (rs1 ! after)\<lparr>er_start := start\<rparr>]\<rparr>) rp)
           else if appended then extent_free_region_descriptor (ex\<lparr>ex_regions := rs1\<rparr>) rp
           else extent_insert_at ex after rp start sz)"

section \<open>Allocating a given region\<close>

text \<open>The search of \<open>extent_alloc_region\<close>: \<open>None\<close> is a conflict, \<open>Some n\<close> the position of
  \<open>last\<close>.\<close>

fun extent_find_place :: "extent_region list \<Rightarrow> u64 \<Rightarrow> u64 \<Rightarrow> nat \<Rightarrow> nat option" where
  "extent_find_place [] start xend lst = Some lst"
| "extent_find_place (rp # rs) start xend lst =
     (if er_start rp > xend then Some lst
      else if er_end rp \<ge> start then None
      else extent_find_place rs start xend (lst + 1))"

text \<open>From \<open>alloc_start\<close>, holding the descriptor \<open>myrp\<close>.\<close>

definition extent_alloc_region_start ::
    "extent \<Rightarrow> u64 \<Rightarrow> u64 \<Rightarrow> extent_flags \<Rightarrow> extent_region \<Rightarrow> unit ex_res \<times> extent" where
  "extent_alloc_region_start ex start sz flags myrp =
     (case extent_find_place (ex_regions ex) start (start + (sz - 1)) 0 of
        None \<Rightarrow>
          if EX_WAITSPACE flags then (ExWaitSpace myrp, ex)
          else (ExErr EAGAIN, extent_free_region_descriptor ex myrp)
      | Some lst \<Rightarrow> (ExOk (), extent_insert_and_optimize ex start sz lst myrp))"

text \<open>\<open>cv_wait_sig\<close> returned an error to a thread that slept for space.\<close>

definition extent_wait_interrupted :: "extent \<Rightarrow> extent_region \<Rightarrow> errno \<Rightarrow> 'a ex_res \<times> extent" where
  "extent_wait_interrupted ex myrp e = (ExErr e, extent_free_region_descriptor ex myrp)"

definition extent_alloc_region ::
    "bool \<Rightarrow> bool \<Rightarrow> extent \<Rightarrow> u64 \<Rightarrow> u64 \<Rightarrow> extent_flags \<Rightarrow> unit ex_res \<times> extent" where
  "extent_alloc_region diag pool_ok ex start sz flags =
     (let xend = start + (sz - 1) in
      if diag \<and> (sz < 1 \<or> xend < start) then (ExPanic, ex)
      else if start < ex_start ex \<or> xend > ex_end ex then
        (if diag then (ExPanic, ex) else (ExErr EINVAL, ex))
      else case extent_alloc_region_descriptor pool_ok ex flags of
             (ExOk myrp, ex1) \<Rightarrow> extent_alloc_region_start ex1 start sz flags myrp
           | (ExErr e, ex1) \<Rightarrow> (ExErr ENOMEM, ex1)
           | (ExPanic, ex1) \<Rightarrow> (ExPanic, ex1)
           | (ExWaitDesc, ex1) \<Rightarrow> (ExWaitDesc, ex1)
           | (ExWaitSpace r, ex1) \<Rightarrow> (ExWaitSpace r, ex1))"

section \<open>Finding a region\<close>

definition EXTENT_ALIGN :: "u64 \<Rightarrow> u64 \<Rightarrow> u64 \<Rightarrow> u64" where
  "EXTENT_ALIGN start align skew = (((start - skew) + (align - 1)) AND (- align)) + skew"

definition LE_OV :: "u64 \<Rightarrow> u64 \<Rightarrow> u64 \<Rightarrow> bool" where
  "LE_OV x y z \<longleftrightarrow> x + y \<ge> x \<and> x + y \<le> z"

text \<open>The first region that starts at or after \<open>newstart\<close>; the position is that of
  \<open>last\<close>.\<close>

fun extent_skip :: "extent_region list \<Rightarrow> u64 \<Rightarrow> nat \<Rightarrow> nat" where
  "extent_skip [] newstart lst = lst"
| "extent_skip (rp # rs) newstart lst =
     (if er_start rp \<ge> newstart then lst else extent_skip rs newstart (lst + 1))"

text \<open>The boundary check, which the code has twice: \<open>fits\<close> is the test that the moved
  candidate still fits.  \<open>BNoFit\<close> is \<open>goto skip\<close> in the loop and \<open>goto fail\<close> after it.\<close>

datatype ex_bound = BFit u64 | BNoFit | BFail

definition extent_boundary ::
    "extent \<Rightarrow> u64 \<Rightarrow> extent_flags \<Rightarrow> (u64 \<Rightarrow> bool) \<Rightarrow> u64 \<Rightarrow> u64 \<Rightarrow> ex_bound" where
  "extent_boundary ex boundary flags fits newstart sz =
     (if boundary = 0 then BFit newstart
      else
        let newend = newstart + (sz - 1);
            dontcross = EXTENT_ALIGN (newstart + 1) boundary
                          (if EX_BOUNDZERO flags then 0 else ex_start ex) - 1;
            final = (\<lambda>newstart dontcross.
              if newstart + sz - 1 > ex_end ex \<or> dontcross < newstart then BFail
              else BFit newstart)
        in if dontcross < ex_start ex then final newstart (ex_end ex)
           else if newend > dontcross then
             (let newstart' = dontcross + 1 in
              if \<not> fits newstart' then BNoFit else final newstart' (dontcross + boundary))
           else final newstart dontcross)"

text \<open>The best candidate so far: \<open>bestovh\<close>, \<open>beststart\<close>, \<open>bestlast\<close>.\<close>

type_synonym ex_best = "u64 \<times> u64 \<times> nat"

definition extent_better :: "ex_best \<Rightarrow> u64 \<Rightarrow> u64 \<Rightarrow> nat \<Rightarrow> ex_best" where
  "extent_better best ovh newstart lst =
     (if fst best = 0 \<or> ovh < fst best then (ovh, newstart, lst) else best)"

datatype ex_found = Found u64 nat | NotFound ex_best

text \<open>The check of the space between the last region and the end of the subregion.\<close>

definition extent_final ::
    "extent \<Rightarrow> u64 \<Rightarrow> u64 \<Rightarrow> u64 \<Rightarrow> extent_flags \<Rightarrow> u64 \<Rightarrow> nat \<Rightarrow> u64 \<Rightarrow> ex_best \<Rightarrow> ex_found" where
  "extent_final ex subend sz boundary flags newstart lst exend best =
     (let fits = (\<lambda>s. LE_OV s (sz - 1) subend) in
      if fits newstart then
        (case extent_boundary ex boundary flags fits newstart sz of
           BFit s \<Rightarrow>
             let ovh = exend - s - (sz - 1) in
             if EX_FAST flags \<or> ovh = 0 then Found s lst
             else NotFound (extent_better best ovh s lst)
         | _ \<Rightarrow> NotFound best)
      else NotFound best)"

text \<open>The loop over the regions from \<open>rp\<close> on; \<open>NotFound\<close> is the label \<open>fail\<close>.\<close>

fun extent_scan ::
    "extent \<Rightarrow> u64 \<Rightarrow> u64 \<Rightarrow> u64 \<Rightarrow> u64 \<Rightarrow> u64 \<Rightarrow> extent_flags \<Rightarrow>
     extent_region list \<Rightarrow> u64 \<Rightarrow> nat \<Rightarrow> ex_best \<Rightarrow> ex_found" where
  "extent_scan ex subend sz alignment skew boundary flags [] newstart lst best =
     extent_final ex subend sz boundary flags newstart lst (ex_end ex) best"
| "extent_scan ex subend sz alignment skew boundary flags (rp # rs) newstart lst best =
     (if er_start rp > subend then
        extent_final ex subend sz boundary flags newstart lst (er_start rp) best
      else
        let skip = (\<lambda>best.
              let newstart' = EXTENT_ALIGN (er_end rp + 1) alignment skew in
              if newstart' < er_end rp then NotFound best
              else extent_scan ex subend sz alignment skew boundary flags rs newstart' (lst + 1) best);
            fits = (\<lambda>s. LE_OV s sz (er_start rp))
        in if fits newstart then
             (case extent_boundary ex boundary flags fits newstart sz of
                BFit s \<Rightarrow>
                  let ovh = er_start rp - s - sz in
                  if EX_FAST flags \<or> ovh = 0 then Found s lst
                  else skip (extent_better best ovh s lst)
              | BNoFit \<Rightarrow> skip best
              | BFail \<Rightarrow> NotFound best)
           else skip best)"

text \<open>The search from \<open>newstart\<close> on, with the choice of the best candidate at \<open>fail\<close>.\<close>

definition extent_search ::
    "extent \<Rightarrow> u64 \<Rightarrow> u64 \<Rightarrow> u64 \<Rightarrow> u64 \<Rightarrow> u64 \<Rightarrow> extent_flags \<Rightarrow> u64 \<Rightarrow> (u64 \<times> nat) option" where
  "extent_search ex subend sz alignment skew boundary flags newstart0 =
     (let rs = ex_regions ex;
          lst = extent_skip rs newstart0 0;
          newstart = (if lst \<noteq> 0 \<and> er_end (rs ! (lst - 1)) \<ge> newstart0
                      then EXTENT_ALIGN (er_end (rs ! (lst - 1)) + 1) alignment skew else newstart0)
      in case extent_scan ex subend sz alignment skew boundary flags (drop lst rs) newstart lst (0, 0, 0) of
           Found s n \<Rightarrow> Some (s, n)
         | NotFound (bestovh, beststart, bestlast) \<Rightarrow>
             if \<not> EX_FAST flags \<and> bestovh \<noteq> 0 then Some (beststart, bestlast) else None)"

text \<open>From \<open>alloc_start\<close>, holding the descriptor \<open>myrp\<close>.\<close>

definition extent_alloc_subregion1_start ::
    "bool \<Rightarrow> extent \<Rightarrow> u64 \<Rightarrow> u64 \<Rightarrow> u64 \<Rightarrow> u64 \<Rightarrow> u64 \<Rightarrow> u64 \<Rightarrow> extent_flags \<Rightarrow> extent_region
      \<Rightarrow> u64 ex_res \<times> extent" where
  "extent_alloc_subregion1_start diag ex substart subend sz alignment skew boundary flags myrp =
     (let newstart = EXTENT_ALIGN substart alignment skew in
      if newstart < ex_start ex then
        (if diag then (ExPanic, ex) else (ExErr EINVAL, extent_free_region_descriptor ex myrp))
      else case extent_search ex subend sz alignment skew boundary flags newstart of
             Some (s, lst) \<Rightarrow> (ExOk s, extent_insert_and_optimize ex s sz lst myrp)
           | None \<Rightarrow>
               if EX_WAITSPACE flags then (ExWaitSpace myrp, ex)
               else (ExErr EAGAIN, extent_free_region_descriptor ex myrp))"

definition extent_alloc_subregion1 ::
    "bool \<Rightarrow> bool \<Rightarrow> extent \<Rightarrow> u64 \<Rightarrow> u64 \<Rightarrow> u64 \<Rightarrow> u64 \<Rightarrow> u64 \<Rightarrow> u64 \<Rightarrow> extent_flags
      \<Rightarrow> u64 ex_res \<times> extent" where
  "extent_alloc_subregion1 diag pool_ok ex substart subend sz alignment skew boundary flags =
     (if diag \<and> (substart < ex_start ex \<or> substart > ex_end ex \<or> subend > ex_end ex \<or> subend < ex_start ex)
      then (ExPanic, ex)
      else if diag \<and> (sz < 1 \<or> sz - 1 > subend - substart) then (ExPanic, ex)
      else if diag \<and> alignment = 0 then (ExPanic, ex)
      else if diag \<and> boundary \<noteq> 0 \<and> boundary < sz then (ExPanic, ex)
      else case extent_alloc_region_descriptor pool_ok ex flags of
             (ExOk myrp, ex1) \<Rightarrow>
               extent_alloc_subregion1_start diag ex1 substart subend sz alignment skew boundary flags myrp
           | (ExErr e, ex1) \<Rightarrow> (ExErr ENOMEM, ex1)
           | (ExPanic, ex1) \<Rightarrow> (ExPanic, ex1)
           | (ExWaitDesc, ex1) \<Rightarrow> (ExWaitDesc, ex1)
           | (ExWaitSpace r, ex1) \<Rightarrow> (ExWaitSpace r, ex1))"

definition extent_alloc_subregion where
  "extent_alloc_subregion diag pool_ok ex start xend sz alignment boundary flags =
     extent_alloc_subregion1 diag pool_ok ex start xend sz alignment 0 boundary flags"

definition extent_alloc where
  "extent_alloc diag pool_ok ex sz alignment boundary flags =
     extent_alloc_subregion1 diag pool_ok ex (ex_start ex) (ex_end ex) sz alignment 0 boundary flags"

definition extent_alloc1 where
  "extent_alloc1 diag pool_ok ex sz alignment skew boundary flags =
     extent_alloc_subregion1 diag pool_ok ex (ex_start ex) (ex_end ex) sz alignment skew boundary flags"

section \<open>Freeing a region\<close>

text \<open>The loop of \<open>extent_free\<close>: the regions after the change and what became of the new
  descriptor \<open>nrp\<close> and of the old one; \<open>None\<close> when no region matches.\<close>

datatype ex_freed = Removed extent_region | Adjusted | Split

fun extent_free_scan ::
    "bool \<Rightarrow> u64 \<Rightarrow> u64 \<Rightarrow> extent_region \<Rightarrow> extent_region list \<Rightarrow> (extent_region list \<times> ex_freed) option" where
  "extent_free_scan coalesce start xend nrp [] = None"
| "extent_free_scan coalesce start xend nrp (rp # rs) =
     (let continue = map_option (\<lambda>(rs', d). (rp # rs', d)) (extent_free_scan coalesce start xend nrp rs) in
      if er_end rp < start then continue
      else if er_start rp > xend then None
      else if start = er_start rp \<and> xend = er_end rp then Some (rs, Removed rp)
      else if \<not> coalesce then continue
      else if start = er_start rp \<and> xend < er_end rp then
        Some (rp\<lparr>er_start := xend + 1\<rparr> # rs, Adjusted)
      else if start > er_start rp \<and> xend = er_end rp then
        Some (rp\<lparr>er_end := start - 1\<rparr> # rs, Adjusted)
      else if start > er_start rp \<and> xend < er_end rp then
        Some (rp\<lparr>er_end := start - 1\<rparr> # nrp\<lparr>er_start := xend + 1, er_end := er_end rp\<rparr> # rs, Split)
      else continue)"

text \<open>With the descriptor \<open>nrp\<close> in hand (\<open>None\<close> when the extent does not coalesce).\<close>

definition extent_free_start :: "extent \<Rightarrow> u64 \<Rightarrow> u64 \<Rightarrow> extent_region option \<Rightarrow> unit ex_res \<times> extent" where
  "extent_free_start ex start xend nrp =
     (case extent_free_scan (nrp \<noteq> None) start xend (case nrp of Some r \<Rightarrow> r | None \<Rightarrow> new_region) (ex_regions ex) of
        None \<Rightarrow> (ExPanic, ex)
      | Some (rs, d) \<Rightarrow>
          let ex1 = ex\<lparr>ex_regions := rs\<rparr>;
              ex2 = (case d of Removed rp \<Rightarrow> extent_free_region_descriptor ex1 rp | _ \<Rightarrow> ex1);
              ex3 = (case (nrp, d) of (Some r, Split) \<Rightarrow> ex2
                     | (Some r, _) \<Rightarrow> extent_free_region_descriptor ex2 r | (None, _) \<Rightarrow> ex2)
          in (ExOk (), ex3))"

definition extent_free ::
    "bool \<Rightarrow> bool \<Rightarrow> extent \<Rightarrow> u64 \<Rightarrow> u64 \<Rightarrow> extent_flags \<Rightarrow> unit ex_res \<times> extent" where
  "extent_free diag pool_ok ex start sz flags =
     (let xend = start + (sz - 1) in
      if diag \<and> (start < ex_start ex \<or> xend > ex_end ex) then (ExPanic, ex)
      else if diag \<and> xend < start then (ExPanic, ex)
      else if \<not> exf_nocoalesce ex then
        (case extent_alloc_region_descriptor pool_ok ex flags of
           (ExOk nrp, ex1) \<Rightarrow> extent_free_start ex1 start xend (Some nrp)
         | (ExErr e, ex1) \<Rightarrow> (ExErr ENOMEM, ex1)
         | (ExPanic, ex1) \<Rightarrow> (ExPanic, ex1)
         | (ExWaitDesc, ex1) \<Rightarrow> (ExWaitDesc, ex1)
         | (ExWaitSpace r, ex1) \<Rightarrow> (ExWaitSpace r, ex1))
      else extent_free_start ex start xend None)"

end
