(* ===== verification/Extent_Correct.thy ===== *)
theory Extent_Correct
  imports Extent
begin

text \<open>
  Correctness of the extent manager: the region list stays sorted, disjoint and inside the
  extent, and every operation changes the set of allocated addresses in the way its name
  says.  The set is the abstraction of the list; the operations refine insertion into and
  removal from it.
\<close>

section \<open>Well-formed region lists\<close>

definition regions_ok :: "u64 \<Rightarrow> u64 \<Rightarrow> extent_region list \<Rightarrow> bool" where
  "regions_ok lo hi rs \<longleftrightarrow>
     (\<forall>r \<in> set rs. lo \<le> er_start r \<and> er_start r \<le> er_end r \<and> er_end r \<le> hi)
     \<and> sorted_wrt (\<lambda>a b. er_end a < er_start b) rs"

definition addrs :: "extent_region list \<Rightarrow> u64 set" where
  "addrs rs = (\<Union>r \<in> set rs. {er_start r..er_end r})"

definition extent_ok :: "extent \<Rightarrow> bool" where
  "extent_ok ex \<longleftrightarrow> regions_ok (ex_start ex) (ex_end ex) (ex_regions ex)"

definition used :: "extent \<Rightarrow> u64 set" where
  "used ex = addrs (ex_regions ex)"

lemma addrs_simps [simp]:
  "addrs [] = {}" "addrs (r # rs) = {er_start r..er_end r} \<union> addrs rs"
  "addrs (rs @ rs') = addrs rs \<union> addrs rs'"
  by (auto simp: addrs_def)

lemma regions_ok_append:
  "regions_ok lo hi (xs @ ys) \<longleftrightarrow> regions_ok lo hi xs \<and> regions_ok lo hi ys
     \<and> (\<forall>x \<in> set xs. \<forall>y \<in> set ys. er_end x < er_start y)"
  by (auto simp: regions_ok_def sorted_wrt_append)

lemma regions_ok_Nil [simp]: "regions_ok lo hi []"
  by (simp add: regions_ok_def)

lemma regions_ok_Cons:
  "regions_ok lo hi (r # rs) \<longleftrightarrow> lo \<le> er_start r \<and> er_start r \<le> er_end r \<and> er_end r \<le> hi
     \<and> (\<forall>y \<in> set rs. er_end r < er_start y) \<and> regions_ok lo hi rs"
  by (auto simp: regions_ok_def)

lemmas regions_ok_simps = regions_ok_append regions_ok_Cons

subsection \<open>Intervals of words\<close>

lemma word_succ_le: "(b :: 'a::len word) < x \<Longrightarrow> b + 1 \<le> x"
  by (rule inc_le)

lemma interval_join:
  fixes a b d :: "'a::len word"
  assumes "a \<le> b" "b < c" "c = b + 1" "c \<le> d"
  shows "{a..b} \<union> {c..d} = {a..d}"
proof -
  have *: "x \<le> b \<or> c \<le> x" for x using assms(3) word_succ_le [of b x] le_less_linear [of x b] by blast
  show ?thesis
  proof (rule set_eqI)
    fix x
    show "x \<in> {a..b} \<union> {c..d} \<longleftrightarrow> x \<in> {a..d}"
      using * [of x] assms(1,2,4) by auto
  qed
qed

section \<open>Descriptors\<close>

lemma free_desc_frame [simp]:
  "ex_regions (extent_free_region_descriptor ex rp) = ex_regions ex"
  "ex_start (extent_free_region_descriptor ex rp) = ex_start ex"
  "ex_end (extent_free_region_descriptor ex rp) = ex_end ex"
  "exf_fixed (extent_free_region_descriptor ex rp) = exf_fixed ex"
  "exf_nocoalesce (extent_free_region_descriptor ex rp) = exf_nocoalesce ex"
  "exf_early (extent_free_region_descriptor ex rp) = exf_early ex"
  by (simp_all add: extent_free_region_descriptor_def Let_def)

lemma alloc_desc_frame:
  "extent_alloc_region_descriptor pool_ok ex flags = (r, ex1) \<Longrightarrow>
     ex_regions ex1 = ex_regions ex \<and> ex_start ex1 = ex_start ex \<and> ex_end ex1 = ex_end ex
     \<and> exf_nocoalesce ex1 = exf_nocoalesce ex \<and> exf_fixed ex1 = exf_fixed ex"
  by (auto simp: extent_alloc_region_descriptor_def split: if_splits list.splits)

section \<open>Insertion\<close>

text \<open>The position a search found: every region before it ends before the new region,
  every region after it starts after the new region.\<close>

definition place_ok :: "extent_region list \<Rightarrow> u64 \<Rightarrow> u64 \<Rightarrow> nat \<Rightarrow> bool" where
  "place_ok rs start xend n \<longleftrightarrow> n \<le> length rs \<and> (\<forall>r \<in> set (take n rs). er_end r < start)
     \<and> (\<forall>r \<in> set (drop n rs). xend < er_start r)"

text \<open>What the freed interval must be: inside one region, and the whole region when the
  extent does not coalesce.\<close>

definition freeable :: "bool \<Rightarrow> u64 \<Rightarrow> u64 \<Rightarrow> extent_region \<Rightarrow> bool" where
  "freeable coalesce start xend r \<longleftrightarrow>
     (if coalesce then er_start r \<le> start \<and> xend \<le> er_end r else er_start r = start \<and> er_end r = xend)"

lemma insert_regions:
  assumes ok: "regions_ok lo hi (pre @ suf)" and rs: "ex_regions ex = pre @ suf"
    and "start \<le> start + (sz - 1)" "lo \<le> start" "start + (sz - 1) \<le> hi"
    and pre: "\<forall>r \<in> set pre. er_end r < start" and suf: "\<forall>r \<in> set suf. start + (sz - 1) < er_start r"
  shows "regions_ok lo hi (ex_regions (extent_insert_and_optimize ex start sz (length pre) rp)) \<and>
     addrs (ex_regions (extent_insert_and_optimize ex start sz (length pre) rp))
       = addrs (pre @ suf) \<union> {start..start + (sz - 1)} \<and>
     (\<exists>r \<in> set (ex_regions (extent_insert_and_optimize ex start sz (length pre) rp)).
        freeable (\<not> exf_nocoalesce ex) start (start + (sz - 1)) r)"
proof -
  define e where "e = start + (sz - 1)"
  have ssz: "start + sz = e + 1" and E: "start + (sz - 1) = e" by (simp_all add: e_def)
  have le: "start \<le> e" "lo \<le> start" "e \<le> hi" "\<forall>r \<in> set suf. e < er_start r"
    using assms(3-5) suf by (simp_all add: e_def)
  have ins: "regions_ok lo hi (pre @ rp\<lparr>er_start := start, er_end := e\<rparr> # suf)"
    "addrs (pre @ rp\<lparr>er_start := start, er_end := e\<rparr> # suf) = addrs (pre @ suf) \<union> {start..e}"
    using ok pre le by (auto simp: regions_ok_simps dest: less_trans)
  note i = extent_insert_and_optimize_def extent_insert_at_def Let_def
  have join: "{start..e} \<union> {er_start s..er_end s} = {start..er_end s}"
    if "s \<in> set suf" "e + 1 = er_start s" for s
  proof (rule interval_join [OF le(1) _ that(2) [symmetric]])
    show "e < er_start s" "er_start s \<le> er_end s" using that(1) le(4) ok by (auto simp: regions_ok_def)
  qed
  have join': "{er_start a..er_end a} \<union> {start..e} = {er_start a..e}"
    if "a \<in> set pre" "er_end a + 1 = start" for a
  proof (rule interval_join [OF _ _ that(2) [symmetric] le(1)])
    show "er_start a \<le> er_end a" "er_end a < start" using that(1) pre ok by (auto simp: regions_ok_def)
  qed
  let ?R = "ex_regions (extent_insert_and_optimize ex start sz (length pre) rp)"
  have "regions_ok lo hi ?R \<and> addrs ?R = addrs (pre @ suf) \<union> {start..e}
      \<and> (\<exists>r \<in> set ?R. freeable (\<not> exf_nocoalesce ex) start e r)"
  proof (cases pre rule: rev_cases)
    case Nil
    have "?R = (case suf of s # suf' \<Rightarrow> if \<not> exf_nocoalesce ex \<and> e + 1 = er_start s then s\<lparr>er_start := start\<rparr> # suf'
          else pre @ rp\<lparr>er_start := start, er_end := e\<rparr> # suf | [] \<Rightarrow> pre @ rp\<lparr>er_start := start, er_end := e\<rparr> # suf)"
      using Nil rs by (cases suf) (simp_all add: i ssz E)
    with Nil ins ok le join show ?thesis
      by (cases suf) (auto simp: regions_ok_simps freeable_def intro: less_imp_le order_trans)
  next
    case (snoc pre' a)
    define app where "app \<longleftrightarrow> \<not> exf_nocoalesce ex \<and> er_end a + 1 = start"
    show ?thesis
    proof (cases "\<exists>s suf'. suf = s # suf' \<and> \<not> exf_nocoalesce ex \<and> e + 1 = er_start s")
      case True
      then obtain s suf' where s: "suf = s # suf'" "\<not> exf_nocoalesce ex" "e + 1 = er_start s" by blast
      then have R: "?R = (if app then pre' @ a\<lparr>er_end := er_end s\<rparr> # suf' else pre @ s\<lparr>er_start := start\<rparr> # suf')"
        using snoc rs by (simp add: i ssz app_def nth_append list_update_append E)
      have o: "er_start a \<le> er_end a" "er_end a < start" "e < er_start s" "er_start s \<le> er_end s"
        using ok pre le(4) s(1) snoc by (simp_all add: regions_ok_simps)
      have "start \<le> er_end s" using le(1) o(3,4) by (meson less_imp_le order_trans)
      moreover from this have "er_start a \<le> er_end s" using o(1,2) by (meson less_imp_le order_trans)
      ultimately have "regions_ok lo hi (pre' @ a\<lparr>er_end := er_end s\<rparr> # suf')"
        "regions_ok lo hi (pre @ s\<lparr>er_start := start\<rparr> # suf')"
        using ok pre le(2) s(1) snoc by (simp_all add: regions_ok_simps)
      moreover have "er_start a \<le> e" using o(1,2) le(1) by (meson less_imp_le order_trans)
      then have "{er_start a..e} \<union> {er_start s..er_end s} = {er_start a..er_end s}"
        by (rule interval_join [OF _ o(3) s(3) [symmetric] o(4)])
      then have "app \<Longrightarrow> {er_start a..er_end s} = {er_start a..er_end a} \<union> {start..e} \<union> {er_start s..er_end s}"
        using join' [of a] snoc unfolding app_def by (metis in_set_conv_decomp)
      ultimately show ?thesis using R join [of s] s snoc less_imp_le [OF o(3)] o(1,2,4)
        by (auto simp: freeable_def intro: less_imp_le order_trans)
    next
      case False
      then have "?R = (if app then pre' @ a\<lparr>er_end := e\<rparr> # suf else pre @ rp\<lparr>er_start := start, er_end := e\<rparr> # suf)"
        using snoc rs by (cases suf) (auto simp: i ssz app_def nth_append list_update_append E)
      moreover have "app \<Longrightarrow> regions_ok lo hi (pre' @ a\<lparr>er_end := e\<rparr> # suf)"
        using ok pre le snoc by (simp add: regions_ok_simps app_def) (meson less_imp_le order_trans)
      moreover have "app \<Longrightarrow> {er_start a..e} = {er_start a..er_end a} \<union> {start..e}"
        using join' [of a] snoc by (simp add: app_def)
      moreover have "app \<Longrightarrow> er_start a \<le> start"
        using ok pre snoc by (auto simp: regions_ok_simps intro: less_imp_le order_trans)
      ultimately show ?thesis using ins snoc by (auto simp: freeable_def app_def)
    qed
  qed
  then show ?thesis by (simp add: e_def)
qed

lemma place_split:
  assumes "place_ok rs start xend n"
  obtains pre suf where "rs = pre @ suf" "n = length pre" "\<forall>r \<in> set pre. er_end r < start"
    "\<forall>r \<in> set suf. xend < er_start r"
  using assms that [of "take n rs" "drop n rs"] by (simp add: place_ok_def)

lemma interval_disjoint: "b < c \<or> d < a \<Longrightarrow> {a..b} \<inter> {c..d :: 'a::linorder} = {}"
  by auto

lemma place_disjoint:
  assumes "place_ok rs start xend n"
  shows "addrs rs \<inter> {start..xend} = {}"
proof -
  from assms obtain pre suf where "rs = pre @ suf" "\<forall>r \<in> set pre. er_end r < start"
    "\<forall>r \<in> set suf. xend < er_start r" using place_split by metis
  then have "\<forall>r \<in> set rs. {er_start r..er_end r} \<inter> {start..xend} = {}"
    using interval_disjoint by auto
  then have "x \<notin> {start..xend}" if "r \<in> set rs" "x \<in> {er_start r..er_end r}" for r x
    using that by blast
  then show ?thesis unfolding addrs_def by blast
qed

lemma regions_upd_frame:
  "ex_start (ex\<lparr>ex_regions := rs\<rparr>) = ex_start ex" "ex_end (ex\<lparr>ex_regions := rs\<rparr>) = ex_end ex"
  "exf_nocoalesce (ex\<lparr>ex_regions := rs\<rparr>) = exf_nocoalesce ex"
  "exf_fixed (ex\<lparr>ex_regions := rs\<rparr>) = exf_fixed ex"
  by simp_all

lemma insert_frame [simp]:
  "ex_start (extent_insert_and_optimize ex start sz n rp) = ex_start ex"
  "ex_end (extent_insert_and_optimize ex start sz n rp) = ex_end ex"
  "exf_nocoalesce (extent_insert_and_optimize ex start sz n rp) = exf_nocoalesce ex"
  "exf_fixed (extent_insert_and_optimize ex start sz n rp) = exf_fixed ex"
  by (simp_all only: extent_insert_and_optimize_def extent_insert_at_def Let_def
    if_distrib [of ex_start] if_distrib [of ex_end] if_distrib [of exf_nocoalesce] if_distrib [of exf_fixed]
    free_desc_frame regions_upd_frame if_cancel)

lemma insert_correct:
  assumes "extent_ok ex" "place_ok (ex_regions ex) start (start + (sz - 1)) n"
    and "start \<le> start + (sz - 1)" "ex_start ex \<le> start" "start + (sz - 1) \<le> ex_end ex"
  shows "extent_ok (extent_insert_and_optimize ex start sz n rp)"
    "used (extent_insert_and_optimize ex start sz n rp) = used ex \<union> {start..start + (sz - 1)}"
    "\<exists>r \<in> set (ex_regions (extent_insert_and_optimize ex start sz n rp)).
       freeable (\<not> exf_nocoalesce ex) start (start + (sz - 1)) r"
proof -
  obtain pre suf where rs: "ex_regions ex = pre @ suf" and n: "n = length pre"
    and "\<forall>r \<in> set pre. er_end r < start" "\<forall>r \<in> set suf. start + (sz - 1) < er_start r"
    using place_split [OF assms(2)] by metis
  from insert_regions [OF _ rs assms(3-5) this(3,4), of rp] assms(1)
  show "extent_ok (extent_insert_and_optimize ex start sz n rp)"
    "used (extent_insert_and_optimize ex start sz n rp) = used ex \<union> {start..start + (sz - 1)}"
    "\<exists>r \<in> set (ex_regions (extent_insert_and_optimize ex start sz n rp)).
       freeable (\<not> exf_nocoalesce ex) start (start + (sz - 1)) r"
    by (auto simp: extent_ok_def used_def rs n)
qed

section \<open>Allocating a given region\<close>

lemma find_place:
  assumes "regions_ok lo hi rs"
  shows "case extent_find_place rs start xend k of
      Some n \<Rightarrow> k \<le> n \<and> place_ok rs start xend (n - k)
    | None \<Rightarrow> \<exists>r \<in> set rs. er_start r \<le> xend \<and> start \<le> er_end r"
  using assms
proof (induction rs arbitrary: k)
  case Nil
  then show ?case by (simp add: place_ok_def)
next
  case (Cons r rs)
  show ?case
  proof (cases "xend < er_start r \<or> start \<le> er_end r")
    case True
    with Cons.prems show ?thesis
      by (auto simp: place_ok_def regions_ok_Cons not_less intro: less_le_trans dest: less_trans)
  next
    case False
    with Cons.IH [of "k + 1"] Cons.prems show ?thesis
      by (auto simp: regions_ok_Cons place_ok_def Suc_diff_le not_le take_Cons' drop_Cons' split: option.splits)
  qed
qed

lemma find_place_Some:
  "regions_ok lo hi rs \<Longrightarrow> extent_find_place rs start xend 0 = Some n \<Longrightarrow> place_ok rs start xend n"
  using find_place [of lo hi rs xend start 0] by simp

lemma find_place_None:
  assumes "regions_ok lo hi rs" "extent_find_place rs start xend 0 = None" "start \<le> xend"
  shows "addrs rs \<inter> {start..xend} \<noteq> {}"
proof -
  from assms find_place [of lo hi rs xend start 0] obtain r
    where r: "r \<in> set rs" "er_start r \<le> xend" "start \<le> er_end r" "er_start r \<le> er_end r"
    by (auto simp: regions_ok_def)
  then have "max start (er_start r) \<in> {er_start r..er_end r} \<inter> {start..xend}" using assms(3) by auto
  with r(1) show ?thesis unfolding addrs_def by blast
qed

lemma alloc_start_correct:
  assumes "extent_ok ex" "start \<le> start + (sz - 1)" "ex_start ex \<le> start" "start + (sz - 1) \<le> ex_end ex"
    and "extent_alloc_region_start ex start sz flags rp = (r, ex')"
  shows "extent_ok ex' \<and>
    (if used ex \<inter> {start..start + (sz - 1)} = {}
     then r = ExOk () \<and> used ex' = used ex \<union> {start..start + (sz - 1)}
     else r = (if EX_WAITSPACE flags then ExWaitSpace rp else ExErr EAGAIN) \<and> used ex' = used ex)"
proof (cases "extent_find_place (ex_regions ex) start (start + (sz - 1)) 0")
  case None
  with find_place_None [OF _ None assms(2)] assms show ?thesis
    by (auto simp: extent_alloc_region_start_def extent_ok_def used_def split: if_splits)
next
  case (Some n)
  from find_place_Some [OF _ Some] assms(1) have pl: "place_ok (ex_regions ex) start (start + (sz - 1)) n"
    by (auto simp: extent_ok_def)
  with Some place_disjoint [OF pl] insert_correct [OF assms(1) pl assms(2-4), of rp] assms(5) show ?thesis
    by (auto simp: extent_alloc_region_start_def used_def)
qed

section \<open>Alignment\<close>

lemma and_neg_exp: "(z :: u64) AND - (2 ^ n) = z - take_bit n z"
proof -
  have "z AND - (2 ^ n) = push_bit n (drop_bit n z)"
    by (rule bit_word_eqI) (auto simp: bit_simps minus_exp_eq_not_mask)
  then show ?thesis using bits_ident [of n z] by (simp add: eq_diff_eq)
qed

lemma unat_take_bit: "unat (take_bit n (z :: u64)) = unat z mod 2 ^ n"
  unfolding unsigned_take_bit_eq by (rule take_bit_eq_mod)

lemma dvd_and_neg_exp: "2 ^ n dvd unat ((z :: u64) AND - (2 ^ n))"
proof -
  have "take_bit n z \<le> z" by (simp add: word_le_nat_alt unat_take_bit)
  then show ?thesis by (simp add: and_neg_exp unat_sub unat_take_bit dvd_minus_mod)
qed

lemma EXTENT_ALIGN_offset:
  assumes "a = 2 ^ n" "n < 64"
  obtains d where "EXTENT_ALIGN x a s = x + of_nat d" "d < 2 ^ n" "2 ^ n dvd unat (EXTENT_ALIGN x a s - s)"
proof -
  let ?z = "(x - s) + (a - 1)" 
  let ?d = "2 ^ n - 1 - unat ?z mod 2 ^ n"
  have "(of_nat ?d :: u64) = 2 ^ n - 1 - take_bit n ?z"
  proof -
    have "unat ?z mod 2 ^ n < 2 ^ n" by simp
    then have "unat ?z mod 2 ^ n \<le> 2 ^ n - 1" by linarith
    then have "(of_nat ?d :: u64) = of_nat (2 ^ n - 1) - of_nat (unat ?z mod 2 ^ n)" by (rule of_nat_diff)
    also have "(of_nat (2 ^ n - 1) :: u64) = 2 ^ n - 1" by (subst of_nat_diff) simp_all
    also have "(of_nat (unat ?z mod 2 ^ n) :: u64) = take_bit n ?z" unfolding unat_take_bit [symmetric] by (simp add: word_eq_iff_unsigned)
    finally show ?thesis .
  qed
  then have "EXTENT_ALIGN x a s = x + of_nat ?d"
    using assms(1) by (simp add: EXTENT_ALIGN_def and_neg_exp)
  moreover have "?d < 2 ^ n" by (simp add: less_imp_diff_less)
  moreover have "2 ^ n dvd unat (EXTENT_ALIGN x a s - s)"
    using dvd_and_neg_exp [of n ?z] assms(1) by (simp add: EXTENT_ALIGN_def)
  ultimately show thesis using that by blast
qed

lemma EXTENT_ALIGN_nowrap:
  assumes "a = 2 ^ n" "n < 64" "unat x + 2 ^ n \<le> 2 ^ 64"
  shows "x \<le> EXTENT_ALIGN x a s" "unat (EXTENT_ALIGN x a s) < unat x + 2 ^ n" 
    "2 ^ n dvd unat (EXTENT_ALIGN x a s - s)"
proof -
  obtain d where d: "EXTENT_ALIGN x a s = x + of_nat d" "d < 2 ^ n" "2 ^ n dvd unat (EXTENT_ALIGN x a s - s)"
    using EXTENT_ALIGN_offset [OF assms(1,2)] by blast
  have "unat x + d < 2 ^ 64" using d(2) assms(3) by linarith
  moreover from this have "unat (of_nat d :: u64) = d" by (simp add: unat_of_nat)
  ultimately have "unat (x + of_nat d) = unat x + d" by (simp add: unat_word_ariths)
  with d show "x \<le> EXTENT_ALIGN x a s" "unat (EXTENT_ALIGN x a s) < unat x + 2 ^ n"
    "2 ^ n dvd unat (EXTENT_ALIGN x a s - s)" by (simp_all add: word_le_nat_alt)
qed

lemma dvd_unat_iff: "2 ^ n dvd unat (w :: u64) \<longleftrightarrow> 2 ^ n dvd w"
  by (metis and_mask_dvd_nat take_bit_eq_0_iff take_bit_eq_mask)

text \<open>The aligned address is the least one.\<close>

lemma EXTENT_ALIGN_least:
  assumes "a = 2 ^ n" "n < 64" "unat x + 2 ^ n \<le> 2 ^ 64" "x \<le> y" "2 ^ n dvd unat (y - s)"
  shows "EXTENT_ALIGN x a s \<le> y"
proof (rule ccontr)
  let ?z = "EXTENT_ALIGN x a s"
  note al = EXTENT_ALIGN_nowrap [OF assms(1-3), of s]
  assume "\<not> ?z \<le> y"
  then have yz: "y < ?z" by simp
  then have d: "unat (?z - y) = unat ?z - unat y" by (simp add: unat_sub)
  have "2 ^ n dvd unat (?z - y)"
  proof -
    have "2 ^ n dvd (?z - s) - (y - s)"
      using al(3) assms(5) by (simp only: dvd_unat_iff) (rule dvd_diff)
    then show ?thesis by (simp add: dvd_unat_iff)
  qed
  moreover have "0 < unat (?z - y)" "unat (?z - y) < 2 ^ n"
    using d yz al(2) assms(4) by (auto simp: word_less_nat_alt word_le_nat_alt)
  ultimately show False by (auto dest: dvd_imp_le)
qed

section \<open>Searching for space\<close>

text \<open>A request is well formed when it passes the argument checks, its alignment and
  boundary are powers of two, and adding either to the end of the extent does not wrap.\<close>

definition req_ok :: "extent \<Rightarrow> u64 \<Rightarrow> u64 \<Rightarrow> u64 \<Rightarrow> u64 \<Rightarrow> u64 \<Rightarrow> bool" where
  "req_ok ex substart subend sz alignment boundary \<longleftrightarrow>
     ex_start ex \<le> substart \<and> substart \<le> subend \<and> subend \<le> ex_end ex \<and> 1 \<le> sz \<and> sz - 1 \<le> subend - substart
     \<and> (\<exists>n < 64. alignment = 2 ^ n) \<and> unat (ex_end ex) + unat alignment < 2 ^ 64
     \<and> (boundary \<noteq> 0 \<longrightarrow> sz \<le> boundary \<and> (\<exists>n < 64. boundary = 2 ^ n) \<and> unat (ex_end ex) + unat boundary < 2 ^ 64)"

definition aligned :: "u64 \<Rightarrow> u64 \<Rightarrow> u64 \<Rightarrow> bool" where
  "aligned alignment skew s \<longleftrightarrow> unat alignment dvd unat (s - skew)"

definition same_block :: "u64 \<Rightarrow> u64 \<Rightarrow> u64 \<Rightarrow> u64 \<Rightarrow> bool" where
  "same_block boundary base s e \<longleftrightarrow>
     (unat s - unat base) div unat boundary = (unat e - unat base) div unat boundary"

abbreviation bound_base :: "extent \<Rightarrow> extent_flags \<Rightarrow> u64" where
  "bound_base ex flags \<equiv> (if EX_BOUNDZERO flags then 0 else ex_start ex)"

lemma align_up:
  assumes "n < 64" "alignment = 2 ^ n" "unat x + unat alignment \<le> 2 ^ 64"
  shows "x \<le> EXTENT_ALIGN x alignment skew" "aligned alignment skew (EXTENT_ALIGN x alignment skew)"
    "unat (EXTENT_ALIGN x alignment skew) < unat x + unat alignment"
    "x \<le> y \<Longrightarrow> aligned alignment skew y \<Longrightarrow> EXTENT_ALIGN x alignment skew \<le> y"
  using assms EXTENT_ALIGN_nowrap [of alignment n x skew] EXTENT_ALIGN_least [of alignment n x y skew]
  by (simp_all add: unat_exp_u64 aligned_def)

lemma word_lt_succ: "(x :: u64) < y \<Longrightarrow> unat (x + 1) = unat x + 1"
  using unat_u64_less [of y] by (simp add: unat_word_ariths word_less_nat_alt)

lemma same_block_below:
  fixes b :: nat
  assumes "z - k = b * q" "k \<le> n" "n < z" "z \<le> n + b" "n \<le> e" "e < z"
  shows "(n - k) div b = (e - k) div b"
proof -
  from assms obtain p where q: "q = Suc p" by (cases q) auto
  have "b * p \<le> n - k" "e - k < b * Suc p" using assms by (auto simp: q)
  then have "(n - k) div b = p" "(e - k) div b = p" using assms(5) by (auto intro!: div_nat_eqI simp: mult.commute)
  then show ?thesis by simp
qed

lemma same_block_at:
  fixes b :: nat
  assumes "z - k = b * q" "k \<le> z" "d < b"
  shows "(z - k) div b = (z + d - k) div b"
proof -
  have "z + d - k = b * q + d" using assms(1,2) by simp
  with assms(1,3) show ?thesis by simp
qed

text \<open>The boundary check returns a candidate no lower than the one it got, which still fits
  and does not cross a boundary.\<close>

lemma boundary_ok:
  assumes "req_ok ex substart subend sz alignment boundary" "boundary \<noteq> 0"
    and "ex_start ex \<le> newstart" "newstart + (sz - 1) \<le> ex_end ex" "newstart \<le> newstart + (sz - 1)"
    and "fits newstart" "extent_boundary ex boundary flags fits newstart sz = BFit s"
    and "\<And>s. fits s \<Longrightarrow> s \<le> s + (sz - 1)"
  shows "newstart \<le> s \<and> fits s \<and> same_block boundary (bound_base ex flags) s (s + (sz - 1))"
proof -
  let ?k = "bound_base ex flags" and ?z = "EXTENT_ALIGN (newstart + 1) boundary (bound_base ex flags)"
  obtain m where m: "m < 64" "boundary = 2 ^ m" and nw: "unat (ex_end ex) + unat boundary < 2 ^ 64" and sz: "sz \<le> boundary" "1 \<le> sz"
    using assms(1,2) by (auto simp: req_ok_def)
  have le: "unat newstart \<le> unat (ex_end ex)" using assms(4,5) by (simp add: word_le_nat_alt)
  have b0: "0 < unat boundary" using assms(2) by (simp add: unat_gt_0)
  then have n1: "unat (newstart + 1) = unat newstart + 1" using le nw by (simp add: unat_word_ariths)
  have "unat (newstart + 1) + unat boundary \<le> 2 ^ 64" using n1 le nw by linarith
  note al = align_up [OF m this, of ?k]
  from al(1,3) have z: "unat newstart < unat ?z" "unat ?z \<le> unat newstart + unat boundary"
    by (simp_all add: word_le_nat_alt n1)
  have z1: "unat (?z - 1) = unat ?z - 1" using z(1) by (subst unat_sub) (simp_all add: word_le_nat_alt)
  have ge: "\<not> ?z - 1 < ex_start ex" using z(1) z1 assms(3) by (simp add: word_less_nat_alt word_le_nat_alt)
  have k: "unat ?k \<le> unat newstart" using assms(3) by (simp add: word_le_nat_alt)
  have dvd: "unat boundary dvd unat ?z - unat ?k"
    using al(2) k z(1) by (simp add: aligned_def unat_sub word_le_nat_alt)
  then obtain q where q: "unat ?z - unat ?k = unat boundary * q" by blast
  let ?e = "newstart + (sz - 1)"
  show ?thesis
  proof (cases "?e > ?z - 1")
    case False
    with assms(2,6,7) ge have "s = newstart"
      by (auto simp: extent_boundary_def Let_def split: if_splits)
    moreover have "unat newstart \<le> unat ?e" "unat ?e < unat ?z"
      using False z1 z(1) assms(5) by (simp_all add: word_less_nat_alt word_le_nat_alt)
    ultimately show ?thesis
      using same_block_below [OF q k z] assms(6) by (simp add: same_block_def)
  next
    case True
    with assms(2,7) ge have s: "s = ?z" "fits ?z"
      by (auto simp: extent_boundary_def Let_def split: if_splits)
    then have "unat (s + (sz - 1)) = unat ?z + unat (sz - 1)"
      using assms(8) by (simp add: unat_plus_simple)
    moreover have "unat (sz - 1) < unat boundary"
      using sz by (subst unat_sub) (auto simp: word_le_nat_alt)
    ultimately show ?thesis
      using same_block_at [OF q, of "unat (sz - 1)"] k z(1) s by (simp add: same_block_def word_le_nat_alt)
  qed
qed

text \<open>A candidate for the request: free, inside the subregion, aligned (when no boundary was
  asked for) and not crossing a boundary, with its position in the list of regions.\<close>

definition cand_ok ::
    "extent \<Rightarrow> u64 \<Rightarrow> u64 \<Rightarrow> u64 \<Rightarrow> u64 \<Rightarrow> u64 \<Rightarrow> u64 \<Rightarrow> extent_flags \<Rightarrow> extent_region list \<Rightarrow> u64 \<Rightarrow> nat \<Rightarrow> bool" where
  "cand_ok ex substart subend sz alignment skew boundary flags rs s n \<longleftrightarrow>
     substart \<le> s \<and> s \<le> s + (sz - 1) \<and> s + (sz - 1) \<le> subend \<and> place_ok rs s (s + (sz - 1)) n
     \<and> (if boundary = 0 then aligned alignment skew s
        else same_block boundary (bound_base ex flags) s (s + (sz - 1)))"

text \<open>Aligning the address after a region.\<close>

lemma align_after:
  assumes "req_ok ex substart subend sz alignment boundary" "e \<le> ex_end ex"
  shows "e < EXTENT_ALIGN (e + 1) alignment skew" "aligned alignment skew (EXTENT_ALIGN (e + 1) alignment skew)"
    "e < y \<Longrightarrow> aligned alignment skew y \<Longrightarrow> EXTENT_ALIGN (e + 1) alignment skew \<le> y"
proof -
  obtain k where k: "k < 64" "alignment = 2 ^ k" and nw: "unat (ex_end ex) + unat alignment < 2 ^ 64"
    using assms(1) by (auto simp: req_ok_def)
  have "0 < unat alignment" using k by (simp add: unat_exp_u64)
  then have e1: "unat (e + 1) = unat e + 1"
    using assms(2) nw by (simp add: unat_word_ariths word_le_nat_alt)
  then have "unat (e + 1) + unat alignment \<le> 2 ^ 64" using assms(2) nw by (simp add: word_le_nat_alt)
  note al = align_up [OF k this, where skew = skew]
  show "e < EXTENT_ALIGN (e + 1) alignment skew" "aligned alignment skew (EXTENT_ALIGN (e + 1) alignment skew)"
    "e < y \<Longrightarrow> aligned alignment skew y \<Longrightarrow> EXTENT_ALIGN (e + 1) alignment skew \<le> y"
    using al e1 word_succ_le [of e y] by (simp_all add: word_le_nat_alt word_less_nat_alt)
qed

lemma LE_OV_last:
  assumes "LE_OV s sz z" "1 \<le> sz"
  shows "s \<le> s + (sz - 1)" "s + (sz - 1) < z"
proof -
  have "s \<le> s + sz" "s + sz \<le> z" using assms(1) by (simp_all add: LE_OV_def)
  then have u: "unat (s + sz) = unat s + unat sz" "unat s + unat sz \<le> unat z" "1 \<le> unat sz"
    using assms(2) by (simp_all only: unat_plus_simple) (simp_all add: word_le_nat_alt)
  have "unat (s + (sz - 1)) = unat s + unat sz - 1"
  proof -
    have "s + (sz - 1) = (s + sz) - 1" by simp
    also have "unat \<dots> = unat (s + sz) - 1"
      using u by (subst unat_sub) (simp_all add: word_le_nat_alt)
    finally show ?thesis using u by simp
  qed
  with u show "s \<le> s + (sz - 1)" "s + (sz - 1) < z" by (simp_all add: word_le_nat_alt word_less_nat_alt)
qed

text \<open>Both tests for fitting give a candidate, after the boundary check.\<close>

lemma fits_cand:
  assumes req: "req_ok ex substart subend sz alignment boundary"
    and rs: "rs = pre @ rest" "n = length pre" "\<forall>r \<in> set pre. er_end r < newstart"
    and fits: "\<And>s. fits s \<Longrightarrow> s \<le> s + (sz - 1) \<and> s + (sz - 1) \<le> subend \<and> (\<forall>r \<in> set rest. s + (sz - 1) < er_start r)"
    and ns: "substart \<le> newstart" "aligned alignment skew newstart" "fits newstart"
    and b: "extent_boundary ex boundary flags fits newstart sz = BFit s"
  shows "cand_ok ex substart subend sz alignment skew boundary flags rs s n"
proof -
  have "newstart \<le> s \<and> fits s \<and> (if boundary = 0 then s = newstart
      else same_block boundary (bound_base ex flags) s (s + (sz - 1)))"
  proof (cases "boundary = 0")
    case True
    with b ns show ?thesis by (simp add: extent_boundary_def)
  next
    case False
    have "ex_start ex \<le> newstart" "newstart + (sz - 1) \<le> ex_end ex"
      using req ns(1) fits [OF ns(3)] by (auto simp: req_ok_def)
    with boundary_ok [OF req False _ _ _ ns(3) b] fits ns(3) False show ?thesis by auto
  qed
  with ns fits [of s] rs show ?thesis
    by (auto simp: cand_ok_def place_ok_def intro: less_le_trans)
qed

definition best_ok where
  "best_ok ex substart subend sz alignment skew boundary flags rs best \<longleftrightarrow>
     (fst best \<noteq> 0 \<longrightarrow> cand_ok ex substart subend sz alignment skew boundary flags rs (fst (snd best)) (snd (snd best)))"

lemma better_ok:
  "best_ok ex substart subend sz alignment skew boundary flags rs best \<Longrightarrow>
   cand_ok ex substart subend sz alignment skew boundary flags rs s n \<Longrightarrow>
   best_ok ex substart subend sz alignment skew boundary flags rs (extent_better best ovh s n)"
  by (simp add: best_ok_def extent_better_def)

definition found_ok where
  "found_ok ex substart subend sz alignment skew boundary flags rs f = (case f of
     Found s n \<Rightarrow> cand_ok ex substart subend sz alignment skew boundary flags rs s n
   | NotFound best \<Rightarrow> best_ok ex substart subend sz alignment skew boundary flags rs best)"

lemma final_ok:
  assumes "req_ok ex substart subend sz alignment boundary"
    and "rs = pre @ rest" "n = length pre" "\<forall>r \<in> set pre. er_end r < newstart"
    and "\<forall>r \<in> set rest. subend < er_start r" "substart \<le> newstart" "aligned alignment skew newstart"
    and "best_ok ex substart subend sz alignment skew boundary flags rs best"
  shows "found_ok ex substart subend sz alignment skew boundary flags rs
    (extent_final ex subend sz boundary flags newstart n exend best)"
proof -
  have "s \<le> s + (sz - 1) \<and> s + (sz - 1) \<le> subend \<and> (\<forall>r \<in> set rest. s + (sz - 1) < er_start r)"
    if "LE_OV s (sz - 1) subend" for s
    using that assms(5) by (auto simp: LE_OV_def intro: le_less_trans)
  note c = fits_cand [OF assms(1-4), where fits = "\<lambda>s. LE_OV s (sz - 1) subend", OF this assms(6,7)]
  show ?thesis
    using assms(8) c by (auto simp: extent_final_def found_ok_def Let_def better_ok split: ex_bound.splits)
qed

lemma scan_ok:
  assumes "req_ok ex substart subend sz alignment boundary"
    and "regions_ok (ex_start ex) (ex_end ex) rs" "rs = pre @ rest" "n = length pre"
    and "\<forall>r \<in> set pre. er_end r < newstart" "\<forall>r \<in> set rest. substart \<le> er_start r"
    and "substart \<le> newstart" "aligned alignment skew newstart"
    and "best_ok ex substart subend sz alignment skew boundary flags rs best"
  shows "found_ok ex substart subend sz alignment skew boundary flags rs
    (extent_scan ex subend sz alignment skew boundary flags rest newstart n best)"
  using assms(3-)
proof (induction rest arbitrary: pre newstart n best)
  case Nil
  show ?case using final_ok [OF assms(1) Nil.prems(1-3) _ Nil.prems(5-7)] by simp
next
  case (Cons rp rest)
  have rp: "er_start rp \<le> er_end rp" "er_end rp \<le> ex_end ex" "\<forall>r \<in> set rest. er_end rp < er_start r"
    "\<forall>r \<in> set pre. er_end r < er_start rp"
    using assms(2) Cons.prems(1) by (auto simp: regions_ok_simps)
  show ?case
  proof (cases "er_start rp > subend")
    case True
    moreover have "\<forall>r \<in> set (rp # rest). subend < er_start r"
      using True rp(1,3) by (auto dest: less_trans le_less_trans)
    ultimately show ?thesis
      using final_ok [OF assms(1) Cons.prems(1-3) _ Cons.prems(5-7)] by simp
  next
    case False
    let ?ns = "EXTENT_ALIGN (er_end rp + 1) alignment skew"
    have sz: "1 \<le> sz" using assms(1) by (auto simp: req_ok_def)
    note al = align_after [OF assms(1) rp(2), where skew = skew]
    note lt = al(1)
    have pre': "\<forall>r \<in> set (pre @ [rp]). er_end r < ?ns" using lt rp(1,4) by (auto dest: less_trans less_le_trans)
    have ss: "substart \<le> ?ns" using Cons.prems(4) rp(1) lt by (auto intro: order_trans less_imp_le)
    have skip: "found_ok ex substart subend sz alignment skew boundary flags rs
        (extent_scan ex subend sz alignment skew boundary flags rest ?ns (n + 1) b)"
      if "best_ok ex substart subend sz alignment skew boundary flags rs b" for b
      using Cons.IH [of "pre @ [rp]" "n + 1" ?ns b] Cons.prems pre' ss al(2) that by simp
    have "s \<le> s + (sz - 1) \<and> s + (sz - 1) \<le> subend \<and> (\<forall>r \<in> set (rp # rest). s + (sz - 1) < er_start r)"
      if "LE_OV s sz (er_start rp)" for s
      using LE_OV_last [OF that sz] False rp(1,3) by (auto dest: less_trans le_less_trans less_le_trans)
    note c = fits_cand [OF assms(1) Cons.prems(1-3), where fits = "\<lambda>s. LE_OV s sz (er_start rp)", OF this Cons.prems(5,6)]
    have nl: "\<not> ?ns < er_end rp" using lt by simp
    show ?thesis
      using c skip Cons.prems(7) False nl
      by (auto simp: Let_def found_ok_def better_ok split: ex_bound.splits)
  qed
qed

text \<open>The search starts from a position that splits the regions.\<close>

lemma skip_split:
  assumes "regions_ok lo hi rs"
  obtains pre rest where "rs = pre @ rest" "extent_skip rs s k = k + length pre"
    "\<forall>r \<in> set pre. er_start r < s" "\<forall>r \<in> set rest. s \<le> er_start r"
proof -
  have "\<exists>pre rest. rs = pre @ rest \<and> extent_skip rs s k = k + length pre
      \<and> (\<forall>r \<in> set pre. er_start r < s) \<and> (\<forall>r \<in> set rest. s \<le> er_start r)"
    using assms
  proof (induction rs arbitrary: k)
    case (Cons r rs)
    show ?case
    proof (cases "s \<le> er_start r")
      case True
      with Cons.prems have "\<forall>x \<in> set (r # rs). s \<le> er_start x"
        by (auto simp: regions_ok_Cons intro: order_trans less_imp_le)
      with True show ?thesis by (intro exI [of _ "[]"] exI [of _ "r # rs"]) simp
    next
      case False
      from Cons.IH [of "k + 1"] Cons.prems obtain pre rest where "rs = pre @ rest"
        "extent_skip rs s (k + 1) = k + 1 + length pre" "\<forall>r \<in> set pre. er_start r < s" "\<forall>r \<in> set rest. s \<le> er_start r"
        by (auto simp: regions_ok_Cons)
      with False show ?thesis by (intro exI [of _ "r # pre"] exI [of _ rest]) simp
    qed
  qed simp
  with that show thesis by blast
qed

definition search_from :: "extent_region list \<Rightarrow> extent_region list \<Rightarrow> u64 \<Rightarrow> u64 \<Rightarrow> u64 \<Rightarrow> u64" where
  "search_from pre rest newstart alignment skew =
     (if pre \<noteq> [] \<and> er_end (last pre) \<ge> newstart
      then EXTENT_ALIGN (er_end (last pre) + 1) alignment skew else newstart)"

text \<open>It starts after the last region that overlaps the beginning of the subregion.\<close>

lemma search_start:
  assumes "req_ok ex substart subend sz alignment boundary"
    and "regions_ok (ex_start ex) (ex_end ex) (pre @ rest)"
    and "\<forall>r \<in> set pre. er_start r < ns" "\<forall>r \<in> set rest. ns \<le> er_start r"
    and "substart \<le> ns" "aligned alignment skew ns"
  defines "s \<equiv> search_from pre rest ns alignment skew"
  shows "(\<forall>r \<in> set pre. er_end r < s) \<and> substart \<le> s \<and> aligned alignment skew s \<and>
    (\<forall>y. aligned alignment skew y \<longrightarrow> ns \<le> y \<longrightarrow> (pre \<noteq> [] \<longrightarrow> er_end (last pre) < y) \<longrightarrow> s \<le> y)"
proof (cases pre rule: rev_cases)
  case Nil
  with assms(5,6) show ?thesis by (simp add: search_from_def s_def)
next
  case (snoc pre' a)
  have a: "er_start a \<le> er_end a" "er_end a \<le> ex_end ex" "\<forall>r \<in> set pre'. er_end r < er_start a"
    using assms(2) snoc by (auto simp: regions_ok_simps)
  note al = align_after [OF assms(1) a(2), where skew = skew]
  have s: "s = (if ns \<le> er_end a then EXTENT_ALIGN (er_end a + 1) alignment skew else ns)"
    using snoc by (simp add: s_def search_from_def)
  then have "er_end a < s" using al(1) by auto
  moreover from this have "\<forall>r \<in> set pre'. er_end r < s" using a(1,3) by (meson less_le_trans less_trans)
  moreover have "substart \<le> s" "aligned alignment skew s" using assms(5,6) al(1,2) s by auto
  ultimately show ?thesis using snoc al(3) s by auto
qed

lemma search_unfold:
  assumes "ex_regions ex = pre @ rest" "extent_skip (pre @ rest) ns 0 = length pre"
  shows "extent_search ex subend sz alignment skew boundary flags ns =
    (case extent_scan ex subend sz alignment skew boundary flags rest
            (search_from pre rest ns alignment skew) (length pre) (0, 0, 0) of
       Found s n \<Rightarrow> Some (s, n)
     | NotFound (bestovh, beststart, bestlast) \<Rightarrow>
         if \<not> EX_FAST flags \<and> bestovh \<noteq> 0 then Some (beststart, bestlast) else None)"
  using assms by (cases pre rule: rev_cases)
    (auto simp: extent_search_def search_from_def nth_append split: ex_found.splits)

lemma search_ok:
  assumes req: "req_ok ex substart subend sz alignment boundary" and ok: "extent_ok ex"
    and ns: "substart \<le> ns" "aligned alignment skew ns"
    and res: "extent_search ex subend sz alignment skew boundary flags ns = Some (s, n)"
  shows "cand_ok ex substart subend sz alignment skew boundary flags (ex_regions ex) s n"
proof -
  from ok have rok: "regions_ok (ex_start ex) (ex_end ex) (ex_regions ex)" by (simp add: extent_ok_def)
  then obtain pre rest where rs: "ex_regions ex = pre @ rest" "extent_skip (ex_regions ex) ns 0 = 0 + length pre"
      "\<forall>r \<in> set pre. er_start r < ns" "\<forall>r \<in> set rest. ns \<le> er_start r"
    using skip_split [where s = ns and k = 0] by metis
  note st = search_start [OF req _ rs(3,4) ns] 
  have "found_ok ex substart subend sz alignment skew boundary flags (ex_regions ex)
      (extent_scan ex subend sz alignment skew boundary flags rest
        (search_from pre rest ns alignment skew) (length pre) (0, 0, 0))"
    using st rok rs ns(1) by (intro scan_ok [OF req rok rs(1) refl])
      (auto simp: best_ok_def intro: order_trans)
  then show ?thesis
    using res rs(1,2) by (auto simp: search_unfold found_ok_def best_ok_def split: ex_found.splits if_splits)
qed

subsection \<open>Completeness of the search\<close>

definition feasible :: "extent_region list \<Rightarrow> u64 \<Rightarrow> u64 \<Rightarrow> u64 \<Rightarrow> u64 \<Rightarrow> u64 \<Rightarrow> u64 \<Rightarrow> bool" where
  "feasible rs substart subend sz alignment skew x \<longleftrightarrow>
     aligned alignment skew x \<and> substart \<le> x \<and> x \<le> x + (sz - 1) \<and> x + (sz - 1) \<le> subend
     \<and> addrs rs \<inter> {x..x + (sz - 1)} = {}"

lemma LE_OV_mono:
  assumes "ns \<le> x" "x \<le> x + (sz - 1)" "1 \<le> sz"
  shows "x + (sz - 1) \<le> e \<Longrightarrow> LE_OV ns (sz - 1) e" "x + (sz - 1) < z \<Longrightarrow> LE_OV ns sz z"
proof -
  have u: "unat (x + (sz - 1)) = unat x + (unat sz - 1)" "unat (sz - 1) = unat sz - 1" "1 \<le> unat sz"
    using assms(2,3) by (simp_all only: unat_plus_simple) (simp_all add: unat_sub word_le_nat_alt)
  have no: "unat (ns + y) = unat ns + unat y" if "unat ns + unat y < 2 ^ 64" for y :: u64
    using that by (simp add: unat_word_ariths)
  have le: "unat ns \<le> unat x" using assms(1) by (simp add: word_le_nat_alt)
  { assume e: "x + (sz - 1) \<le> e"
    with le u have "unat ns + unat (sz - 1) \<le> unat e" by (simp add: word_le_nat_alt)
    with no [of "sz - 1"] unat_u64_less [of e] show "LE_OV ns (sz - 1) e"
      by (simp add: LE_OV_def word_le_nat_alt) }
  { assume z: "x + (sz - 1) < z"
    with le u have "unat ns + unat sz \<le> unat z" by (simp add: word_less_nat_alt)
    with no [of sz] unat_u64_less [of z] show "LE_OV ns sz z" by (simp add: LE_OV_def word_le_nat_alt) }
qed

definition settled :: "extent_flags \<Rightarrow> ex_found \<Rightarrow> bool" where
  "settled flags f = (case f of Found s n \<Rightarrow> True | NotFound best \<Rightarrow> \<not> EX_FAST flags \<and> fst best \<noteq> 0)"

lemma better_nonzero: "ovh \<noteq> 0 \<Longrightarrow> fst (extent_better best ovh s n) \<noteq> 0"
  by (auto simp: extent_better_def)

lemma scan_settled:
  "fst best \<noteq> 0 \<Longrightarrow> \<not> EX_FAST flags \<Longrightarrow>
   settled flags (extent_scan ex subend sz alignment skew boundary flags rest ns n best)"
proof (induction rest arbitrary: ns n best)
  case Nil
  then show ?case
    using better_nonzero by (auto simp: extent_final_def settled_def Let_def split: ex_bound.splits)
next
  case (Cons rp rest)
  then show ?case
    using better_nonzero
    by (auto simp: extent_final_def settled_def Let_def split: ex_bound.splits ex_found.splits)
qed

lemma final_settled:
  assumes "ns \<le> x" "x \<le> x + (sz - 1)" "1 \<le> sz" "x + (sz - 1) \<le> subend"
  shows "settled flags (extent_final ex subend sz 0 flags ns n exend best)"
  using LE_OV_mono(1) [OF assms] better_nonzero
  by (auto simp: extent_final_def extent_boundary_def settled_def Let_def)

lemma scan_complete:
  assumes req: "req_ok ex substart subend sz alignment 0"
    and ok: "regions_ok (ex_start ex) (ex_end ex) rs" and x: "feasible rs substart subend sz alignment skew x"
    and "rs = pre @ rest" "ns \<le> x"
  shows "settled flags (extent_scan ex subend sz alignment skew 0 flags rest ns n best)"
  using assms(4-)
proof (induction rest arbitrary: pre ns n best)
  case Nil
  then show ?case using final_settled [OF Nil(2)] x req by (simp add: feasible_def req_ok_def)
next
  case (Cons rp rest)
  have sz: "1 \<le> sz" using req by (simp add: req_ok_def)
  have rp: "er_start rp \<le> er_end rp" "er_end rp \<le> ex_end ex" and rin: "rp \<in> set rs"
    using ok Cons.prems(1) by (auto simp: regions_ok_simps)
  note al = align_after [OF req rp(2), where skew = skew]
  show ?case
  proof (cases "er_start rp > subend")
    case True
    with final_settled [OF Cons.prems(2)] x sz show ?thesis by (simp add: feasible_def)
  next
    case False
    show ?thesis
    proof (cases "LE_OV ns sz (er_start rp)")
      case True
      with False al(1) show ?thesis
        using scan_settled [OF better_nonzero]
        by (auto simp: extent_boundary_def settled_def Let_def not_less split: ex_found.splits)
    next
      case nofit: False
      have "er_end rp < x"
      proof (rule ccontr)
        assume "\<not> er_end rp < x"
        moreover have "\<not> x + (sz - 1) < er_start rp"
          using LE_OV_mono(2) [OF Cons.prems(2) _ sz] x nofit by (auto simp: feasible_def)
        ultimately have "max x (er_start rp) \<in> {er_start rp..er_end rp} \<inter> {x..x + (sz - 1)}"
          using rp(1) x by (auto simp: feasible_def)
        with rin x show False unfolding feasible_def addrs_def by blast
      qed
      then have "EXTENT_ALIGN (er_end rp + 1) alignment skew \<le> x" using al(3) x by (simp add: feasible_def)
      with Cons.IH [of "pre @ [rp]"] Cons.prems(1) nofit False less_not_sym [OF al(1)] show ?thesis
        by (simp add: Let_def)
    qed
  qed
qed

lemma search_complete:
  assumes req: "req_ok ex substart subend sz alignment 0" and ok: "extent_ok ex"
    and ns: "substart \<le> ns" "aligned alignment skew ns"
    and x: "feasible (ex_regions ex) substart subend sz alignment skew x" and "ns \<le> x"
  shows "extent_search ex subend sz alignment skew 0 flags ns \<noteq> None"
proof -
  from ok have rok: "regions_ok (ex_start ex) (ex_end ex) (ex_regions ex)" by (simp add: extent_ok_def)
  then obtain pre rest where rs: "ex_regions ex = pre @ rest" "extent_skip (ex_regions ex) ns 0 = 0 + length pre"
      "\<forall>r \<in> set pre. er_start r < ns" "\<forall>r \<in> set rest. ns \<le> er_start r"
    using skip_split [where s = ns and k = 0] by metis
  have "er_end (last pre) < x" if "pre \<noteq> []"
  proof (rule ccontr)
    let ?l = "last pre"
    assume "\<not> er_end ?l < x"
    moreover have l: "?l \<in> set (ex_regions ex)" "er_start ?l < ns" using that rs by auto
    ultimately have "x \<in> {er_start ?l..er_end ?l}" using assms(6) by auto
    moreover have "x \<in> {x..x + (sz - 1)}" using x by (simp add: feasible_def)
    ultimately show False using l(1) x unfolding feasible_def addrs_def by blast
  qed
  then have "search_from pre rest ns alignment skew \<le> x"
    using search_start [OF req _ rs(3,4) ns] rok rs(1) x assms(6) by (simp add: feasible_def)
  from scan_complete [OF req rok x rs(1) this, of flags "length pre" "(0, 0, 0)"] show ?thesis
    using rs(1,2) by (auto simp: search_unfold settled_def split: ex_found.splits)
qed

section \<open>Freeing\<close>

lemma word_gt_iff: "(b :: u64) < d \<Longrightarrow> b < x \<longleftrightarrow> b + 1 \<le> x"
  using word_lt_succ [of b d] by (simp add: word_less_nat_alt word_le_nat_alt Suc_le_eq)

lemma word_lt_iff: "(a :: u64) < c \<Longrightarrow> x < c \<longleftrightarrow> x \<le> c - 1"
proof -
  assume "a < c"
  then have "unat (c - 1) = unat c - 1" "0 < unat c"
    by (simp_all add: unat_sub word_less_nat_alt word_le_nat_alt)
  then show ?thesis by (simp add: word_less_nat_alt word_le_nat_alt) linarith
qed

lemma interval_cut:
  fixes a d s e :: u64
  assumes "a \<le> s" "s \<le> e" "e \<le> d"
  shows "{a..d} - {s..e} = (if a < s then {a..s - 1} else {}) \<union> (if e < d then {e + 1..d} else {})"
proof (rule set_eqI)
  fix x
  have 1: "e < d \<Longrightarrow> e + 1 \<le> x \<longleftrightarrow> e < x" using word_gt_iff [of e d x] by simp
  have 2: "a < s \<Longrightarrow> x \<le> s - 1 \<longleftrightarrow> x < s" using word_lt_iff [of a s x] by simp
  have "x \<in> {a..d} - {s..e} \<longleftrightarrow> (a \<le> x \<and> x < s) \<or> (e < x \<and> x \<le> d)" using assms by auto
  also have "\<dots> \<longleftrightarrow> x \<in> (if a < s then {a..s - 1} else {}) \<union> (if e < d then {e + 1..d} else {})"
    using 1 2 assms by (cases "a < s"; cases "e < d") auto
  finally show "x \<in> {a..d} - {s..e} \<longleftrightarrow> x \<in> (if a < s then {a..s - 1} else {}) \<union> (if e < d then {e + 1..d} else {})" .
qed

lemma free_scan_hd:
  assumes "regions_ok lo hi (rp # rs)" "start \<le> xend" "freeable coalesce start xend rp"
  obtains rs' d where "extent_free_scan coalesce start xend nrp (rp # rs) = Some (rs', d)"
    "regions_ok lo hi rs'" "addrs rs' = addrs (rp # rs) - {start..xend}"
    "\<forall>y \<in> set rs'. er_start rp \<le> er_start y"
proof -
  have dis: "addrs rs \<inter> {er_start rp..er_end rp} = {}"
    using assms(1) by (intro place_disjoint [where n = 0]) (auto simp: place_ok_def regions_ok_simps)
  have b: "er_start rp \<le> start" "xend \<le> er_end rp" "\<not> er_end rp < start" "\<not> xend < er_start rp"
    using assms(2,3) by (auto simp: freeable_def split: if_splits)
  have cut: "addrs (rp # rs) - {start..xend} = ({er_start rp..er_end rp} - {start..xend}) \<union> addrs rs"
    using dis b by fastforce
  have "er_start rp < er_start y" if "y \<in> set rs" for y
    using that assms(1) by (auto simp: regions_ok_simps)
  then have st: "\<forall>y \<in> set rs. er_start rp \<le> er_start y" by (simp add: less_imp_le)
  have up: "xend < er_end rp \<Longrightarrow> xend + 1 \<le> er_end rp \<and> xend < xend + 1"
    using word_gt_iff [of xend "er_end rp"] by blast
  have dn: "er_start rp < start \<Longrightarrow> er_start rp \<le> start - 1 \<and> start - 1 < start"
    using word_lt_iff [of "er_start rp" start] by blast
  note c = interval_cut [OF b(1) assms(2) b(2)]
  have mid: "start - 1 < xend + 1" if "xend < er_end rp" "er_start rp < start"
    using up [OF that(1)] dn [OF that(2)] assms(2) by (meson le_less_trans less_trans)
  consider "start = er_start rp" "xend = er_end rp" | "coalesce" "start = er_start rp" "xend < er_end rp"
    | "coalesce" "er_start rp < start" "xend = er_end rp" | "coalesce" "er_start rp < start" "xend < er_end rp"
    using assms(3) by (auto simp: freeable_def order_le_less split: if_splits)
  then show thesis
  proof cases
    case 1
    with cut c b assms(1) st show thesis by (intro that [of rs "Removed rp"]) (auto simp: regions_ok_simps Let_def)
  next
    case 2
    with cut c b assms(1) st up show thesis
      by (intro that [of "rp\<lparr>er_start := xend + 1\<rparr> # rs" Adjusted]) (auto simp: regions_ok_simps Let_def)
  next
    case 3
    with cut c b assms(1) st dn show thesis
      by (intro that [of "rp\<lparr>er_end := start - 1\<rparr> # rs" Adjusted]) (auto simp: regions_ok_simps Let_def)
  next
    case 4
    with cut c b assms(1) st up dn mid show thesis
      by (intro that [of "rp\<lparr>er_end := start - 1\<rparr> # nrp\<lparr>er_start := xend + 1, er_end := er_end rp\<rparr> # rs" Split])
        (auto simp: regions_ok_simps Let_def)
  qed
qed

lemma free_scan_continue:
  assumes "\<not> freeable coalesce start xend rp" "start \<le> xend" "er_start rp \<le> er_end rp"
  shows "extent_free_scan coalesce start xend nrp (rp # rs) =
    (if start \<le> er_end rp \<and> xend < er_start rp then None
     else map_option (\<lambda>(rs', d). (rp # rs', d)) (extent_free_scan coalesce start xend nrp rs))"
  using assms by (auto simp: freeable_def Let_def not_less split: if_splits)

declare extent_free_scan.simps(2) [simp del]

lemma free_scan:
  assumes "regions_ok lo hi rs" "start \<le> xend"
  shows "case extent_free_scan coalesce start xend nrp rs of
      None \<Rightarrow> \<not> (\<exists>r \<in> set rs. freeable coalesce start xend r)
    | Some (rs', d) \<Rightarrow> (\<exists>r \<in> set rs. freeable coalesce start xend r) \<and> regions_ok lo hi rs'
        \<and> addrs rs' = addrs rs - {start..xend} \<and> (\<forall>y \<in> set rs'. \<exists>z \<in> set rs. er_start z \<le> er_start y)"
  using assms(1)
proof (induction rs)
  case (Cons rp rs)
  have ok: "regions_ok lo hi rs" and rp: "er_start rp \<le> er_end rp" "\<forall>y \<in> set rs. er_end rp < er_start y"
    using Cons.prems by (auto simp: regions_ok_simps)
  show ?case
  proof (cases "freeable coalesce start xend rp")
    case True
    with free_scan_hd [OF Cons.prems assms(2) True, of nrp] show ?thesis by fastforce
  next
    case False
    note cont = free_scan_continue [OF False assms(2) rp(1)]
    show ?thesis
    proof (cases "start \<le> er_end rp \<and> xend < er_start rp")
      case True
      have "\<not> freeable coalesce start xend r" if "r \<in> set rs" for r
      proof -
        have "start < er_start r" using True rp that by (meson le_less_trans)
        then show ?thesis by (auto simp: freeable_def)
      qed
      with False True show ?thesis by (simp add: cont)
    next
      case go: False
      show ?thesis
      proof (cases "extent_free_scan coalesce start xend nrp rs")
        case None
        with Cons.IH [OF ok] False go show ?thesis by (simp add: cont)
      next
        case (Some a)
        then obtain rs' d where a: "extent_free_scan coalesce start xend nrp rs = Some (rs', d)" by (cases a) auto
        with Cons.IH [OF ok] have ih: "\<exists>r \<in> set rs. freeable coalesce start xend r" "regions_ok lo hi rs'"
          "addrs rs' = addrs rs - {start..xend}" "\<forall>y \<in> set rs'. \<exists>z \<in> set rs. er_start z \<le> er_start y" by auto
        from ih(1) obtain r where r: "r \<in> set rs" "er_start r \<le> start" by (auto simp: freeable_def split: if_splits)
        then have "er_end rp < start" using rp(2) by (meson less_le_trans)
        then have "{er_start rp..er_end rp} \<inter> {start..xend} = {}" by (rule interval_disjoint [OF disjI1])
        then have "addrs (rp # rs') = addrs (rp # rs) - {start..xend}" unfolding addrs_simps ih(3) by blast
        moreover have "\<forall>y \<in> set rs'. er_end rp < er_start y"
        proof
          fix y assume "y \<in> set rs'"
          with ih(4) obtain z where "z \<in> set rs" "er_start z \<le> er_start y" by blast
          with rp(2) show "er_end rp < er_start y" by (auto intro: less_le_trans)
        qed
        then have "regions_ok lo hi (rp # rs')" using Cons.prems ih(2) by (simp add: regions_ok_Cons)
        moreover have "\<forall>y \<in> set (rp # rs'). \<exists>z \<in> set (rp # rs). er_start z \<le> er_start y"
          "\<exists>r \<in> set (rp # rs). freeable coalesce start xend r" using ih(1,4) by auto
        moreover have "extent_free_scan coalesce start xend nrp (rp # rs) = Some (rp # rs', d)"
          using a cont [of nrp rs] go by (simp only: if_False option.map prod.case)
        ultimately show ?thesis by (simp only: option.case prod.case)
      qed
    qed
  qed
qed simp

lemma free_start_correct:
  assumes "extent_ok ex" "start \<le> xend" "extent_free_start ex start xend nrp = (r, ex')"
  shows "extent_ok ex' \<and>
    (if \<exists>a \<in> set (ex_regions ex). freeable (nrp \<noteq> None) start xend a
     then r = ExOk () \<and> used ex' = used ex - {start..xend} else r = ExPanic \<and> ex' = ex)"
proof -
  let ?scan = "extent_free_scan (nrp \<noteq> None) start xend (case nrp of Some r \<Rightarrow> r | None \<Rightarrow> new_region) (ex_regions ex)"
  note fs = free_scan [of "ex_start ex" "ex_end ex" "ex_regions ex" start xend "nrp \<noteq> None"
      "case nrp of Some r \<Rightarrow> r | None \<Rightarrow> new_region", OF _ assms(2)]
  show ?thesis
  proof (cases ?scan)
    case None
    with fs assms(1,3) show ?thesis by (auto simp: extent_free_start_def extent_ok_def)
  next
    case (Some a)
    then obtain rs' d where a: "?scan = Some (rs', d)" by (cases a) auto
    with fs assms(1) have f: "\<exists>a \<in> set (ex_regions ex). freeable (nrp \<noteq> None) start xend a"
      "regions_ok (ex_start ex) (ex_end ex) rs'" "addrs rs' = addrs (ex_regions ex) - {start..xend}"
      by (auto simp: extent_ok_def)
    from assms(3) a have "r = ExOk ()" "ex_regions ex' = rs'" "ex_start ex' = ex_start ex" "ex_end ex' = ex_end ex"
      by (auto simp: extent_free_start_def Let_def split: ex_freed.splits option.splits)
    with f show ?thesis by (simp add: extent_ok_def used_def)
  qed
qed

section \<open>The operations\<close>

text \<open>Getting a descriptor cannot block or fail when the caller may sleep for memory and the
  extent may use it.\<close>

definition desc_ready :: "extent \<Rightarrow> extent_flags \<Rightarrow> bool" where
  "desc_ready ex flags \<longleftrightarrow>
     (exf_fixed ex \<and> fex_freelist ex \<noteq> []) \<or> (EX_WAITOK flags \<and> (exf_fixed ex \<longrightarrow> EX_MALLOCOK flags))"

lemma alloc_desc_ready:
  "desc_ready ex flags \<Longrightarrow> \<exists>rp ex1. extent_alloc_region_descriptor pool_ok ex flags = (ExOk rp, ex1)"
  by (cases "exf_fixed ex"; cases "fex_freelist ex")
    (auto simp: desc_ready_def extent_alloc_region_descriptor_def extent_pool_get_def)

lemma alloc_desc_cases:
  obtains (got) rp ex1 where "extent_alloc_region_descriptor pool_ok ex flags = (ExOk rp, ex1)"
  | (null) ex1 where "extent_alloc_region_descriptor pool_ok ex flags = (ExErr ENOMEM, ex1)"
  | (wait) ex1 where "extent_alloc_region_descriptor pool_ok ex flags = (ExWaitDesc, ex1)"
proof (atomize_elim, cases "fex_freelist ex")
  case Nil
  then show "(\<exists>rp ex1. extent_alloc_region_descriptor pool_ok ex flags = (ExOk rp, ex1)) \<or>
    (\<exists>ex1. extent_alloc_region_descriptor pool_ok ex flags = (ExErr ENOMEM, ex1)) \<or>
    (\<exists>ex1. extent_alloc_region_descriptor pool_ok ex flags = (ExWaitDesc, ex1))"
    by (simp add: extent_alloc_region_descriptor_def extent_pool_get_def)
next
  case (Cons rp fl)
  then show "(\<exists>rp ex1. extent_alloc_region_descriptor pool_ok ex flags = (ExOk rp, ex1)) \<or>
    (\<exists>ex1. extent_alloc_region_descriptor pool_ok ex flags = (ExErr ENOMEM, ex1)) \<or>
    (\<exists>ex1. extent_alloc_region_descriptor pool_ok ex flags = (ExWaitDesc, ex1))"
    by (simp add: extent_alloc_region_descriptor_def extent_pool_get_def)
qed

lemma ok_frame:
  "ex_regions ex1 = ex_regions ex \<Longrightarrow> ex_start ex1 = ex_start ex \<Longrightarrow> ex_end ex1 = ex_end ex \<Longrightarrow>
     extent_ok ex1 = extent_ok ex \<and> used ex1 = used ex"
  by (simp add: extent_ok_def used_def)

lemma extent_alloc_region_spec:
  assumes "extent_ok ex" "start \<le> start + (sz - 1)" "1 \<le> sz" "ex_start ex \<le> start" "start + (sz - 1) \<le> ex_end ex"
    and "extent_alloc_region diag pool_ok ex start sz flags = (r, ex')"
  shows "extent_ok ex' \<and> (desc_ready ex flags \<longrightarrow> r \<noteq> ExErr ENOMEM \<and> r \<noteq> ExWaitDesc) \<and>
    (if r = ExErr ENOMEM \<or> r = ExWaitDesc then used ex' = used ex
     else if used ex \<inter> {start..start + (sz - 1)} = {}
     then r = ExOk () \<and> used ex' = used ex \<union> {start..start + (sz - 1)}
     else (if EX_WAITSPACE flags then \<exists>rp. r = ExWaitSpace rp else r = ExErr EAGAIN) \<and> used ex' = used ex)"
proof (cases rule: alloc_desc_cases [of pool_ok ex flags])
  case (got rp ex1)
  note fr = alloc_desc_frame [OF got] 
  from got assms have "extent_alloc_region_start ex1 start sz flags rp = (r, ex')"
    by (auto simp: extent_alloc_region_def Let_def split: if_splits)
  from alloc_start_correct [OF _ assms(2) _ _ this] fr assms(1,4,5) ok_frame [of ex1 ex]
  show ?thesis by (auto split: if_splits)
next
  case (null ex1)
  moreover from null have "\<not> desc_ready ex flags" using alloc_desc_ready [of ex flags pool_ok] by fastforce
  ultimately show ?thesis using assms alloc_desc_frame [OF null] ok_frame [of ex1 ex]
    by (auto simp: extent_alloc_region_def Let_def split: if_splits)
next
  case (wait ex1)
  moreover from wait have "\<not> desc_ready ex flags" using alloc_desc_ready [of ex flags pool_ok] by fastforce
  ultimately show ?thesis using assms alloc_desc_frame [OF wait] ok_frame [of ex1 ex]
    by (auto simp: extent_alloc_region_def Let_def split: if_splits)
qed


lemma subregion_search:
  assumes req: "req_ok ex substart subend sz alignment boundary" and "extent_ok ex"
  shows "substart \<le> EXTENT_ALIGN substart alignment skew
     \<and> aligned alignment skew (EXTENT_ALIGN substart alignment skew)
     \<and> \<not> EXTENT_ALIGN substart alignment skew < ex_start ex
     \<and> (\<forall>x. substart \<le> x \<longrightarrow> aligned alignment skew x \<longrightarrow> EXTENT_ALIGN substart alignment skew \<le> x)"
proof -
  obtain k where k: "k < 64" "alignment = 2 ^ k" and nw: "unat (ex_end ex) + unat alignment < 2 ^ 64"
    using req by (auto simp: req_ok_def)
  have sub: "ex_start ex \<le> substart" "substart \<le> ex_end ex"
    using req by (auto simp: req_ok_def intro: order_trans)
  with nw have "unat substart + unat alignment \<le> 2 ^ 64" by (simp add: word_le_nat_alt)
  note al = align_up [OF k this, where skew = skew]
  then show ?thesis using sub by (auto simp: not_less)
qed

lemma alloc_subregion1_start_correct:
  assumes req: "req_ok ex substart subend sz alignment boundary" and ok: "extent_ok ex"
    and res: "extent_alloc_subregion1_start diag ex substart subend sz alignment skew boundary flags rp = (r, ex')"
  shows "extent_ok ex' \<and>
    (case r of
       ExOk s \<Rightarrow> substart \<le> s \<and> s \<le> s + (sz - 1) \<and> s + (sz - 1) \<le> subend
         \<and> used ex \<inter> {s..s + (sz - 1)} = {} \<and> used ex' = used ex \<union> {s..s + (sz - 1)}
         \<and> (if boundary = 0 then aligned alignment skew s
            else same_block boundary (bound_base ex flags) s (s + (sz - 1)))
     | _ \<Rightarrow> used ex' = used ex \<and> r = (if EX_WAITSPACE flags then ExWaitSpace rp else ExErr EAGAIN)
         \<and> (boundary = 0 \<longrightarrow> (\<forall>x. \<not> feasible (ex_regions ex) substart subend sz alignment skew x)))"
proof -
  let ?ns = "EXTENT_ALIGN substart alignment skew"
  note ns = subregion_search [OF req ok, of skew]
  show ?thesis
  proof (cases "extent_search ex subend sz alignment skew boundary flags ?ns")
    case None
    with res ns have r: "r = (if EX_WAITSPACE flags then ExWaitSpace rp else ExErr EAGAIN)"
      "ex' = ex \<or> ex' = extent_free_region_descriptor ex rp"
      by (auto simp: extent_alloc_subregion1_start_def split: if_splits)
    have "\<not> feasible (ex_regions ex) substart subend sz alignment skew x" if "boundary = 0" for x
    proof
      assume f: "feasible (ex_regions ex) substart subend sz alignment skew x"
      then have "?ns \<le> x" using ns by (simp add: feasible_def)
      with search_complete [OF _ ok _ _ f, of ?ns flags] req ns None that show False by simp
    qed
    with r ok show ?thesis by (auto simp: extent_ok_def used_def)
  next
    case (Some a)
    then obtain s n where a: "extent_search ex subend sz alignment skew boundary flags ?ns = Some (s, n)" by (cases a) auto
    with search_ok [OF req ok _ _ a] ns
    have c: "cand_ok ex substart subend sz alignment skew boundary flags (ex_regions ex) s n" by blast
    then have c': "s \<le> s + (sz - 1)" "ex_start ex \<le> s" "s + (sz - 1) \<le> ex_end ex"
      "place_ok (ex_regions ex) s (s + (sz - 1)) n"
      using req by (auto simp: cand_ok_def req_ok_def)
    from a res ns have "r = ExOk s" "ex' = extent_insert_and_optimize ex s sz n rp"
      by (auto simp: extent_alloc_subregion1_start_def split: if_splits)
    with insert_correct [OF ok c'(4,1-3), of rp] place_disjoint [OF c'(4)] c show ?thesis
      by (auto simp: cand_ok_def used_def)
  qed
qed


lemma extent_free_spec:
  assumes "extent_ok ex" "start \<le> start + (sz - 1)" "ex_start ex \<le> start" "start + (sz - 1) \<le> ex_end ex"
    and "exf_nocoalesce ex \<or> desc_ready ex flags"
    and "extent_free diag pool_ok ex start sz flags = (r, ex')"
  shows "extent_ok ex' \<and>
    (if \<exists>a \<in> set (ex_regions ex). freeable (\<not> exf_nocoalesce ex) start (start + (sz - 1)) a
     then r = ExOk () \<and> used ex' = used ex - {start..start + (sz - 1)}
     else r = ExPanic \<and> used ex' = used ex)"
proof (cases "exf_nocoalesce ex")
  case True
  with assms have "extent_free_start ex start (start + (sz - 1)) None = (r, ex')"
    by (auto simp: extent_free_def Let_def split: if_splits)
  from free_start_correct [OF assms(1,2) this] True show ?thesis by auto
next
  case False
  with assms(5) obtain rp ex1 where got: "extent_alloc_region_descriptor pool_ok ex flags = (ExOk rp, ex1)"
    using alloc_desc_ready [of ex flags pool_ok] by blast
  note fr = alloc_desc_frame [OF got]
  from got False assms have "extent_free_start ex1 start (start + (sz - 1)) (Some rp) = (r, ex')"
    by (auto simp: extent_free_def Let_def split: if_splits)
  with free_start_correct [OF _ assms(2) this] fr assms(1) False ok_frame [of ex1 ex] show ?thesis
    by (auto split: if_splits)
qed


section \<open>The interface: a map of reserved addresses\<close>

text \<open>The contract a client of the extent manager relies on, for requests that may sleep for
  memory: the state holds a set of reserved addresses, a reservation succeeds exactly on a
  free range, and a range inside one reservation can be released.\<close>

locale region_map =
  fixes ok :: "'s \<Rightarrow> bool" and range :: "'s \<Rightarrow> u64 set" and reserved :: "'s \<Rightarrow> u64 set"
    and reserve :: "'s \<Rightarrow> u64 \<Rightarrow> u64 \<Rightarrow> 's option" and release :: "'s \<Rightarrow> u64 \<Rightarrow> u64 \<Rightarrow> 's option"
  assumes reserve_free: "ok s \<Longrightarrow> 1 \<le> n \<Longrightarrow> a \<le> a + (n - 1) \<Longrightarrow> {a..a + (n - 1)} \<subseteq> range s \<Longrightarrow>
      reserved s \<inter> {a..a + (n - 1)} = {} \<Longrightarrow>
      \<exists>s'. reserve s a n = Some s' \<and> ok s' \<and> range s' = range s \<and> reserved s' = reserved s \<union> {a..a + (n - 1)}"
    and reserve_busy: "ok s \<Longrightarrow> 1 \<le> n \<Longrightarrow> a \<le> a + (n - 1) \<Longrightarrow> {a..a + (n - 1)} \<subseteq> range s \<Longrightarrow>
      reserved s \<inter> {a..a + (n - 1)} \<noteq> {} \<Longrightarrow> reserve s a n = None"
    and release_reserved: "ok s \<Longrightarrow> 1 \<le> n \<Longrightarrow> a \<le> a + (n - 1) \<Longrightarrow> {a..a + (n - 1)} \<subseteq> range s \<Longrightarrow>
      reserve s a n = Some s' \<Longrightarrow>
      \<exists>s''. release s' a n = Some s'' \<and> ok s'' \<and> range s'' = range s' \<and> reserved s'' = reserved s' - {a..a + (n - 1)}"
begin

lemma reserve_release:
  assumes "ok s" "1 \<le> n" "a \<le> a + (n - 1)" "{a..a + (n - 1)} \<subseteq> range s" "reserve s a n = Some s'"
  obtains s'' where "release s' a n = Some s''" "ok s''" "reserved s'' = reserved s"
proof -
  have free: "reserved s \<inter> {a..a + (n - 1)} = {}"
    using reserve_busy [OF assms(1-4)] assms(5) by fastforce
  with reserve_free [OF assms(1-4)] assms(5) have "reserved s' = reserved s \<union> {a..a + (n - 1)}" by simp
  with free release_reserved [OF assms] that show thesis by blast
qed

lemma reserve_twice:
  assumes "ok s" "1 \<le> n" "a \<le> a + (n - 1)" "{a..a + (n - 1)} \<subseteq> range s" "reserve s a n = Some s'"
  shows "reserve s' a n = None"
proof -
  have free: "reserved s \<inter> {a..a + (n - 1)} = {}"
    using reserve_busy [OF assms(1-4)] assms(5) by fastforce
  with reserve_free [OF assms(1-4)] assms(5) have s': "ok s'" "range s' = range s"
    "reserved s' = reserved s \<union> {a..a + (n - 1)}" by simp_all
  have "a \<in> {a..a + (n - 1)}" using assms(3) by simp
  with s' assms(2-4) show ?thesis by (intro reserve_busy) auto
qed

end

text \<open>The extent manager provides it, called with \<open>EX_WAITOK | EX_MALLOCOK\<close>.\<close>

definition wait_flags :: extent_flags where
  "wait_flags = \<lparr>EX_WAITOK = True, EX_FAST = False, EX_CATCH = False, EX_NOCOALESCE = False,
     EX_MALLOCOK = True, EX_WAITSPACE = False, EX_BOUNDZERO = False, EX_EARLY = False\<rparr>"

definition extent_reserve :: "extent \<Rightarrow> u64 \<Rightarrow> u64 \<Rightarrow> extent option" where
  "extent_reserve ex a n =
     (case extent_alloc_region True True ex a n wait_flags of (ExOk _, ex') \<Rightarrow> Some ex' | _ \<Rightarrow> None)"

definition extent_release :: "extent \<Rightarrow> u64 \<Rightarrow> u64 \<Rightarrow> extent option" where
  "extent_release ex a n =
     (case extent_free True True ex a n wait_flags of (ExOk _, ex') \<Rightarrow> Some ex' | _ \<Rightarrow> None)"

lemma wait_ready: "desc_ready ex wait_flags"
  by (simp add: desc_ready_def wait_flags_def)

lemma interval_inside:
  fixes a :: u64
  assumes "{a..b} \<subseteq> {lo..hi}" "a \<le> b"
  shows "lo \<le> a" "b \<le> hi"
  using assms by auto

lemma alloc_region_frame:
  "extent_alloc_region diag pool_ok ex start sz flags = (r, ex') \<Longrightarrow>
     ex_start ex' = ex_start ex \<and> ex_end ex' = ex_end ex \<and> exf_nocoalesce ex' = exf_nocoalesce ex"
  by (auto simp: extent_alloc_region_def extent_alloc_region_start_def Let_def
      split: if_splits option.splits prod.splits ex_res.splits dest!: alloc_desc_frame)

lemma alloc_region_freeable:
  assumes "extent_ok ex" "start \<le> start + (sz - 1)" "ex_start ex \<le> start" "start + (sz - 1) \<le> ex_end ex"
    and "extent_alloc_region diag pool_ok ex start sz flags = (ExOk (), ex')"
  shows "\<exists>r \<in> set (ex_regions ex'). freeable (\<not> exf_nocoalesce ex') start (start + (sz - 1)) r"
proof (cases rule: alloc_desc_cases [of pool_ok ex flags])
  case (got rp ex1)
  note fr = alloc_desc_frame [OF got]
  from got assms(3-5) obtain n where n: "extent_find_place (ex_regions ex1) start (start + (sz - 1)) 0 = Some n"
    and ex': "ex' = extent_insert_and_optimize ex1 start sz n rp"
    by (auto simp: extent_alloc_region_def extent_alloc_region_start_def Let_def split: if_splits option.splits)
  have ok1: "extent_ok ex1" using assms(1) fr ok_frame [of ex1 ex] by simp
  with find_place_Some [OF _ n] have "place_ok (ex_regions ex1) start (start + (sz - 1)) n"
    by (auto simp: extent_ok_def)
  from insert_correct(3) [OF ok1 this assms(2)] fr assms(3,4) show ?thesis by (simp add: ex')
qed (use assms(5) in \<open>auto simp: extent_alloc_region_def Let_def split: if_splits\<close>)

lemma free_frame:
  "extent_free diag pool_ok ex start sz flags = (r, ex') \<Longrightarrow> ex_start ex' = ex_start ex \<and> ex_end ex' = ex_end ex"
  by (auto simp: extent_free_def extent_free_start_def Let_def dest!: alloc_desc_frame
      split: if_splits option.splits prod.splits ex_res.splits ex_freed.splits)

interpretation em: region_map extent_ok "\<lambda>ex. {ex_start ex..ex_end ex}" used extent_reserve extent_release
proof
  fix s n a
  assume ok: "extent_ok s" "1 \<le> n" "a \<le> a + (n - 1)" and inside: "{a..a + (n - 1)} \<subseteq> {ex_start s..ex_end s}"
  note b = interval_inside [OF inside ok(3)]
  obtain r s' where res: "extent_alloc_region True True s a n wait_flags = (r, s')" by fastforce
  note c = extent_alloc_region_spec [OF ok(1,3,2) b res] and fr = alloc_region_frame [OF res]
  { assume "used s \<inter> {a..a + (n - 1)} = {}"
    with c fr res show "\<exists>s'. extent_reserve s a n = Some s' \<and> extent_ok s' \<and>
        {ex_start s'..ex_end s'} = {ex_start s..ex_end s} \<and> used s' = used s \<union> {a..a + (n - 1)}"
      by (auto simp: extent_reserve_def wait_ready split: if_splits) }
  { assume "used s \<inter> {a..a + (n - 1)} \<noteq> {}"
    with c res show "extent_reserve s a n = None"
      by (auto simp: extent_reserve_def wait_ready wait_flags_def split: if_splits) }
  fix s1
  assume "extent_reserve s a n = Some s1"
  then have r: "extent_alloc_region True True s a n wait_flags = (ExOk (), s1)"
    by (auto simp: extent_reserve_def split: prod.splits ex_res.splits)
  have fr1: "ex_start s1 = ex_start s" "ex_end s1 = ex_end s" using alloc_region_frame [OF r] by auto
  have ok1: "extent_ok s1" using extent_alloc_region_spec [OF ok(1,3,2) b r] by simp
  obtain r2 s2 where f: "extent_free True True s1 a n wait_flags = (r2, s2)" by fastforce
  have "ex_start s1 \<le> a" "a + (n - 1) \<le> ex_end s1" using fr1 b by simp_all
  from extent_free_spec [OF ok1 ok(3) this _ f] alloc_region_freeable [OF ok(1,3) b r]
  have "extent_ok s2" "r2 = ExOk ()" "used s2 = used s1 - {a..a + (n - 1)}" by (simp_all add: wait_ready)
  moreover have "ex_start s2 = ex_start s1" "ex_end s2 = ex_end s1" using free_frame [OF f] by simp_all
  ultimately show "\<exists>s''. extent_release s1 a n = Some s'' \<and> extent_ok s'' \<and>
      {ex_start s''..ex_end s''} = {ex_start s1..ex_end s1} \<and> used s'' = used s1 - {a..a + (n - 1)}"
    using f by (simp add: extent_release_def)
qed

text \<open>C26: Allocating a region and freeing it again gives back the same set of allocated
  addresses, and while it is allocated a second request for it fails with \<open>EAGAIN\<close>.\<close>

theorem extent_alloc_free_roundtrip:
  assumes "extent_ok ex" "1 \<le> n" "a \<le> a + (n - 1)" "{a..a + (n - 1)} \<subseteq> {ex_start ex..ex_end ex}"
    and "extent_reserve ex a n = Some ex'"
  shows "extent_reserve ex' a n = None \<and>
    (\<exists>ex''. extent_release ex' a n = Some ex'' \<and> extent_ok ex'' \<and> used ex'' = used ex)"
  using em.reserve_twice [OF assms] em.reserve_release [OF assms] by metis

definition demo_extent :: extent where
  "demo_extent = \<lparr>ex_name = ''demo'', ex_regions = [\<lparr>er_start = 16, er_end = 31, er_alloc = True\<rparr>],
     ex_start = 1, ex_end = 255, exf_fixed = False, exf_nocoalesce = False, exf_early = False,
     ex_flwanted = False, fex_freelist = []\<rparr>"

lemma demo_extent_ok: "extent_ok demo_extent"
  by (simp add: extent_ok_def regions_ok_def demo_extent_def)


lemma demo_req: "req_ok demo_extent 1 255 8 8 0"
proof -
  have "\<exists>n < 64. (8 :: u64) = 2 ^ n" by (rule exI [of _ 3]) simp
  then show ?thesis by (simp add: req_ok_def demo_extent_def)
qed



theorem extent_alloc_free_roundtrip_witness:
  "\<exists>ex' ex''. extent_reserve demo_extent 32 8 = Some ex' \<and> extent_reserve ex' 32 8 = None
     \<and> extent_release ex' 32 8 = Some ex'' \<and> used ex'' = used demo_extent"
proof -
  have e: "extent_reserve demo_extent 32 8
      = Some (demo_extent\<lparr>ex_regions := [\<lparr>er_start = 16, er_end = 39, er_alloc = True\<rparr>]\<rparr>)"
    by code_simp
  have "{32..32 + (8 - 1)} \<subseteq> {ex_start demo_extent..ex_end demo_extent}" by (simp add: demo_extent_def)
  from extent_alloc_free_roundtrip [OF demo_extent_ok _ _ this e] e show ?thesis by auto
qed

section \<open>Gaps at the top of the address space and at boundaries\<close>

definition full_extent :: extent where
  "full_extent = \<lparr>ex_name = ''full'', ex_regions = [\<lparr>er_start = 0, er_end = 0xffffffffffffffff, er_alloc = True\<rparr>],
     ex_start = 0, ex_end = 0xffffffffffffffff, exf_fixed = False, exf_nocoalesce = False, exf_early = False,
     ex_flwanted = False, fex_freelist = []\<rparr>"

text \<open>Without the no-wrap condition the allocator is unsound.  In an extent that reaches the
  top of the address space and is fully allocated, the address after the last region wraps to
  0 without a check, so a request for a subregion is answered with address 0, which is
  already allocated and lies outside the subregion.\<close>

theorem extent_alloc_wraps:
  "extent_ok full_extent \<and> 0 \<in> used full_extent \<and>
   fst (extent_alloc_subregion True True full_extent 0x1000 0xffffffffffffffff 1 1 0 wait_flags) = ExOk 0"
proof -
  have "extent_ok full_extent \<and> 0 \<in> used full_extent"
    by (simp add: extent_ok_def regions_ok_def used_def full_extent_def)
  moreover have "fst (extent_alloc_subregion True True full_extent 0x1000 0xffffffffffffffff 1 1 0 wait_flags) = ExOk 0"
    by code_simp
  ultimately show ?thesis by simp
qed

definition odd_extent :: extent where
  "odd_extent = \<lparr>ex_name = ''odd'', ex_regions = [\<lparr>er_start = 1, er_end = 15, er_alloc = True\<rparr>],
     ex_start = 1, ex_end = 255, exf_fixed = False, exf_nocoalesce = False, exf_early = False,
     ex_flwanted = False, fex_freelist = []\<rparr>"

text \<open>A candidate that is moved past a boundary is not aligned again: with boundaries counted
  from the start of the extent, the allocator returns an address that is not a multiple of
  the requested alignment, although an aligned one is free.\<close>

theorem extent_boundary_misaligned:
  "fst (extent_alloc True True odd_extent 8 8 16 wait_flags) = ExOk 17 \<and> \<not> aligned 8 0 17
   \<and> used odd_extent \<inter> {24..31} = {} \<and> same_block 16 1 24 31"
proof -
  have "fst (extent_alloc True True odd_extent 8 8 16 wait_flags) = ExOk 17" by code_simp
  then show ?thesis by (auto simp: aligned_def used_def odd_extent_def same_block_def)
qed

end
