(* ===== verification/Ring_Buffer.thy ===== *)
theory Ring_Buffer
  imports Kern_Prelude
begin

text \<open>
  Ring buffers and bounded queues, shared by the terminal character lists (\<open>Clist\<close>) and the
  producer/consumer queues (\<open>Pcq\<close>).  \<open>ring_view xs f k\<close> is the logical content of a ring: the
  \<open>k\<close> elements of the array \<open>xs\<close> from index \<open>f\<close> on, wrapping at the end of the array.  The
  locale \<open>bounded_queue\<close> states what both implementations promise their clients.
\<close>

section \<open>The content of a ring\<close>

definition ring_view :: "'a list \<Rightarrow> nat \<Rightarrow> nat \<Rightarrow> 'a list" where
  "ring_view xs f k = map (\<lambda>i. xs ! ((f + i) mod length xs)) [0..<k]"

lemma length_ring_view [simp]: "length (ring_view xs f k) = k"
  by (simp add: ring_view_def)

lemma nth_ring_view [simp]: "i < k \<Longrightarrow> ring_view xs f k ! i = xs ! ((f + i) mod length xs)"
  by (simp add: ring_view_def)

lemma ring_view_0 [simp]: "ring_view xs f 0 = []"
  by (simp add: ring_view_def)

lemma ring_view_Nil_iff [simp]: "ring_view xs f k = [] \<longleftrightarrow> k = 0"
  by (simp add: ring_view_def)

lemma ring_mod_inj:
  assumes "(f + i) mod n = (f + j) mod n" and "i < n" and "j < (n :: nat)"
  shows "i = j"
proof -
  have "i = j" if "i \<le> j" "(f + i) mod n = (f + j) mod n" "j < n" for i j
  proof -
    from that(2) have "n dvd (f + j) - (f + i)" by (metis mod_eq_dvd_iff_nat add_le_cancel_left that(1))
    with that show ?thesis by (auto dest: dvd_imp_le)
  qed
  from this [of i j] this [of j i] assms show ?thesis by (cases "i \<le> j") auto
qed

lemma ring_view_cong:
  assumes "length ys = length xs" and "\<And>i. i < k \<Longrightarrow> ys ! ((f + i) mod length xs) = xs ! ((f + i) mod length xs)"
  shows "ring_view ys f k = ring_view xs f k"
  by (rule nth_equalityI) (use assms in auto)

lemma ring_view_update_other:
  assumes "k \<le> j" and "j < length xs"
  shows "ring_view (xs[(f + j) mod length xs := v]) f k = ring_view xs f k"
proof (rule ring_view_cong)
  fix i assume "i < k"
  then have "(f + i) mod length xs \<noteq> (f + j) mod length xs"
    using ring_mod_inj [of f i "length xs" j] assms by auto
  then show "xs[(f + j) mod length xs := v] ! ((f + i) mod length xs) = xs ! ((f + i) mod length xs)"
    by simp
qed simp

lemma ring_view_snoc:
  assumes "k < length xs"
  shows "ring_view (xs[(f + k) mod length xs := v]) f (Suc k) = ring_view xs f k @ [v]"
proof -
  from assms have "(f + k) mod length xs < length xs" by (intro mod_less_divisor) linarith
  then show ?thesis using ring_view_update_other [of k k xs f v] assms
    by (simp add: ring_view_def)
qed

lemma ring_view_last: "ring_view xs f (Suc k) = ring_view xs f k @ [xs ! ((f + k) mod length xs)]"
  by (simp add: ring_view_def)

lemma ring_view_drop:
  "drop j (ring_view xs f k) = ring_view xs ((f + j) mod length xs) (k - j)"
  by (rule nth_equalityI) (auto simp: mod_add_right_eq ac_simps)

lemma ring_view_take: "j \<le> k \<Longrightarrow> take j (ring_view xs f k) = ring_view xs f j"
  by (rule nth_equalityI) auto

lemma ring_view_Cons:
  "f < length xs \<Longrightarrow> ring_view xs f (Suc k) = xs ! f # ring_view xs ((f + 1) mod length xs) k"
proof (rule nth_equalityI)
  fix i assume f: "f < length xs" and "i < length (ring_view xs f (Suc k))"
  then show "ring_view xs f (Suc k) ! i = (xs ! f # ring_view xs ((f + 1) mod length xs) k) ! i"
    by (cases i) (simp_all add: mod_simps)
qed simp

lemma ring_pred: "c < n \<Longrightarrow> ((c + 1) mod n + (n - 1)) mod n = (c :: nat)"
  by (cases "c + 1 = n") auto

lemma ring_view_contig:
  assumes "f + j \<le> length xs"
  shows "ring_view xs f j = take j (drop f xs)"
  by (rule nth_equalityI) (use assms in auto)

text \<open>A block written at the end of the content appends the block.\<close>

definition overwrite :: "'a list \<Rightarrow> nat \<Rightarrow> 'a list \<Rightarrow> 'a list" where
  "overwrite xs l vs = take l xs @ vs @ drop (l + length vs) xs"

lemma length_overwrite [simp]: "l + length vs \<le> length xs \<Longrightarrow> length (overwrite xs l vs) = length xs"
  by (simp add: overwrite_def)

lemma nth_overwrite:
  assumes "l + length vs \<le> length xs" and "i < length xs"
  shows "overwrite xs l vs ! i = (if l \<le> i \<and> i < l + length vs then vs ! (i - l) else xs ! i)"
  using assms by (auto simp: overwrite_def nth_append)

lemma ring_view_block:
  assumes "l = (f + k) mod length xs" and "l + length vs \<le> length xs" and "k + length vs \<le> length xs"
  shows "ring_view (overwrite xs l vs) f (k + length vs) = ring_view xs f k @ vs"
proof (rule nth_equalityI)
  fix i assume "i < length (ring_view (overwrite xs l vs) f (k + length vs))"
  then have i: "i < k + length vs" by simp
  then have "0 < length xs" using assms(3) by linarith
  then have m: "(f + i) mod length xs < length xs" by simp
  show "ring_view (overwrite xs l vs) f (k + length vs) ! i = (ring_view xs f k @ vs) ! i"
  proof (cases "i < k")
    case True
    have "\<not> (l \<le> (f + i) mod length xs \<and> (f + i) mod length xs < l + length vs)"
    proof
      assume a: "l \<le> (f + i) mod length xs \<and> (f + i) mod length xs < l + length vs"
      define d where "d = (f + i) mod length xs - l"
      from a have d: "d < length vs" "(f + i) mod length xs = l + d" by (auto simp: d_def)
      then have "(f + i) mod length xs = (f + (k + d)) mod length xs"
        using m assms(1) by (metis add.assoc mod_add_left_eq mod_less)
      then have "i = k + d" using d(1) i assms(3) by (intro ring_mod_inj [of f i "length xs"]) auto
      with True show False by simp
    qed
    with True i m assms(2) show ?thesis
      by (auto simp: nth_overwrite nth_append)
  next
    case False
    then obtain d where d: "i = k + d" "d < length vs" using i by (metis add_less_cancel_left le_Suc_ex not_less)
    then have "(f + i) mod length xs = l + d"
      using assms by (metis add.assoc mod_add_left_eq mod_less add_less_cancel_left order_less_le_trans)
    with d i m assms show ?thesis by (simp add: nth_overwrite nth_append)
  qed
qed simp

section \<open>Bounded queues\<close>

text \<open>
  The contract of a bounded first-in first-out queue: \<open>put\<close> appends an admissible element and
  fails exactly when the queue is full, \<open>get\<close> removes the oldest element and fails exactly
  when it is empty.
\<close>

locale bounded_queue =
  fixes ok :: "'s \<Rightarrow> bool" and content :: "'s \<Rightarrow> 'a list" and capacity :: "'s \<Rightarrow> nat"
    and elem_ok :: "'s \<Rightarrow> 'a \<Rightarrow> bool"
    and put :: "'a \<Rightarrow> 's \<Rightarrow> 's option" and get :: "'s \<Rightarrow> ('a \<times> 's) option"
  assumes content_le: "ok s \<Longrightarrow> length (content s) \<le> capacity s"
    and put_None: "ok s \<Longrightarrow> elem_ok s x \<Longrightarrow> put x s = None \<longleftrightarrow> length (content s) = capacity s"
    and put_Some: "ok s \<Longrightarrow> elem_ok s x \<Longrightarrow> put x s = Some s' \<Longrightarrow>
      ok s' \<and> content s' = content s @ [x] \<and> capacity s' = capacity s \<and> elem_ok s' = elem_ok s"
    and get_None: "ok s \<Longrightarrow> get s = None \<longleftrightarrow> content s = []"
    and get_Some: "ok s \<Longrightarrow> get s = Some (x, s') \<Longrightarrow>
      ok s' \<and> content s = x # content s' \<and> capacity s' = capacity s \<and> elem_ok s' = elem_ok s"
begin

fun puts :: "'a list \<Rightarrow> 's \<Rightarrow> 's option" where
  "puts [] s = Some s"
| "puts (x # xs) s = (case put x s of None \<Rightarrow> None | Some s' \<Rightarrow> puts xs s')"

fun gets :: "nat \<Rightarrow> 's \<Rightarrow> ('a list \<times> 's) option" where
  "gets 0 s = Some ([], s)"
| "gets (Suc n) s = (case get s of None \<Rightarrow> None
     | Some (x, s') \<Rightarrow> (case gets n s' of None \<Rightarrow> None | Some (xs, s'') \<Rightarrow> Some (x # xs, s'')))"

lemma puts_correct:
  "ok s \<Longrightarrow> \<forall>x \<in> set xs. elem_ok s x \<Longrightarrow> length (content s) + length xs \<le> capacity s \<Longrightarrow>
     \<exists>s'. puts xs s = Some s' \<and> ok s' \<and> content s' = content s @ xs \<and> capacity s' = capacity s
       \<and> elem_ok s' = elem_ok s"
proof (induction xs arbitrary: s)
  case (Cons x xs)
  then have "put x s \<noteq> None" using put_None [of s x] by auto
  then obtain s1 where s1: "put x s = Some s1" by blast
  note p = put_Some [OF Cons.prems(1) _ s1]
  with Cons.prems have "\<exists>s'. puts xs s1 = Some s' \<and> ok s' \<and> content s' = content s1 @ xs
      \<and> capacity s' = capacity s1 \<and> elem_ok s' = elem_ok s1"
    by (intro Cons.IH) auto
  with s1 p Cons.prems(2) show ?case by auto
qed simp

lemma puts_overflow:
  "ok s \<Longrightarrow> \<forall>x \<in> set xs. elem_ok s x \<Longrightarrow> capacity s < length (content s) + length xs \<Longrightarrow> puts xs s = None"
proof (induction xs arbitrary: s)
  case Nil
  then show ?case using content_le [of s] by simp
next
  case (Cons x xs)
  show ?case
  proof (cases "put x s")
    case (Some s1)
    then show ?thesis using Cons.IH [of s1] Cons.prems put_Some [of s x s1] by auto
  qed simp
qed

lemma gets_correct:
  "ok s \<Longrightarrow> n \<le> length (content s) \<Longrightarrow>
     \<exists>s'. gets n s = Some (take n (content s), s') \<and> ok s' \<and> content s' = drop n (content s)
       \<and> capacity s' = capacity s \<and> elem_ok s' = elem_ok s"
proof (induction n arbitrary: s)
  case (Suc n)
  then have "get s \<noteq> None" using get_None [of s] by auto
  then obtain x s1 where s1: "get s = Some (x, s1)" by auto
  note g = get_Some [OF Suc.prems(1) s1]
  with Suc.IH [of s1] Suc.prems(2) obtain s' where "gets n s1 = Some (take n (content s1), s')" "ok s'"
    "content s' = drop n (content s1)" "capacity s' = capacity s1" "elem_ok s' = elem_ok s1" by auto
  with s1 g show ?case by simp
qed simp

text \<open>First in, first out: what is put comes out, in order, after what was there before.\<close>

lemma fifo:
  assumes "ok s" and "\<forall>x \<in> set xs. elem_ok s x" and "length (content s) + length xs \<le> capacity s"
  shows "\<exists>s1 s2. puts xs s = Some s1 \<and> gets (length (content s) + length xs) s1 = Some (content s @ xs, s2)
    \<and> ok s2 \<and> content s2 = [] \<and> get s2 = None"
proof -
  from puts_correct [OF assms] obtain s1 where s1: "puts xs s = Some s1" "ok s1" "content s1 = content s @ xs"
    by blast
  from gets_correct [OF s1(2), of "length (content s1)"] obtain s2 where
    "gets (length (content s1)) s1 = Some (content s1, s2)" "ok s2" "content s2 = []" by auto
  with s1 get_None [of s2] show ?thesis by auto
qed

end

end
