(* ===== verification/Clist.thy ===== *)
theory Clist
  imports Ring_Buffer "HOL-Library.Monad_Syntax"
begin

text \<open>
  The terminal character lists of \<open>sys/kern/tty_subr.c\<close>: ring buffers of bytes with one quote
  bit per byte.  A pointer into the ring is its offset from \<open>c_cs\<close>, with \<open>None\<close> for a null
  pointer.  A function that would dereference a null pointer, access memory outside its
  buffer, trip an assertion of the allocator or not return has the value \<open>None\<close>.  Every
  function runs at \<open>spltty\<close>, so each is one atomic step.
\<close>

section \<open>Data\<close>

record clist =
  c_cf :: "nat option"
  c_cl :: "nat option"
  c_cs :: "u8 list option"
  c_ce :: nat
  c_cq :: "u8 list option"
  c_cc :: int
  c_cn :: int

definition TTY_QUOTE :: u32 where "TTY_QUOTE = 0x100"

definition NBBY :: nat where "NBBY = 8"

definition QMEM :: "int \<Rightarrow> int" where "QMEM n = (n - 1) div 8 + 1"

section \<open>Bit arrays\<close>

definition isset :: "u8 list \<Rightarrow> nat \<Rightarrow> bool option" where
  "isset a i =
     (if i div NBBY < length a then Some (a ! (i div NBBY) AND push_bit (i mod NBBY) 1 \<noteq> 0) else None)"

definition setbit :: "u8 list \<Rightarrow> nat \<Rightarrow> u8 list option" where
  "setbit a i =
     (if i div NBBY < length a
      then Some (a[i div NBBY := a ! (i div NBBY) OR push_bit (i mod NBBY) 1]) else None)"

definition clrbit :: "u8 list \<Rightarrow> nat \<Rightarrow> u8 list option" where
  "clrbit a i =
     (if i div NBBY < length a
      then Some (a[i div NBBY := a ! (i div NBBY) AND NOT (push_bit (i mod NBBY) 1)]) else None)"

text \<open>\<open>fill a s e\<close> is the loop that stores zero in the bytes from \<open>s\<close> up to \<open>e\<close>.\<close>

fun fill :: "u8 list \<Rightarrow> nat \<Rightarrow> nat \<Rightarrow> u8 list" where
  "fill a s 0 = a"
| "fill a s (Suc n) = fill (a[s := 0]) (Suc s) n"

definition clrbits :: "u8 list \<Rightarrow> nat \<Rightarrow> nat \<Rightarrow> u8 list option" where
  "clrbits cp off len =
     (let scp = off div NBBY; sbi = off mod NBBY; end' = off + len + NBBY - 1;
          ecp = int (end' div NBBY) - 1; ebi = end' mod NBBY + 1
      in if int scp \<ge> ecp then
           (if scp < length cp then
              let mask = ucast (push_bit sbi (push_bit len 1 - 1 :: u32)) :: u8
              in Some (cp[scp := cp ! scp AND NOT mask])
            else None)
         else if nat ecp < length cp then
           let mask = push_bit sbi 1 - 1 :: u8;
               cp1 = cp[scp := cp ! scp AND mask];
               mask' = ucast (push_bit ebi 1 - 1 :: u32) :: u8;
               cp2 = cp1[nat ecp := cp1 ! nat ecp AND NOT mask']
           in Some (fill cp2 (scp + 1) (nat ecp - (scp + 1)))
         else None)"

section \<open>Memory access\<close>

definition deref :: "clist \<Rightarrow> nat option \<Rightarrow> u8 option" where
  "deref clp p = do { b \<leftarrow> c_cs clp; i \<leftarrow> p; if i < length b then Some (b ! i) else None }"

definition store :: "clist \<Rightarrow> nat option \<Rightarrow> u8 \<Rightarrow> clist option" where
  "store clp p v = do { b \<leftarrow> c_cs clp; i \<leftarrow> p;
     if i < length b then Some (clp\<lparr>c_cs := Some (b[i := v])\<rparr>) else None }"

text \<open>The quote bit of the character at a pointer, as the value that is or-ed into it.\<close>

definition quote_at :: "clist \<Rightarrow> nat option \<Rightarrow> u32 option" where
  "quote_at clp p =
     (case c_cq clp of
        None \<Rightarrow> Some 0
      | Some q \<Rightarrow> do { i \<leftarrow> p; b \<leftarrow> isset q i; Some (if b then TTY_QUOTE else 0) })"

definition char_at :: "clist \<Rightarrow> nat option \<Rightarrow> u32 option" where
  "char_at clp p = do { b \<leftarrow> deref clp p; q \<leftarrow> quote_at clp p; Some ((ucast b AND 0xff) OR q) }"

definition read_block :: "clist \<Rightarrow> nat \<Rightarrow> int \<Rightarrow> u8 list option" where
  "read_block clp i n = do { b \<leftarrow> c_cs clp;
     if 0 \<le> n \<and> i + nat n \<le> length b then Some (take (nat n) (drop i b)) else None }"

definition write_block :: "clist \<Rightarrow> nat \<Rightarrow> u8 list \<Rightarrow> clist option" where
  "write_block clp i vs = do { b \<leftarrow> c_cs clp;
     if i + length vs \<le> length b then Some (clp\<lparr>c_cs := Some (overwrite b i vs)\<rparr>) else None }"

section \<open>Operations\<close>

definition clalloc :: "clist \<Rightarrow> int \<Rightarrow> bool \<Rightarrow> clist option" where
  "clalloc clp sz quot =
     (if sz \<le> 0 then None
      else Some (clp\<lparr>c_cs := Some (replicate (nat sz) 0),
        c_cq := (if quot then Some (replicate (nat (QMEM sz)) 0) else None),
        c_cf := None, c_cl := None, c_ce := nat sz, c_cn := sz, c_cc := 0\<rparr>))"

definition clfree :: "clist \<Rightarrow> clist" where
  "clfree clp = clp\<lparr>c_cs := None, c_cq := None\<rparr>"

text \<open>The result \<open>-1\<close> of the character functions.\<close>

abbreviation EOF :: u32 where "EOF \<equiv> - 1"

definition reset_if_empty :: "clist \<Rightarrow> clist" where
  "reset_if_empty clp = (if c_cc clp = 0 then clp\<lparr>c_cf := None, c_cl := None\<rparr> else clp)"

definition wrap :: "clist \<Rightarrow> nat \<Rightarrow> nat" where
  "wrap clp p = (if p = c_ce clp then 0 else p)"

definition getc :: "clist \<Rightarrow> (u32 \<times> clist) option" where
  "getc clp =
     (if c_cc clp = 0 then Some (EOF, clp)
      else do {
        c \<leftarrow> char_at clp (c_cf clp);
        clp1 \<leftarrow> store clp (c_cf clp) 0;
        i \<leftarrow> c_cf clp;
        let clp2 = clp1\<lparr>c_cf := Some (wrap clp (i + 1)), c_cc := c_cc clp - 1\<rparr>;
        Some (c, reset_if_empty clp2) })"

text \<open>The number of bytes from \<open>c_cf\<close> that are contiguous in memory, as in \<open>q_to_b\<close> and
  \<open>ndflush\<close>.\<close>

definition contig_used :: "clist \<Rightarrow> nat \<Rightarrow> nat \<Rightarrow> int" where
  "contig_used clp f l = (if f \<ge> l then int (c_ce clp) - int f else int l - int f)"

partial_function (option) q_to_b_loop :: "clist \<Rightarrow> u8 list \<Rightarrow> int \<Rightarrow> (u8 list \<times> clist) option" where
  "q_to_b_loop clp p count =
     (if count > 0 \<and> c_cc clp > 0 then do {
        f \<leftarrow> c_cf clp;
        l \<leftarrow> c_cl clp;
        let cc = min (contig_used clp f l) count;
        bs \<leftarrow> read_block clp f cc;
        q_to_b_loop (clp\<lparr>c_cc := c_cc clp - cc, c_cf := Some (wrap clp (f + nat cc))\<rparr>) (p @ bs) (count - cc) }
      else Some (p, clp))"

definition q_to_b :: "clist \<Rightarrow> int \<Rightarrow> (u8 list \<times> clist) option" where
  "q_to_b clp count = do { (p, clp') \<leftarrow> q_to_b_loop clp [] count; Some (p, reset_if_empty clp') }"

fun ndqb_loop :: "clist \<Rightarrow> u32 \<Rightarrow> nat \<Rightarrow> nat \<Rightarrow> int \<Rightarrow> int option" where
  "ndqb_loop clp flag 0 i count = Some count"
| "ndqb_loop clp flag (Suc cc) i count = do {
     b \<leftarrow> deref clp (Some i);
     if ucast b AND flag \<noteq> 0 then Some count
     else if int (i + 1) = c_cn clp then Some (count + 1)
     else ndqb_loop clp flag cc (i + 1) (count + 1) }"

fun ndqb_quote_loop :: "clist \<Rightarrow> u32 \<Rightarrow> nat \<Rightarrow> nat \<Rightarrow> int \<Rightarrow> int option" where
  "ndqb_quote_loop clp flag 0 i count = Some count"
| "ndqb_quote_loop clp flag (Suc cc) i count = do {
     b \<leftarrow> deref clp (Some i);
     if ucast b AND (flag AND NOT TTY_QUOTE) \<noteq> 0 then Some count
     else do {
       q \<leftarrow> c_cq clp;
       quoted \<leftarrow> isset q (i + 1);
       if quoted then Some count
       else if int (i + 1) = c_cn clp then Some (count + 1)
       else ndqb_quote_loop clp flag cc (i + 1) (count + 1) } }"

definition ndqb :: "clist \<Rightarrow> u32 \<Rightarrow> int option" where
  "ndqb clp flag =
     (if c_cc clp = 0 then Some 0
      else do {
        f \<leftarrow> c_cf clp;
        if flag = 0 then do {
          l \<leftarrow> c_cl clp;
          let count = int l - int f;
          Some (if count \<le> 0 then int (c_ce clp) - int f else count) }
        else if flag AND TTY_QUOTE \<noteq> 0 then ndqb_quote_loop clp flag (nat (c_cc clp)) f 0
        else ndqb_loop clp flag (nat (c_cc clp)) f 0 })"

partial_function (option) ndflush_loop :: "clist \<Rightarrow> int \<Rightarrow> clist option" where
  "ndflush_loop clp count =
     (if count > 0 \<and> c_cc clp > 0 then do {
        f \<leftarrow> c_cf clp;
        l \<leftarrow> c_cl clp;
        let cc = min (contig_used clp f l) count;
        ndflush_loop (clp\<lparr>c_cc := c_cc clp - cc, c_cf := Some (wrap clp (f + nat cc))\<rparr>) (count - cc) }
      else Some clp)"

definition ndflush :: "clist \<Rightarrow> int \<Rightarrow> clist option" where
  "ndflush clp count =
     (if count = c_cc clp then Some (clp\<lparr>c_cc := 0, c_cf := None, c_cl := None\<rparr>)
      else do { clp' \<leftarrow> ndflush_loop clp count; Some (reset_if_empty clp') })"

text \<open>The prologue that \<open>putc\<close> and \<open>b_to_q\<close> share: an empty list gets its buffer and its
  pointers.\<close>

definition prepare :: "clist \<Rightarrow> clist option" where
  "prepare clp =
     (if c_cc clp = 0 then do {
        clp1 \<leftarrow> (if c_cs clp = None then clalloc clp (c_cn clp) True else Some clp);
        Some (clp1\<lparr>c_cf := Some 0, c_cl := Some 0\<rparr>) }
      else Some clp)"

definition set_quote :: "clist \<Rightarrow> nat \<Rightarrow> bool \<Rightarrow> clist option" where
  "set_quote clp i quot =
     (case c_cq clp of None \<Rightarrow> Some clp
      | Some q \<Rightarrow> do { q' \<leftarrow> (if quot then setbit q i else clrbit q i); Some (clp\<lparr>c_cq := Some q'\<rparr>) })"

definition putc :: "u32 \<Rightarrow> clist \<Rightarrow> (u32 \<times> clist) option" where
  "putc c clp =
     (if c_cc clp = c_cn clp then Some (EOF, clp)
      else do {
        clp1 \<leftarrow> prepare clp;
        i \<leftarrow> c_cl clp1;
        clp2 \<leftarrow> store clp1 (Some i) (ucast (c AND 0xff));
        clp3 \<leftarrow> set_quote clp2 i (c AND TTY_QUOTE \<noteq> 0);
        Some (0, clp3\<lparr>c_cc := c_cc clp3 + 1, c_cl := Some (wrap clp3 (i + 1))\<rparr>) })"

definition clear_quotes :: "clist \<Rightarrow> nat \<Rightarrow> nat \<Rightarrow> clist option" where
  "clear_quotes clp i n =
     (case c_cq clp of None \<Rightarrow> Some clp
      | Some q \<Rightarrow> do { q' \<leftarrow> clrbits q i n; Some (clp\<lparr>c_cq := Some q'\<rparr>) })"

partial_function (option) b_to_q_loop :: "u8 list \<Rightarrow> clist \<Rightarrow> (int \<times> clist) option" where
  "b_to_q_loop p clp =
     (if p \<noteq> [] \<and> c_cc clp < c_cn clp then do {
        f \<leftarrow> c_cf clp;
        l \<leftarrow> c_cl clp;
        let cc = min (if f > l then int f - int l else int (c_ce clp) - int l) (int (length p));
        clp1 \<leftarrow> write_block clp l (take (nat cc) p);
        clp2 \<leftarrow> clear_quotes clp1 l (nat cc);
        b_to_q_loop (drop (nat cc) p)
          (clp2\<lparr>c_cc := c_cc clp + cc, c_cl := Some (wrap clp (l + nat cc))\<rparr>) }
      else Some (int (length p), clp))"

definition b_to_q :: "u8 list \<Rightarrow> clist \<Rightarrow> (int \<times> clist) option" where
  "b_to_q p clp =
     (if p = [] then Some (0, clp)
      else if c_cc clp = c_cn clp then Some (int (length p), clp)
      else do { clp1 \<leftarrow> prepare clp; b_to_q_loop p clp1 })"

text \<open>\<open>firstc\<close> and \<open>nextc\<close> share the file's static counter \<open>cc\<close>; it is passed and returned.
  The middle component of the result is the character stored through \<open>c\<close>, if one is.\<close>

definition firstc :: "clist \<Rightarrow> (nat option \<times> u32 option \<times> int) option" where
  "firstc clp =
     (if c_cc clp = 0 then Some (None, None, 0)
      else do { c \<leftarrow> char_at clp (c_cf clp); Some (c_cf clp, Some c, c_cc clp) })"

definition nextc :: "clist \<Rightarrow> nat option \<Rightarrow> int \<Rightarrow> (nat option \<times> u32 option \<times> int) option" where
  "nextc clp cp cc0 =
     (let cc = (if c_cf clp = cp then c_cc clp else cc0) in
      case cp of
        None \<Rightarrow> Some (None, None, cc)
      | Some i \<Rightarrow>
          if cc = 0 then Some (None, None, cc)
          else if cc - 1 = 0 then Some (None, None, cc - 1)
          else do {
            let cp' = Some (wrap clp (i + 1));
            c \<leftarrow> char_at clp cp';
            Some (cp', Some c, cc - 1) })"

definition unputc :: "clist \<Rightarrow> (u32 \<times> clist) option" where
  "unputc clp =
     (if c_cc clp = 0 then Some (EOF, clp)
      else do {
        l \<leftarrow> c_cl clp;
        let l' = (if l = 0 then c_ce clp - 1 else l - 1);
        let clp1 = clp\<lparr>c_cl := Some l', c_cc := c_cc clp - 1\<rparr>;
        c \<leftarrow> char_at clp1 (Some l');
        Some (c, reset_if_empty clp1) })"

text \<open>\<open>catq\<close> on two different lists.\<close>

partial_function (option) catq :: "clist \<Rightarrow> clist \<Rightarrow> (clist \<times> clist) option" where
  "catq from' to' = do {
     (c, from1) \<leftarrow> getc from';
     if c \<noteq> EOF then do { (r, to1) \<leftarrow> putc c to'; catq from1 to1 } else Some (from1, to') }"

end
