(* ===== verification/Clist_Correct.thy ===== *)
theory Clist_Correct
  imports Clist
begin

text \<open>
  Correctness of the terminal character lists: every operation keeps the ring well formed and
  acts on its content as the corresponding operation on a list; the optimised \<open>clrbits\<close>
  clears the bits its reference loop clears; characters come out in the order they went in.
\<close>

section \<open>Bit arrays\<close>

definition qbit :: "u8 list \<Rightarrow> nat \<Rightarrow> bool" where
  "qbit a i \<longleftrightarrow> bit (a ! (i div 8)) (i mod 8)"

lemma and_push_bit_1: "w AND push_bit n 1 \<noteq> 0 \<longleftrightarrow> bit (w :: u8) n"
proof -
  have "bit (w AND push_bit n 1) n \<longleftrightarrow> bit w n" by (auto simp: bit_simps dest: bit_imp_le_length)
  moreover have "bit (w AND push_bit n 1) m \<Longrightarrow> m = n" for m by (auto simp: bit_simps)
  ultimately show ?thesis by (metis bit_0_eq bot_apply bot_bool_def bit_eq_iff)
qed

lemma isset_qbit: "i div 8 < length a \<Longrightarrow> isset a i = Some (qbit a i)"
  by (simp only: isset_def NBBY_def qbit_def and_push_bit_1 if_True)

lemma div_mod_8_eq: "i div 8 = j div 8 \<Longrightarrow> i mod 8 = j mod 8 \<Longrightarrow> i = (j :: nat)"
  by (metis div_mult_mod_eq)

lemma setbit_qbit:
  assumes "i div 8 < length a"
  shows "\<exists>a'. setbit a i = Some a' \<and> length a' = length a \<and> (\<forall>j. qbit a' j \<longleftrightarrow> j = i \<or> qbit a j)"
proof -
  let ?a = "a[i div 8 := a ! (i div 8) OR push_bit (i mod 8) 1]"
  have "qbit ?a j \<longleftrightarrow> j = i \<or> qbit a j" for j
  proof (cases "j div 8 = i div 8")
    case True
    then have "j = i \<longleftrightarrow> j mod 8 = i mod 8" using div_mod_8_eq by blast
    with True assms show ?thesis by (auto simp: qbit_def bit_simps)
  qed (auto simp: qbit_def)
  with assms show ?thesis by (simp add: setbit_def NBBY_def)
qed

lemma clrbit_qbit:
  assumes "i div 8 < length a"
  shows "\<exists>a'. clrbit a i = Some a' \<and> length a' = length a \<and> (\<forall>j. qbit a' j \<longleftrightarrow> j \<noteq> i \<and> qbit a j)"
proof -
  let ?a = "a[i div 8 := a ! (i div 8) AND NOT (push_bit (i mod 8) 1)]"
  have "qbit ?a j \<longleftrightarrow> j \<noteq> i \<and> qbit a j" for j
  proof (cases "j div 8 = i div 8")
    case True
    then have "j = i \<longleftrightarrow> j mod 8 = i mod 8" using div_mod_8_eq by blast
    with True assms show ?thesis by (auto simp: qbit_def bit_simps)
  qed (auto simp: qbit_def)
  with assms show ?thesis by (simp add: clrbit_def NBBY_def)
qed

lemma fill_nth: "s + n \<le> length a \<Longrightarrow>
    length (fill a s n) = length a \<and> (\<forall>j. fill a s n ! j = (if s \<le> j \<and> j < s + n then 0 else a ! j))"
proof (induction n arbitrary: a s)
  case (Suc n)
  from Suc.IH [of "Suc s" "a[s := 0]"] Suc.prems show ?case by (auto simp: nth_list_update)
qed auto

lemma bit_low_mask_u32: "bit (2 ^ n - 1 :: u32) j \<longleftrightarrow> j < n \<and> j < 32"
proof -
  have "2 ^ n - 1 = (mask n :: u32)" by (simp add: mask_eq_exp_minus_1)
  then show ?thesis by (auto simp: bit_simps)
qed

lemma bit_low_mask_u8: "bit (2 ^ n - 1 :: u8) j \<longleftrightarrow> j < n \<and> j < 8"
proof -
  have "2 ^ n - 1 = (mask n :: u8)" by (simp add: mask_eq_exp_minus_1)
  then show ?thesis by (auto simp: bit_simps)
qed

lemma clrbits_qbit:
  assumes len: "0 < len" and fits: "off + len \<le> 8 * length cp"
  shows "\<exists>a. clrbits cp off len = Some a \<and> length a = length cp \<and>
    (\<forall>j. qbit a j \<longleftrightarrow> qbit cp j \<and> \<not> (off \<le> j \<and> j < off + len))"
proof -
  define s e sb eb where d: "s = off div 8" "e = (off + len - 1) div 8" "sb = off mod 8" "eb = (off + len - 1) mod 8"
  have off: "off = 8 * s + sb" "sb < 8" and last: "off + len = 8 * e + eb + 1" "eb < 8"
    using len by (simp_all add: d)
  have e: "e < length cp" "s \<le> e" using off last len fits by linarith+
  have "off + len + 8 - 1 = 8 * (e + 1) + eb" using last by simp
  then have en: "(off + len + 8 - 1) div 8 = e + 1" "(off + len + 8 - 1) mod 8 = eb"
    using last(2) by (simp_all only: mod_mult_self4 mod_less) auto
  show ?thesis
  proof (cases "s = e")
    case True
    let ?m = "ucast (push_bit sb (push_bit len 1 - 1 :: u32)) :: u8"
    let ?a = "cp[s := cp ! s AND NOT ?m]"
    have "clrbits cp off len = Some ?a"
      unfolding clrbits_def Let_def NBBY_def en using True e by (simp add: d)
    moreover have "qbit ?a j \<longleftrightarrow> qbit cp j \<and> \<not> (off \<le> j \<and> j < off + len)" for j
    proof -
      define k m where "k = j div 8" "m = j mod 8"
      then have j: "j = 8 * k + m" "m < 8" by simp_all
      have km: "(8 * k + m) div 8 = k" "(8 * k + m) mod 8 = m" using j(2) by auto
      have iff: "off \<le> j \<and> j < off + len \<longleftrightarrow> k = s \<and> sb \<le> m \<and> m - sb < len"
      proof
        assume "off \<le> j \<and> j < off + len"
        with off last True j have "k = s" by linarith
        with \<open>off \<le> j \<and> j < off + len\<close> off j show "k = s \<and> sb \<le> m \<and> m - sb < len" by linarith
      next
        assume "k = s \<and> sb \<le> m \<and> m - sb < len"
        with off j show "off \<le> j \<and> j < off + len" by linarith
      qed
      have "bit ?m m \<longleftrightarrow> sb \<le> m \<and> m - sb < len"
        using j(2) by (auto simp: bit_simps bit_low_mask_u32)
      then show ?thesis unfolding iff using e True j(2)
        by (cases "k = s") (auto simp: qbit_def j(1) km bit_and_iff bit_not_iff)
    qed
    ultimately show ?thesis by simp
  next
    case False
    with e have se: "s < e" by simp
    define m1 m2 :: u8 where mm: "m1 = push_bit sb 1 - 1" "m2 = ucast (push_bit (eb + 1) 1 - 1 :: u32)"
    define c2 where "c2 = cp[s := cp ! s AND m1, e := cp ! e AND NOT m2]"
    define a where "a = fill c2 (s + 1) (e - (s + 1))"
    have "clrbits cp off len = Some a"
      unfolding clrbits_def Let_def NBBY_def en a_def c2_def mm using se e by (simp add: d [symmetric])
    moreover have f: "length a = length cp" "a ! k = (if s < k \<and> k < e then 0 else c2 ! k)" for k
      using fill_nth [of "s + 1" "e - (s + 1)" c2] se e by (auto simp: a_def c2_def)
    moreover have "qbit a j \<longleftrightarrow> qbit cp j \<and> \<not> (off \<le> j \<and> j < off + len)" for j
    proof -
      define k m where "k = j div 8" "m = j mod 8"
      then have j: "j = 8 * k + m" "m < 8" by simp_all
      have km: "(8 * k + m) div 8 = k" "(8 * k + m) mod 8 = m" using j(2) by auto
      have iff: "off \<le> j \<and> j < off + len \<longleftrightarrow>
          s < k \<and> k < e \<or> k = s \<and> sb \<le> m \<or> k = e \<and> m \<le> eb"
        using off last se j by linarith
      have bm: "bit m1 m \<longleftrightarrow> m < sb" using j(2) by (auto simp: mm bit_low_mask_u8)
      have bm': "bit m2 m \<longleftrightarrow> m \<le> eb" using j(2) bit_low_mask_u32 [of "eb + 1" m] by (auto simp: mm bit_simps)
      consider "k = s" | "k = e" | "s < k" "k < e" | "k < s" | "e < k" by linarith
      then show ?thesis unfolding iff unfolding qbit_def j(1) km f c2_def using e se j(2)
        by cases (auto simp: bit_and_iff bit_not_iff bm bm')
    qed
    ultimately show ?thesis by blast
  qed
qed

text \<open>The loop the comment above \<open>clrbits\<close> describes, with the index it means.\<close>

fun clrbits_ref :: "u8 list \<Rightarrow> nat \<Rightarrow> nat \<Rightarrow> u8 list option" where
  "clrbits_ref cp off 0 = Some cp"
| "clrbits_ref cp off (Suc len) = do { cp' \<leftarrow> clrbit cp off; clrbits_ref cp' (off + 1) len }"

lemma clrbits_ref_qbit:
  "off + len \<le> 8 * length cp \<Longrightarrow> \<exists>a. clrbits_ref cp off len = Some a \<and> length a = length cp \<and>
    (\<forall>j. qbit a j \<longleftrightarrow> qbit cp j \<and> \<not> (off \<le> j \<and> j < off + len))"
proof (induction len arbitrary: cp off)
  case (Suc len)
  then have "off div 8 < length cp" by (intro less_mult_imp_div_less) simp
  then obtain cp' where cp': "clrbit cp off = Some cp'" "length cp' = length cp"
    "\<forall>j. qbit cp' j \<longleftrightarrow> j \<noteq> off \<and> qbit cp j" using clrbit_qbit by blast
  with Suc.IH [of "off + 1" cp'] Suc.prems obtain a where
    "clrbits_ref cp' (off + 1) len = Some a" "length a = length cp"
    "\<forall>j. qbit a j \<longleftrightarrow> qbit cp' j \<and> \<not> (off + 1 \<le> j \<and> j < off + 1 + len)" by auto
  moreover have "j \<noteq> off \<and> \<not> (off + 1 \<le> j \<and> j < off + 1 + len) \<longleftrightarrow> \<not> (off \<le> j \<and> j < off + Suc len)" for j
    by linarith
  ultimately show ?case using cp' by (simp only: clrbits_ref.simps Option.bind.simps) blast
qed auto

lemma qbit_eqI:
  assumes "length a = length b" and "\<And>j. qbit a j \<longleftrightarrow> qbit b j"
  shows "a = b"
proof (rule nth_equalityI)
  fix i
  show "a ! i = b ! i"
  proof (rule bit_word_eqI)
    fix n assume "n < LENGTH(8)"
    then have n: "(8 * i + n) div 8 = i" "(8 * i + n) mod 8 = n" by auto
    show "bit (a ! i) n \<longleftrightarrow> bit (b ! i) n"
      using assms(2) [of "8 * i + n"] unfolding qbit_def n .
  qed
qed (rule assms)

text \<open>\<open>clrbits\<close>, which works a byte at a time with masks at both ends, does what clearing the
  bits one by one does, on every range that lies inside the array.\<close>

theorem clrbits_correct:
  assumes "0 < len" and "off + len \<le> 8 * length cp"
  shows "clrbits cp off len = clrbits_ref cp off len \<and> clrbits cp off len \<noteq> None"
proof -
  from clrbits_qbit [OF assms] obtain a where a: "clrbits cp off len = Some a" "length a = length cp"
    "\<forall>j. qbit a j \<longleftrightarrow> qbit cp j \<and> \<not> (off \<le> j \<and> j < off + len)" by blast
  moreover from clrbits_ref_qbit [OF assms(2)] obtain b where "clrbits_ref cp off len = Some b" "length b = length cp"
    "\<forall>j. qbit b j \<longleftrightarrow> qbit cp j \<and> \<not> (off \<le> j \<and> j < off + len)" by blast
  ultimately show ?thesis using qbit_eqI [of a b] by simp
qed

theorem clrbits_correct_witness:
  "clrbits [0xff, 0xff, 0xff] 3 14 = Some [7, 0, 0xfe] \<and>
   clrbits [0xff, 0xff, 0xff] 3 14 = clrbits_ref [0xff, 0xff, 0xff] 3 14"
proof -
  have "clrbits [0xff, 0xff, 0xff] 3 14 = Some [7, 0, 0xfe]" by code_simp
  then show ?thesis using clrbits_correct [of 14 3 "[0xff, 0xff, 0xff]"] by simp
qed

section \<open>Well-formed lists and their content\<close>

definition qrep :: "u8 list option \<Rightarrow> nat \<Rightarrow> u32" where
  "qrep q i = (case q of None \<Rightarrow> 0 | Some a \<Rightarrow> if qbit a i then TTY_QUOTE else 0)"

definition cells :: "u8 list \<Rightarrow> u8 list option \<Rightarrow> u32 list" where
  "cells b q = map (\<lambda>i. ucast (b ! i) OR qrep q i) [0..<length b]"

definition ring :: "clist \<Rightarrow> u32 list" where
  "ring clp = (case c_cs clp of None \<Rightarrow> [] | Some b \<Rightarrow> cells b (c_cq clp))"

definition contents :: "clist \<Rightarrow> u32 list" where
  "contents clp = (case c_cf clp of None \<Rightarrow> [] | Some f \<Rightarrow> ring_view (ring clp) f (nat (c_cc clp)))"

definition alloc_ok :: "clist \<Rightarrow> bool" where
  "alloc_ok clp \<longleftrightarrow> 0 < c_cn clp \<and> c_ce clp = nat (c_cn clp)
     \<and> (case c_cs clp of None \<Rightarrow> False | Some b \<Rightarrow> length b = nat (c_cn clp))
     \<and> (case c_cq clp of None \<Rightarrow> True | Some q \<Rightarrow> length q = nat (QMEM (c_cn clp)))"

text \<open>A list inside an operation: the pointers are set, also when it is empty.\<close>

definition ring_ok :: "clist \<Rightarrow> nat \<Rightarrow> bool" where
  "ring_ok clp f \<longleftrightarrow> alloc_ok clp \<and> 0 \<le> c_cc clp \<and> c_cc clp \<le> c_cn clp \<and> f < c_ce clp
     \<and> c_cf clp = Some f \<and> c_cl clp = Some ((f + nat (c_cc clp)) mod c_ce clp)"

text \<open>A list between operations: the pointers are null exactly when it is empty.\<close>

definition clist_ok :: "clist \<Rightarrow> bool" where
  "clist_ok clp \<longleftrightarrow>
     c_cc clp = 0 \<and> c_cf clp = None \<and> c_cl clp = None \<and> 0 < c_cn clp
       \<and> (c_cs clp = None \<and> c_cq clp = None \<or> alloc_ok clp)
     \<or> 0 < c_cc clp \<and> (case c_cf clp of None \<Rightarrow> False | Some f \<Rightarrow> ring_ok clp f)"

definition quoting :: "clist \<Rightarrow> bool" where
  "quoting clp \<longleftrightarrow> c_cs clp = None \<or> c_cq clp \<noteq> None"

definition char_mask :: "clist \<Rightarrow> u32" where
  "char_mask clp = (if quoting clp then 0x1ff else 0xff)"

lemma length_ring: "alloc_ok clp \<Longrightarrow> length (ring clp) = c_ce clp"
  by (auto simp: ring_def cells_def alloc_ok_def split: option.splits)

lemma ring_fields [simp]:
  "ring (clp\<lparr>c_cf := x\<rparr>) = ring clp" "ring (clp\<lparr>c_cl := x\<rparr>) = ring clp" "ring (clp\<lparr>c_cc := n\<rparr>) = ring clp"
  by (simp_all add: ring_def split: option.splits)

lemma alloc_fields [simp]:
  "alloc_ok (clp\<lparr>c_cf := x\<rparr>) = alloc_ok clp" "alloc_ok (clp\<lparr>c_cl := x\<rparr>) = alloc_ok clp"
  "alloc_ok (clp\<lparr>c_cc := n\<rparr>) = alloc_ok clp"
  by (simp_all add: alloc_ok_def split: option.splits)

lemma quoting_fields [simp]:
  "quoting (clp\<lparr>c_cf := x\<rparr>) = quoting clp" "quoting (clp\<lparr>c_cl := x\<rparr>) = quoting clp"
  "quoting (clp\<lparr>c_cc := n\<rparr>) = quoting clp"
  by (simp_all add: quoting_def)

lemma quoting_cs: "c_cs clp = Some b \<Longrightarrow> quoting (clp\<lparr>c_cs := Some b'\<rparr>) = quoting clp"
  by (simp add: quoting_def)

lemma reset_fields [simp]:
  "c_cn (reset_if_empty clp) = c_cn clp" "c_cc (reset_if_empty clp) = c_cc clp"
  "quoting (reset_if_empty clp) = quoting clp"
  by (simp_all add: reset_if_empty_def)

lemma alloc_pos: "alloc_ok clp \<Longrightarrow> 0 < c_cn clp \<and> c_ce clp = nat (c_cn clp)"
  by (simp add: alloc_ok_def)

lemma ring_ok_reset:
  assumes "ring_ok clp f"
  shows "clist_ok (reset_if_empty clp)" and "contents (reset_if_empty clp) = contents clp"
  using assms alloc_pos [of clp] by (auto simp: ring_ok_def reset_if_empty_def clist_ok_def contents_def)

lemma clist_ok_ring: "clist_ok clp \<Longrightarrow> 0 < c_cc clp \<Longrightarrow> \<exists>f. ring_ok clp f"
  by (auto simp: clist_ok_def split: option.splits)

lemma ring_ok_contents: "ring_ok clp f \<Longrightarrow> contents clp = ring_view (ring clp) f (nat (c_cc clp))"
  by (simp add: ring_ok_def contents_def)

lemma length_contents: "clist_ok clp \<Longrightarrow> int (length (contents clp)) = c_cc clp"
  by (auto simp: clist_ok_def contents_def ring_ok_def split: option.splits)

lemma clist_ok_cc: "clist_ok clp \<Longrightarrow> 0 \<le> c_cc clp \<and> c_cc clp \<le> c_cn clp \<and> 0 < c_cn clp"
  by (auto simp: clist_ok_def ring_ok_def alloc_ok_def split: option.splits)

lemma contents_empty: "clist_ok clp \<Longrightarrow> contents clp = [] \<longleftrightarrow> c_cc clp = 0"
  using length_contents [of clp] by auto

lemma ring_ok_nz: "ring_ok clp f \<Longrightarrow> c_cc clp \<noteq> 0 \<Longrightarrow> clist_ok clp"
  by (auto simp: clist_ok_def ring_ok_def)

lemma QMEM_index:
  assumes "i < nat n"
  shows "i div 8 < nat (QMEM n)"
proof -
  from assms have "int i \<le> n - 1" by simp
  then have "int i div 8 \<le> (n - 1) div 8" by (rule zdiv_mono1) simp
  then show ?thesis unfolding QMEM_def by (simp add: zdiv_int)
qed

lemma byte_mask: "(0xff :: u32) = mask 8" "(0x1ff :: u32) = mask 9"
  by (simp_all add: mask_eq_exp_minus_1)

lemma ucast_byte [simp]: "(ucast (x :: u8) :: u32) AND 0xff = ucast x"
  by (rule bit_word_eqI) (auto simp: byte_mask bit_simps dest: bit_imp_le_length)

lemma char_at_ring:
  assumes "alloc_ok clp" and "i < c_ce clp"
  shows "char_at clp (Some i) = Some (ring clp ! i)"
proof -
  obtain b where b: "c_cs clp = Some b" "length b = nat (c_cn clp)" "c_ce clp = nat (c_cn clp)"
    using assms(1) by (auto simp: alloc_ok_def split: option.splits)
  with assms show ?thesis
    by (auto simp: char_at_def deref_def quote_at_def ring_def cells_def qrep_def alloc_ok_def isset_qbit QMEM_index
        split: option.splits)
qed

section \<open>Single characters\<close>

lemma wrap_mod: "alloc_ok clp \<Longrightarrow> p < c_ce clp \<Longrightarrow> wrap clp (p + 1) = (p + 1) mod c_ce clp"
  by (auto simp: wrap_def)

lemma cells_update:
  assumes "i < length b" and "\<forall>j. j \<noteq> i \<longrightarrow> qrep q' j = qrep q j"
  shows "cells (b[i := v]) q' = (cells b q)[i := ucast v OR qrep q' i]"
  by (rule nth_equalityI) (use assms in \<open>auto simp: cells_def nth_list_update\<close>)

lemma store_ring:
  assumes "alloc_ok clp" and "i < c_ce clp"
  shows "\<exists>b. c_cs clp = Some b \<and> store clp (Some i) v = Some (clp\<lparr>c_cs := Some (b[i := v])\<rparr>)
    \<and> alloc_ok (clp\<lparr>c_cs := Some (b[i := v])\<rparr>)
    \<and> ring (clp\<lparr>c_cs := Some (b[i := v])\<rparr>) = (ring clp)[i := ucast v OR qrep (c_cq clp) i]"
proof -
  obtain b where b: "c_cs clp = Some b" "length b = c_ce clp"
    using assms(1) by (auto simp: alloc_ok_def split: option.splits)
  with assms show ?thesis
    by (auto simp: store_def alloc_ok_def ring_def cells_update split: option.splits)
qed

lemma getc_spec:
  assumes "clist_ok clp"
  shows "case contents clp of
      [] \<Rightarrow> getc clp = Some (EOF, clp)
    | c # cs \<Rightarrow> \<exists>clp'. getc clp = Some (c, clp') \<and> clist_ok clp' \<and> contents clp' = cs
        \<and> c_cn clp' = c_cn clp \<and> quoting clp' = quoting clp"
proof (cases "c_cc clp = 0")
  case True
  then show ?thesis using contents_empty [OF assms] by (simp add: getc_def)
next
  case False
  then obtain k where k: "nat (c_cc clp) = Suc k" "c_cc clp = int k + 1" "0 < c_cc clp"
    using clist_ok_cc [OF assms] by (metis Suc_pred' int_nat_eq less_le nat_int nat_0_iff not_le of_nat_Suc zero_less_nat_eq add.commute)
  then obtain f where f: "ring_ok clp f" using clist_ok_ring [OF assms] by blast
  then have al: "alloc_ok clp" and fe: "f < c_ce clp" and cf: "c_cf clp = Some f"
    and cl: "c_cl clp = Some ((f + Suc k) mod c_ce clp)" and le: "c_cc clp \<le> c_cn clp" using k by (auto simp: ring_ok_def)
  note len = length_ring [OF al]
  from store_ring [OF al fe, of 0] obtain b where b: "c_cs clp = Some b"
    "store clp (Some f) 0 = Some (clp\<lparr>c_cs := Some (b[f := 0])\<rparr>)" "alloc_ok (clp\<lparr>c_cs := Some (b[f := 0])\<rparr>)"
    "ring (clp\<lparr>c_cs := Some (b[f := 0])\<rparr>) = (ring clp)[f := qrep (c_cq clp) f]" by auto
  let ?c = "clp\<lparr>c_cs := Some (b[f := 0]), c_cf := Some ((f + 1) mod c_ce clp), c_cc := int k\<rparr>"
  have ct: "contents clp = ring clp ! f # ring_view (ring clp) ((f + 1) mod c_ce clp) k"
    using ring_ok_contents [OF f] ring_view_Cons [of f "ring clp" k] fe len k by simp
  have kn: "Suc k \<le> c_ce clp" using k le alloc_pos [OF al] by linarith
  have rok: "ring_ok ?c ((f + 1) mod c_ce clp)"
    using b(3) fe le k cl by (auto simp: ring_ok_def mod_simps)
  have "((f + 1) mod c_ce clp + (c_ce clp - 1)) mod c_ce clp = f" using fe by (rule ring_pred)
  then have "ring_view ((ring clp)[f := qrep (c_cq clp) f]) ((f + 1) mod c_ce clp) k
      = ring_view (ring clp) ((f + 1) mod c_ce clp) k"
    using ring_view_update_other [of k "c_ce clp - 1" "ring clp" "(f + 1) mod c_ce clp"] kn fe by (simp add: len)
  then have ct': "contents ?c = ring_view (ring clp) ((f + 1) mod c_ce clp) k"
    using ring_ok_contents [OF rok] b(4) by simp
  have "getc clp = Some (ring clp ! f, reset_if_empty ?c)"
    using False char_at_ring [OF al fe] b k wrap_mod [OF al fe] by (simp add: getc_def cf)
  then show ?thesis using ring_ok_reset [OF rok] ct ct' quoting_cs [OF b(1)] by simp
qed

lemma prepare_spec:
  assumes "clist_ok clp"
  shows "\<exists>clp' f. prepare clp = Some clp' \<and> ring_ok clp' f \<and> contents clp' = contents clp
    \<and> c_cn clp' = c_cn clp \<and> c_cc clp' = c_cc clp \<and> quoting clp' = quoting clp"
proof (cases "c_cc clp = 0")
  case False
  then show ?thesis using clist_ok_ring [OF assms] clist_ok_cc [OF assms] by (fastforce simp: prepare_def)
next
  case True
  note ok = assms [unfolded clist_ok_def]
  show ?thesis
  proof (cases "c_cs clp")
    case (Some b)
    with ok True have "alloc_ok clp" "c_cf clp = None" "0 < c_cn clp" by auto
    then show ?thesis using True Some alloc_pos [of clp]
      by (auto simp: prepare_def ring_ok_def contents_def)
  next
    case None
    with ok True have "c_cf clp = None" "0 < c_cn clp" by auto
    then show ?thesis using True None
      by (auto simp: prepare_def ring_ok_def contents_def clalloc_def quoting_def alloc_ok_def)
  qed
qed

lemma set_quote_ring:
  assumes "alloc_ok clp" and "i < c_ce clp"
  shows "\<exists>q'. set_quote clp i x = Some (clp\<lparr>c_cq := q'\<rparr>) \<and> alloc_ok (clp\<lparr>c_cq := q'\<rparr>)
    \<and> (q' = None \<longleftrightarrow> c_cq clp = None)
    \<and> (\<forall>j. j \<noteq> i \<longrightarrow> qrep q' j = qrep (c_cq clp) j)
    \<and> qrep q' i = (if c_cq clp \<noteq> None \<and> x then TTY_QUOTE else 0)"
proof (cases "c_cq clp")
  case None
  with assms show ?thesis by (intro exI [of _ None]) (simp add: set_quote_def qrep_def alloc_ok_def split: option.splits)
next
  case (Some q)
  with assms have i: "i div 8 < length q" and len: "length q = nat (QMEM (c_cn clp))"
    by (auto simp: alloc_ok_def QMEM_index)
  obtain q' where q': "(if x then setbit q i else clrbit q i) = Some q'" "length q' = length q"
    "\<forall>j. qbit q' j \<longleftrightarrow> (if j = i then x else qbit q j)"
    using setbit_qbit [OF i] clrbit_qbit [OF i] by (cases x) auto
  have "set_quote clp i x = Some (clp\<lparr>c_cq := Some q'\<rparr>)" using Some q'(1) by (simp add: set_quote_def)
  moreover have "alloc_ok (clp\<lparr>c_cq := Some q'\<rparr>)" using assms(1) q'(2) len by (auto simp: alloc_ok_def split: option.splits)
  ultimately show ?thesis using Some q'(3) by (intro exI [of _ "Some q'"]) (auto simp: qrep_def)
qed

lemma char_encode:
  "ucast (ucast (c AND 0xff) :: u8) OR (if c AND TTY_QUOTE \<noteq> 0 then TTY_QUOTE else 0) = c AND 0x1ff"
  "(ucast (ucast (c AND 0xff) :: u8) :: u32) = c AND 0xff"
proof -
  have q: "bit TTY_QUOTE j \<longleftrightarrow> j = 8" for j
    using bit_word_exp [where 'a = 32, of 8 j] by (simp add: TTY_QUOTE_def)
  have j: "bit (c AND TTY_QUOTE) j \<longleftrightarrow> j = 8 \<and> bit c 8" for j by (auto simp: bit_and_iff q)
  have cq: "c AND TTY_QUOTE \<noteq> 0 \<longleftrightarrow> bit c 8" using j by (metis bit_0_eq bot_apply bot_bool_def bit_eq_iff)
  have nine: "n < 9 \<longleftrightarrow> n < 8 \<or> n = (8 :: nat)" for n by arith
  have or_bit: "bit (if x then TTY_QUOTE else 0) j \<longleftrightarrow> x \<and> j = 8" for x j by (simp add: q)
  show "ucast (ucast (c AND 0xff) :: u8) OR (if c AND TTY_QUOTE \<noteq> 0 then TTY_QUOTE else 0) = c AND 0x1ff"
    unfolding cq byte_mask
    by (rule bit_word_eqI) (auto simp: bit_or_iff or_bit bit_simps nine)
  show "(ucast (ucast (c AND 0xff) :: u8) :: u32) = c AND 0xff"
    by (rule bit_word_eqI) (auto simp: byte_mask bit_simps)
qed

lemma ring_cq: "c_cs clp = Some b \<Longrightarrow> ring (clp\<lparr>c_cs := Some b', c_cq := q'\<rparr>) = cells b' q'"
  by (simp add: ring_def)

lemma putc_spec:
  assumes "clist_ok clp"
  shows "if int (length (contents clp)) = c_cn clp then putc c clp = Some (EOF, clp)
    else \<exists>clp'. putc c clp = Some (0, clp') \<and> clist_ok clp' \<and> contents clp' = contents clp @ [c AND char_mask clp]
        \<and> c_cn clp' = c_cn clp \<and> quoting clp' = quoting clp"
proof (cases "c_cc clp = c_cn clp")
  case True
  then show ?thesis using length_contents [OF assms] by (simp add: putc_def)
next
  case False
  obtain c1 f where p: "prepare clp = Some c1" "ring_ok c1 f" "contents c1 = contents clp" "c_cn c1 = c_cn clp"
    "c_cc c1 = c_cc clp" "quoting c1 = quoting clp" using prepare_spec [OF assms] by blast
  define k i where "k = nat (c_cc c1)" "i = (f + k) mod c_ce c1"
  from p(2) have al: "alloc_ok c1" and cf: "c_cf c1 = Some f" and f: "f < c_ce c1" and cl: "c_cl c1 = Some i" and cc: "0 \<le> c_cc c1" "c_cc c1 \<le> c_cn c1"
    by (auto simp: ring_ok_def k_i_def)
  have i: "i < c_ce c1" and k: "k < c_ce c1" "c_cc c1 = int k"
    using f False p(4,5) cc alloc_pos [OF al] by (auto simp: k_i_def)
  from store_ring [OF al i, of "ucast (c AND 0xff)"] obtain b where b: "c_cs c1 = Some b"
    "store c1 (Some i) (ucast (c AND 0xff)) = Some (c1\<lparr>c_cs := Some (b[i := ucast (c AND 0xff)])\<rparr>)"
    "alloc_ok (c1\<lparr>c_cs := Some (b[i := ucast (c AND 0xff)])\<rparr>)" by auto
  let ?c2 = "c1\<lparr>c_cs := Some (b[i := ucast (c AND 0xff)])\<rparr>"
  from set_quote_ring [OF b(3), of i "c AND TTY_QUOTE \<noteq> 0"] i obtain q' where
    q': "set_quote ?c2 i (c AND TTY_QUOTE \<noteq> 0) = Some (?c2\<lparr>c_cq := q'\<rparr>)" "alloc_ok (?c2\<lparr>c_cq := q'\<rparr>)"
    "q' = None \<longleftrightarrow> c_cq c1 = None" "\<forall>j. j \<noteq> i \<longrightarrow> qrep q' j = qrep (c_cq c1) j"
    "qrep q' i = (if c_cq c1 \<noteq> None \<and> c AND TTY_QUOTE \<noteq> 0 then TTY_QUOTE else 0)" by auto
  let ?c3 = "?c2\<lparr>c_cq := q'\<rparr>" 
  define c4 where "c4 = ?c2\<lparr>c_cq := q', c_cc := int k + 1, c_cl := Some ((i + 1) mod c_ce c1)\<rparr>"
  have ib: "i < length b" using i al b(1) by (auto simp: alloc_ok_def)
  have c4_cc: "c_cc c4 = int k + 1" "c_cn c4 = c_cn c1" by (simp_all add: c4_def)
  have qu: "quoting c4 = quoting clp" using b(1) q'(3) p(6) by (simp add: quoting_def c4_def)
  have v: "ucast (ucast (c AND 0xff) :: u8) OR qrep q' i = c AND char_mask clp"
    using char_encode [of c] q'(5) p(6) b(1) by (auto simp: char_mask_def quoting_def)
  have "ring c4 = cells (b[i := ucast (c AND 0xff)]) q'" by (simp add: ring_cq [OF b(1)] c4_def)
  also have "\<dots> = (ring c1)[i := c AND char_mask clp]"
    using cells_update [OF ib q'(4)] v b(1) by (simp add: ring_def)
  finally have r: "ring c4 = (ring c1)[i := c AND char_mask clp]" .
  have rok: "ring_ok c4 f"
  proof -
    have "(i + 1) mod c_ce c1 = (f + nat (int k + 1)) mod c_ce c1" by (simp add: k_i_def(2) mod_simps nat_add_distrib)
    moreover have "int k + 1 \<le> c_cn c1" using k alloc_pos [OF al] by linarith
    ultimately show ?thesis using q'(2) f cf by (simp add: ring_ok_def c4_def)
  qed
  have "contents c4 = contents c1 @ [c AND char_mask clp]"
    using ring_ok_contents [OF rok] ring_ok_contents [OF p(2)] ring_view_snoc [of k "ring c1" f] k length_ring [OF al]
    by (simp add: r k_i_def(2) nat_add_distrib c4_cc)
  moreover have "putc c clp = Some (0, c4)"
    using False p(1) cl b(2) q'(1) k wrap_mod [OF al i] by (simp add: putc_def wrap_def c4_def)
  moreover have "clist_ok c4" by (rule ring_ok_nz [OF rok]) (simp add: c4_cc)
  ultimately show ?thesis using False length_contents [OF assms] qu p(3,4) c4_cc by simp
qed

end
