(* ===== verification/Clist_Blocks.thy ===== *)
theory Clist_Blocks
  imports Clist_Correct
begin

text \<open>
  Block transfers, iteration and concatenation of the terminal character lists, and the
  properties of the component.
\<close>

section \<open>Removing blocks\<close>

lemma contig_used_eq:
  assumes "ring_ok clp f" and "0 < c_cc clp" and "c_cl clp = Some l"
  shows "contig_used clp f l = min (c_cc clp) (int (c_ce clp) - int f)"
proof -
  from assms have l: "l = (f + nat (c_cc clp)) mod c_ce clp" and f: "f < c_ce clp"
    and cc: "nat (c_cc clp) \<le> c_ce clp" "0 < nat (c_cc clp)" "c_cc clp = int (nat (c_cc clp))"
    by (auto simp: ring_ok_def alloc_ok_def)
  consider "f + nat (c_cc clp) < c_ce clp" | "f + nat (c_cc clp) = c_ce clp" | "c_ce clp < f + nat (c_cc clp)"
    by linarith
  then show ?thesis
  proof cases
    case 3
    then have "l = f + nat (c_cc clp) - c_ce clp" using l f cc by (simp add: le_mod_geq)
    with 3 cc f show ?thesis by (simp add: contig_used_def)
  qed (use l f cc in \<open>simp_all add: contig_used_def\<close>)
qed

lemma advance_spec:
  assumes "ring_ok clp f" and "0 \<le> m" and "m \<le> c_cc clp" and "f + nat m \<le> c_ce clp"
  defines "clp' \<equiv> clp\<lparr>c_cc := c_cc clp - m, c_cf := Some (wrap clp (f + nat m))\<rparr>"
  shows "ring_ok clp' ((f + nat m) mod c_ce clp)" and "contents clp' = drop (nat m) (contents clp)"
    and "c_cn clp' = c_cn clp" and "quoting clp' = quoting clp"
proof -
  from assms(1) have al: "alloc_ok clp" and f: "f < c_ce clp" by (auto simp: ring_ok_def)
  have w: "wrap clp (f + nat m) = (f + nat m) mod c_ce clp" using assms(4) by (simp add: wrap_def)
  have n: "nat m + nat (c_cc clp - m) = nat (c_cc clp)" "nat (c_cc clp - m) = nat (c_cc clp) - nat m"
    using assms(2,3) by linarith+
  show ok: "ring_ok clp' ((f + nat m) mod c_ce clp)"
    using assms(1-3) f by (auto simp: ring_ok_def clp'_def w mod_simps add.assoc n(1))
  show "contents clp' = drop (nat m) (contents clp)"
    using ring_ok_contents [OF ok] ring_ok_contents [OF assms(1)] length_ring [OF al] n(2)
    by (simp add: clp'_def ring_view_drop)
qed (simp_all add: clp'_def)

text \<open>One pass of the loops of \<open>q_to_b\<close> and \<open>ndflush\<close>.\<close>

lemma chunk_spec:
  assumes "ring_ok clp f" and "0 < c_cc clp" and "0 < count" and "c_cl clp = Some l"
  defines "m \<equiv> min (contig_used clp f l) count"
  shows "0 < m" and "m \<le> count" and "m \<le> c_cc clp" and "f + nat m \<le> c_ce clp"
  using assms contig_used_eq [OF assms(1,2,4)] by (auto simp: ring_ok_def min_def)

lemma low_bytes: "c_cs clp = Some b \<Longrightarrow> map ucast (ring clp) = b"
proof -
  assume "c_cs clp = Some b"
  moreover have "ucast (ucast (x :: u8) OR qrep q i) = x" for x q i
  proof -
    have "bit (qrep q i) n \<Longrightarrow> n = 8" for n
      using bit_word_exp [where 'a = 32, of 8 n] by (auto simp: qrep_def TTY_QUOTE_def split: option.splits if_splits)
    then have "\<not> bit (qrep q i) n" if "n < 8" for n using that by blast
    then show ?thesis by (intro bit_word_eqI) (simp add: bit_ucast_iff bit_or_iff)
  qed
  ultimately show ?thesis by (auto simp: ring_def cells_def comp_def map_nth)
qed

lemma read_block_spec:
  assumes "ring_ok clp f" and "0 \<le> m" and "m \<le> c_cc clp" and "f + nat m \<le> c_ce clp"
  shows "read_block clp f m = Some (map ucast (take (nat m) (contents clp)))"
proof -
  from assms(1) have al: "alloc_ok clp" by (simp add: ring_ok_def)
  then obtain b where b: "c_cs clp = Some b" "length b = c_ce clp" by (auto simp: alloc_ok_def split: option.splits)
  have "take (nat m) (contents clp) = take (nat m) (drop f (ring clp))"
    using ring_ok_contents [OF assms(1)] ring_view_take [OF nat_mono [OF assms(3)], of "ring clp" f]
      ring_view_contig [of f "nat m" "ring clp"] assms(4) length_ring [OF al] by simp
  then have "map ucast (take (nat m) (contents clp)) = take (nat m) (drop f b)"
    using low_bytes [OF b(1)] by (metis take_map drop_map)
  with b assms(2,4) show ?thesis by (simp add: read_block_def)
qed

lemma q_to_b_loop_spec:
  "ring_ok clp f \<Longrightarrow> \<exists>clp' f'. q_to_b_loop clp p count = Some (p @ map ucast (take (nat count) (contents clp)), clp')
     \<and> ring_ok clp' f' \<and> contents clp' = drop (nat count) (contents clp)
     \<and> c_cn clp' = c_cn clp \<and> quoting clp' = quoting clp"
proof (induction "nat count" arbitrary: clp f p count rule: less_induct)
  case less
  show ?case
  proof (cases "count > 0 \<and> c_cc clp > 0")
    case False
    then have "take (nat count) (contents clp) = []" "drop (nat count) (contents clp) = contents clp"
      using ring_ok_contents [OF less.prems] by auto
    then show ?thesis using False less.prems by (subst q_to_b_loop.simps) auto
  next
    case True
    from less.prems obtain l where l: "c_cf clp = Some f" "c_cl clp = Some l" by (auto simp: ring_ok_def)
    define m where "m = min (contig_used clp f l) count"
    have m: "0 < m" "m \<le> count" "m \<le> c_cc clp" "f + nat m \<le> c_ce clp"
      using chunk_spec [OF less.prems _ _ l(2), of count] True by (auto simp: m_def)
    let ?c = "clp\<lparr>c_cc := c_cc clp - m, c_cf := Some (wrap clp (f + nat m))\<rparr>"
    let ?bs = "map ucast (take (nat m) (contents clp))"
    note adv = advance_spec [OF less.prems _ m(3,4)]
    have rb: "read_block clp f m = Some ?bs" using read_block_spec [OF less.prems _ m(3,4)] m(1) by simp
    have "q_to_b_loop clp p count = q_to_b_loop ?c (p @ ?bs) (count - m)"
      by (subst q_to_b_loop.simps) (use True l rb in \<open>simp add: m_def [symmetric]\<close>)
    moreover have "nat (count - m) < nat count" using m by linarith
    from less.hyps [OF this adv(1), of "p @ ?bs"] m(1) obtain clp' f' where
      "q_to_b_loop ?c (p @ ?bs) (count - m) = Some ((p @ ?bs) @ map ucast (take (nat (count - m)) (contents ?c)), clp')"
      "ring_ok clp' f'" "contents clp' = drop (nat (count - m)) (contents ?c)" "c_cn clp' = c_cn clp" "quoting clp' = quoting clp"
      by auto
    moreover have "nat count = nat m + nat (count - m)" using m by linarith
    ultimately show ?thesis using adv(2) m(1) by (auto simp: take_add add.commute map_append [symmetric] simp del: map_append)
  qed
qed

lemma ndflush_loop_spec:
  "ring_ok clp f \<Longrightarrow> \<exists>clp' f'. ndflush_loop clp count = Some clp'
     \<and> ring_ok clp' f' \<and> contents clp' = drop (nat count) (contents clp)
     \<and> c_cn clp' = c_cn clp \<and> quoting clp' = quoting clp"
proof (induction "nat count" arbitrary: clp f count rule: less_induct)
  case less
  show ?case
  proof (cases "count > 0 \<and> c_cc clp > 0")
    case False
    then have "drop (nat count) (contents clp) = contents clp" using ring_ok_contents [OF less.prems] by auto
    then show ?thesis using False less.prems by (subst ndflush_loop.simps) auto
  next
    case True
    from less.prems obtain l where l: "c_cf clp = Some f" "c_cl clp = Some l" by (auto simp: ring_ok_def)
    define m where "m = min (contig_used clp f l) count"
    have m: "0 < m" "m \<le> count" "m \<le> c_cc clp" "f + nat m \<le> c_ce clp"
      using chunk_spec [OF less.prems _ _ l(2), of count] True by (auto simp: m_def)
    let ?c = "clp\<lparr>c_cc := c_cc clp - m, c_cf := Some (wrap clp (f + nat m))\<rparr>"
    note adv = advance_spec [OF less.prems _ m(3,4)]
    have "ndflush_loop clp count = ndflush_loop ?c (count - m)"
      by (subst ndflush_loop.simps) (use True l in \<open>simp add: m_def [symmetric]\<close>)
    moreover have "nat (count - m) < nat count" using m by linarith
    from less.hyps [OF this adv(1)] m(1) obtain clp' f' where
      "ndflush_loop ?c (count - m) = Some clp'"
      "ring_ok clp' f'" "contents clp' = drop (nat (count - m)) (contents ?c)" "c_cn clp' = c_cn clp" "quoting clp' = quoting clp"
      by auto
    moreover have "nat count = nat m + nat (count - m)" using m by linarith
    ultimately show ?thesis using adv(2) m(1) by (auto simp: add.commute)
  qed
qed

lemma empty_loops:
  assumes "c_cc clp = 0"
  shows "q_to_b_loop clp p count = Some (p, clp)" and "ndflush_loop clp count = Some clp"
  by (subst q_to_b_loop.simps ndflush_loop.simps; simp add: assms)+

lemma reset_empty: "clist_ok clp \<Longrightarrow> c_cc clp = 0 \<Longrightarrow> reset_if_empty clp = clp"
  by (auto simp: clist_ok_def reset_if_empty_def)

lemma q_to_b_spec:
  assumes "clist_ok clp"
  shows "\<exists>clp'. q_to_b clp count = Some (map ucast (take (nat count) (contents clp)), clp') \<and> clist_ok clp'
    \<and> contents clp' = drop (nat count) (contents clp) \<and> c_cn clp' = c_cn clp \<and> quoting clp' = quoting clp"
proof (cases "c_cc clp = 0")
  case True
  then show ?thesis using assms contents_empty [OF assms] empty_loops [OF True] reset_empty [OF assms True]
    by (simp add: q_to_b_def)
next
  case False
  then obtain f where f: "ring_ok clp f" using clist_ok_ring [OF assms] clist_ok_cc [OF assms] by fastforce
  from q_to_b_loop_spec [OF f, of "[]" count] obtain clp' f' where
    "q_to_b_loop clp [] count = Some (map ucast (take (nat count) (contents clp)), clp')" "ring_ok clp' f'"
    "contents clp' = drop (nat count) (contents clp)" "c_cn clp' = c_cn clp" "quoting clp' = quoting clp" by auto
  then show ?thesis using ring_ok_reset [of clp' f'] by (simp add: q_to_b_def)
qed

lemma ndflush_spec:
  assumes "clist_ok clp"
  shows "\<exists>clp'. ndflush clp count = Some clp' \<and> clist_ok clp'
    \<and> contents clp' = drop (nat count) (contents clp) \<and> c_cn clp' = c_cn clp \<and> quoting clp' = quoting clp"
proof -
  consider "count = c_cc clp" | "count \<noteq> c_cc clp" "c_cc clp = 0" | "count \<noteq> c_cc clp" "c_cc clp \<noteq> 0" by blast
  then show ?thesis
  proof cases
    case 1
    have "length (contents clp) = nat count" using length_contents [OF assms] 1 by simp
    moreover have "c_cs clp = None \<and> c_cq clp = None \<and> 0 < c_cn clp \<or> alloc_ok clp"
      using assms by (auto simp: clist_ok_def ring_ok_def split: option.splits)
    ultimately show ?thesis using 1 alloc_pos [of clp]
      by (auto simp: ndflush_def clist_ok_def contents_def)
  next
    case 2
    then show ?thesis using assms contents_empty [OF assms] empty_loops [OF 2(2)] reset_empty [OF assms 2(2)]
      by (simp add: ndflush_def)
  next
    case 3
    then obtain f where f: "ring_ok clp f" using clist_ok_ring [OF assms] clist_ok_cc [OF assms] by fastforce
    from ndflush_loop_spec [OF f, of count] obtain clp' f' where
      "ndflush_loop clp count = Some clp'" "ring_ok clp' f'"
      "contents clp' = drop (nat count) (contents clp)" "c_cn clp' = c_cn clp" "quoting clp' = quoting clp" by auto
    then show ?thesis using 3 ring_ok_reset [of clp' f'] by (simp add: ndflush_def)
  qed
qed

section \<open>Adding blocks\<close>

lemma cells_overwrite:
  assumes "l + length vs \<le> length b" and "\<forall>j. qrep q' j = (if l \<le> j \<and> j < l + length vs then 0 else qrep q j)"
  shows "cells (overwrite b l vs) q' = overwrite (cells b q) l (map ucast vs)"
proof (rule nth_equalityI)
  fix i assume "i < length (cells (overwrite b l vs) q')"
  then have i: "i < length b" using assms(1) by (simp add: cells_def)
  have len: "l + length (map ucast vs) \<le> length (cells b q)" using assms(1) by (simp add: cells_def)
  show "cells (overwrite b l vs) q' ! i = overwrite (cells b q) l (map ucast vs) ! i"
    using i assms len nth_overwrite [OF assms(1) i] nth_overwrite [OF len, of i] by (auto simp: cells_def)
qed (use assms(1) in \<open>simp add: cells_def\<close>)

lemma clear_quotes_spec:
  assumes "alloc_ok clp" and "0 < n" and "i + n \<le> c_ce clp"
  shows "\<exists>q'. clear_quotes clp i n = Some (clp\<lparr>c_cq := q'\<rparr>) \<and> alloc_ok (clp\<lparr>c_cq := q'\<rparr>)
    \<and> (q' = None \<longleftrightarrow> c_cq clp = None)
    \<and> (\<forall>j. qrep q' j = (if i \<le> j \<and> j < i + n then 0 else qrep (c_cq clp) j))"
proof (cases "c_cq clp")
  case None
  with assms(1) show ?thesis
    by (intro exI [of _ None]) (simp add: clear_quotes_def qrep_def alloc_ok_def split: option.splits)
next
  case (Some q)
  with assms(1) have len: "length q = nat (QMEM (c_cn clp))" by (simp add: alloc_ok_def)
  have "int (i + n) \<le> c_cn clp" using assms(2,3) alloc_pos [OF assms(1)] by linarith
  moreover have "c_cn clp \<le> 8 * QMEM (c_cn clp)" unfolding QMEM_def by presburger
  ultimately have "i + n \<le> 8 * length q" unfolding len by linarith
  from clrbits_qbit [OF assms(2) this] obtain q' where q': "clrbits q i n = Some q'" "length q' = length q"
    "\<forall>j. qbit q' j \<longleftrightarrow> qbit q j \<and> \<not> (i \<le> j \<and> j < i + n)" by blast
  have "clear_quotes clp i n = Some (clp\<lparr>c_cq := Some q'\<rparr>)" using Some q'(1) by (simp add: clear_quotes_def)
  moreover have "alloc_ok (clp\<lparr>c_cq := Some q'\<rparr>)" using assms(1) q'(2) len by (auto simp: alloc_ok_def split: option.splits)
  ultimately show ?thesis using Some q'(3) by (intro exI [of _ "Some q'"]) (auto simp: qrep_def)
qed

text \<open>One pass of the loop of \<open>b_to_q\<close>.\<close>

definition free_run :: "clist \<Rightarrow> nat \<Rightarrow> nat \<Rightarrow> int" where
  "free_run clp f l = (if f > l then int f - int l else int (c_ce clp) - int l)"

lemma free_run_bounds:
  assumes "ring_ok clp f" and "c_cc clp < c_cn clp" and "c_cl clp = Some l"
  shows "0 < free_run clp f l" and "free_run clp f l \<le> c_cn clp - c_cc clp" and "int l + free_run clp f l \<le> int (c_ce clp)"
proof -
  from assms have l: "l = (f + nat (c_cc clp)) mod c_ce clp" and f: "f < c_ce clp"
    and cc: "nat (c_cc clp) < c_ce clp" "c_cc clp = int (nat (c_cc clp))" "c_cn clp = int (c_ce clp)"
    by (auto simp: ring_ok_def alloc_ok_def)
  have "0 < free_run clp f l \<and> free_run clp f l \<le> c_cn clp - c_cc clp \<and> int l + free_run clp f l \<le> int (c_ce clp)"
  proof (cases "f + nat (c_cc clp) < c_ce clp")
    case False
    then have "l = f + nat (c_cc clp) - c_ce clp" using l f cc by (simp add: le_mod_geq)
    moreover from this False cc(1) f have "l < f" by linarith
    moreover from this have "free_run clp f l = int f - int l" by (simp add: free_run_def)
    ultimately show ?thesis using False cc f by linarith
  qed (use l f cc in \<open>simp add: free_run_def\<close>)
  then show "0 < free_run clp f l" "free_run clp f l \<le> c_cn clp - c_cc clp" "int l + free_run clp f l \<le> int (c_ce clp)"
    by auto
qed

lemma append_block:
  assumes "ring_ok clp f" and "c_cl clp = Some l" and "vs \<noteq> []"
    and "c_cc clp + int (length vs) \<le> c_cn clp" and "l + length vs \<le> c_ce clp"
  shows "\<exists>clp2. (do { clp1 \<leftarrow> write_block clp l vs; clear_quotes clp1 l (length vs) }) = Some clp2
    \<and> ring_ok (clp2\<lparr>c_cc := c_cc clp + int (length vs), c_cl := Some (wrap clp (l + length vs))\<rparr>) f
    \<and> contents (clp2\<lparr>c_cc := c_cc clp + int (length vs), c_cl := Some (wrap clp (l + length vs))\<rparr>)
        = contents clp @ map ucast vs
    \<and> c_cn clp2 = c_cn clp \<and> quoting clp2 = quoting clp"
proof -
  let ?n = "length vs"
  from assms(1) have al: "alloc_ok clp" and f: "f < c_ce clp" and cf: "c_cf clp = Some f" and cc: "0 \<le> c_cc clp"
    and l: "l = (f + nat (c_cc clp)) mod c_ce clp" using assms(2) by (auto simp: ring_ok_def)
  then obtain b where b: "c_cs clp = Some b" "length b = c_ce clp" by (auto simp: alloc_ok_def split: option.splits)
  let ?c1 = "clp\<lparr>c_cs := Some (overwrite b l vs)\<rparr>"
  have w: "write_block clp l vs = Some ?c1" using b assms(5) by (simp add: write_block_def)
  have al1: "alloc_ok ?c1" using al b assms(5) by (simp add: alloc_ok_def split: option.splits)
  from clear_quotes_spec [OF al1, of ?n l] assms(3,5) obtain q' where
    q': "clear_quotes ?c1 l ?n = Some (?c1\<lparr>c_cq := q'\<rparr>)" "alloc_ok (?c1\<lparr>c_cq := q'\<rparr>)" "q' = None \<longleftrightarrow> c_cq clp = None"
    "\<forall>j. qrep q' j = (if l \<le> j \<and> j < l + ?n then 0 else qrep (c_cq clp) j)" by auto
  define c2 where "c2 = ?c1\<lparr>c_cq := q'\<rparr>"
  define c3 where "c3 = c2\<lparr>c_cc := c_cc clp + int ?n, c_cl := Some (wrap clp (l + ?n))\<rparr>"
  have "ring c3 = cells (overwrite b l vs) q'" using b(1) by (simp add: c3_def c2_def ring_cq)
  also have "\<dots> = overwrite (ring clp) l (map ucast vs)"
    using cells_overwrite [of l vs b q' "c_cq clp"] q'(4) assms(5) b by (simp add: ring_def)
  finally have r: "ring c3 = overwrite (ring clp) l (map ucast vs)" .
  have cn: "c_cn clp = int (c_ce clp)" using alloc_pos [OF al] by simp
  have "wrap clp (l + ?n) = (f + nat (c_cc clp + int ?n)) mod c_ce clp"
  proof -
    have "wrap clp (l + ?n) = (l + ?n) mod c_ce clp" using assms(5) by (auto simp: wrap_def)
    also have "\<dots> = (f + nat (c_cc clp) + ?n) mod c_ce clp" by (simp add: l mod_add_left_eq)
    finally show ?thesis using cc by (simp add: nat_add_distrib add.assoc)
  qed
  then have rok: "ring_ok c3 f"
    using q'(2) assms(4) f cf cc by (simp add: ring_ok_def c3_def c2_def)
  have "contents c3 = contents clp @ map ucast vs"
    using ring_ok_contents [OF rok] ring_ok_contents [OF assms(1)]
      ring_view_block [of l f "nat (c_cc clp)" "ring clp" "map ucast vs"] l assms(4,5) cc cn length_ring [OF al]
    by (simp add: r nat_add_distrib) (simp add: c3_def nat_add_distrib)
  moreover have "(do { clp1 \<leftarrow> write_block clp l vs; clear_quotes clp1 l ?n }) = Some c2" using w q'(1) by (simp add: c2_def)
  moreover have "c_cn c2 = c_cn clp \<and> quoting c2 = quoting clp" using b(1) q'(3) by (simp add: c2_def quoting_def)
  ultimately show ?thesis using rok unfolding c3_def by blast
qed

lemma b_to_q_loop_spec:
  "ring_ok clp f \<Longrightarrow> \<exists>clp'. b_to_q_loop p clp = Some (int (length p) - min (int (length p)) (c_cn clp - c_cc clp), clp')
     \<and> ring_ok clp' f \<and> contents clp' = contents clp @ map ucast (take (nat (c_cn clp - c_cc clp)) p)
     \<and> c_cn clp' = c_cn clp \<and> quoting clp' = quoting clp"
proof (induction "length p" arbitrary: clp p rule: less_induct)
  case less
  from less.prems have cc: "c_cc clp \<le> c_cn clp" by (simp add: ring_ok_def)
  show ?case
  proof (cases "p \<noteq> [] \<and> c_cc clp < c_cn clp")
    case False
    then show ?thesis using less.prems cc by (subst b_to_q_loop.simps) (auto simp: min_def)
  next
    case True
    from less.prems obtain l where l: "c_cf clp = Some f" "c_cl clp = Some l" by (auto simp: ring_ok_def)
    note fr = free_run_bounds [OF less.prems _ l(2)]
    define n where "n = nat (min (free_run clp f l) (int (length p)))"
    have n: "int n = min (free_run clp f l) (int (length p))" "0 < n" "n \<le> length p" using fr(1) True by (auto simp: n_def)
    have len: "length (take n p) = n" using n(3) by simp
    have bnd: "c_cc clp + int n \<le> c_cn clp" "l + n \<le> c_ce clp" using fr True n(1) by linarith+
    from append_block [OF less.prems l(2), of "take n p"] obtain c2 where c2:
      "(do { clp1 \<leftarrow> write_block clp l (take n p); clear_quotes clp1 l n }) = Some c2"
      "ring_ok (c2\<lparr>c_cc := c_cc clp + int n, c_cl := Some (wrap clp (l + n))\<rparr>) f"
      "contents (c2\<lparr>c_cc := c_cc clp + int n, c_cl := Some (wrap clp (l + n))\<rparr>) = contents clp @ map ucast (take n p)"
      "c_cn c2 = c_cn clp" "quoting c2 = quoting clp" using True n(2,3) bnd unfolding len by auto
    let ?c3 = "c2\<lparr>c_cc := c_cc clp + int n, c_cl := Some (wrap clp (l + n))\<rparr>"
    have "b_to_q_loop p clp = b_to_q_loop (drop n p) ?c3"
      by (subst b_to_q_loop.simps)
        (use True l c2(1) in \<open>auto simp: free_run_def [symmetric] n(1) [symmetric] bind_eq_Some_conv\<close>)
    moreover have "length (drop n p) < length p" using n by simp
    from less.hyps [OF this c2(2)] obtain c4 where c4:
      "b_to_q_loop (drop n p) ?c3 = Some (int (length p - n) - min (int (length p - n)) (c_cn clp - (c_cc clp + int n)), c4)"
      "ring_ok c4 f" "contents c4 = contents ?c3 @ map ucast (take (nat (c_cn clp - (c_cc clp + int n))) (drop n p))"
      "c_cn c4 = c_cn clp" "quoting c4 = quoting clp" using c2(4,5) by auto
    moreover have "nat (c_cn clp - c_cc clp) = n + nat (c_cn clp - (c_cc clp + int n))" using bnd by linarith
    then have "take (nat (c_cn clp - c_cc clp)) p = take n p @ take (nat (c_cn clp - (c_cc clp + int n))) (drop n p)"
      by (simp only: take_add)
    moreover have "int (length p - n) - min (int (length p - n)) (c_cn clp - (c_cc clp + int n))
        = int (length p) - min (int (length p)) (c_cn clp - c_cc clp)" using n(3) by (simp add: min_def)
    ultimately show ?thesis using c2(3) by simp
  qed
qed

lemma b_to_q_spec:
  assumes "clist_ok clp"
  shows "\<exists>clp'. b_to_q p clp = Some (int (length p) - min (int (length p)) (c_cn clp - c_cc clp), clp') \<and> clist_ok clp'
    \<and> contents clp' = contents clp @ map ucast (take (nat (c_cn clp - c_cc clp)) p)
    \<and> c_cn clp' = c_cn clp \<and> quoting clp' = quoting clp"
proof -
  consider "p = []" | "p \<noteq> []" "c_cc clp = c_cn clp" | "p \<noteq> []" "c_cc clp \<noteq> c_cn clp" by blast
  then show ?thesis
  proof cases
    case 3
    obtain c1 f where c1: "prepare clp = Some c1" "ring_ok c1 f" "contents c1 = contents clp" "c_cn c1 = c_cn clp"
      "c_cc c1 = c_cc clp" "quoting c1 = quoting clp" using prepare_spec [OF assms] by blast
    from b_to_q_loop_spec [OF c1(2), of p] obtain c2 where c2:
      "b_to_q_loop p c1 = Some (int (length p) - min (int (length p)) (c_cn clp - c_cc clp), c2)"
      "ring_ok c2 f" "contents c2 = contents clp @ map ucast (take (nat (c_cn clp - c_cc clp)) p)"
      "c_cn c2 = c_cn clp" "quoting c2 = quoting clp" using c1 by auto
    have "contents c2 \<noteq> []" using c2(3) 3 clist_ok_cc [OF assms] by auto
    then have "c_cc c2 \<noteq> 0" using ring_ok_contents [OF c2(2)] by auto
    with c2 c1(1) 3 ring_ok_nz [OF c2(2)] show ?thesis by (simp add: b_to_q_def)
  qed (use assms clist_ok_cc [OF assms] in \<open>simp_all add: b_to_q_def\<close>)
qed

section \<open>The last character, iteration and concatenation\<close>

lemma unputc_spec:
  assumes "clist_ok clp"
  shows "if contents clp = [] then unputc clp = Some (EOF, clp)
    else \<exists>clp'. unputc clp = Some (last (contents clp), clp') \<and> clist_ok clp' \<and> contents clp' = butlast (contents clp)
      \<and> c_cn clp' = c_cn clp \<and> quoting clp' = quoting clp"
proof (cases "c_cc clp = 0")
  case True
  then show ?thesis using contents_empty [OF assms] by (simp add: unputc_def)
next
  case False
  then have "0 < c_cc clp" using clist_ok_cc [OF assms] by simp
  then obtain k where k: "c_cc clp = int (Suc k)" using gr0_implies_Suc [of "nat (c_cc clp)"] by (metis int_nat_eq order_less_imp_le zero_less_nat_eq)
  then obtain f where f: "ring_ok clp f" using clist_ok_ring [OF assms] by auto
  then have al: "alloc_ok clp" and fe: "f < c_ce clp" and cf: "c_cf clp = Some f" and le: "c_cc clp \<le> c_cn clp"
    and cl: "c_cl clp = Some ((f + Suc k) mod c_ce clp)" using k by (auto simp: ring_ok_def nat_add_distrib)
  define l' where "l' = (f + k) mod c_ce clp"
  have l': "l' < c_ce clp" using fe by (simp add: l'_def)
  have "(f + Suc k) mod c_ce clp = (if Suc l' = c_ce clp then 0 else Suc l')"
    using fe by (auto simp: l'_def mod_Suc)
  then have "(if (f + Suc k) mod c_ce clp = 0 then c_ce clp - 1 else (f + Suc k) mod c_ce clp - 1) = l'" by auto
  with cl obtain l where l: "c_cl clp = Some l" and pred: "(if l = 0 then c_ce clp - 1 else l - 1) = l'" by blast
  let ?c = "clp\<lparr>c_cl := Some l', c_cc := int k\<rparr>"
  have rok: "ring_ok ?c f" using al fe cf le k by (simp add: ring_ok_def l'_def)
  have ct: "contents clp = contents ?c @ [ring clp ! l']"
    using ring_ok_contents [OF f] ring_ok_contents [OF rok] k length_ring [OF al]
    by (simp add: ring_view_last l'_def nat_add_distrib)
  have "unputc clp = Some (ring clp ! l', reset_if_empty ?c)"
    unfolding unputc_def l Option.bind.simps pred Let_def using False k char_at_ring [of ?c l'] al l' by simp
  then show ?thesis using ring_ok_reset [OF rok] ct by simp
qed

text \<open>The loop with which the callers walk a list: \<open>firstc\<close>, then \<open>nextc\<close> until it gives null.\<close>

fun walk :: "nat \<Rightarrow> clist \<Rightarrow> (nat option \<times> u32 option \<times> int) option \<Rightarrow> u32 list option" where
  "walk 0 clp st = None"
| "walk (Suc n) clp st = do { (cp, c, cc) \<leftarrow> st;
     case cp of None \<Rightarrow> Some []
     | Some _ \<Rightarrow> do { x \<leftarrow> c; xs \<leftarrow> walk n clp (nextc clp cp cc); Some (x # xs) } }"

lemma walk_tail:
  assumes "ring_ok clp f" and "0 < c_cc clp"
  shows "i < nat (c_cc clp) \<Longrightarrow> nat (c_cc clp) - i < n \<Longrightarrow>
    walk n clp (Some (Some ((f + i) mod c_ce clp), Some (contents clp ! i), c_cc clp - int i)) = Some (drop i (contents clp))"
proof (induction n arbitrary: i)
  case (Suc n)
  from assms(1) have al: "alloc_ok clp" and f: "f < c_ce clp" "c_cf clp = Some f" and le: "nat (c_cc clp) \<le> c_ce clp"
    by (auto simp: ring_ok_def alloc_ok_def)
  define p where "p = (f + i) mod c_ce clp"
  have p: "p < c_ce clp" using f by (simp add: p_def)
  have "f = p \<longleftrightarrow> i = 0" using ring_mod_inj [of f 0 "c_ce clp" i] f(1) le Suc.prems(1) by (auto simp: p_def)
  then have cc: "(if c_cf clp = Some p then c_cc clp else c_cc clp - int i) = c_cc clp - int i" using f(2) by auto
  have w: "wrap clp (p + 1) = (f + (i + 1)) mod c_ce clp" using wrap_mod [OF al p] by (simp add: p_def mod_simps)
  have len: "length (contents clp) = nat (c_cc clp)" using ring_ok_contents [OF assms(1)] by simp
  have nx: "nextc clp (Some p) (c_cc clp - int i) = (if i + 1 = nat (c_cc clp) then Some (None, None, 0)
      else Some (Some ((f + (i + 1)) mod c_ce clp), Some (contents clp ! (i + 1)), c_cc clp - int (i + 1)))"
  proof (cases "i + 1 = nat (c_cc clp)")
    case True
    then have "c_cc clp - int i = 1" by linarith
    with True show ?thesis unfolding nextc_def cc Let_def by simp
  next
    case False
    with Suc.prems(1) have "i + 1 < nat (c_cc clp)" by linarith
    then have "contents clp ! (i + 1) = ring clp ! ((f + (i + 1)) mod c_ce clp)"
      using ring_ok_contents [OF assms(1)] length_ring [OF al] by simp
    moreover have "char_at clp (Some ((f + (i + 1)) mod c_ce clp)) = Some (ring clp ! ((f + (i + 1)) mod c_ce clp))"
      using char_at_ring [OF al] f(1) by simp
    moreover have "c_cc clp - int i \<noteq> 0" "c_cc clp - int i - 1 \<noteq> 0" using False Suc.prems(1) by linarith+
    ultimately show ?thesis using False w unfolding nextc_def cc Let_def by simp
  qed
  from Suc.prems(2) obtain n' where n': "n = Suc n'" using Suc.prems(1) by (cases n) auto
  have "drop i (contents clp) = contents clp ! i # drop (i + 1) (contents clp)"
    using Suc.prems(1) len by (simp add: Cons_nth_drop_Suc)
  then show ?case
    using nx Suc.IH [of "i + 1"] Suc.prems len n' unfolding p_def [symmetric] by (cases "i + 1 = nat (c_cc clp)") auto
qed simp

lemma walk_spec:
  assumes "clist_ok clp" and "nat (c_cc clp) < n"
  shows "walk n clp (firstc clp) = Some (contents clp)"
proof (cases "c_cc clp = 0")
  case True
  then show ?thesis using contents_empty [OF assms(1)] assms(2) by (cases n) (simp_all add: firstc_def)
next
  case False
  then have pos: "0 < c_cc clp" using clist_ok_cc [OF assms(1)] by simp
  then obtain f where f: "ring_ok clp f" using clist_ok_ring [OF assms(1)] by blast
  then have al: "alloc_ok clp" and fe: "f < c_ce clp" "c_cf clp = Some f" by (auto simp: ring_ok_def)
  have "firstc clp = Some (Some f, Some (contents clp ! 0), c_cc clp)"
    using False char_at_ring [OF al fe(1)] ring_ok_contents [OF f] pos fe length_ring [OF al] by (simp add: firstc_def)
  then show ?thesis using walk_tail [OF f pos, of 0 n] pos assms(2) fe by simp
qed

lemma contents_char:
  assumes "clist_ok clp" and "c \<in> set (contents clp)"
  shows "c AND 0x1ff = c" and "c \<noteq> EOF"
proof -
  from assms(2) have "c_cc clp \<noteq> 0" using contents_empty [OF assms(1)] by auto
  then obtain f where f: "ring_ok clp f" using clist_ok_ring [OF assms(1)] clist_ok_cc [OF assms(1)] by fastforce
  then have al: "alloc_ok clp" and fe: "f < c_ce clp" by (auto simp: ring_ok_def)
  then obtain b where b: "c_cs clp = Some b" "length b = c_ce clp" by (auto simp: alloc_ok_def split: option.splits)
  from assms(2) obtain i where "c = ring clp ! ((f + i) mod c_ce clp)"
    using ring_ok_contents [OF f] length_ring [OF al] by (auto simp: in_set_conv_nth)
  moreover have "(f + i) mod c_ce clp < length b" using fe b by simp
  ultimately obtain x j where c: "c = ucast (x :: u8) OR qrep (c_cq clp) j" using b by (auto simp: ring_def cells_def)
  have nine: "n < 9 \<longleftrightarrow> n < 8 \<or> n = (8 :: nat)" for n by arith
  have q: "bit (qrep (c_cq clp) j) n \<Longrightarrow> n = 8" for n
    using bit_word_exp [where 'a = 32, of 8 n] by (auto simp: qrep_def TTY_QUOTE_def split: option.splits if_splits)
  have "bit (ucast x :: u32) n \<Longrightarrow> n < 8" for n by (auto simp: bit_ucast_iff dest: bit_imp_le_length)
  with q show m: "c AND 0x1ff = c"
    unfolding c byte_mask by (intro bit_word_eqI) (auto simp: bit_and_iff bit_or_iff bit_mask_iff nine)
  show "c \<noteq> EOF"
  proof
    assume "c = EOF"
    with m show False by simp
  qed
qed

lemma catq_spec:
  "clist_ok from' \<Longrightarrow> clist_ok to' \<Longrightarrow> \<exists>from1 to1. catq from' to' = Some (from1, to1) \<and> clist_ok from1 \<and> clist_ok to1
     \<and> contents from1 = []
     \<and> contents to1 = contents to' @ take (nat (c_cn to' - c_cc to')) (map (\<lambda>c. c AND char_mask to') (contents from'))
     \<and> c_cn to1 = c_cn to'"
proof (induction "contents from'" arbitrary: from' to')
  case Nil
  then have "getc from' = Some (EOF, from')" using getc_spec [of from'] by (simp split: list.splits)
  with Nil show ?case by (subst catq.simps) auto
next
  case (Cons c cs)
  from getc_spec [OF Cons.prems(1)] obtain f1 where f1: "getc from' = Some (c, f1)" "clist_ok f1" "contents f1 = cs"
    unfolding Cons.hyps(2) [symmetric] by auto
  have ne: "c \<noteq> EOF" using contents_char(2) [OF Cons.prems(1), of c] by (simp flip: Cons.hyps(2))
  note len = length_contents [OF Cons.prems(2)] and cc = clist_ok_cc [OF Cons.prems(2)]
  show ?case
  proof (cases "c_cc to' = c_cn to'")
    case True
    then have "putc c to' = Some (EOF, to')" using putc_spec [OF Cons.prems(2), of c] len by simp
    then have "catq from' to' = catq f1 to'" by (subst catq.simps) (use f1 ne in simp)
    with Cons.hyps(1) [OF f1(3) [symmetric] f1(2) Cons.prems(2)] True show ?thesis by simp
  next
    case False
    then obtain t1 where t1: "putc c to' = Some (0, t1)" "clist_ok t1" "contents t1 = contents to' @ [c AND char_mask to']"
      "c_cn t1 = c_cn to'" "quoting t1 = quoting to'" using putc_spec [OF Cons.prems(2), of c] len by auto
    have eq: "catq from' to' = catq f1 t1" by (subst catq.simps) (use f1 ne t1 in simp)
    have m: "char_mask t1 = char_mask to'" using t1(5) by (simp add: char_mask_def)
    have "c_cc t1 = c_cc to' + 1" using length_contents [OF t1(2)] len t1(3) by simp
    then have n: "nat (c_cn to' - c_cc to') = Suc (nat (c_cn to' - c_cc t1))" using False cc by linarith
    from Cons.hyps(1) [OF f1(3) [symmetric] f1(2) t1(2)] f1(3) show ?thesis
      unfolding eq n Cons.hyps(2) [symmetric] t1(3,4) m by auto
  qed
qed

lemma ndqb_loop_spec:
  assumes "c_cs clp = Some b" and "c_cn clp = int (length b)"
  shows "i < length b \<Longrightarrow> ndqb_loop clp flag k i count
    = Some (count + int (length (takeWhile (\<lambda>x. ucast x AND flag = 0) (take k (drop i b)))))"
proof (induction k arbitrary: i count)
  case (Suc k)
  have d: "drop i b = b ! i # drop (i + 1) b" using Suc.prems by (simp add: Cons_nth_drop_Suc)
  show ?case
  proof (cases "i + 1 = length b")
    case True
    then show ?thesis using Suc.prems assms by (simp add: deref_def d)
  next
    case False
    with Suc.prems have "i + 1 < length b" by simp
    from Suc.IH [OF this, of "count + 1"] False Suc.prems assms show ?thesis
      by (auto simp: deref_def d)
  qed
qed simp

lemma ndqb_spec:
  assumes "clist_ok clp" and "contents clp \<noteq> []"
  shows "\<exists>f n. c_cf clp = Some f \<and> ndqb clp 0 = Some n \<and> 0 < n \<and> n \<le> c_cc clp
      \<and> (n < c_cc clp \<longrightarrow> f + nat n = c_ce clp)
      \<and> read_block clp f n = Some (map ucast (take (nat n) (contents clp)))
      \<and> (\<forall>flag. flag \<noteq> 0 \<longrightarrow> flag AND TTY_QUOTE = 0 \<longrightarrow> ndqb clp flag =
          Some (int (length (takeWhile (\<lambda>x. ucast (ucast x :: u8) AND flag = 0) (take (nat n) (contents clp))))))"
proof -
  from assms have pos: "0 < c_cc clp" using contents_empty clist_ok_cc by fastforce
  then obtain f where f: "ring_ok clp f" using clist_ok_ring [OF assms(1)] by blast
  then obtain l where l: "c_cf clp = Some f" "c_cl clp = Some l" and al: "alloc_ok clp" and fe: "f < c_ce clp"
    by (auto simp: ring_ok_def)
  then obtain b where b: "c_cs clp = Some b" "length b = c_ce clp" by (auto simp: alloc_ok_def split: option.splits)
  define n where "n = min (c_cc clp) (int (c_ce clp) - int f)"
  have "ndqb clp 0 = Some (contig_used clp f l)"
    using pos l by (auto simp: ndqb_def contig_used_def Let_def)
  then have nd: "ndqb clp 0 = Some n" using contig_used_eq [OF f pos l(2)] by (simp add: n_def)
  have n: "0 < n" "n \<le> c_cc clp" "f + nat n \<le> c_ce clp" "n < c_cc clp \<longrightarrow> f + nat n = c_ce clp"
    using pos fe by (auto simp: n_def min_def)
  have rb: "read_block clp f n = Some (map ucast (take (nat n) (contents clp)))"
    using read_block_spec [OF f _ n(2,3)] n(1) by simp
  then have tk: "take (nat n) (drop f b) = map ucast (take (nat n) (contents clp))"
    using b n(1) n(3) by (simp add: read_block_def)
  have "take (nat (c_cc clp)) (drop f b) = take (nat n) (drop f b)"
    using n b(2) by (cases "n < c_cc clp") auto
  moreover have "ndqb clp flag = Some (int (length (takeWhile (\<lambda>x. ucast x AND flag = 0) (take (nat (c_cc clp)) (drop f b)))))"
    if "flag \<noteq> 0" "flag AND TTY_QUOTE = 0" for flag
    using ndqb_loop_spec [OF b(1), of f flag "nat (c_cc clp)" 0] fe b alloc_pos [OF al] that pos l by (simp add: ndqb_def)
  ultimately show ?thesis using l(1) nd n rb by (auto simp: tk takeWhile_map comp_def)
qed

section \<open>The clist as a bounded queue\<close>

definition clist_put :: "u32 \<Rightarrow> clist \<Rightarrow> clist option" where
  "clist_put c clp = (case putc c clp of Some (r, clp') \<Rightarrow> if r = EOF then None else Some clp' | None \<Rightarrow> None)"

definition clist_get :: "clist \<Rightarrow> (u32 \<times> clist) option" where
  "clist_get clp = (case getc clp of Some (c, clp') \<Rightarrow> if c = EOF then None else Some (c, clp') | None \<Rightarrow> None)"

definition clist_char :: "clist \<Rightarrow> u32 \<Rightarrow> bool" where
  "clist_char clp c \<longleftrightarrow> c AND char_mask clp = c"

interpretation cq: bounded_queue clist_ok contents "\<lambda>clp. nat (c_cn clp)" clist_char clist_put clist_get
proof
  fix s x s'
  assume ok: "clist_ok s"
  note len = length_contents [OF ok] and cc = clist_ok_cc [OF ok]
  show "length (contents s) \<le> nat (c_cn s)" using len cc by linarith
  show "clist_put x s = None \<longleftrightarrow> length (contents s) = nat (c_cn s)" if "clist_char s x"
    using putc_spec [OF ok, of x] cc by (auto simp: clist_put_def split: if_splits)
  show "clist_ok s' \<and> contents s' = contents s @ [x] \<and> nat (c_cn s') = nat (c_cn s) \<and> clist_char s' = clist_char s"
    if "clist_char s x" "clist_put x s = Some s'"
    using putc_spec [OF ok, of x] that by (auto simp: clist_put_def clist_char_def char_mask_def split: if_splits)
  show "clist_get s = None \<longleftrightarrow> contents s = []"
    using getc_spec [OF ok] contents_char(2) [OF ok] by (cases "contents s") (auto simp: clist_get_def)
  show "clist_ok s' \<and> contents s = x # contents s' \<and> nat (c_cn s') = nat (c_cn s) \<and> clist_char s' = clist_char s"
    if "clist_get s = Some (x, s')"
    using getc_spec [OF ok] that
    by (cases "contents s") (auto simp: clist_get_def clist_char_def char_mask_def split: if_splits)
qed

section \<open>Properties\<close>

definition demo_clist :: clist where
  "demo_clist = \<lparr>c_cf = Some 3, c_cl = Some 1, c_cs = Some [3, 0, 0, 1, 2], c_ce = 5, c_cq = Some [0x10], c_cc = 3, c_cn = 5\<rparr>"

lemma demo_clist_ok: "clist_ok demo_clist"
  by (simp add: clist_ok_def ring_ok_def alloc_ok_def demo_clist_def QMEM_def)

lemma demo_clist_contents: "contents demo_clist = [1, 0x102, 3]"
  by code_simp

text \<open>C31: The character operations of a clist refine the list operations.  \<open>getc\<close> takes the
  first character or reports that there is none; \<open>putc\<close> appends the character, cut to its
  eight bits and, on a list with quoting, its quote bit, or reports a full list; \<open>unputc\<close>
  takes the last character.  Each keeps the list well formed and never fails otherwise.\<close>

theorem clist_char_ops:
  assumes "clist_ok clp"
  shows "(case contents clp of [] \<Rightarrow> getc clp = Some (EOF, clp)
       | c # cs \<Rightarrow> \<exists>clp'. getc clp = Some (c, clp') \<and> clist_ok clp' \<and> contents clp' = cs)
    \<and> (if int (length (contents clp)) = c_cn clp then putc c clp = Some (EOF, clp)
       else \<exists>clp'. putc c clp = Some (0, clp') \<and> clist_ok clp' \<and> contents clp' = contents clp @ [c AND char_mask clp])
    \<and> (if contents clp = [] then unputc clp = Some (EOF, clp)
       else \<exists>clp'. unputc clp = Some (last (contents clp), clp') \<and> clist_ok clp' \<and> contents clp' = butlast (contents clp))"
  using getc_spec [OF assms] putc_spec [OF assms, of c] unputc_spec [OF assms]
  by (auto split: list.splits if_splits)

theorem clist_char_ops_witness:
  "clist_ok demo_clist \<and> contents demo_clist = [1, 0x102, 3] \<and>
   (\<exists>clp. putc 0x341 demo_clist = Some (0, clp) \<and> contents clp = [1, 0x102, 3, 0x141])"
proof -
  have "char_mask demo_clist = 0x1ff" "c_cn demo_clist = 5"
    by (simp_all add: char_mask_def quoting_def demo_clist_def)
  then show ?thesis
    using clist_char_ops [OF demo_clist_ok, of "0x341"] demo_clist_ok by (auto simp: demo_clist_contents)
qed

text \<open>C30: The block operations of a clist refine the list operations.  \<open>q_to_b\<close> moves the first
  \<open>count\<close> bytes out, \<open>b_to_q\<close> appends as many bytes as fit, unquoted, and returns how many did
  not, and \<open>ndflush\<close> drops \<open>count\<close> characters, wherever the ring wraps; the loops end and no
  access is outside the ring or the quote bits.\<close>

theorem clist_block_ops:
  assumes "clist_ok clp"
  shows "(\<exists>clp'. q_to_b clp count = Some (map ucast (take (nat count) (contents clp)), clp') \<and> clist_ok clp'
        \<and> contents clp' = drop (nat count) (contents clp))
    \<and> (\<exists>clp'. b_to_q p clp = Some (int (length p) - min (int (length p)) (c_cn clp - c_cc clp), clp') \<and> clist_ok clp'
        \<and> contents clp' = contents clp @ map ucast (take (nat (c_cn clp - c_cc clp)) p))
    \<and> (\<exists>clp'. ndflush clp count = Some clp' \<and> clist_ok clp' \<and> contents clp' = drop (nat count) (contents clp))"
  using q_to_b_spec [OF assms, of count] b_to_q_spec [OF assms, of p] ndflush_spec [OF assms, of count] by blast

theorem clist_block_ops_witness:
  "clist_ok demo_clist \<and> (\<exists>clp. q_to_b demo_clist 2 = Some ([1, 2], clp) \<and> contents clp = [3]) \<and>
   (\<exists>clp. b_to_q [7, 8, 9] demo_clist = Some (1, clp) \<and> contents clp = [1, 0x102, 3, 7, 8])"
proof -
  have e: "c_cn demo_clist = 5" "c_cc demo_clist = 3" by (simp_all add: demo_clist_def)
  note ops = clist_block_ops [OF demo_clist_ok, of 2 "[7, 8, 9]", unfolded demo_clist_contents e, simplified]
  have u: "[1, 258] = [1, 2 :: u8]" by simp
  show ?thesis using ops demo_clist_ok unfolding u by blast
qed

text \<open>A clist is a first-in first-out queue: characters that fit are all accepted, and
  taking as many characters as there are gives the old content followed by the new
  characters, in order, and leaves an empty list.\<close>

theorem clist_fifo:
  assumes "clist_ok clp" and "\<forall>c \<in> set cs. clist_char clp c" and "length (contents clp) + length cs \<le> nat (c_cn clp)"
  shows "\<exists>clp1 clp2. cq.puts cs clp = Some clp1
    \<and> cq.gets (length (contents clp) + length cs) clp1 = Some (contents clp @ cs, clp2) \<and> clist_get clp2 = None"
  using cq.fifo [OF assms] by blast

theorem clist_fifo_witness:
  "\<exists>clp1 clp2. cq.puts [0x10a, 4] demo_clist = Some clp1 \<and> cq.gets 5 clp1 = Some ([1, 0x102, 3, 0x10a, 4], clp2)
     \<and> clist_get clp2 = None"
proof -
  have "\<forall>c \<in> set [0x10a, 4]. clist_char demo_clist c"
    by (simp add: clist_char_def char_mask_def quoting_def demo_clist_def)
  moreover have "nat (c_cn demo_clist) = 5" by (simp add: demo_clist_def)
  moreover have "length (contents demo_clist) + length [0x10a, 4 :: u32] = 5" by (simp add: demo_clist_contents)
  ultimately show ?thesis
    using clist_fifo [OF demo_clist_ok, of "[0x10a, 4]"] unfolding demo_clist_contents by (simp only: append_Cons append_Nil)
qed

text \<open>Walking a list with \<open>firstc\<close> and then \<open>nextc\<close> until it gives null visits every
  character once, in order, and \<open>catq\<close> empties one list onto the end of another, dropping what
  does not fit.\<close>

theorem clist_walk_catq:
  assumes "clist_ok clp" and "nat (c_cc clp) < n" and "clist_ok to'"
  shows "walk n clp (firstc clp) = Some (contents clp)
    \<and> (\<exists>from1 to1. catq clp to' = Some (from1, to1) \<and> clist_ok from1 \<and> clist_ok to1 \<and> contents from1 = []
        \<and> contents to1 = contents to' @ take (nat (c_cn to' - c_cc to')) (map (\<lambda>c. c AND char_mask to') (contents clp)))"
  using walk_spec [OF assms(1,2)] catq_spec [OF assms(1,3)] by blast

theorem clist_walk_catq_witness:
  "walk 4 demo_clist (firstc demo_clist) = Some [1, 0x102, 3] \<and>
   (\<exists>from1 to1. catq demo_clist demo_clist = Some (from1, to1) \<and> contents to1 = [1, 0x102, 3, 1, 0x102])"
proof -
  have "c_cn demo_clist = 5" "c_cc demo_clist = 3" "char_mask demo_clist = 0x1ff"
    by (simp_all add: demo_clist_def char_mask_def quoting_def)
  then show ?thesis
    using clist_walk_catq [OF demo_clist_ok, of 4 demo_clist] demo_clist_ok
    by (simp add: demo_clist_contents) blast
qed

text \<open>\<open>ndqb\<close> with no flags gives the longest run of characters a driver can take from
  memory at \<open>c_cf\<close>: the bytes there are the first characters of the list, and a shorter run
  than the whole list ends at the end of the buffer.  With flags it stops the run before the
  first byte that has one of them.\<close>

theorem ndqb_contiguous:
  assumes "clist_ok clp" and "contents clp \<noteq> []"
  shows "\<exists>f n. c_cf clp = Some f \<and> ndqb clp 0 = Some n \<and> 0 < n \<and> n \<le> c_cc clp
      \<and> (n < c_cc clp \<longrightarrow> f + nat n = c_ce clp)
      \<and> read_block clp f n = Some (map ucast (take (nat n) (contents clp)))
      \<and> (\<forall>flag. flag \<noteq> 0 \<longrightarrow> flag AND TTY_QUOTE = 0 \<longrightarrow> ndqb clp flag =
          Some (int (length (takeWhile (\<lambda>x. ucast (ucast x :: u8) AND flag = 0) (take (nat n) (contents clp))))))"
  using assms by (rule ndqb_spec)

theorem ndqb_contiguous_witness:
  "clist_ok demo_clist \<and> (\<exists>f n. c_cf demo_clist = Some f \<and> ndqb demo_clist 0 = Some n \<and> 0 < n
     \<and> read_block demo_clist f n = Some (map ucast (take (nat n) [1, 0x102, 3 :: u32])))"
  using ndqb_contiguous [OF demo_clist_ok] demo_clist_ok by (auto simp: demo_clist_contents)

text \<open>With the quote flag, \<open>ndqb\<close> tests the quote bit of the following character, because the
  index is already advanced: it stops before an unquoted character, it counts a quoted one,
  and in a buffer whose length is a multiple of eight it reads past the quote bits.\<close>

theorem ndqb_quote_off_by_one:
  "ndqb \<lparr>c_cf = Some 0, c_cl = Some 2, c_cs = Some [1, 2, 0, 0], c_ce = 4, c_cq = Some [0x2], c_cc = 2, c_cn = 4\<rparr> TTY_QUOTE
     = Some 0 \<and>
   ndqb \<lparr>c_cf = Some 0, c_cl = Some 2, c_cs = Some [1, 2, 0, 0], c_ce = 4, c_cq = Some [0x1], c_cc = 2, c_cn = 4\<rparr> TTY_QUOTE
     = Some 2 \<and>
   ndqb \<lparr>c_cf = Some 7, c_cl = Some 0, c_cs = Some (replicate 8 0), c_ce = 8, c_cq = Some [0], c_cc = 1, c_cn = 8\<rparr> TTY_QUOTE
     = None \<and>
   clist_ok \<lparr>c_cf = Some 7, c_cl = Some 0, c_cs = Some (replicate 8 0), c_ce = 8, c_cq = Some [0], c_cc = 1, c_cn = 8\<rparr>"
  by code_simp

end
