(* ===== verification/Pcq.thy ===== *)
theory Pcq
  imports Ring_Buffer
begin

text \<open>
  The lockless producer/consumer queue of \<open>sys/kern/subr_pcq.c\<close>.  An item is a non-null
  pointer, an element of \<open>'a\<close>; an entry of \<open>pcq_items\<close> is an \<open>'a option\<close>, with \<open>None\<close> for a null
  pointer.  The first part gives the functions as they run without interference.  The second
  part gives every load, store and compare-and-swap of \<open>pcq_put\<close> and \<open>pcq_get\<close> as a step of a
  transition system with any number of producers and one consumer (the caller of \<open>pcq_get\<close>
  must exclude other consumers), interleaved in any order.  The memory barriers in the source
  order the accesses the way the program text does, and the steps follow that order.
\<close>

section \<open>Data\<close>

record 'a pcq =
  pcq_nitems :: u32
  pcq_pc :: u32
  pcq_items :: "'a option list"

definition PCQ_MAXLEN :: nat where "PCQ_MAXLEN = 0xffff"

definition pcq_split :: "u32 \<Rightarrow> u32 \<times> u32" where
  "pcq_split v = (v AND 0xffff, drop_bit 16 v)"

definition pcq_combine :: "u32 \<Rightarrow> u32 \<Rightarrow> u32" where
  "pcq_combine p c = p OR push_bit 16 c"

definition pcq_advance :: "u32 \<Rightarrow> u32 \<Rightarrow> u32" where
  "pcq_advance nitems pc = (if pc + 1 = nitems then 0 else pc + 1)"

section \<open>Operations without interference\<close>

text \<open>A compare-and-swap then succeeds at once.  \<open>None\<close> is an access outside \<open>pcq_items\<close>.\<close>

definition pcq_put :: "'a pcq \<Rightarrow> 'a \<Rightarrow> (bool \<times> 'a pcq) option" where
  "pcq_put pcq item =
     (let (op, c) = pcq_split (pcq_pc pcq); p = pcq_advance (pcq_nitems pcq) op in
      if p = c then Some (False, pcq)
      else if unat op < length (pcq_items pcq)
      then Some (True, pcq\<lparr>pcq_pc := pcq_combine p c, pcq_items := (pcq_items pcq)[unat op := Some item]\<rparr>)
      else None)"

definition pcq_peek :: "'a pcq \<Rightarrow> 'a option option" where
  "pcq_peek pcq =
     (let (p, c) = pcq_split (pcq_pc pcq) in
      if p = c then Some None
      else if unat c < length (pcq_items pcq) then Some (pcq_items pcq ! unat c) else None)"

definition pcq_get :: "'a pcq \<Rightarrow> ('a option \<times> 'a pcq) option" where
  "pcq_get pcq =
     (let (p, c) = pcq_split (pcq_pc pcq) in
      if p = c then Some (None, pcq)
      else if unat c < length (pcq_items pcq) then
        (case pcq_items pcq ! unat c of
           None \<Rightarrow> Some (None, pcq)
         | Some item \<Rightarrow>
             Some (Some item, pcq\<lparr>pcq_pc := pcq_combine p (pcq_advance (pcq_nitems pcq) c),
                                  pcq_items := (pcq_items pcq)[unat c := None]\<rparr>))
      else None)"

text \<open>The assertion of \<open>pcq_create\<close> has a disjunction and holds for every size; \<open>size_t\<close> is
  stored into an \<open>u_int\<close>.  \<open>alloc\<close> tells whether the allocation succeeds, which it may not with
  \<open>KM_NOSLEEP\<close>.\<close>

definition pcq_new :: "u64 \<Rightarrow> 'a pcq" where
  "pcq_new nitems = \<lparr>pcq_nitems = ucast nitems, pcq_pc = 0, pcq_items = replicate (unat nitems) None\<rparr>"

definition pcq_create :: "bool \<Rightarrow> u64 \<Rightarrow> 'a pcq option" where
  "pcq_create alloc nitems = (if alloc then Some (pcq_new nitems) else None)"

definition pcq_maxitems :: "'a pcq \<Rightarrow> u64" where
  "pcq_maxitems pcq = ucast (pcq_nitems pcq)"

section \<open>Producers and consumer as a transition system\<close>

text \<open>
  A producer is idle, or has an item and is about to load \<open>pcq_pc\<close>, or has loaded \<open>v\<close> and is
  about to try the compare-and-swap, or has reserved the index \<open>op\<close> and is about to store the
  item.  \<open>P_done\<close> keeps the result.
\<close>

datatype 'a producer = P_idle | P_load 'a | P_cas 'a u32 | P_store 'a u32 | P_done bool

text \<open>
  The consumer is idle, or has loaded \<open>v\<close> and is about to load the item, or has loaded the item
  and is about to clear its entry, or is about to try the compare-and-swap from \<open>v\<close>, or has
  failed it and is about to load \<open>pcq_pc\<close> again.
\<close>

datatype 'a consumer = C_idle | C_item u32 | C_clear u32 'a | C_cas u32 'a | C_reload 'a | C_done "'a option"

record 'a pcq_world =
  queue :: "'a pcq"
  producers :: "nat \<Rightarrow> 'a producer"
  consumer :: "'a consumer"

definition put_next :: "u32 \<Rightarrow> u32 \<Rightarrow> u32" where
  "put_next nitems v = (case pcq_split v of (op, c) \<Rightarrow> pcq_combine (pcq_advance nitems op) c)"

definition put_full :: "u32 \<Rightarrow> u32 \<Rightarrow> bool" where
  "put_full nitems v = (case pcq_split v of (op, c) \<Rightarrow> pcq_advance nitems op = c)"

definition get_next :: "u32 \<Rightarrow> u32 \<Rightarrow> u32" where
  "get_next nitems v = (case pcq_split v of (p, c) \<Rightarrow> pcq_combine p (pcq_advance nitems c))"

text \<open>Each step carries what a client observes of it: the reservation of a place for an item
  by a producer, and the removal of an item by the consumer.\<close>

datatype 'a event = Tau | Reserve 'a | Remove 'a

inductive pcq_step :: "'a pcq_world \<Rightarrow> 'a event \<Rightarrow> 'a pcq_world \<Rightarrow> bool" where
  put_call: "producers w t = P_idle \<or> producers w t = P_done r \<Longrightarrow>
    pcq_step w Tau (w\<lparr>producers := (producers w)(t := P_load item)\<rparr>)"
| put_load_full: "producers w t = P_load item \<Longrightarrow> put_full (pcq_nitems (queue w)) (pcq_pc (queue w)) \<Longrightarrow>
    pcq_step w Tau (w\<lparr>producers := (producers w)(t := P_done False)\<rparr>)"
| put_load: "producers w t = P_load item \<Longrightarrow> \<not> put_full (pcq_nitems (queue w)) (pcq_pc (queue w)) \<Longrightarrow>
    pcq_step w Tau (w\<lparr>producers := (producers w)(t := P_cas item (pcq_pc (queue w)))\<rparr>)"
| put_cas_fail: "producers w t = P_cas item v \<Longrightarrow> pcq_pc (queue w) \<noteq> v \<Longrightarrow>
    pcq_step w Tau (w\<lparr>producers := (producers w)(t := P_load item)\<rparr>)"
| put_cas: "producers w t = P_cas item v \<Longrightarrow> pcq_pc (queue w) = v \<Longrightarrow>
    pcq_step w (Reserve item)
      (w\<lparr>queue := (queue w)\<lparr>pcq_pc := put_next (pcq_nitems (queue w)) v\<rparr>,
         producers := (producers w)(t := P_store item (fst (pcq_split v)))\<rparr>)"
| put_store: "producers w t = P_store item op \<Longrightarrow>
    pcq_step w Tau
      (w\<lparr>queue := (queue w)\<lparr>pcq_items := (pcq_items (queue w))[unat op := Some item]\<rparr>,
         producers := (producers w)(t := P_done True)\<rparr>)"
| get_call_empty: "consumer w = C_idle \<or> consumer w = C_done r \<Longrightarrow> pcq_split (pcq_pc (queue w)) = (p, c) \<Longrightarrow> p = c \<Longrightarrow>
    pcq_step w Tau (w\<lparr>consumer := C_done None\<rparr>)"
| get_call: "consumer w = C_idle \<or> consumer w = C_done r \<Longrightarrow> pcq_split (pcq_pc (queue w)) = (p, c) \<Longrightarrow> p \<noteq> c \<Longrightarrow>
    pcq_step w Tau (w\<lparr>consumer := C_item (pcq_pc (queue w))\<rparr>)"
| get_null: "consumer w = C_item v \<Longrightarrow> pcq_items (queue w) ! unat (snd (pcq_split v)) = None \<Longrightarrow>
    pcq_step w Tau (w\<lparr>consumer := C_done None\<rparr>)"
| get_item: "consumer w = C_item v \<Longrightarrow> pcq_items (queue w) ! unat (snd (pcq_split v)) = Some item \<Longrightarrow>
    pcq_step w Tau (w\<lparr>consumer := C_clear v item\<rparr>)"
| get_clear: "consumer w = C_clear v item \<Longrightarrow>
    pcq_step w Tau
      (w\<lparr>queue := (queue w)\<lparr>pcq_items := (pcq_items (queue w))[unat (snd (pcq_split v)) := None]\<rparr>,
         consumer := C_cas v item\<rparr>)"
| get_cas: "consumer w = C_cas v item \<Longrightarrow> pcq_pc (queue w) = v \<Longrightarrow>
    pcq_step w (Remove item)
      (w\<lparr>queue := (queue w)\<lparr>pcq_pc := get_next (pcq_nitems (queue w)) v\<rparr>, consumer := C_done (Some item)\<rparr>)"
| get_cas_fail: "consumer w = C_cas v item \<Longrightarrow> pcq_pc (queue w) \<noteq> v \<Longrightarrow>
    pcq_step w Tau (w\<lparr>consumer := C_reload item\<rparr>)"
| get_reload: "consumer w = C_reload item \<Longrightarrow>
    pcq_step w Tau (w\<lparr>consumer := C_cas (pcq_pc (queue w)) item\<rparr>)"

inductive_cases pcq_stepE: "pcq_step w e w'"

text \<open>A run from an initial state, with the list of its visible events.\<close>

inductive pcq_run :: "'a pcq_world \<Rightarrow> 'a event list \<Rightarrow> 'a pcq_world \<Rightarrow> bool" where
  run_refl: "pcq_run w [] w"
| run_step: "pcq_run w es w' \<Longrightarrow> pcq_step w' e w'' \<Longrightarrow> pcq_run w (es @ [e]) w''"

definition pcq_init :: "u64 \<Rightarrow> 'a pcq_world" where
  "pcq_init nitems = \<lparr>queue = pcq_new nitems, producers = (\<lambda>_. P_idle), consumer = C_idle\<rparr>"

fun reserved :: "'a event list \<Rightarrow> 'a list" where
  "reserved [] = []"
| "reserved (Reserve x # es) = x # reserved es"
| "reserved (e # es) = reserved es"

fun removed :: "'a event list \<Rightarrow> 'a list" where
  "removed [] = []"
| "removed (Remove x # es) = x # removed es"
| "removed (e # es) = removed es"

end
