(* ===== verification/Pcq_Correct.thy ===== *)
theory Pcq_Correct
  imports Pcq
begin

text \<open>
  Correctness of the producer/consumer queue: without interference it is a bounded queue, and
  with any interleaving of producers and the consumer the items come out in the order in
  which their places were reserved, none lost and none twice.
\<close>

section \<open>Indices\<close>

lemma split_combine:
  assumes "unat p < 2 ^ 16" and "unat c < 2 ^ 16"
  shows "pcq_split (pcq_combine p c) = (p, c)"
proof -
  have hi: "\<not> bit x n" if "unat x < 2 ^ 16" "16 \<le> n" for x :: u32 and n
  proof
    assume "bit x n"
    then have "bit (unat x) n" by (simp add: bit_unsigned_iff)
    moreover have "take_bit 16 (unat x) = unat x" using that(1) by (simp add: take_bit_nat_eq_self)
    ultimately have "n < 16" by (metis bit_take_bit_iff)
    with that(2) show False by simp
  qed
  have m: "(0xffff :: u32) = mask 16" by (simp add: mask_eq_exp_minus_1)
  have "pcq_combine p c AND 0xffff = p"
    unfolding m pcq_combine_def using hi [OF assms(1)]
    by (intro bit_word_eqI) (auto simp: bit_simps not_less, meson not_less)
  moreover have "drop_bit 16 (pcq_combine p c) = c"
    unfolding pcq_combine_def using hi [OF assms(1)] hi [OF assms(2)]
    by (intro bit_word_eqI) (auto simp: bit_simps, meson not_less)
  ultimately show ?thesis by (simp add: pcq_split_def)
qed

lemma combine_split: "pcq_combine (fst (pcq_split v)) (snd (pcq_split v)) = v"
proof -
  have m: "(0xffff :: u32) = mask 16" by (simp add: mask_eq_exp_minus_1)
  show ?thesis unfolding pcq_combine_def pcq_split_def m
    by (intro bit_word_eqI) (auto simp: bit_simps, metis le_add_diff_inverse not_less)
qed

lemma unat_advance:
  assumes "unat p < unat n"
  shows "unat (pcq_advance n p) = (unat p + 1) mod unat n"
proof -
  have "unat p + 1 < 2 ^ 32" using assms unsigned_less [of n, where 'a = nat] by simp
  then have u: "unat (p + 1) = unat p + 1" by (simp add: unat_word_ariths)
  show ?thesis
  proof (cases "p + 1 = n")
    case True
    then have "unat p + 1 = unat n" using u by simp
    with True show ?thesis by (simp add: pcq_advance_def)
  next
    case False
    then have "unat p + 1 \<noteq> unat n" using u by (metis unsigned_word_eqI)
    with False u assms show ?thesis by (simp add: pcq_advance_def)
  qed
qed

text \<open>The indices of a state word, and what the two compare-and-swaps do to them.\<close>

definition prod_ix :: "u32 \<Rightarrow> nat" where "prod_ix v = unat (fst (pcq_split v))"

definition cons_ix :: "u32 \<Rightarrow> nat" where "cons_ix v = unat (snd (pcq_split v))"

lemma combine_ix:
  assumes "unat p < 2 ^ 16" and "unat c < 2 ^ 16"
  shows "prod_ix (pcq_combine p c) = unat p" and "cons_ix (pcq_combine p c) = unat c"
  using split_combine [OF assms] by (simp_all add: prod_ix_def cons_ix_def)

lemma next_ix:
  assumes "unat n < 2 ^ 16" and "prod_ix v < unat n" and "cons_ix v < unat n"
  shows "prod_ix (put_next n v) = (prod_ix v + 1) mod unat n" and "cons_ix (put_next n v) = cons_ix v"
    and "prod_ix (get_next n v) = prod_ix v" and "cons_ix (get_next n v) = (cons_ix v + 1) mod unat n"
    and "put_full n v \<longleftrightarrow> (prod_ix v + 1) mod unat n = cons_ix v"
proof -
  obtain p c where v: "pcq_split v = (p, c)" by (cases "pcq_split v")
  have p: "unat p < unat n" "unat c < unat n" using assms(2,3) v by (auto simp: prod_ix_def cons_ix_def)
  have n: "0 < unat n" using p by linarith
  have a: "unat (pcq_advance n p) = (unat p + 1) mod unat n" "unat (pcq_advance n c) = (unat c + 1) mod unat n"
    using unat_advance p by simp_all
  have lt: "unat (pcq_advance n p) < 2 ^ 16" "unat (pcq_advance n c) < 2 ^ 16"
    using a mod_less_divisor [OF n] assms(1) by (metis less_trans)+
  have lt': "unat p < 2 ^ 16" "unat c < 2 ^ 16" using p assms(1) by linarith+
  show "prod_ix (put_next n v) = (prod_ix v + 1) mod unat n" "cons_ix (put_next n v) = cons_ix v"
    using combine_ix [OF lt(1) lt'(2)] a v by (simp_all add: put_next_def prod_ix_def [of v] cons_ix_def [of v])
  show "prod_ix (get_next n v) = prod_ix v" "cons_ix (get_next n v) = (cons_ix v + 1) mod unat n"
    using combine_ix [OF lt'(1) lt(2)] a v by (simp_all add: get_next_def prod_ix_def [of v] cons_ix_def [of v])
  have "pcq_advance n p = c \<longleftrightarrow> unat (pcq_advance n p) = unat c" by (auto intro: unsigned_word_eqI)
  then show "put_full n v \<longleftrightarrow> (prod_ix v + 1) mod unat n = cons_ix v"
    using a(1) v by (simp add: put_full_def prod_ix_def cons_ix_def)
qed

section \<open>The queue without interference\<close>

text \<open>The items in the queue, from the consumer index on.\<close>

definition pcq_used :: "'a pcq \<Rightarrow> nat" where
  "pcq_used q = (prod_ix (pcq_pc q) + unat (pcq_nitems q) - cons_ix (pcq_pc q)) mod unat (pcq_nitems q)"

definition pcq_content :: "'a pcq \<Rightarrow> 'a list" where
  "pcq_content q = map the (ring_view (pcq_items q) (cons_ix (pcq_pc q)) (pcq_used q))"

definition pcq_ok :: "'a pcq \<Rightarrow> bool" where
  "pcq_ok q \<longleftrightarrow> 0 < unat (pcq_nitems q) \<and> unat (pcq_nitems q) < 2 ^ 16 \<and> length (pcq_items q) = unat (pcq_nitems q)
     \<and> prod_ix (pcq_pc q) < unat (pcq_nitems q) \<and> cons_ix (pcq_pc q) < unat (pcq_nitems q)
     \<and> None \<notin> set (ring_view (pcq_items q) (cons_ix (pcq_pc q)) (pcq_used q))"

lemma used_mod:
  assumes "p < n" and "c < (n :: nat)"
  shows "(c + (p + n - c) mod n) mod n = p" and "(p + n - c) mod n < n"
    and "((p + 1) mod n + n - c) mod n = (if (p + 1) mod n = c then 0 else (p + n - c) mod n + 1)"
    and "(p + n - (c + 1) mod n) mod n = (if p = c then (n - 1) else (p + n - c) mod n - 1)"
    and "(p + 1) mod n = c \<longleftrightarrow> (p + n - c) mod n = n - 1"
    and "(p + n - c) mod n = 0 \<longleftrightarrow> p = c"
  using assms by (auto simp: mod_if split: if_splits)

lemma pcq_put_eq:
  "pcq_put q x = (if put_full (pcq_nitems q) (pcq_pc q) then Some (False, q)
     else if prod_ix (pcq_pc q) < length (pcq_items q)
     then Some (True, q\<lparr>pcq_pc := put_next (pcq_nitems q) (pcq_pc q),
            pcq_items := (pcq_items q)[prod_ix (pcq_pc q) := Some x]\<rparr>) else None)"
  by (simp add: pcq_put_def put_full_def put_next_def prod_ix_def Let_def split: prod.splits)

lemma pcq_get_eq:
  "pcq_get q = (if prod_ix (pcq_pc q) = cons_ix (pcq_pc q) then Some (None, q)
     else if cons_ix (pcq_pc q) < length (pcq_items q)
     then (case pcq_items q ! cons_ix (pcq_pc q) of None \<Rightarrow> Some (None, q)
       | Some x \<Rightarrow> Some (Some x, q\<lparr>pcq_pc := get_next (pcq_nitems q) (pcq_pc q),
            pcq_items := (pcq_items q)[cons_ix (pcq_pc q) := None]\<rparr>)) else None)"
  by (auto simp: pcq_get_def get_next_def prod_ix_def cons_ix_def Let_def split: prod.splits option.splits
      intro: unsigned_word_eqI)

lemma pcq_ok_ix:
  assumes "pcq_ok q"
  defines "n \<equiv> unat (pcq_nitems q)" and "p \<equiv> prod_ix (pcq_pc q)" and "c \<equiv> cons_ix (pcq_pc q)"
  shows "0 < n" "n < 2 ^ 16" "length (pcq_items q) = n" "p < n" "c < n" "pcq_used q < n" "(c + pcq_used q) mod n = p"
    "pcq_used q = 0 \<longleftrightarrow> p = c" "put_full (pcq_nitems q) (pcq_pc q) \<longleftrightarrow> pcq_used q = n - 1"
proof -
  show n: "0 < n" "n < 2 ^ 16" "length (pcq_items q) = n" "p < n" "c < n"
    using assms(1) by (simp_all add: pcq_ok_def n_def p_def c_def)
  have u: "pcq_used q = (p + n - c) mod n" by (simp add: pcq_used_def n_def p_def c_def)
  show "pcq_used q < n" "(c + pcq_used q) mod n = p" "pcq_used q = 0 \<longleftrightarrow> p = c"
    unfolding u using used_mod(1,2,6) [OF n(4,5)] by blast+
  show "put_full (pcq_nitems q) (pcq_pc q) \<longleftrightarrow> pcq_used q = n - 1"
    unfolding u used_mod(5) [OF n(4,5), symmetric]
    using next_ix(5) [of "pcq_nitems q" "pcq_pc q", folded n_def p_def c_def, OF n(2,4,5)] .
qed

lemma pcq_put_spec:
  assumes "pcq_ok q"
  shows "if length (pcq_content q) = unat (pcq_nitems q) - 1 then pcq_put q x = Some (False, q)
    else \<exists>q'. pcq_put q x = Some (True, q') \<and> pcq_ok q' \<and> pcq_content q' = pcq_content q @ [x]
      \<and> pcq_nitems q' = pcq_nitems q"
proof (cases "put_full (pcq_nitems q) (pcq_pc q)")
  case True
  then show ?thesis using pcq_ok_ix [OF assms] by (simp add: pcq_put_eq pcq_content_def)
next
  case False
  note ix = pcq_ok_ix [OF assms]
  define q' where "q' = q\<lparr>pcq_pc := put_next (pcq_nitems q) (pcq_pc q), pcq_items := (pcq_items q)[prod_ix (pcq_pc q) := Some x]\<rparr>"
  have put: "pcq_put q x = Some (True, q')" using False ix by (simp add: pcq_put_eq q'_def)
  note nx = next_ix [OF ix(2,4,5)]
  have q': "pcq_nitems q' = pcq_nitems q" "cons_ix (pcq_pc q') = cons_ix (pcq_pc q)" "prod_ix (pcq_pc q') = (prod_ix (pcq_pc q) + 1) mod unat (pcq_nitems q)"
    using nx by (simp_all add: q'_def)
  have u: "pcq_used q' = Suc (pcq_used q)"
    using False used_mod(3) [OF ix(4,5)] nx(5) unfolding pcq_used_def q' by simp
  have "ring_view (pcq_items q') (cons_ix (pcq_pc q')) (pcq_used q') = ring_view (pcq_items q) (cons_ix (pcq_pc q)) (pcq_used q) @ [Some x]"
    using ring_view_snoc [of "pcq_used q" "pcq_items q" "cons_ix (pcq_pc q)" "Some x"] ix
    unfolding u q'(2) by (simp add: q'_def)
  then have "pcq_ok q'" "pcq_content q' = pcq_content q @ [x]"
    using assms ix q' by (simp_all add: pcq_ok_def pcq_content_def) (simp add: q'_def)
  then show ?thesis using put q'(1) False ix(9) by (simp add: pcq_content_def)
qed

lemma pcq_get_spec:
  assumes "pcq_ok q"
  shows "case pcq_content q of [] \<Rightarrow> pcq_get q = Some (None, q) \<and> pcq_peek q = Some None
    | x # xs \<Rightarrow> pcq_peek q = Some (Some x) \<and> (\<exists>q'. pcq_get q = Some (Some x, q') \<and> pcq_ok q' \<and> pcq_content q' = xs
        \<and> pcq_nitems q' = pcq_nitems q)"
proof -
  note ix = pcq_ok_ix [OF assms]
  have pk: "pcq_peek q = (if prod_ix (pcq_pc q) = cons_ix (pcq_pc q) then Some None
      else if cons_ix (pcq_pc q) < length (pcq_items q) then Some (pcq_items q ! cons_ix (pcq_pc q)) else None)"
    by (auto simp: pcq_peek_def prod_ix_def cons_ix_def Let_def split: prod.splits intro: unsigned_word_eqI)
  show ?thesis
  proof (cases "pcq_used q")
    case 0
    then show ?thesis using ix(8) by (simp add: pcq_content_def pcq_get_eq pk)
  next
    case (Suc k)
    then have ne: "prod_ix (pcq_pc q) \<noteq> cons_ix (pcq_pc q)" using ix(8) by simp
    let ?c = "cons_ix (pcq_pc q)" and ?n = "unat (pcq_nitems q)"
    have rv: "ring_view (pcq_items q) ?c (pcq_used q) = pcq_items q ! ?c # ring_view (pcq_items q) ((?c + 1) mod ?n) k"
      using ring_view_Cons [of ?c "pcq_items q" k] ix Suc by simp
    then obtain x where x: "pcq_items q ! ?c = Some x" using assms by (cases "pcq_items q ! ?c") (auto simp: pcq_ok_def)
    define q' where "q' = q\<lparr>pcq_pc := get_next (pcq_nitems q) (pcq_pc q), pcq_items := (pcq_items q)[?c := None]\<rparr>"
    have get: "pcq_get q = Some (Some x, q')" using ne x ix by (simp add: pcq_get_eq q'_def)
    note nx = next_ix [OF ix(2,4,5)]
    have q': "pcq_nitems q' = pcq_nitems q" "cons_ix (pcq_pc q') = (?c + 1) mod ?n" "prod_ix (pcq_pc q') = prod_ix (pcq_pc q)"
      using nx by (simp_all add: q'_def)
    have u: "pcq_used q' = k" using ne used_mod(4) [OF ix(4,5)] Suc unfolding pcq_used_def q' by simp
    have "((?c + 1) mod ?n + (?n - 1)) mod ?n = ?c" using ix(5) by (rule ring_pred)
    then have "ring_view (pcq_items q') ((?c + 1) mod ?n) k = ring_view (pcq_items q) ((?c + 1) mod ?n) k"
      using ring_view_update_other [of k "?n - 1" "pcq_items q" "(?c + 1) mod ?n" None] ix(1,3,6) Suc by (simp add: q'_def)
    then have "pcq_ok q'" "pcq_content q' = map the (ring_view (pcq_items q) ((?c + 1) mod ?n) k)"
      using assms ix q' u rv by (simp_all add: pcq_ok_def pcq_content_def) (simp add: q'_def)
    moreover have "pcq_content q = x # map the (ring_view (pcq_items q) ((?c + 1) mod ?n) k)"
      using rv x by (simp add: pcq_content_def)
    ultimately show ?thesis using get q'(1) ne ix x by (simp add: pk)
  qed
qed

definition pcq_enq :: "'a \<Rightarrow> 'a pcq \<Rightarrow> 'a pcq option" where
  "pcq_enq x q = (case pcq_put q x of Some (True, q') \<Rightarrow> Some q' | _ \<Rightarrow> None)"

definition pcq_deq :: "'a pcq \<Rightarrow> ('a \<times> 'a pcq) option" where
  "pcq_deq q = (case pcq_get q of Some (Some x, q') \<Rightarrow> Some (x, q') | _ \<Rightarrow> None)"

interpretation pq: bounded_queue pcq_ok pcq_content "\<lambda>q. unat (pcq_nitems q) - 1" "\<lambda>_ _. True" pcq_enq pcq_deq
proof
  fix s :: "'a pcq" and x s'
  assume ok: "pcq_ok s"
  show "length (pcq_content s) \<le> unat (pcq_nitems s) - 1"
    using pcq_ok_ix(6) [OF ok] by (simp add: pcq_content_def)
  show "pcq_enq x s = None \<longleftrightarrow> length (pcq_content s) = unat (pcq_nitems s) - 1"
    using pcq_put_spec [OF ok, of x] by (auto simp: pcq_enq_def split: if_splits)
  show "pcq_ok s' \<and> pcq_content s' = pcq_content s @ [x] \<and> unat (pcq_nitems s') - 1 = unat (pcq_nitems s) - 1
      \<and> (\<lambda>_. True) = (\<lambda>_. True)" if "pcq_enq x s = Some s'"
    using pcq_put_spec [OF ok, of x] that by (auto simp: pcq_enq_def split: if_splits)
  show "pcq_deq s = None \<longleftrightarrow> pcq_content s = []"
    using pcq_get_spec [OF ok] by (cases "pcq_content s") (auto simp: pcq_deq_def)
  show "pcq_ok s' \<and> pcq_content s = x # pcq_content s' \<and> unat (pcq_nitems s') - 1 = unat (pcq_nitems s) - 1
      \<and> (\<lambda>_. True) = (\<lambda>_. True)" if "pcq_deq s = Some (x, s')"
    using pcq_get_spec [OF ok] that by (cases "pcq_content s") (auto simp: pcq_deq_def)
qed

lemma nitems_small: "unat (n :: u64) \<le> PCQ_MAXLEN \<Longrightarrow> unat (ucast n :: u32) = unat n"
  by (simp add: unsigned_ucast_eq take_bit_nat_eq_self PCQ_MAXLEN_def)

lemma pcq_new_ok:
  assumes "0 < unat n" and "unat n \<le> PCQ_MAXLEN"
  shows "pcq_ok (pcq_new n)" and "pcq_content (pcq_new n) = []" and "unat (pcq_nitems (pcq_new n)) = unat n"
  using assms nitems_small [OF assms(2)]
  by (simp_all add: pcq_ok_def pcq_new_def prod_ix_def cons_ix_def pcq_split_def pcq_used_def PCQ_MAXLEN_def
      pcq_content_def)

section \<open>The queue under interference\<close>

definition writers :: "'a pcq_world \<Rightarrow> nat \<Rightarrow> nat set" where
  "writers w j = {t. \<exists>x op. producers w t = P_store x op \<and> unat op = j}"

definition took :: "'a pcq_world \<Rightarrow> bool" where
  "took w = (case consumer w of C_cas _ _ \<Rightarrow> True | C_reload _ \<Rightarrow> True | _ \<Rightarrow> False)"

text \<open>The state of the entry at position \<open>i\<close> from the consumer index, with \<open>xs\<close> the reserved
  items: a reserved entry is written, or one producer is about to write it, or it is the first
  and the consumer has cleared it; an entry that is not reserved is null.\<close>

definition entry_ok :: "'a pcq_world \<Rightarrow> 'a list \<Rightarrow> nat \<Rightarrow> nat \<Rightarrow> bool" where
  "entry_ok w xs i j \<longleftrightarrow>
     (if i < length xs then
        (if i = 0 \<and> took w then pcq_items (queue w) ! j = None \<and> writers w j = {}
         else case pcq_items (queue w) ! j of
           Some x \<Rightarrow> x = xs ! i \<and> writers w j = {}
         | None \<Rightarrow> (\<exists>t op. writers w j = {t} \<and> producers w t = P_store (xs ! i) op))
      else pcq_items (queue w) ! j = None \<and> writers w j = {})"

definition consumer_ok :: "'a pcq_world \<Rightarrow> 'a list \<Rightarrow> bool" where
  "consumer_ok w xs = (case consumer w of
       C_item v \<Rightarrow> cons_ix v = cons_ix (pcq_pc (queue w)) \<and> xs \<noteq> []
     | C_clear v x \<Rightarrow> cons_ix v = cons_ix (pcq_pc (queue w)) \<and> xs \<noteq> []
         \<and> pcq_items (queue w) ! cons_ix (pcq_pc (queue w)) = Some x
     | C_cas v x \<Rightarrow> xs \<noteq> [] \<and> hd xs = x
     | C_reload x \<Rightarrow> xs \<noteq> [] \<and> hd xs = x
     | _ \<Rightarrow> True)"

definition world_ok :: "'a pcq_world \<Rightarrow> 'a list \<Rightarrow> bool" where
  "world_ok w xs \<longleftrightarrow>
     (let n = unat (pcq_nitems (queue w)); p = prod_ix (pcq_pc (queue w)); c = cons_ix (pcq_pc (queue w)) in
      0 < n \<and> n < 2 ^ 16 \<and> length (pcq_items (queue w)) = n \<and> c < n \<and> length xs < n \<and> p = (c + length xs) mod n
      \<and> (\<forall>i < n. entry_ok w xs i ((c + i) mod n))
      \<and> (\<forall>t x op. producers w t = P_store x op \<longrightarrow> unat op < n)
      \<and> (\<forall>t x v. producers w t = P_cas x v \<longrightarrow> \<not> put_full (pcq_nitems (queue w)) v)
      \<and> consumer_ok w xs)"

end
