(* ===== verification/Pcq_Interleaved.thy ===== *)
theory Pcq_Interleaved
  imports Pcq_Correct
begin

text \<open>
  The invariant of the interleaved producer/consumer queue, its preservation by every step, and
  the properties of the component.
\<close>

section \<open>Preservation of the invariant\<close>

lemmas world_defs = world_ok_def Let_def

text \<open>What one step does to the reserved items.\<close>

definition effect :: "'a event \<Rightarrow> 'a list \<Rightarrow> 'a list \<Rightarrow> bool" where
  "effect e xs ys = (case e of Tau \<Rightarrow> ys = xs | Reserve x \<Rightarrow> ys = xs @ [x] | Remove x \<Rightarrow> xs = x # ys)"

lemma writers_fields [simp]:
  "writers (w\<lparr>queue := q\<rparr>) j = writers w j" "writers (w\<lparr>consumer := c\<rparr>) j = writers w j"
  by (simp_all add: writers_def)

lemma took_fields [simp]: "took (w\<lparr>queue := q\<rparr>) = took w" "took (w\<lparr>producers := p\<rparr>) = took w"
  by (simp_all add: took_def)

text \<open>Steps that change neither the queue nor the set of pending stores.\<close>

lemma world_ok_frame:
  assumes "world_ok w xs" and "queue w' = queue w" and "took w' = took w"
    and "\<And>t x op. producers w' t = P_store x op \<longleftrightarrow> producers w t = P_store x op"
    and "\<And>t x v. producers w' t = P_cas x v \<Longrightarrow> producers w t = P_cas x v \<or> \<not> put_full (pcq_nitems (queue w)) v"
    and "consumer_ok w' xs"
  shows "world_ok w' xs"
proof -
  have wr: "writers w' j = writers w j" for j using assms(4) by (simp add: writers_def)
  have "entry_ok w' xs i j = entry_ok w xs i j" for i j
    by (simp add: entry_ok_def wr assms(2-4) split: option.splits)
  with assms(1,2,6) assms(4,5) show ?thesis by (simp add: world_defs) blast
qed

lemma world_ok_put_cas:
  assumes "world_ok w xs" and pr: "producers w t = P_cas item v" and v: "pcq_pc (queue w) = v"
  shows "world_ok (w\<lparr>queue := (queue w)\<lparr>pcq_pc := put_next (pcq_nitems (queue w)) v\<rparr>,
         producers := (producers w)(t := P_store item (fst (pcq_split v)))\<rparr>) (xs @ [item])" (is "world_ok ?w _")
proof -
  let ?n = "unat (pcq_nitems (queue w))" and ?c = "cons_ix v" and ?p = "prod_ix v"
  have n: "0 < ?n" "?n < 2 ^ 16" "length (pcq_items (queue w)) = ?n" "?c < ?n" "length xs < ?n"
    and p: "?p = (?c + length xs) mod ?n" and e: "\<And>i. i < ?n \<Longrightarrow> entry_ok w xs i ((?c + i) mod ?n)"
    and st: "\<And>t x op. producers w t = P_store x op \<Longrightarrow> unat op < ?n"
    and cas: "\<And>t x v. producers w t = P_cas x v \<Longrightarrow> \<not> put_full (pcq_nitems (queue w)) v"
    and co: "consumer_ok w xs" using assms(1) v by (auto simp: world_defs)
  have pn: "?p < ?n" using n(1) p by simp
  note nx = next_ix [OF n(2) pn n(4)]
  have nf: "(?p + 1) mod ?n \<noteq> ?c" using cas [OF pr] nx(5) by simp
  have len: "length xs + 1 < ?n"
  proof (rule ccontr)
    assume "\<not> length xs + 1 < ?n"
    with n(5) have "?c + length xs + 1 = ?c + ?n" by simp
    moreover have "(?p + 1) mod ?n = (?c + length xs + 1) mod ?n" unfolding p by (simp add: mod_simps)
    ultimately have "(?p + 1) mod ?n = (?c + ?n) mod ?n" by metis
    with nf n(4) show False by simp
  qed
  have wr: "writers ?w j = (if j = ?p then insert t (writers w j) else writers w j)" for j
    using pr by (auto simp: writers_def prod_ix_def)
  have "entry_ok ?w (xs @ [item]) i ((?c + i) mod ?n)" if i: "i < ?n" for i
  proof -
    have at: "(?c + i) mod ?n = ?p \<longleftrightarrow> i = length xs"
      using ring_mod_inj [of ?c i ?n "length xs"] i n(5) p by auto
    have tk: "took ?w = took w" by (simp add: took_def)
    consider "i = length xs" | "i < length xs" | "length xs < i" by linarith
    then show ?thesis
    proof cases
      case 1
      with e [OF i] have "pcq_items (queue w) ! ?p = None" "writers w ?p = {}" by (simp_all add: entry_ok_def p)
      moreover have "\<not> (i = 0 \<and> took w)" using co 1 by (auto simp: took_def consumer_ok_def split: consumer.splits)
      ultimately show ?thesis using 1 at by (auto simp: entry_ok_def wr tk)
    next
      case 2
      have "producers ?w t' = producers w t'" if "producers w t' = P_store x op" for t' x op using that pr by auto
      with 2 e [OF i] at show ?thesis by (auto simp: entry_ok_def wr tk nth_append simp del: fun_upd_apply split: option.splits)
    next
      case 3
      with e [OF i] at show ?thesis by (simp add: entry_ok_def wr)
    qed
  qed
  moreover have "consumer_ok ?w (xs @ [item])" using co nx(2) v by (auto simp: consumer_ok_def split: consumer.splits)
  moreover have "(?p + 1) mod ?n = (?c + length (xs @ [item])) mod ?n" by (simp add: p mod_simps)
  ultimately show ?thesis using n len nx(1,2) st cas pn by (auto simp: world_defs prod_ix_def [of v, symmetric])
qed

lemma world_ok_put_store:
  assumes "world_ok w xs" and pr: "producers w t = P_store item op"
  shows "world_ok (w\<lparr>queue := (queue w)\<lparr>pcq_items := (pcq_items (queue w))[unat op := Some item]\<rparr>,
         producers := (producers w)(t := P_done True)\<rparr>) xs" (is "world_ok ?w _")
proof -
  define w1 where "w1 = ?w"
  let ?n = "unat (pcq_nitems (queue w))" and ?c = "cons_ix (pcq_pc (queue w))" and ?j = "unat op"
  have n: "length (pcq_items (queue w)) = ?n" "?c < ?n"
    and e: "\<And>i. i < ?n \<Longrightarrow> entry_ok w xs i ((?c + i) mod ?n)" and co: "consumer_ok w xs"
    using assms(1) by (auto simp: world_defs)
  have j: "?j < ?n" using assms by (auto simp: world_defs)
  have t: "t \<in> writers w ?j" using pr by (auto simp: writers_def)
  have wr: "writers w1 j = writers w j - {t}" for j using pr by (auto simp: writers_def w1_def)
  have other: "t \<notin> writers w j" if "j \<noteq> ?j" for j using pr that by (auto simp: writers_def)
  have tk: "took w1 = took w" by (simp add: took_def w1_def)
  have it1: "pcq_items (queue w1) = (pcq_items (queue w))[?j := Some item]" by (simp add: w1_def)
  have "entry_ok w1 xs i ((?c + i) mod ?n)" if i: "i < ?n" for i
  proof (cases "(?c + i) mod ?n = ?j")
    case True
    with e [OF i] t have il: "i < length xs" "\<not> (i = 0 \<and> took w)" "pcq_items (queue w) ! ?j = None"
      and "writers w ?j = {t} \<and> item = xs ! i" using pr
      by (auto simp: entry_ok_def split: if_splits option.splits)
    then show ?thesis using True n j by (auto simp: entry_ok_def wr tk it1)
  next
    case False
    have "producers w1 t' = producers w t'" if "writers w ((?c + i) mod ?n) = {t'}" for t'
      using other [OF False] that by (auto simp: w1_def)
    with e [OF i] False other [OF False] show ?thesis
      by (fastforce simp: entry_ok_def wr tk it1 split: option.splits if_splits)
  qed
  moreover have "consumer_ok w1 xs"
  proof -
    have "?c \<noteq> ?j" if "consumer w = C_clear v x" for v x
    proof
      assume "?c = ?j"
      moreover have "xs \<noteq> []" "pcq_items (queue w) ! ?c = Some x" using co that by (auto simp: consumer_ok_def)
      ultimately have "writers w ?j = {}" using e [of 0] n(2) that by (auto simp: entry_ok_def took_def)
      with t show False by simp
    qed
    with co show ?thesis by (auto simp: consumer_ok_def w1_def split: consumer.splits)
  qed
  ultimately show ?thesis using assms(1) unfolding w1_def [symmetric] by (auto simp: world_defs) (auto simp: w1_def split: if_splits)
qed

lemma world_ok_get_clear:
  assumes "world_ok w xs" and cs: "consumer w = C_clear v item"
  shows "world_ok (w\<lparr>queue := (queue w)\<lparr>pcq_items := (pcq_items (queue w))[unat (snd (pcq_split v)) := None]\<rparr>,
         consumer := C_cas v item\<rparr>) xs" (is "world_ok ?w _")
proof -
  let ?n = "unat (pcq_nitems (queue w))" and ?c = "cons_ix (pcq_pc (queue w))"
  have n: "length (pcq_items (queue w)) = ?n" "?c < ?n"
    and e: "\<And>i. i < ?n \<Longrightarrow> entry_ok w xs i ((?c + i) mod ?n)" and co: "consumer_ok w xs"
    using assms(1) by (auto simp: world_defs)
  have c: "unat (snd (pcq_split v)) = ?c" and ne: "xs \<noteq> []" and it: "pcq_items (queue w) ! ?c = Some item"
    using co cs by (auto simp: consumer_ok_def cons_ix_def)
  have wr: "writers ?w j = writers w j" for j by (simp add: writers_def)
  have tk: "took ?w" "\<not> took w" using cs by (simp_all add: took_def)
  have first: "item = xs ! 0" "writers w ?c = {}" using e [of 0] n(2) it ne tk(2) by (auto simp: entry_ok_def)
  have "entry_ok ?w xs i ((?c + i) mod ?n)" if i: "i < ?n" for i
  proof (cases "i = 0")
    case True
    then show ?thesis using first ne n tk by (simp add: entry_ok_def wr c)
  next
    case False
    then have "(?c + i) mod ?n \<noteq> ?c" using ring_mod_inj [of ?c i ?n 0] i n(2) by auto
    with e [OF i] False tk show ?thesis by (auto simp: entry_ok_def wr c split: option.splits)
  qed
  moreover have "consumer_ok ?w xs" using ne first by (simp add: consumer_ok_def hd_conv_nth)
  ultimately show ?thesis using assms(1) by (auto simp: world_defs)
qed

lemma world_ok_get_cas:
  assumes "world_ok w xs" and cs: "consumer w = C_cas v item" and v: "pcq_pc (queue w) = v"
  shows "world_ok (w\<lparr>queue := (queue w)\<lparr>pcq_pc := get_next (pcq_nitems (queue w)) v\<rparr>,
         consumer := C_done (Some item)\<rparr>) (tl xs)" (is "world_ok ?w _") and "xs = item # tl xs"
proof -
  let ?n = "unat (pcq_nitems (queue w))" and ?c = "cons_ix v" and ?p = "prod_ix v"
  have n: "0 < ?n" "?n < 2 ^ 16" "length (pcq_items (queue w)) = ?n" "?c < ?n" "length xs < ?n"
    and p: "?p = (?c + length xs) mod ?n" and e: "\<And>i. i < ?n \<Longrightarrow> entry_ok w xs i ((?c + i) mod ?n)"
    and co: "consumer_ok w xs" using assms(1) v by (auto simp: world_defs)
  have ne: "xs \<noteq> []" "hd xs = item" using co cs by (simp_all add: consumer_ok_def)
  then show "xs = item # tl xs" by (cases xs) auto
  have pn: "?p < ?n" using n(1) p by simp
  note nx = next_ix [OF n(2) pn n(4)]
  have wr: "writers ?w j = writers w j" for j by (simp add: writers_def)
  have tk: "\<not> took ?w" "took w" using cs by (simp_all add: took_def)
  have "entry_ok ?w (tl xs) i (((?c + 1) mod ?n + i) mod ?n)" if i: "i < ?n" for i
  proof (cases "i = ?n - 1")
    case True
    then have "((?c + 1) mod ?n + i) mod ?n = ?c" using n(4) by (simp only: ring_pred)
    moreover have "pcq_items (queue w) ! ?c = None" "writers w ?c = {}"
      using e [of 0] n(1,4) ne tk(2) by (auto simp: entry_ok_def)
    moreover have "\<not> i < length (tl xs)" using True n(5) by simp
    ultimately show ?thesis by (simp add: entry_ok_def wr)
  next
    case False
    with i have "i + 1 < ?n" by simp
    moreover have "((?c + 1) mod ?n + i) mod ?n = (?c + (i + 1)) mod ?n" by (simp add: mod_simps)
    ultimately show ?thesis using e [of "i + 1"] tk
      by (auto simp: entry_ok_def nth_tl less_diff_conv split: option.splits if_splits)
  qed
  moreover have "?p = ((?c + 1) mod ?n + length (tl xs)) mod ?n" using ne(1) p by (cases xs) (auto simp: mod_simps)
  moreover have "consumer_ok ?w (tl xs)" by (simp add: consumer_ok_def)
  ultimately show "world_ok ?w (tl xs)" using n nx(3,4) assms(1) by (auto simp: world_defs)
qed

lemma world_ok_producer:
  assumes "world_ok w xs" and "\<And>x op. producers w t \<noteq> P_store x op" and "\<And>x op. st \<noteq> P_store x op"
    and "\<And>x v. st = P_cas x v \<Longrightarrow> \<not> put_full (pcq_nitems (queue w)) v"
  shows "world_ok (w\<lparr>producers := (producers w)(t := st)\<rparr>) xs"
proof (rule world_ok_frame [OF assms(1)])
  show "consumer_ok (w\<lparr>producers := (producers w)(t := st)\<rparr>) xs"
    using assms(1) by (auto simp: world_defs consumer_ok_def split: consumer.splits)
qed (use assms(2-4) in \<open>auto split: if_splits\<close>)

lemma world_ok_consumer:
  assumes "world_ok w xs" and "took (w\<lparr>consumer := st\<rparr>) = took w" and "consumer_ok (w\<lparr>consumer := st\<rparr>) xs"
  shows "world_ok (w\<lparr>consumer := st\<rparr>) xs"
  by (rule world_ok_frame [OF assms(1)]) (use assms(2,3) in auto)

lemma world_ok_nonempty:
  assumes "world_ok w xs" and "pcq_split (pcq_pc (queue w)) = (p, c)" and "p \<noteq> c"
  shows "xs \<noteq> []"
proof
  assume "xs = []"
  with assms(1,2) have "unat p = unat c" by (auto simp: world_defs prod_ix_def cons_ix_def)
  with assms(3) show False using unsigned_word_eqI by blast
qed

lemma world_ok_step:
  assumes "world_ok w xs" and "pcq_step w e w'"
  shows "\<exists>ys. effect e xs ys \<and> world_ok w' ys"
proof -
  have co: "consumer_ok w xs" using assms(1) by (simp add: world_defs)
  note pr = world_ok_producer [OF assms(1)] and cs = world_ok_consumer [OF assms(1)]
  from assms(2) show ?thesis
  proof (cases rule: pcq_step.cases)
    case (put_cas t item v)
    with world_ok_put_cas [OF assms(1) put_cas(3,4)] show ?thesis by (auto simp: effect_def)
  next
    case (put_store t item op)
    with world_ok_put_store [OF assms(1) put_store(3)] show ?thesis by (auto simp: effect_def)
  next
    case (get_clear v item)
    with world_ok_get_clear [OF assms(1) get_clear(3)] show ?thesis by (auto simp: effect_def)
  next
    case (get_cas v item)
    with world_ok_get_cas [OF assms(1) get_cas(3,4)] show ?thesis by (auto simp: effect_def)
  next
    case (get_call r p c)
    then have "world_ok w' xs" using world_ok_nonempty [OF assms(1)]
      by (auto intro!: cs simp: took_def consumer_ok_def)
    with get_call show ?thesis by (simp add: effect_def)
  next
    case (get_item v item)
    then have "world_ok w' xs" using co by (auto intro!: cs simp: took_def consumer_ok_def cons_ix_def)
    with get_item show ?thesis by (simp add: effect_def)
  next
    case (get_cas_fail v item)
    then have "world_ok w' xs" using co by (auto intro!: cs simp: took_def consumer_ok_def)
    with get_cas_fail show ?thesis by (simp add: effect_def)
  next
    case (get_reload item)
    then have "world_ok w' xs" using co by (auto intro!: cs simp: took_def consumer_ok_def)
    with get_reload show ?thesis by (simp add: effect_def)
  qed (auto simp: effect_def took_def consumer_ok_def intro!: pr cs)
qed

section \<open>Runs\<close>

lemma reserved_snoc: "reserved (es @ [e]) = reserved es @ (case e of Reserve x \<Rightarrow> [x] | _ \<Rightarrow> [])"
  by (induction es rule: reserved.induct) (auto split: event.splits)

lemma removed_snoc: "removed (es @ [e]) = removed es @ (case e of Remove x \<Rightarrow> [x] | _ \<Rightarrow> [])"
  by (induction es rule: removed.induct) (auto split: event.splits)

lemma world_ok_init:
  assumes "0 < unat n" and "unat n \<le> PCQ_MAXLEN"
  shows "world_ok (pcq_init n) []"
  using assms nitems_small [OF assms(2)]
  by (auto simp: world_defs pcq_init_def entry_ok_def writers_def consumer_ok_def pcq_new_def
      prod_ix_def cons_ix_def pcq_split_def PCQ_MAXLEN_def)

lemma pcq_run_ok:
  assumes "pcq_run w es w'" and "world_ok w []"
  shows "\<exists>xs. world_ok w' xs \<and> reserved es = removed es @ xs"
  using assms
proof (induction rule: pcq_run.induct)
  case (run_step w es w' e w'')
  then obtain xs ys where "reserved es = removed es @ xs" "effect e xs ys" "world_ok w'' ys"
    using world_ok_step by blast
  then show ?case by (auto simp: effect_def reserved_snoc removed_snoc split: event.splits)
qed simp

section \<open>Properties\<close>

text \<open>C27: Under every interleaving of any number of producers with one consumer, the items the
  consumer removes are the items the producers reserved places for, in that order: none is
  lost, invented, duplicated or overtaken.  At most \<open>nitems - 1\<close> items are outstanding, and
  every index with which \<open>pcq_items\<close> is read or written is inside the array.\<close>

theorem pcq_interleaved_fifo:
  assumes "pcq_run (pcq_init n) es w" and "0 < unat n" and "unat n \<le> PCQ_MAXLEN"
  shows "\<exists>xs. reserved es = removed es @ xs \<and> length xs < unat (pcq_nitems (queue w))
    \<and> cons_ix (pcq_pc (queue w)) < length (pcq_items (queue w))
    \<and> (\<forall>t x op. producers w t = P_store x op \<longrightarrow> unat op < length (pcq_items (queue w)))
    \<and> (\<forall>v. consumer w = C_item v \<longrightarrow> cons_ix v < length (pcq_items (queue w)))
    \<and> (\<forall>v x. consumer w = C_clear v x \<longrightarrow> cons_ix v < length (pcq_items (queue w)))"
proof -
  from pcq_run_ok [OF assms(1) world_ok_init [OF assms(2,3)]]
  obtain xs where xs: "world_ok w xs" "reserved es = removed es @ xs" by blast
  then show ?thesis by (intro exI [of _ xs]) (auto simp: world_defs consumer_ok_def)
qed

text \<open>A run of one producer that puts one item and the consumer that removes it.\<close>

definition demo_world :: "nat pcq_world" where "demo_world = pcq_init 4"

lemma demo_run: "\<exists>w. pcq_run demo_world [Tau, Tau, Reserve 7] w \<and> producers w 0 = P_store 7 0 \<and> consumer w = C_idle
    \<and> pcq_items (queue w) = replicate 4 None"
proof -
  define w1 where "w1 = demo_world\<lparr>producers := (producers demo_world)(0 := P_load 7)\<rparr>"
  define w2 where "w2 = w1\<lparr>producers := (producers w1)(0 := P_cas 7 (pcq_pc (queue w1)))\<rparr>"
  define w3 where "w3 = w2\<lparr>queue := (queue w2)\<lparr>pcq_pc := put_next (pcq_nitems (queue w2)) 0\<rparr>,
         producers := (producers w2)(0 := P_store 7 (fst (pcq_split 0)))\<rparr>"
  have q: "pcq_nitems (queue demo_world) = 4" "pcq_pc (queue demo_world) = 0" "pcq_items (queue demo_world) = replicate 4 None"
    and d: "producers demo_world t = P_idle" "consumer demo_world = C_idle" for t
    by (simp_all add: demo_world_def pcq_init_def pcq_new_def)
  have nf: "\<not> put_full 4 0" by code_simp
  have s1: "pcq_step demo_world Tau w1" unfolding w1_def by (rule put_call [where r = True]) (simp add: d)
  have s2: "pcq_step w1 Tau w2" unfolding w2_def by (rule put_load) (simp_all add: w1_def q nf)
  have s3: "pcq_step w2 (Reserve 7) w3" unfolding w3_def by (rule put_cas) (simp_all add: w2_def w1_def q)
  have "pcq_run demo_world ((([] @ [Tau]) @ [Tau]) @ [Reserve 7]) w3"
    by (intro run_step [OF _ s3] run_step [OF _ s2] run_step [OF _ s1] run_refl)
  moreover have "producers w3 0 = P_store 7 0" "consumer w3 = C_idle" "pcq_items (queue w3) = replicate 4 None"
    by (simp_all add: w3_def w2_def w1_def q d pcq_split_def)
  ultimately show ?thesis by auto
qed

theorem pcq_interleaved_fifo_witness:
  "\<exists>w xs. pcq_run demo_world [Tau, Tau, Reserve (7 :: nat)] w \<and> removed [Tau, Tau, Reserve (7 :: nat)] @ xs = [7]
     \<and> length xs < unat (pcq_nitems (queue w))"
proof -
  obtain w where w: "pcq_run demo_world [Tau, Tau, Reserve 7] w" using demo_run by blast
  from pcq_interleaved_fifo [OF this [unfolded demo_world_def]] w show ?thesis
    by (auto simp: PCQ_MAXLEN_def)
qed

text \<open>C28: No item is stuck: in every reachable state in which the consumer is not inside
  \<open>pcq_get\<close>, if an item is outstanding then either the oldest one is in its entry, so that
  \<open>pcq_get\<close> run now returns it, or its producer is still between its compare-and-swap and its
  store, the race that the comment in \<open>pcq_get\<close> leaves to a later notification.\<close>

theorem pcq_get_finds_oldest:
  assumes "pcq_run (pcq_init n) es w" and "0 < unat n" and "unat n \<le> PCQ_MAXLEN"
    and "consumer w = C_idle \<or> consumer w = C_done r" and "reserved es = removed es @ x # xs"
  shows "(\<exists>q'. pcq_get (queue w) = Some (Some x, q')) \<or>
    pcq_get (queue w) = Some (None, queue w) \<and> (\<exists>t op. producers w t = P_store x op)"
proof -
  from pcq_run_ok [OF assms(1) world_ok_init [OF assms(2,3)]] assms(5)
  have ok: "world_ok w (x # xs)" by auto
  let ?n = "unat (pcq_nitems (queue w))" and ?c = "cons_ix (pcq_pc (queue w))" and ?p = "prod_ix (pcq_pc (queue w))"
  have n: "?c < ?n" "length (pcq_items (queue w)) = ?n" "Suc (length xs) < ?n" and e: "entry_ok w (x # xs) 0 ?c"
    and p: "?p = (?c + Suc (length xs)) mod ?n" using ok by (auto simp: world_defs)
  have ne: "?p \<noteq> ?c" using ring_mod_inj [of ?c "Suc (length xs)" ?n 0] n p by auto
  have "\<not> took w" using assms(4) by (auto simp: took_def)
  with e ne n show ?thesis by (fastforce simp: entry_ok_def pcq_get_eq split: option.splits)
qed

theorem pcq_get_finds_oldest_witness:
  "\<exists>w. pcq_run demo_world [Tau, Tau, Reserve (7 :: nat)] w \<and> pcq_get (queue w) = Some (None, queue w)
     \<and> (\<exists>t op. producers w t = P_store 7 op)"
proof -
  obtain w where w: "pcq_run demo_world [Tau, Tau, Reserve 7] w" "consumer w = C_idle" "pcq_items (queue w) = replicate 4 None"
    using demo_run by blast
  from pcq_get_finds_oldest [OF w(1) [unfolded demo_world_def], of None 7 "[]"] w
  have "(\<exists>q'. pcq_get (queue w) = Some (Some 7, q')) \<or> pcq_get (queue w) = Some (None, queue w) \<and> (\<exists>t op. producers w t = P_store 7 op)"
    by (simp add: PCQ_MAXLEN_def)
  moreover have "pcq_get (queue w) \<noteq> Some (Some 7, q')" for q' using w(3) by (auto simp: pcq_get_eq)
  ultimately show ?thesis using w(1) by blast
qed



text \<open>The assertion of \<open>pcq_create\<close> accepts every size.  A queue of size 0 stores its first
  item outside its array; in a queue of more than \<open>PCQ_MAXLEN + 1\<close> entries the producer index
  runs into the bits of the consumer index, and a queue of 65535 items becomes one whose
  oldest item is skipped.\<close>

theorem pcq_create_unchecked:
  "pcq_put (pcq_new 0) x = None \<and>
   pcq_split (pcq_combine 0xffff 0) = (0xffff, 0) \<and> \<not> put_full 0x20000 (pcq_combine 0xffff 0) \<and>
   pcq_split (put_next 0x20000 (pcq_combine 0xffff 0)) = (0, 1)"
proof -
  have "\<not> put_full 0 0" "prod_ix 0 = 0" by code_simp+
  then have "pcq_put (pcq_new 0) x = None" by (simp add: pcq_put_eq pcq_new_def)
  moreover have "pcq_split (pcq_combine 0xffff 0) = (0xffff, 0) \<and> \<not> put_full 0x20000 (pcq_combine 0xffff 0) \<and>
      pcq_split (put_next 0x20000 (pcq_combine 0xffff 0)) = (0, 1)" by code_simp
  ultimately show ?thesis by simp
qed

end
