(* ===== verification/Npf_Inet.thy ===== *)
theory Npf_Inet
  imports Kern_Prelude "HOL-Library.Monad_Syntax"
begin

text \<open>
  The address, checksum and TCP option helpers of the packet filter, \<open>sys/net/npf/npf_inet.c\<close>.
  A 16 or 32 bit field of a packet is named by its value in network byte order, so \<open>htonl\<close> and
  \<open>ntohl\<close> do not appear.  The bytes of the TCP options are an argument: they are what
  \<open>nbuf_advance\<close> returns for the header length and the option length, \<open>None\<close> for its null result.
\<close>

section \<open>Incremental checksums\<close>

definition npf_fixup16_cksum :: "u16 \<Rightarrow> u16 \<Rightarrow> u16 \<Rightarrow> u16" where
  "npf_fixup16_cksum cksum odatum ndatum =
     (let sum = NOT (ucast cksum) AND 0xffff :: u32;
          sum = sum + ((NOT (ucast odatum) AND 0xffff) + ucast ndatum);
          sum = drop_bit 16 sum + (sum AND 0xffff);
          sum = sum + drop_bit 16 sum
      in ucast (NOT sum AND 0xffff))"

definition npf_fixup32_cksum :: "u16 \<Rightarrow> u32 \<Rightarrow> u32 \<Rightarrow> u16" where
  "npf_fixup32_cksum cksum odatum ndatum =
     (let sum = NOT (ucast cksum) AND 0xffff :: u32;
          sum = sum + ((NOT odatum AND 0xffff) + (ndatum AND 0xffff));
          sum = sum + (drop_bit 16 (NOT odatum) + drop_bit 16 ndatum);
          sum = drop_bit 16 sum + (sum AND 0xffff);
          sum = sum + drop_bit 16 sum
      in ucast (NOT sum AND 0xffff))"

text \<open>The loop over the words of an address; \<open>sz\<close> is four times their number, at least one.\<close>

fun npf_addr_cksum :: "u16 \<Rightarrow> u32 list \<Rightarrow> u32 list \<Rightarrow> u16" where
  "npf_addr_cksum cksum (ow # ows) (nw # nws) =
     (let cksum' = npf_fixup32_cksum cksum ow nw in
      if ows = [] then cksum' else npf_addr_cksum cksum' ows nws)"
| "npf_addr_cksum cksum _ _ = cksum"

section \<open>Addresses\<close>

definition NPF_NO_NETMASK :: u8 where "NPF_NO_NETMASK = NOT 0"

fun npf_addr_mix_loop :: "u32 \<Rightarrow> u32 list \<Rightarrow> u32 list \<Rightarrow> u32" where
  "npf_addr_mix_loop mix (x # xs) (y # ys) = npf_addr_mix_loop (mix XOR x XOR y) xs ys"
| "npf_addr_mix_loop mix _ _ = mix"

definition npf_addr_mix :: "u32 list \<Rightarrow> u32 list \<Rightarrow> u32" where
  "npf_addr_mix a1 a2 = npf_addr_mix_loop 0 a1 a2"

fun npf_addr_mask :: "u32 list \<Rightarrow> nat \<Rightarrow> u32 list" where
  "npf_addr_mask [] len = []"
| "npf_addr_mask (w # ws) len =
     (let (wordmask, len') =
        (if len \<ge> 32 then (0xffffffff, len - 32)
         else if len \<noteq> 0 then (push_bit (32 - len) 0xffffffff, 0)
         else (0, 0))
      in (w AND wordmask) # npf_addr_mask ws len')"

text \<open>\<open>memcmp\<close> on two addresses, as the sign of its result; the words are in network order.\<close>

fun addr_memcmp :: "u32 list \<Rightarrow> u32 list \<Rightarrow> int" where
  "addr_memcmp (x # xs) (y # ys) = (if x < y then -1 else if y < x then 1 else addr_memcmp xs ys)"
| "addr_memcmp _ _ = 0"

definition npf_addr_cmp :: "u32 list \<Rightarrow> u8 \<Rightarrow> u32 list \<Rightarrow> u8 \<Rightarrow> int" where
  "npf_addr_cmp addr1 mask1 addr2 mask2 =
     (let a1 = (if mask1 \<noteq> NPF_NO_NETMASK then npf_addr_mask addr1 (unat mask1) else addr1);
          a2 = (if mask2 \<noteq> NPF_NO_NETMASK then npf_addr_mask addr2 (unat mask2) else addr2)
      in addr_memcmp a1 a2)"

section \<open>The cached packet headers\<close>

record tcphdr =
  th_seq :: u32
  th_ack :: u32
  th_off :: "4 word"
  th_flags :: u8
  th_win :: u16

text \<open>\<open>npc_len\<close> is \<open>ip_len\<close> of an IPv4 header or \<open>ip6_plen\<close> of an IPv6 header.\<close>

record npf_cache =
  npc_ip4 :: bool
  npc_ip6 :: bool
  npc_len :: u16
  npc_hlen :: u32
  npc_proto :: u16
  npc_tcp :: tcphdr
  npc_opts :: "u8 list option"

abbreviation "TH_FIN \<equiv> 0x01 :: u8"
abbreviation "TH_SYN \<equiv> 0x02 :: u8"
abbreviation "TH_RST \<equiv> 0x04 :: u8"
abbreviation "TH_ACK \<equiv> 0x10 :: u8"

abbreviation "TCPOPT_EOL \<equiv> 0 :: u8"
abbreviation "TCPOPT_NOP \<equiv> 1 :: u8"
abbreviation "TCPOPT_MAXSEG \<equiv> 2 :: u8"
abbreviation "TCPOPT_WINDOW \<equiv> 3 :: u8"
abbreviation "TCPOLEN_MAXSEG \<equiv> 4 :: nat"
abbreviation "TCPOLEN_WINDOW \<equiv> 3 :: nat"

definition TCP_MAX_WINSHIFT :: nat where "TCP_MAX_WINSHIFT = 14"

text \<open>The data length, the sequence numbers and the window.  The subtraction is unsigned and
  its result becomes an \<open>int\<close>; it is only added to a sequence number, modulo \<open>2 ^ 32\<close>.\<close>

definition npf_tcpsaw :: "npf_cache \<Rightarrow> u32 \<times> u32 \<times> u32 \<times> u32" where
  "npf_tcpsaw npc =
     (let th = npc_tcp npc; thlen = push_bit 2 (ucast (th_off th)) :: u32;
          dlen = (if npc_ip4 npc then ucast (npc_len npc) - npc_hlen npc - thlen
                  else if npc_ip6 npc then ucast (npc_len npc) - (npc_hlen npc - 40) - thlen
                  else 0)
      in (dlen, th_seq th, th_ack th, ucast (th_win th)))"

section \<open>TCP options\<close>

definition rd :: "u8 list \<Rightarrow> nat \<Rightarrow> u8 option" where
  "rd bs i = (if i < length bs then Some (bs ! i) else None)"

definition wr :: "u8 list \<Rightarrow> nat \<Rightarrow> u8 \<Rightarrow> u8 list option" where
  "wr bs i v = (if i < length bs then Some (bs[i := v]) else None)"

definition rd16 :: "u8 list \<Rightarrow> nat \<Rightarrow> (u8 \<times> u8) option" where
  "rd16 bs i = do { a \<leftarrow> rd bs i; b \<leftarrow> rd bs (i + 1); Some (a, b) }"

definition wr16 :: "u8 list \<Rightarrow> nat \<Rightarrow> u8 \<times> u8 \<Rightarrow> u8 list option" where
  "wr16 bs i v = do { bs1 \<leftarrow> wr bs i (fst v); wr bs1 (i + 1) (snd v) }"

text \<open>The head of both option loops: the kind and the length of the option at \<open>cp\<close>, with
  \<open>None\<close> inside for a \<open>break\<close>.  The outer \<open>None\<close> is a read outside the bytes.\<close>

definition opt_head :: "u8 list \<Rightarrow> nat \<Rightarrow> int \<Rightarrow> (u8 \<times> nat) option option" where
  "opt_head bs cp cnt = do {
     opt \<leftarrow> rd bs cp;
     if opt = TCPOPT_EOL then Some None
     else if opt = TCPOPT_NOP then Some (Some (opt, 1))
     else if cnt < 2 then Some None
     else do {
       l \<leftarrow> rd bs (cp + 1);
       let optlen = unat l;
       if optlen < 2 \<or> int optlen > cnt then Some None else Some (Some (opt, optlen)) } }"

text \<open>The loop of \<open>npf_fetch_tcpopts\<close>; \<open>want\<close> tells whether the caller passed a place for the
  maximum segment size, which is kept as its two bytes.\<close>

partial_function (option) fetch_loop ::
    "bool \<Rightarrow> u8 list \<Rightarrow> nat \<Rightarrow> int \<Rightarrow> (u8 \<times> u8) option \<Rightarrow> nat \<Rightarrow> ((u8 \<times> u8) option \<times> nat) option" where
  "fetch_loop want bs cp cnt mss wscale =
     (if cnt > 0 then do {
        h \<leftarrow> opt_head bs cp cnt;
        case h of None \<Rightarrow> Some (mss, wscale)
        | Some (opt, optlen) \<Rightarrow> do {
            mss' \<leftarrow> (if opt = TCPOPT_MAXSEG \<and> optlen = TCPOLEN_MAXSEG \<and> want
                    then map_option Some (rd16 bs (cp + 2)) else Some mss);
            wscale' \<leftarrow> (if opt = TCPOPT_WINDOW \<and> optlen = TCPOLEN_WINDOW
                       then do { val \<leftarrow> rd bs (cp + 2);
                                 Some (if unat val > TCP_MAX_WINSHIFT then TCP_MAX_WINSHIFT else unat val) }
                       else Some wscale);
            fetch_loop want bs (cp + optlen) (cnt - int optlen) mss' wscale' } }
      else Some (mss, wscale))"

definition opt_cnt :: "npf_cache \<Rightarrow> int" where
  "opt_cnt npc = 4 * int (unat (th_off (npc_tcp npc))) - 20"

definition npf_fetch_tcpopts :: "bool \<Rightarrow> npf_cache \<Rightarrow> nat \<Rightarrow> (bool \<times> (u8 \<times> u8) option \<times> nat) option" where
  "npf_fetch_tcpopts want npc wscale =
     (if opt_cnt npc \<le> 0 then Some (False, None, wscale)
      else case npc_opts npc of
        None \<Rightarrow> Some (False, None, wscale)
      | Some bs \<Rightarrow> do {
          (mss, wscale') \<leftarrow> fetch_loop want bs 0 (opt_cnt npc) None wscale;
          Some (True, mss, wscale') })"

text \<open>The caller's variables that \<open>npf_set_mss\<close> sets: for an option that is not 16-bit aligned the
  four bytes around it before and after, and the flag \<open>mid\<close>.\<close>

record mss_info =
  mss_old :: "(u8 \<times> u8) \<times> (u8 \<times> u8)"
  mss_new :: "(u8 \<times> u8) \<times> (u8 \<times> u8)"
  mss_mid :: bool

partial_function (option) set_mss_loop ::
    "u8 \<times> u8 \<Rightarrow> u8 list \<Rightarrow> nat \<Rightarrow> int \<Rightarrow> mss_info \<Rightarrow> (u8 list \<times> mss_info) option" where
  "set_mss_loop mss bs cp cnt info =
     (if cnt > 0 then do {
        h \<leftarrow> opt_head bs cp cnt;
        case h of None \<Rightarrow> Some (bs, info)
        | Some (opt, optlen) \<Rightarrow>
            if opt = TCPOPT_MAXSEG \<and> optlen = TCPOLEN_MAXSEG then
              (if (cp + 2) mod 2 \<noteq> 0 then do {
                 o0 \<leftarrow> rd16 bs (cp + 1);
                 o1 \<leftarrow> rd16 bs (cp + 3);
                 bs' \<leftarrow> wr16 bs (cp + 2) mss;
                 n0 \<leftarrow> rd16 bs' (cp + 1);
                 n1 \<leftarrow> rd16 bs' (cp + 3);
                 set_mss_loop mss bs' (cp + optlen) (cnt - int optlen)
                   \<lparr>mss_old = (o0, o1), mss_new = (n0, n1), mss_mid = True\<rparr> }
               else do {
                 bs' \<leftarrow> wr16 bs (cp + 2) mss;
                 set_mss_loop mss bs' (cp + optlen) (cnt - int optlen)
                   (info\<lparr>mss_mid := False\<rparr>) })
            else set_mss_loop mss bs (cp + optlen) (cnt - int optlen) info }
      else Some (bs, info))"

definition npf_set_mss :: "npf_cache \<Rightarrow> u8 \<times> u8 \<Rightarrow> mss_info \<Rightarrow> (bool \<times> npf_cache \<times> mss_info) option" where
  "npf_set_mss npc mss info =
     (if opt_cnt npc \<le> 0 then Some (False, npc, info)
      else case npc_opts npc of
        None \<Rightarrow> Some (False, npc, info)
      | Some bs \<Rightarrow> do {
          (bs', info') \<leftarrow> set_mss_loop mss bs 0 (opt_cnt npc) info;
          Some (True, npc\<lparr>npc_opts := Some bs'\<rparr>, info') })"

end
