(* ===== verification/Npf_State.thy ===== *)
theory Npf_State
  imports Npf_Inet
begin

text \<open>
  Connection state tracking of the packet filter: \<open>sys/net/npf/npf_state.c\<close> and
  \<open>npf_state_tcp.c\<close>.  The state tables are the arrays of the source, with the entries its
  initialisers leave out equal to zero.  \<open>None\<close> is a failed assertion, an index outside a table,
  an undefined shift or a read outside the option bytes; the window scale, an \<open>int\<close> that is
  never negative, is a natural number.  The statistics counters are not modelled.
\<close>

section \<open>Data\<close>

record npf_tcpstate =
  nst_end :: u32
  nst_maxend :: u32
  nst_maxwin :: u32
  nst_wscale :: nat

record npf_state =
  nst_state :: nat
  nst_tcpst :: "npf_tcpstate \<times> npf_tcpstate"

abbreviation "NPF_FLOW_FORW \<equiv> 0 :: nat"
abbreviation "NPF_FLOW_BACK \<equiv> 1 :: nat"

definition get_tcpst :: "npf_state \<Rightarrow> nat \<Rightarrow> npf_tcpstate" where
  "get_tcpst nst di = (if di = NPF_FLOW_FORW then fst (nst_tcpst nst) else snd (nst_tcpst nst))"

definition set_tcpst :: "npf_state \<Rightarrow> nat \<Rightarrow> npf_tcpstate \<Rightarrow> npf_tcpstate \<Rightarrow> npf_state" where
  "set_tcpst nst di f t = nst\<lparr>nst_tcpst := (if di = NPF_FLOW_FORW then (f, t) else (t, f))\<rparr>"

abbreviation "IPPROTO_ICMP \<equiv> 1 :: u16"
abbreviation "IPPROTO_TCP \<equiv> 6 :: u16"
abbreviation "IPPROTO_UDP \<equiv> 17 :: u16"

section \<open>The TCP states\<close>

abbreviation "NPF_TCPS_OK \<equiv> 255 :: nat"
abbreviation "NPF_TCPS_CLOSED \<equiv> 0 :: nat"
abbreviation "NPF_TCPS_SYN_SENT \<equiv> 1 :: nat"
abbreviation "NPF_TCPS_SIMSYN_SENT \<equiv> 2 :: nat"
abbreviation "NPF_TCPS_SYN_RECEIVED \<equiv> 3 :: nat"
abbreviation "NPF_TCPS_ESTABLISHED \<equiv> 4 :: nat"
abbreviation "NPF_TCPS_FIN_SENT \<equiv> 5 :: nat"
abbreviation "NPF_TCPS_FIN_RECEIVED \<equiv> 6 :: nat"
abbreviation "NPF_TCPS_CLOSE_WAIT \<equiv> 7 :: nat"
abbreviation "NPF_TCPS_FIN_WAIT \<equiv> 8 :: nat"
abbreviation "NPF_TCPS_CLOSING \<equiv> 9 :: nat"
abbreviation "NPF_TCPS_LAST_ACK \<equiv> 10 :: nat"
abbreviation "NPF_TCPS_TIME_WAIT \<equiv> 11 :: nat"

definition NPF_TCP_NSTATES :: nat where "NPF_TCP_NSTATES = 12"

definition npf_tcp_timeouts :: "nat list" where
  "npf_tcp_timeouts = [10, 30, 30, 60, 60 * 60 * 24, 60 * 2 * 2, 60 * 2 * 2, 60 * 60 * 6, 60 * 60 * 6, 30, 30, 60 * 2 * 2]"

definition npf_strict_order_rst :: bool where "npf_strict_order_rst = True"

definition NPF_TCP_MAXACKWIN :: int where "NPF_TCP_MAXACKWIN = 66000"

definition SEQ_LEQ :: "u32 \<Rightarrow> u32 \<Rightarrow> bool" where "SEQ_LEQ a b \<longleftrightarrow> sint (a - b) \<le> 0"
definition SEQ_GT :: "u32 \<Rightarrow> u32 \<Rightarrow> bool" where "SEQ_GT a b \<longleftrightarrow> sint (a - b) > 0"
definition SEQ_GEQ :: "u32 \<Rightarrow> u32 \<Rightarrow> bool" where "SEQ_GEQ a b \<longleftrightarrow> sint (a - b) \<ge> 0"

section \<open>Flag cases\<close>

abbreviation "TCPFC_INVALID \<equiv> 0 :: nat"
abbreviation "TCPFC_SYN \<equiv> 1 :: nat"
abbreviation "TCPFC_SYNACK \<equiv> 2 :: nat"
abbreviation "TCPFC_ACK \<equiv> 3 :: nat"
abbreviation "TCPFC_FIN \<equiv> 4 :: nat"

definition TCPFC_COUNT :: nat where "TCPFC_COUNT = 5"

definition npf_tcpfl2case :: "u8 \<Rightarrow> nat" where
  "npf_tcpfl2case tcpfl =
     (let fl = ucast tcpfl :: u32;
          i = (fl AND (0x02 OR 0x01)) OR drop_bit 2 (fl AND 0x10)
      in unat (drop_bit (unat (push_bit 2 i)) (0x2430140 :: u32) AND 7))"

text \<open>The row of one state and direction: the next states for the five flag cases invalid, SYN,
  SYN-ACK, ACK and FIN.\<close>

definition npf_tcp_fsm :: "nat list list list" where
  "npf_tcp_fsm =
     [[[0, NPF_TCPS_SYN_SENT, 0, 0, 0],
       [0, 0, 0, 0, 0]],
      [[0, NPF_TCPS_OK, 0, 0, 0],
       [0, NPF_TCPS_SIMSYN_SENT, NPF_TCPS_SYN_RECEIVED, 0, 0]],
      [[0, NPF_TCPS_OK, NPF_TCPS_SYN_RECEIVED, 0, 0],
       [0, NPF_TCPS_OK, NPF_TCPS_SYN_RECEIVED, 0, NPF_TCPS_FIN_RECEIVED]],
      [[0, NPF_TCPS_OK, 0, NPF_TCPS_ESTABLISHED, NPF_TCPS_FIN_SENT],
       [0, 0, NPF_TCPS_OK, NPF_TCPS_OK, NPF_TCPS_FIN_RECEIVED]],
      [[0, 0, 0, NPF_TCPS_OK, NPF_TCPS_FIN_SENT],
       [0, 0, 0, NPF_TCPS_OK, NPF_TCPS_FIN_RECEIVED]],
      [[0, 0, 0, NPF_TCPS_OK, NPF_TCPS_OK],
       [0, 0, 0, NPF_TCPS_FIN_WAIT, NPF_TCPS_CLOSING]],
      [[0, 0, 0, NPF_TCPS_CLOSE_WAIT, NPF_TCPS_CLOSING],
       [0, 0, 0, NPF_TCPS_OK, NPF_TCPS_OK]],
      [[0, 0, 0, NPF_TCPS_OK, NPF_TCPS_LAST_ACK],
       [0, 0, 0, NPF_TCPS_OK, NPF_TCPS_LAST_ACK]],
      [[0, 0, 0, NPF_TCPS_OK, NPF_TCPS_LAST_ACK],
       [0, 0, 0, NPF_TCPS_OK, NPF_TCPS_LAST_ACK]],
      [[0, 0, 0, NPF_TCPS_LAST_ACK, 0],
       [0, 0, 0, NPF_TCPS_LAST_ACK, 0]],
      [[0, 0, 0, NPF_TCPS_TIME_WAIT, 0],
       [0, 0, 0, NPF_TCPS_TIME_WAIT, 0]],
      [[0, NPF_TCPS_SYN_SENT, 0, 0, 0],
       [0, 0, 0, 0, 0]]]"

definition nth_opt :: "'a list \<Rightarrow> nat \<Rightarrow> 'a option" where
  "nth_opt xs i = (if i < length xs then Some (xs ! i) else None)"

definition fsm_next :: "nat \<Rightarrow> nat \<Rightarrow> nat \<Rightarrow> nat option" where
  "fsm_next state di c = do { r \<leftarrow> nth_opt npf_tcp_fsm state; r' \<leftarrow> nth_opt r di; nth_opt r' c }"

section \<open>The window check\<close>

text \<open>The two directions after a packet that starts the tracking of a connection, and the
  sender's direction after its first packet.\<close>

definition init_first :: "npf_cache \<Rightarrow> npf_tcpstate \<Rightarrow> u32 \<Rightarrow> u32 \<Rightarrow> (npf_tcpstate \<times> npf_tcpstate) option" where
  "init_first npc tstate end' win = do {
     (_, _, ws) \<leftarrow> npf_fetch_tcpopts False npc 0;
     Some (\<lparr>nst_end = end', nst_maxend = end', nst_maxwin = win, nst_wscale = ws\<rparr>,
           tstate\<lparr>nst_end := 0, nst_maxend := 0, nst_maxwin := 1, nst_wscale := 0\<rparr>) }"

definition init_reply :: "npf_cache \<Rightarrow> u8 \<Rightarrow> u32 \<Rightarrow> u32 \<Rightarrow> npf_tcpstate option" where
  "init_reply npc tcpfl end' win = do {
     ws \<leftarrow> (if tcpfl AND TH_SYN \<noteq> 0 then map_option (snd \<circ> snd) (npf_fetch_tcpopts False npc 0) else Some 0);
     Some \<lparr>nst_end = end', nst_maxend = end' + 1, nst_maxwin = win, nst_wscale = ws\<rparr> }"

definition seg_end :: "u8 \<Rightarrow> u32 \<Rightarrow> u32 \<Rightarrow> u32" where
  "seg_end tcpfl seq tcpdlen =
     (let e = seq + tcpdlen;
          e = (if tcpfl AND TH_SYN \<noteq> 0 then e + 1 else e)
      in (if tcpfl AND TH_FIN \<noteq> 0 then e + 1 else e))"

definition scaled_win :: "npf_tcpstate \<Rightarrow> u32 \<Rightarrow> u32 option" where
  "scaled_win fstate win =
     (if win \<noteq> 0 then (if nst_wscale fstate < 32 then Some (push_bit (nst_wscale fstate) win) else None) else Some 1)"

definition eff_ack :: "u8 \<Rightarrow> u32 \<Rightarrow> npf_tcpstate \<Rightarrow> u32" where
  "eff_ack tcpfl ack tstate =
     (if tcpfl AND TH_ACK = 0 then nst_end tstate
      else if tcpfl AND (TH_ACK OR TH_RST) = (TH_ACK OR TH_RST) \<and> ack = 0 then nst_end tstate
      else ack)"

text \<open>The shift of the acknowledgment window is of a signed \<open>int\<close>, so it must not overflow.\<close>

definition ackwin :: "npf_tcpstate \<Rightarrow> int option" where
  "ackwin fstate =
     (let w = NPF_TCP_MAXACKWIN * 2 ^ nst_wscale fstate in if w < 2 ^ 31 then Some w else None)"

text \<open>The boundary checks I to IV and the update of both directions.\<close>

definition window_check ::
    "npf_tcpstate \<Rightarrow> npf_tcpstate \<Rightarrow> u32 \<Rightarrow> u32 \<Rightarrow> u32 \<Rightarrow> u32 \<Rightarrow> (bool \<times> npf_tcpstate \<times> npf_tcpstate) option" where
  "window_check fstate tstate seq end' ack win =
     (if \<not> SEQ_LEQ end' (nst_maxend fstate) then Some (False, fstate, tstate)
      else if \<not> SEQ_GEQ seq (nst_end fstate - nst_maxwin tstate) then Some (False, fstate, tstate)
      else do {
        let ackskew = sint (nst_end tstate - ack);
        bad \<leftarrow> (if ackskew < - NPF_TCP_MAXACKWIN then Some True
               else map_option (\<lambda>aw. ackskew > aw) (ackwin fstate));
        if bad then Some (False, fstate, tstate)
        else
          let t1 = (if ackskew < 0 then tstate\<lparr>nst_end := ack\<rparr> else tstate);
              f1 = (if nst_maxwin fstate < win then fstate\<lparr>nst_maxwin := win\<rparr> else fstate);
              f2 = (if SEQ_GT end' (nst_end f1) then f1\<lparr>nst_end := end'\<rparr> else f1);
              t2 = (if SEQ_GEQ (ack + win) (nst_maxend t1) then t1\<lparr>nst_maxend := ack + win\<rparr> else t1)
          in Some (True, f2, t2) })"

definition npf_tcp_inwindow :: "npf_cache \<Rightarrow> npf_state \<Rightarrow> nat \<Rightarrow> (bool \<times> npf_state) option" where
  "npf_tcp_inwindow npc nst di =
     (if di > 1 then None
      else do {
        let tcpfl = th_flags (npc_tcp npc);
        let (tcpdlen, seq, ack, win0) = npf_tcpsaw npc;
        let end' = seg_end tcpfl seq tcpdlen;
        let fstate = get_tcpst nst di;
        let tstate = get_tcpst nst (1 - di);
        win \<leftarrow> scaled_win fstate win0;
        if nst_maxwin fstate = 0 then do {
          (f, t) \<leftarrow> init_first npc tstate end' win;
          Some (True, set_tcpst nst di f t) }
        else do {
          f0 \<leftarrow> (if nst_end fstate = 0 then init_reply npc tcpfl end' win else Some fstate);
          let ack' = eff_ack tcpfl ack tstate;
          let fix = tcpfl AND TH_RST \<noteq> 0 \<and> seq = 0 \<and> nst_state nst = NPF_TCPS_SYN_SENT;
          let end'' = (if fix then nst_end f0 else end');
          let seq' = (if fix then nst_end f0 else seq);
          if tcpfl AND TH_RST \<noteq> 0 \<and> npf_strict_order_rst \<and> nst_end f0 - seq' > 1
          then Some (False, set_tcpst nst di f0 tstate)
          else do {
            (ok, f, t) \<leftarrow> window_check f0 tstate seq' end'' ack' win;
            Some (ok, set_tcpst nst di f t) } } })"

section \<open>State transitions\<close>

definition npf_state_tcp :: "npf_cache \<Rightarrow> npf_state \<Rightarrow> nat \<Rightarrow> (bool \<times> npf_state) option" where
  "npf_state_tcp npc nst di =
     (if \<not> nst_state nst < NPF_TCP_NSTATES then None
      else do {
        let tcpfl = th_flags (npc_tcp npc);
        let state = nst_state nst;
        nstate \<leftarrow> (if tcpfl AND TH_RST = 0 then
                    (if npf_tcpfl2case tcpfl < TCPFC_COUNT then fsm_next state di (npf_tcpfl2case tcpfl) else None)
                  else if state = NPF_TCPS_TIME_WAIT then Some NPF_TCPS_OK
                  else Some NPF_TCPS_CLOSED);
        (ok, nst1) \<leftarrow> npf_tcp_inwindow npc nst di;
        if \<not> ok then Some (False, nst1)
        else if nstate = NPF_TCPS_OK then Some (True, nst1)
        else Some (True, nst1\<lparr>nst_state := nstate\<rparr>) })"

definition npf_state_tcp_timeout :: "npf_state \<Rightarrow> nat option" where
  "npf_state_tcp_timeout nst =
     (if nst_state nst < NPF_TCP_NSTATES then nth_opt npf_tcp_timeouts (nst_state nst) else None)"

abbreviation "NPF_ANY_CONN_CLOSED \<equiv> 0 :: nat"
abbreviation "NPF_ANY_CONN_NEW \<equiv> 1 :: nat"
abbreviation "NPF_ANY_CONN_ESTABLISHED \<equiv> 2 :: nat"

definition npf_generic_fsm :: "nat list list" where
  "npf_generic_fsm =
     [[NPF_ANY_CONN_NEW, 0],
      [NPF_ANY_CONN_NEW, NPF_ANY_CONN_ESTABLISHED],
      [NPF_ANY_CONN_ESTABLISHED, NPF_ANY_CONN_ESTABLISHED]]"

definition npf_generic_timeout :: "nat list" where
  "npf_generic_timeout = [0, 30, 60]"

definition npf_state_inspect :: "npf_cache \<Rightarrow> npf_state \<Rightarrow> bool \<Rightarrow> (bool \<times> npf_state) option" where
  "npf_state_inspect npc nst forw =
     (let di = (if forw then NPF_FLOW_FORW else NPF_FLOW_BACK) in
      if npc_proto npc = IPPROTO_TCP then npf_state_tcp npc nst di
      else if npc_proto npc = IPPROTO_UDP \<or> npc_proto npc = IPPROTO_ICMP then do {
        r \<leftarrow> nth_opt npf_generic_fsm (nst_state nst);
        s \<leftarrow> nth_opt r di;
        Some (True, nst\<lparr>nst_state := s\<rparr>) }
      else Some (False, nst))"

definition zero_state :: npf_state where
  "zero_state = \<lparr>nst_state = 0,
     nst_tcpst = (\<lparr>nst_end = 0, nst_maxend = 0, nst_maxwin = 0, nst_wscale = 0\<rparr>,
                  \<lparr>nst_end = 0, nst_maxend = 0, nst_maxwin = 0, nst_wscale = 0\<rparr>)\<rparr>"

text \<open>\<open>npf_state_init\<close> clears the structure and then has the body of \<open>npf_state_inspect\<close> for the
  forward direction.\<close>

definition npf_state_init :: "npf_cache \<Rightarrow> (bool \<times> npf_state) option" where
  "npf_state_init npc =
     (let nst = zero_state in
      if npc_proto npc = IPPROTO_TCP then npf_state_tcp npc nst NPF_FLOW_FORW
      else if npc_proto npc = IPPROTO_UDP \<or> npc_proto npc = IPPROTO_ICMP then do {
        r \<leftarrow> nth_opt npf_generic_fsm (nst_state nst);
        s \<leftarrow> nth_opt r NPF_FLOW_FORW;
        Some (True, nst\<lparr>nst_state := s\<rparr>) }
      else Some (False, nst))"

definition npf_state_destroy :: "npf_state \<Rightarrow> npf_state" where
  "npf_state_destroy nst = nst\<lparr>nst_state := 0\<rparr>"

definition npf_state_etime :: "npf_state \<Rightarrow> u16 \<Rightarrow> nat option" where
  "npf_state_etime nst proto =
     (if proto = IPPROTO_TCP then npf_state_tcp_timeout nst
      else if proto = IPPROTO_UDP \<or> proto = IPPROTO_ICMP then nth_opt npf_generic_timeout (nst_state nst)
      else None)"

end
