(* ===== verification/Npf_Inet_Correct.thy ===== *)
theory Npf_Inet_Correct
  imports Npf_Inet
begin

text \<open>
  Correctness of the helpers of \<open>npf_inet.c\<close>: an incremental checksum update keeps a packet
  valid, masking and comparing addresses looks at exactly the prefix bits, and the option
  loops end, stay inside the option bytes and change only the segment size.
\<close>

section \<open>Incremental checksums\<close>

text \<open>A packet of 16-bit words with its checksum is valid if the one's complement sum of all of
  them is minus zero: the sum is positive and a multiple of \<open>2 ^ 16 - 1\<close> (RFC 1071).\<close>

definition word_sum :: "u16 list \<Rightarrow> nat" where
  "word_sum ws = sum_list (map unat ws)"

definition cksum_valid :: "u16 \<Rightarrow> u16 list \<Rightarrow> bool" where
  "cksum_valid ck ws \<longleftrightarrow> 0 < word_sum ws + unat ck \<and> 65535 dvd word_sum ws + unat ck"

lemma word_sum_simps [simp]:
  "word_sum [] = 0" "word_sum (w # ws) = unat w + word_sum ws" "word_sum (xs @ ys) = word_sum xs + word_sum ys"
  by (simp_all add: word_sum_def)

lemma word_sum_pos: "0 < word_sum ws \<longleftrightarrow> (\<exists>w \<in> set ws. w \<noteq> 0)"
  by (induction ws) (auto simp: unsigned_eq_0_iff)

lemma fold_carry:
  fixes s :: nat
  assumes "s < 2 ^ 20"
  defines "t \<equiv> s div 65536 + s mod 65536"
  shows "(t + t div 65536) mod 65536 mod 65535 = s mod 65535" and "0 < s \<Longrightarrow> 0 < (t + t div 65536) mod 65536"
proof -
  define a b where ab: "a = s div 65536" "b = s mod 65536"
  have s: "s = 65536 * a + b" by (simp add: ab)
  have lt: "a < 16" "b < 65536" using assms(1) by (auto simp: ab less_mult_imp_div_less)
  have t: "t = a + b" by (simp add: t_def ab)
  have "s = (a + b) + 65535 * a" using s by simp
  then have st: "s mod 65535 = t mod 65535" by (simp only: t mod_mult_self2)
  have "(t + t div 65536) mod 65536 mod 65535 = s mod 65535 \<and> (0 < s \<longrightarrow> 0 < (t + t div 65536) mod 65536)"
  proof (cases "t < 65536")
    case True
    then show ?thesis using st s t by auto
  next
    case False
    define r where "r = t - 65536"
    have r: "t = 65536 + r" "r < 16" using False t lt by (simp_all add: r_def)
    then have "t div 65536 = 1" by simp
    moreover have "(t + 1) mod 65536 = r + 1" "t mod 65535 = r + 1"
      using r mod_add_self1 [of 65536 "r + 1"] mod_add_self1 [of 65535 "r + 1"] by (simp_all add: mod_less)
    ultimately show ?thesis using st r by simp
  qed
  then show "(t + t div 65536) mod 65536 mod 65535 = s mod 65535" "0 < s \<Longrightarrow> 0 < (t + t div 65536) mod 65536"
    by auto
qed

lemma low16: "(0xffff :: u32) = mask 16"
  by (simp add: mask_eq_exp_minus_1)

lemma unat_and_low16: "unat ((x :: u32) AND 0xffff) = unat x mod 65536"
  unfolding low16 take_bit_eq_mask [symmetric] unsigned_take_bit_eq by (simp add: take_bit_eq_mod)

lemma unat_drop16: "unat (drop_bit 16 (x :: u32)) = unat x div 65536"
proof -
  have "unat x < 2 ^ 32" using unsigned_less [of x, where 'a = nat] by simp
  then show ?thesis unfolding unsigned_drop_bit_eq by (simp add: drop_bit_eq_div take_bit_nat_eq_self)
qed

lemma unat_not16: "unat (NOT (w :: u16)) = 65535 - unat w"
proof -
  have "NOT w = - 1 - w" by (simp add: not_eq_complement)
  moreover have "unat (- 1 - w) = unat (- 1 :: u16) - unat w" by (rule unat_sub) simp
  ultimately show ?thesis by (simp add: unsigned_minus_1_eq_mask mask_eq_exp_minus_1)
qed

lemma unat_u16_less: "unat (w :: u16) < 65536"
  using unsigned_less [of w, where 'a = nat] by simp

lemma unat_ucast_u16_u32 [simp]: "unat (ucast (w :: u16) :: u32) = unat w"
  using unat_u16_less [of w] by (simp add: unsigned_ucast_eq take_bit_nat_eq_self)

lemma not_low16: "NOT (ucast (w :: u16)) AND 0xffff = (ucast (NOT w) :: u32)"
  unfolding low16 by (rule bit_word_eqI) (auto simp: bit_simps)

lemma unat_not_low16: "unat (NOT (ucast (w :: u16)) AND 0xffff :: u32) = 65535 - unat w"
  by (simp add: not_low16 unat_not16)

lemma unat_result: "unat (ucast (NOT s AND 0xffff :: u32) :: u16) = 65535 - unat s mod 65536"
proof -
  have "(ucast (NOT s AND 0xffff :: u32) :: u16) = NOT (ucast s)"
    unfolding low16 by (rule bit_word_eqI) (auto simp: bit_simps)
  moreover have "unat (ucast s :: u16) = unat s mod 65536" by (simp add: unsigned_ucast_eq take_bit_eq_mod)
  ultimately show ?thesis by (simp add: unat_not16)
qed

lemma unat_add_small: "unat (x :: u32) + unat y < 2 ^ 32 \<Longrightarrow> unat (x + y) = unat x + unat y"
  by (simp add: unat_word_ariths)

text \<open>The folding at the end of both update functions.\<close>

lemma fold_result:
  fixes s :: u32
  assumes "unat s < 2 ^ 20"
  defines "t \<equiv> drop_bit 16 s + (s AND 0xffff)"
  shows "\<exists>r. unat (ucast (NOT (t + drop_bit 16 t) AND 0xffff) :: u16) = 65535 - r \<and> r \<le> 65535
    \<and> r mod 65535 = unat s mod 65535"
proof -
  have "unat s div 65536 < 16" using assms(1) by (intro less_mult_imp_div_less) simp
  then have t: "unat t = unat s div 65536 + unat s mod 65536"
    unfolding t_def using unat_add_small [of "drop_bit 16 s" "s AND 0xffff"] by (simp add: unat_drop16 unat_and_low16)
  have "unat t div 65536 < 16" "unat t < 2 ^ 20"
    using t \<open>unat s div 65536 < 16\<close> by (auto intro!: less_mult_imp_div_less)
  then have "unat (t + drop_bit 16 t) = unat t + unat t div 65536"
    using unat_add_small [of t "drop_bit 16 t"] by (simp add: unat_drop16)
  moreover have "(unat t + unat t div 65536) mod 65536 \<le> 65535" by (simp add: less_Suc_eq_le [symmetric])
  ultimately show ?thesis
    using fold_carry [OF assms(1), folded t] unat_result [of "t + drop_bit 16 t"]
    by (intro exI [of _ "(unat t + unat t div 65536) mod 65536"]) auto
qed

lemma cksum_step:
  assumes "r \<le> 65535" and "r mod 65535 = (65535 - ck + (65535 * k - ov) + nv) mod 65535" and "ck \<le> (65535 :: nat)"
    and "ov \<le> 65535 * k" and "65535 dvd ov + rest + ck"
  shows "65535 dvd nv + rest + (65535 - r)"
proof -
  let ?m = "65535 :: int" and ?x = "65535 - ck + (65535 * k - ov) + nv"
  have "int (r mod 65535) = int (?x mod 65535)" using assms(2) by (rule arg_cong)
  then have "int r mod ?m = int ?x mod ?m" by (simp only: zmod_int of_nat_numeral)
  then have "?m dvd int r - int ?x" by (simp only: mod_eq_dvd_iff)
  moreover have "int ?x = (int nv - int ov - int ck) + ?m * (1 + int k)"
    using assms(3,4) by (simp add: of_nat_diff)
  ultimately have "?m dvd (int r - (int nv - int ov - int ck)) - ?m * (1 + int k)" by (simp only: diff_diff_eq)
  then have d1: "?m dvd int r - (int nv - int ov - int ck)" by (simp only: dvd_diff_left_iff dvd_triv_left)
  have d2: "?m dvd int ov + int rest + int ck"
    using assms(5) by (metis of_nat_add of_nat_dvd_iff of_nat_numeral)
  have "int (nv + rest + (65535 - r)) = (int ov + int rest + int ck) - (int r - (int nv - int ov - int ck)) + ?m"
    using assms(1) by (simp add: of_nat_diff)
  then have "?m dvd int (nv + rest + (65535 - r))" using dvd_diff [OF d2 d1] by (simp only: dvd_add_left_iff dvd_refl)
  then show ?thesis by (metis of_nat_dvd_iff of_nat_numeral)
qed

definition hi16 :: "u32 \<Rightarrow> u16" where "hi16 x = ucast (drop_bit 16 x)"

definition lo16 :: "u32 \<Rightarrow> u16" where "lo16 x = ucast x"

lemma unat_halves: "unat (hi16 x) = unat x div 65536" "unat (lo16 x) = unat x mod 65536"
proof -
  have "unat x div 65536 < 65536" using unsigned_less [of x, where 'a = nat] by (intro less_mult_imp_div_less) simp
  then show "unat (hi16 x) = unat x div 65536"
    unfolding hi16_def by (simp add: unsigned_ucast_eq unat_drop16 take_bit_nat_eq_self)
  show "unat (lo16 x) = unat x mod 65536" by (simp add: lo16_def unsigned_ucast_eq take_bit_eq_mod)
qed

lemma not_halves: "NOT (x :: u32) AND 0xffff = ucast (NOT (lo16 x))" "drop_bit 16 (NOT x) = ucast (NOT (hi16 x))"
  unfolding low16 lo16_def hi16_def by (rule bit_word_eqI; auto simp: bit_simps)+

lemma fixup16_spec:
  "\<exists>r. unat (npf_fixup16_cksum ck od nd) = 65535 - r \<and> r \<le> 65535
     \<and> r mod 65535 = (65535 - unat ck + (65535 * 1 - unat od) + unat nd) mod 65535"
proof -
  let ?s = "(NOT (ucast ck) AND 0xffff :: u32) + ((NOT (ucast od) AND 0xffff) + ucast nd)"
  have "unat ?s = 65535 - unat ck + (65535 - unat od + unat nd)"
    using unat_u16_less [of ck] unat_u16_less [of od] unat_u16_less [of nd]
    by (simp add: unat_add_small unat_not_low16)
  with fold_result [of ?s] show ?thesis
    using unat_u16_less [of nd] by (simp add: npf_fixup16_cksum_def Let_def add.assoc)
qed

lemma fixup32_spec:
  "\<exists>r. unat (npf_fixup32_cksum ck od nd) = 65535 - r \<and> r \<le> 65535
     \<and> r mod 65535 = (65535 - unat ck + (65535 * 2 - (unat (hi16 od) + unat (lo16 od))) + (unat (hi16 nd) + unat (lo16 nd))) mod 65535"
proof -
  let ?s = "(NOT (ucast ck) AND 0xffff :: u32) + ((NOT od AND 0xffff) + (nd AND 0xffff)) + (drop_bit 16 (NOT od) + drop_bit 16 nd)"
  have b: "unat ck < 65536" "unat (hi16 od) < 65536" "unat (lo16 od) < 65536" "unat (hi16 nd) < 65536" "unat (lo16 nd) < 65536"
    by (rule unat_u16_less)+
  note u0 = unat_not_low16 [of ck]
  have u: "unat (NOT od AND 0xffff) = 65535 - unat (lo16 od)"
    "unat (drop_bit 16 (NOT od)) = 65535 - unat (hi16 od)" "unat (nd AND 0xffff) = unat (lo16 nd)"
    "unat (drop_bit 16 nd) = unat (hi16 nd)"
    by (simp_all only: not_halves unat_ucast_u16_u32 unat_not16 unat_and_low16 unat_drop16 unat_halves)
  have "unat ?s = 65535 - unat ck + (65535 - unat (lo16 od) + unat (lo16 nd)) + (65535 - unat (hi16 od) + unat (hi16 nd))"
    using b by (simp add: unat_add_small u0 u)
  moreover have "65535 - unat ck + (65535 - unat (lo16 od) + unat (lo16 nd)) + (65535 - unat (hi16 od) + unat (hi16 nd))
      = 65535 - unat ck + (65535 * 2 - (unat (hi16 od) + unat (lo16 od))) + (unat (hi16 nd) + unat (lo16 nd))" using b by simp
  moreover have "\<dots> < 2 ^ 20" using b by simp
  ultimately show ?thesis using fold_result [of ?s] unfolding npf_fixup32_cksum_def Let_def by simp
qed

lemma fixup16_valid:
  assumes "cksum_valid ck (pre @ od # post)" and "\<exists>w \<in> set (pre @ nd # post). w \<noteq> 0"
  shows "cksum_valid (npf_fixup16_cksum ck od nd) (pre @ nd # post)"
proof -
  obtain r where r: "unat (npf_fixup16_cksum ck od nd) = 65535 - r" "r \<le> 65535"
    "r mod 65535 = (65535 - unat ck + (65535 * 1 - unat od) + unat nd) mod 65535" using fixup16_spec by blast
  have "65535 dvd unat nd + word_sum (pre @ post) + (65535 - r)"
    using assms(1) unat_u16_less [of ck] unat_u16_less [of od]
    by (intro cksum_step [OF r(2,3)]) (auto simp: cksum_valid_def ac_simps)
  moreover have "0 < word_sum (pre @ nd # post)" using assms(2) by (simp only: word_sum_pos)
  ultimately show ?thesis using r(1) by (auto simp: cksum_valid_def ac_simps)
qed

lemma fixup32_valid:
  assumes "cksum_valid ck (pre @ hi16 od # lo16 od # post)" and "\<exists>w \<in> set (pre @ hi16 nd # lo16 nd # post). w \<noteq> 0"
  shows "cksum_valid (npf_fixup32_cksum ck od nd) (pre @ hi16 nd # lo16 nd # post)"
proof -
  obtain r where r: "unat (npf_fixup32_cksum ck od nd) = 65535 - r" "r \<le> 65535"
    "r mod 65535 = (65535 - unat ck + (65535 * 2 - (unat (hi16 od) + unat (lo16 od))) + (unat (hi16 nd) + unat (lo16 nd))) mod 65535"
    using fixup32_spec by blast
  have "65535 dvd (unat (hi16 nd) + unat (lo16 nd)) + word_sum (pre @ post) + (65535 - r)"
    using assms(1) unat_u16_less [of ck] unat_u16_less [of "hi16 od"] unat_u16_less [of "lo16 od"]
    by (intro cksum_step [OF r(2,3)]) (auto simp: cksum_valid_def ac_simps)
  moreover have "0 < word_sum (pre @ hi16 nd # lo16 nd # post)" using assms(2) by (simp only: word_sum_pos)
  ultimately show ?thesis using r(1) by (auto simp: cksum_valid_def ac_simps)
qed

definition halves :: "u32 list \<Rightarrow> u16 list" where
  "halves ws = concat (map (\<lambda>w. [hi16 w, lo16 w]) ws)"

lemma halves_simps [simp]: "halves [] = []" "halves (w # ws) = hi16 w # lo16 w # halves ws"
  by (simp_all add: halves_def)

lemma addr_cksum_valid:
  "length os = length ns \<Longrightarrow> os \<noteq> [] \<Longrightarrow> cksum_valid ck (pre @ halves os @ post) \<Longrightarrow> \<exists>w \<in> set (pre @ post). w \<noteq> 0 \<Longrightarrow>
    cksum_valid (npf_addr_cksum ck os ns) (pre @ halves ns @ post)"
proof (induction ck os ns arbitrary: pre rule: npf_addr_cksum.induct)
  case (1 ck ow ows nw nws)
  have "cksum_valid (npf_fixup32_cksum ck ow nw) (pre @ hi16 nw # lo16 nw # (halves ows @ post))"
    using 1(4,5) by (intro fixup32_valid) auto
  then have v: "cksum_valid (npf_fixup32_cksum ck ow nw) ((pre @ [hi16 nw, lo16 nw]) @ halves ows @ post)" by simp
  show ?case
  proof (cases "ows = []")
    case True
    then show ?thesis using v 1(2) by simp
  next
    case False
    with 1(1) [OF refl False _ False v] 1(2,5) show ?thesis by (simp add: Let_def)
  qed
qed auto

section \<open>Addresses\<close>

text \<open>Bit \<open>j\<close> of an address, counted from its first, most significant bit.\<close>

definition abit :: "u32 list \<Rightarrow> nat \<Rightarrow> bool" where
  "abit ws j = bit (ws ! (j div 32)) (31 - j mod 32)"

lemma abit_Cons: "abit (w # ws) j = (if j < 32 then bit w (31 - j) else abit ws (j - 32))"
proof (cases "j < 32")
  case False
  then have "j div 32 = Suc ((j - 32) div 32)" "j mod 32 = (j - 32) mod 32" by (simp_all add: le_div_geq le_mod_geq)
  with False show ?thesis by (simp add: abit_def)
qed (simp add: abit_def)

lemma abit_eqI:
  assumes "length xs = length ys" and "\<And>j. j < 32 * length xs \<Longrightarrow> abit xs j = abit ys j"
  shows "xs = ys"
proof (rule nth_equalityI [OF assms(1)])
  fix i assume i: "i < length xs"
  show "xs ! i = ys ! i"
  proof (rule bit_word_eqI)
    fix k assume "k < LENGTH(32)"
    then have k: "k < 32" by simp
    define d where "d = 31 - k"
    have d: "d < 32" "31 - d = k" using k by (simp_all add: d_def)
    then have "(32 * i + d) div 32 = i" "(32 * i + d) mod 32 = d" "32 * i + d < 32 * length xs" using i by auto
    then show "bit (xs ! i) k = bit (ys ! i) k" using assms(2) [of "32 * i + d"] d(2) by (simp add: abit_def)
  qed
qed

lemma ones32: "(0xffffffff :: u32) = mask 32"
  by (simp add: mask_eq_exp_minus_1)

lemma bit_wordmask:
  assumes "k < 32"
  shows "bit (if 32 \<le> len then 0xffffffff else if len \<noteq> 0 then push_bit (32 - len) 0xffffffff else 0 :: u32) (31 - k)
    \<longleftrightarrow> k < len"
  unfolding ones32 using assms by (auto simp: bit_simps)

lemma npf_addr_mask_spec:
  "length (npf_addr_mask ws len) = length ws \<and>
   (\<forall>j < 32 * length ws. abit (npf_addr_mask ws len) j \<longleftrightarrow> abit ws j \<and> j < len)"
proof (induction ws arbitrary: len)
  case (Cons w ws)
  let ?m = "if 32 \<le> len then 0xffffffff else if len \<noteq> 0 then push_bit (32 - len) 0xffffffff else 0 :: u32"
  let ?l = "if 32 \<le> len then len - 32 else 0"
  have eq: "npf_addr_mask (w # ws) len = (w AND ?m) # npf_addr_mask ws ?l" by simp
  have "abit ((w AND ?m) # npf_addr_mask ws ?l) j \<longleftrightarrow> abit (w # ws) j \<and> j < len" if "j < 32 * length (w # ws)" for j
  proof (cases "j < 32")
    case True
    then show ?thesis using bit_wordmask [OF True, of len] by (simp add: abit_Cons bit_and_iff)
  next
    case False
    then show ?thesis using Cons [of ?l] that by (auto simp: abit_Cons)
  qed
  then show ?case unfolding eq using Cons [of ?l] by simp
qed simp

lemma addr_memcmp_0: "length xs = length ys \<Longrightarrow> addr_memcmp xs ys = 0 \<longleftrightarrow> xs = ys"
  by (induction xs ys rule: addr_memcmp.induct) auto

lemma addr_memcmp_neg: "addr_memcmp xs ys = - addr_memcmp ys xs"
  by (induction xs ys rule: addr_memcmp.induct) auto

lemma npf_addr_cmp_neg: "npf_addr_cmp a1 m1 a2 m2 = - npf_addr_cmp a2 m2 a1 m1"
  unfolding npf_addr_cmp_def Let_def by (rule addr_memcmp_neg)

lemma npf_addr_cmp_prefix:
  assumes "length a1 = length a2" and "m \<noteq> NPF_NO_NETMASK"
  shows "npf_addr_cmp a1 m a2 m = 0 \<longleftrightarrow> (\<forall>j < 32 * length a1. j < unat m \<longrightarrow> abit a1 j = abit a2 j)"
proof -
  note s1 = npf_addr_mask_spec [of a1 "unat m"] and s2 = npf_addr_mask_spec [of a2 "unat m"]
  have "npf_addr_mask a1 (unat m) = npf_addr_mask a2 (unat m) \<longleftrightarrow>
      (\<forall>j < 32 * length a1. abit (npf_addr_mask a1 (unat m)) j = abit (npf_addr_mask a2 (unat m)) j)"
    using s1 s2 assms(1) by (auto intro: abit_eqI)
  also have "\<dots> \<longleftrightarrow> (\<forall>j < 32 * length a1. j < unat m \<longrightarrow> abit a1 j = abit a2 j)" using s1 s2 assms(1) by auto
  finally show ?thesis using s1 s2 assms by (simp add: npf_addr_cmp_def addr_memcmp_0)
qed

lemma npf_addr_mix_comm: "npf_addr_mix a1 a2 = npf_addr_mix a2 a1"
proof -
  have "npf_addr_mix_loop m xs ys = npf_addr_mix_loop m ys xs" for m xs ys
    by (induction m xs ys rule: npf_addr_mix_loop.induct) (auto simp: xor.assoc xor.left_commute xor.commute)
  then show ?thesis by (simp add: npf_addr_mix_def)
qed

section \<open>TCP options\<close>

text \<open>A reference parser: the options as a list of kinds with their data, up to the end-of-list
  option or the first malformed one.\<close>

function parse_opts :: "u8 list \<Rightarrow> (u8 \<times> u8 list) list" where
  "parse_opts [] = []"
| "parse_opts (k # rest) =
     (if k = TCPOPT_EOL then []
      else if k = TCPOPT_NOP then (k, []) # parse_opts rest
      else case rest of [] \<Rightarrow> []
        | l # d \<Rightarrow> if unat l < 2 \<or> Suc (length rest) < unat l then []
                  else (k, take (unat l - 2) d) # parse_opts (drop (unat l - 2) d))"
  by pat_completeness auto
termination by (relation "measure length") auto

definition opt_effect :: "bool \<Rightarrow> (u8 \<times> u8) option \<times> nat \<Rightarrow> u8 \<times> u8 list \<Rightarrow> (u8 \<times> u8) option \<times> nat" where
  "opt_effect want r o' = (case (r, o') of ((mss, ws), (k, d)) \<Rightarrow>
     (if k = TCPOPT_MAXSEG \<and> length d = 2 \<and> want then Some (d ! 0, d ! 1) else mss,
      if k = TCPOPT_WINDOW \<and> length d = 1 then min (unat (d ! 0)) TCP_MAX_WINSHIFT else ws))"

text \<open>The head of the option loops agrees with the reference parser and reads inside the bytes.\<close>

lemma opt_head_spec:
  assumes "int cp + cnt = int (length bs)" and "0 < cnt"
  shows "\<exists>h. opt_head bs cp cnt = Some h \<and>
    (case h of None \<Rightarrow> parse_opts (drop cp bs) = []
     | Some (opt, l) \<Rightarrow> 1 \<le> l \<and> int l \<le> cnt \<and> (opt = TCPOPT_NOP \<longleftrightarrow> l = 1)
         \<and> parse_opts (drop cp bs) = (opt, take (l - 2) (drop (cp + 2) bs)) # parse_opts (drop (cp + l) bs))"
proof -
  have lt: "cp < length bs" using assms by simp
  define k rest where kr: "k = bs ! cp" "rest = drop (Suc cp) bs"
  have d: "drop cp bs = k # rest" using lt by (simp add: kr Cons_nth_drop_Suc)
  consider "k = TCPOPT_EOL" | "k = TCPOPT_NOP" | "k \<noteq> TCPOPT_EOL" "k \<noteq> TCPOPT_NOP" "cnt < 2"
    | "k \<noteq> TCPOPT_EOL" "k \<noteq> TCPOPT_NOP" "2 \<le> cnt" by linarith
  then show ?thesis
  proof cases
    case 3
    then have "rest = []" using assms by (simp add: kr)
    with 3 lt show ?thesis by (simp add: opt_head_def rd_def kr(1) [symmetric] d)
  next
    case 4
    then have lt1: "Suc cp < length bs" using assms by simp
    define l where "l = unat (bs ! Suc cp)"
    have r: "rest = bs ! Suc cp # drop (cp + 2) bs" using lt1 by (simp add: kr Cons_nth_drop_Suc)
    have len: "int (Suc (length rest)) = cnt" using assms lt by (simp add: kr)
    show ?thesis
    proof (cases "l < 2 \<or> int l > cnt")
      case True
      then have "opt_head bs cp cnt = Some None" using 4 lt lt1 by (simp add: opt_head_def rd_def kr(1) [symmetric] l_def Let_def)
      moreover from True len have "l < 2 \<or> Suc (length rest) < l" by linarith
      then have "parse_opts (drop cp bs) = []" using 4 unfolding d r l_def by auto
      ultimately show ?thesis by simp
    next
      case False
      then have "opt_head bs cp cnt = Some (Some (k, l))" using 4 lt lt1 by (simp add: opt_head_def rd_def kr(1) [symmetric] l_def Let_def)
      moreover have "parse_opts (drop cp bs) = (k, take (l - 2) (drop (cp + 2) bs)) # parse_opts (drop (l - 2) (drop (cp + 2) bs))"
      proof -
        from False len have "\<not> (l < 2 \<or> Suc (length rest) < l)" by linarith
        with 4 show ?thesis unfolding d r l_def by auto
      qed
      moreover have "drop (l - 2) (drop (cp + 2) bs) = drop (cp + l) bs"
        using False by (simp only: drop_drop) (rule arg_cong [where f = "\<lambda>n. drop n bs"], linarith)
      ultimately show ?thesis using 4 False by simp
    qed
  qed (use lt assms in \<open>simp_all add: opt_head_def rd_def kr(1) [symmetric] d\<close>, simp_all add: kr)
qed

lemma fetch_loop_spec:
  "int cp + cnt = int (length bs) \<Longrightarrow>
    fetch_loop want bs cp cnt mss ws = Some (foldl (opt_effect want) (mss, ws) (parse_opts (drop cp bs)))"
proof (induction "nat cnt" arbitrary: cp cnt mss ws rule: less_induct)
  case less
  show ?case
  proof (cases "0 < cnt")
    case False
    then have "drop cp bs = []" using less.prems by simp
    then show ?thesis using False by (subst fetch_loop.simps) simp
  next
    case True
    from opt_head_spec [OF less.prems True] obtain h where h: "opt_head bs cp cnt = Some h"
      "case h of None \<Rightarrow> parse_opts (drop cp bs) = []
     | Some (opt, l) \<Rightarrow> 1 \<le> l \<and> int l \<le> cnt \<and> (opt = TCPOPT_NOP \<longleftrightarrow> l = 1)
         \<and> parse_opts (drop cp bs) = (opt, take (l - 2) (drop (cp + 2) bs)) # parse_opts (drop (cp + l) bs)" by blast
    show ?thesis
    proof (cases h)
      case None
      then show ?thesis using h True by (subst fetch_loop.simps) simp
    next
      case (Some x)
      then obtain opt l where x: "h = Some (opt, l)" by (cases x) auto
      have l: "1 \<le> l" "int l \<le> cnt" and p: "parse_opts (drop cp bs) = (opt, take (l - 2) (drop (cp + 2) bs)) # parse_opts (drop (cp + l) bs)"
        using h(2) x by auto
      have len: "length (take (l - 2) (drop (cp + 2) bs)) = l - 2" using l less.prems by auto
      have "nat (cnt - int l) < nat cnt" "int (cp + l) + (cnt - int l) = int (length bs)" using l less.prems by auto
      note IH = less.hyps [OF this]
      have nth: "cp + 3 < length bs \<Longrightarrow> rd16 bs (cp + 2) = Some (bs ! (cp + 2), bs ! Suc (Suc (Suc cp)))"
        by (simp add: rd16_def rd_def eval_nat_numeral)
      have "l = 4 \<Longrightarrow> cp + 3 < length bs" "l = 3 \<Longrightarrow> cp + 2 < length bs" using l less.prems by auto
      then show ?thesis
        by (subst fetch_loop.simps) (use True h(1) x len IH nth in \<open>auto simp: p opt_effect_def rd_def min_def\<close>)
    qed
  qed
qed

lemma fetch_wscale_bound:
  "ws \<le> TCP_MAX_WINSHIFT \<Longrightarrow> snd (foldl (opt_effect want) (mss, ws) os) \<le> TCP_MAX_WINSHIFT"
proof (induction os arbitrary: mss ws)
  case (Cons x os)
  obtain mss' ws' where e: "opt_effect want (mss, ws) x = (mss', ws')" by (cases "opt_effect want (mss, ws) x")
  then have "ws' \<le> TCP_MAX_WINSHIFT" using Cons.prems by (auto simp: opt_effect_def split: prod.splits if_splits)
  with Cons.IH e show ?case by simp
qed simp

definition mss_opt :: "u8 \<times> u8 \<Rightarrow> u8 \<times> u8 list \<Rightarrow> u8 \<times> u8 list" where
  "mss_opt mss o' = (if fst o' = TCPOPT_MAXSEG \<and> length (snd o') = 2 then (fst o', [fst mss, snd mss]) else o')"

lemma wr16_spec: "i + 1 < length bs \<Longrightarrow> wr16 bs i v = Some (bs[i := fst v, i + 1 := snd v])"
  by (simp add: wr16_def wr_def)

text \<open>The rewritten bytes: the same length, equal before \<open>cp\<close>, and the same options but for the
  segment size.\<close>

definition mss_rewritten :: "u8 \<times> u8 \<Rightarrow> u8 list \<Rightarrow> nat \<Rightarrow> u8 list \<Rightarrow> bool" where
  "mss_rewritten mss bs cp bs' \<longleftrightarrow> length bs' = length bs \<and> take cp bs' = take cp bs
     \<and> parse_opts (drop cp bs') = map (mss_opt mss) (parse_opts (drop cp bs))"

lemma opt_head_cong:
  assumes "opt_head bs cp cnt = Some (Some (opt, l))" and "length bs' = length bs"
    and "bs' ! cp = bs ! cp" and "l \<noteq> 1 \<Longrightarrow> bs' ! (cp + 1) = bs ! (cp + 1)"
  shows "opt_head bs' cp cnt = Some (Some (opt, l))"
  using assms by (auto simp: opt_head_def rd_def Let_def bind_eq_Some_conv split: if_splits)

lemma mss_rewritten_step:
  assumes len: "int cp + cnt = int (length bs)" "0 < cnt" and h: "opt_head bs cp cnt = Some (Some (opt, l))"
    and eq: "length bs1 = length bs" "take cp bs1 = take cp bs" "bs1 ! cp = bs ! cp" "bs1 ! (cp + 1) = bs ! (cp + 1)"
      "drop (cp + l) bs1 = drop (cp + l) bs"
    and data: "(opt, take (l - 2) (drop (cp + 2) bs1)) = mss_opt mss (opt, take (l - 2) (drop (cp + 2) bs))"
    and rw: "mss_rewritten mss bs1 (cp + l) bs'"
  shows "mss_rewritten mss bs cp bs'"
proof -
  from opt_head_spec [OF len] h have l: "1 \<le> l" "int l \<le> cnt"
    and p: "parse_opts (drop cp bs) = (opt, take (l - 2) (drop (cp + 2) bs)) # parse_opts (drop (cp + l) bs)" by auto
  from rw have len': "length bs' = length bs" and tk: "take (cp + l) bs' = take (cp + l) bs1"
    and pr: "parse_opts (drop (cp + l) bs') = map (mss_opt mss) (parse_opts (drop (cp + l) bs))"
    using eq(1,5) by (simp_all add: mss_rewritten_def)
  have nth: "bs' ! i = bs1 ! i" if "i < cp + l" for i using tk that by (metis nth_take)
  have "opt_head bs' cp cnt = Some (Some (opt, l))"
    using l eq nth by (intro opt_head_cong [OF h len']) auto
  moreover have len2: "int cp + cnt = int (length bs')" using len(1) len' by simp
  ultimately have "parse_opts (drop cp bs') = (opt, take (l - 2) (drop (cp + 2) bs')) # parse_opts (drop (cp + l) bs')"
    using opt_head_spec [OF len2 len(2)] by auto
  moreover have "take (l - 2) (drop (cp + 2) bs') = take (l - 2) (drop (cp + 2) bs1)"
    using nth len' eq(1) by (intro nth_equalityI) auto
  moreover have "take cp bs' = take cp bs" using tk eq(2) by (metis min.absorb1 le_add1 take_take)
  ultimately show ?thesis using p pr data len' by (simp add: mss_rewritten_def)
qed

lemma set_mss_loop_spec:
  "int cp + cnt = int (length bs) \<Longrightarrow> even (length bs) \<Longrightarrow>
    \<exists>bs' info'. set_mss_loop mss bs cp cnt info = Some (bs', info') \<and> mss_rewritten mss bs cp bs'"
proof (induction "nat cnt" arbitrary: bs cp cnt info rule: less_induct)
  case less
  note len = less.prems(1)
  show ?case
  proof (cases "0 < cnt")
    case False
    then have "drop cp bs = []" using len by simp
    then show ?thesis using False by (subst set_mss_loop.simps) (simp add: mss_rewritten_def)
  next
    case True
    from opt_head_spec [OF len True] obtain h where h: "opt_head bs cp cnt = Some h"
      "case h of None \<Rightarrow> parse_opts (drop cp bs) = []
     | Some (opt, l) \<Rightarrow> 1 \<le> l \<and> int l \<le> cnt \<and> (opt = TCPOPT_NOP \<longleftrightarrow> l = 1)
         \<and> parse_opts (drop cp bs) = (opt, take (l - 2) (drop (cp + 2) bs)) # parse_opts (drop (cp + l) bs)" by blast
    show ?thesis
    proof (cases h)
      case None
      then show ?thesis using h True by (subst set_mss_loop.simps) (simp add: mss_rewritten_def)
    next
      case (Some x)
      then obtain opt l where x: "h = Some (opt, l)" by (cases x) auto
      have l: "1 \<le> l" "int l \<le> cnt" using h(2) x by auto
      have dec: "nat (cnt - int l) < nat cnt" using l by simp
      define bs1 where "bs1 = (if opt = TCPOPT_MAXSEG \<and> l = TCPOLEN_MAXSEG
        then bs[cp + 2 := fst mss, cp + 2 + 1 := snd mss] else bs)"
      have len1: "int (cp + l) + (cnt - int l) = int (length bs1)" "even (length bs1)" "length bs1 = length bs"
        using len less.prems(2) by (simp_all add: bs1_def)
      have "\<exists>info1. set_mss_loop mss bs cp cnt info = set_mss_loop mss bs1 (cp + l) (cnt - int l) info1"
      proof (cases "opt = TCPOPT_MAXSEG \<and> l = TCPOLEN_MAXSEG")
        case True
        have c4: "cp + 4 \<le> length bs" using l len True by linarith
        then have w: "wr16 bs (cp + 2) mss = Some bs1" using True by (simp add: wr16_spec bs1_def)
        show ?thesis
        proof (cases "even cp")
          case True
          show ?thesis
            by (subst set_mss_loop.simps) (use \<open>0 < cnt\<close> h(1) x w \<open>opt = _ \<and> l = _\<close> True in auto)
        next
          case False
          then have "cp + 4 \<noteq> length bs" using less.prems(2) by (metis even_add even_numeral)
          then have "rd16 bs (cp + 1) \<noteq> None" "rd16 bs (cp + 3) \<noteq> None" "rd16 bs1 (cp + 1) \<noteq> None" "rd16 bs1 (cp + 3) \<noteq> None"
            using c4 len1(3) by (simp_all add: rd16_def rd_def)
          then show ?thesis
            by (subst set_mss_loop.simps) (use \<open>0 < cnt\<close> h(1) x w \<open>opt = _ \<and> l = _\<close> False in auto)
        qed
      next
        case False
        then show ?thesis by (subst set_mss_loop.simps) (use True h(1) x in \<open>auto simp: bs1_def\<close>)
      qed
      with less.hyps [OF dec len1(1,2)] obtain bs' info' where
        r: "set_mss_loop mss bs cp cnt info = Some (bs', info')" "mss_rewritten mss bs1 (cp + l) bs'" by metis
      have d: "(opt, take (l - 2) (drop (cp + 2) bs1)) = mss_opt mss (opt, take (l - 2) (drop (cp + 2) bs))"
        using l len by (auto simp: mss_opt_def bs1_def nth_list_update intro!: nth_equalityI dest!: less_2_cases)
      have "mss_rewritten mss bs cp bs'"
        by (rule mss_rewritten_step [OF len True _ len1(3) _ _ _ _ d r(2)]) (use h(1) x in \<open>auto simp: bs1_def\<close>)
      with r(1) show ?thesis by blast
    qed
  qed
qed

section \<open>Properties\<close>

text \<open>C35: An incremental checksum update keeps a packet valid: if the checksum of a packet is
  right, then after a 16-bit word, a 32-bit word or an address of any number of words is
  replaced, the updated checksum is right for the new packet.  The one packet it is not right
  for is the one whose words are all zero, hence the last hypothesis.\<close>

theorem npf_cksum_update_valid:
  assumes "\<exists>w \<in> set (pre @ post). w \<noteq> 0"
  shows "(cksum_valid ck (pre @ od # post) \<longrightarrow> cksum_valid (npf_fixup16_cksum ck od nd) (pre @ nd # post))
    \<and> (cksum_valid ck (pre @ hi16 ow # lo16 ow # post) \<longrightarrow>
        cksum_valid (npf_fixup32_cksum ck ow nw) (pre @ hi16 nw # lo16 nw # post))
    \<and> (length oa = length na \<longrightarrow> oa \<noteq> [] \<longrightarrow> cksum_valid ck (pre @ halves oa @ post) \<longrightarrow>
        cksum_valid (npf_addr_cksum ck oa na) (pre @ halves na @ post))"
proof -
  have "\<exists>w \<in> set (pre @ nd # post). w \<noteq> 0" "\<exists>w \<in> set (pre @ hi16 nw # lo16 nw # post). w \<noteq> 0" using assms by auto
  then show ?thesis using fixup16_valid fixup32_valid addr_cksum_valid assms by blast
qed

theorem npf_cksum_update_valid_witness:
  "cksum_valid 0xba96 ([0x4500] @ 0x0028 # [0x0041, 0x0000]) \<and>
   npf_fixup16_cksum 0xba96 0x0028 0x1234 = 0xa88a \<and> cksum_valid 0xa88a ([0x4500] @ 0x1234 # [0x0041, 0x0000])"
proof -
  have v: "cksum_valid 0xba96 ([0x4500] @ 0x0028 # [0x0041, 0x0000])" by (simp add: cksum_valid_def)
  have e: "npf_fixup16_cksum 0xba96 0x0028 0x1234 = 0xa88a" by code_simp
  show ?thesis
    using npf_cksum_update_valid [of "[0x4500]" "[0x0041, 0x0000]" "0xba96" "0x0028" "0x1234"] v e by simp
qed

text \<open>\<open>npf_addr_mask\<close> clears exactly the bits after the prefix, so comparing two addresses
  under the same mask gives zero exactly when they agree on the bits of the prefix; the
  comparison is antisymmetric, and the hash input does not depend on the order of the
  addresses.\<close>

theorem npf_addr_mask_prefix:
  assumes "length a1 = length a2" and "m \<noteq> NPF_NO_NETMASK"
  shows "(npf_addr_cmp a1 m a2 m = 0 \<longleftrightarrow> (\<forall>j < 32 * length a1. j < unat m \<longrightarrow> abit a1 j = abit a2 j))
    \<and> (\<forall>j < 32 * length a1. abit (npf_addr_mask a1 (unat m)) j \<longleftrightarrow> abit a1 j \<and> j < unat m)
    \<and> npf_addr_cmp a1 m a2 m = - npf_addr_cmp a2 m a1 m
    \<and> npf_addr_mix a1 a2 = npf_addr_mix a2 a1"
  using npf_addr_cmp_prefix [OF assms] npf_addr_mask_spec [of a1 "unat m"] npf_addr_mix_comm [of a1 a2]
    npf_addr_cmp_neg [of a1 m a2 m] by blast

theorem npf_addr_mask_prefix_witness:
  "npf_addr_cmp [0x0a000105] 24 [0x0a0001ff] 24 = 0 \<and> npf_addr_mix [0x0a000105] [0x0a0001ff] = npf_addr_mix [0x0a0001ff] [0x0a000105]"
proof -
  have "npf_addr_cmp [0x0a000105] 24 [0x0a0001ff] 24 = 0" by code_simp
  then show ?thesis
    using npf_addr_mask_prefix [of "[0x0a000105]" "[0x0a0001ff]" 24] by (simp add: NPF_NO_NETMASK_def)
qed

text \<open>C36: \<open>npf_fetch_tcpopts\<close> reads the options as the reference parser does, for every content of
  the option bytes: the scan ends, never reads outside the bytes, takes the last well-formed
  segment size and window scale, and never gives a scale above \<open>TCP_MAX_WINSHIFT\<close>.\<close>

theorem npf_fetch_tcpopts_correct:
  assumes "0 < opt_cnt npc" and "npc_opts npc = Some bs" and "int (length bs) = opt_cnt npc"
    and "ws \<le> TCP_MAX_WINSHIFT"
  shows "\<exists>mss ws'. npf_fetch_tcpopts want npc ws = Some (True, mss, ws')
    \<and> (mss, ws') = foldl (opt_effect want) (None, ws) (parse_opts bs) \<and> ws' \<le> TCP_MAX_WINSHIFT"
  using fetch_loop_spec [of 0 "opt_cnt npc" bs want None ws] fetch_wscale_bound [OF assms(4), of want None "parse_opts bs"]
    assms(1-3) by (cases "foldl (opt_effect want) (None, ws) (parse_opts bs)") (auto simp: npf_fetch_tcpopts_def)

definition demo_npc :: npf_cache where
  "demo_npc = \<lparr>npc_ip4 = True, npc_ip6 = False, npc_len = 48, npc_hlen = 20, npc_proto = 6,
     npc_tcp = \<lparr>th_seq = 1000, th_ack = 0, th_off = 7, th_flags = TH_SYN, th_win = 512\<rparr>,
     npc_opts = Some [1, 2, 4, 5, 0xb4, 3, 3, 20]\<rparr>"

theorem npf_fetch_tcpopts_correct_witness:
  "\<exists>mss. npf_fetch_tcpopts True demo_npc 0 = Some (True, mss, 14) \<and> mss = Some (5, 0xb4)"
proof -
  have "opt_cnt demo_npc = 8" "npc_opts demo_npc = Some [1, 2, 4, 5, 0xb4, 3, 3, 20]"
    by (simp_all add: opt_cnt_def demo_npc_def)
  moreover have "foldl (opt_effect True) (None, 0) (parse_opts [1, 2, 4, 5, 0xb4, 3, 3, 20]) = (Some (5, 0xb4), 14)" by code_simp
  ultimately show ?thesis
    using npf_fetch_tcpopts_correct [of demo_npc "[1, 2, 4, 5, 0xb4, 3, 3, 20]" 0 True] by simp
qed

text \<open>\<open>npf_set_mss\<close> ends, stays inside the option bytes, also when it copies the four bytes
  around an option at an odd offset, keeps their length, and rewrites every segment size
  option and no other.\<close>

theorem npf_set_mss_correct:
  assumes "0 < opt_cnt npc" and "npc_opts npc = Some bs" and "int (length bs) = opt_cnt npc"
  shows "\<exists>bs' info'. npf_set_mss npc mss info = Some (True, npc\<lparr>npc_opts := Some bs'\<rparr>, info')
    \<and> length bs' = length bs \<and> parse_opts bs' = map (mss_opt mss) (parse_opts bs)"
proof -
  have "even (int (length bs))" unfolding assms(3) opt_cnt_def by simp
  then have "even (length bs)" by simp
  with set_mss_loop_spec [of 0 "opt_cnt npc" bs mss info] assms show ?thesis
    by (auto simp: npf_set_mss_def mss_rewritten_def)
qed

theorem npf_set_mss_correct_witness:
  "\<exists>bs' info'. npf_set_mss demo_npc (2, 0x18) \<lparr>mss_old = ((0, 0), (0, 0)), mss_new = ((0, 0), (0, 0)), mss_mid = False\<rparr>
      = Some (True, demo_npc\<lparr>npc_opts := Some bs'\<rparr>, info')
    \<and> parse_opts bs' = [(1, []), (2, [2, 0x18]), (3, [20])]"
proof -
  have "opt_cnt demo_npc = 8" "npc_opts demo_npc = Some [1, 2, 4, 5, 0xb4, 3, 3, 20]"
    by (simp_all add: opt_cnt_def demo_npc_def)
  moreover have "map (mss_opt (2, 0x18)) (parse_opts [1, 2, 4, 5, 0xb4, 3, 3, 20]) = [(1, []), (2, [2, 0x18]), (3, [20])]" by code_simp
  ultimately show ?thesis
    using npf_set_mss_correct [of demo_npc "[1, 2, 4, 5, 0xb4, 3, 3, 20]" "(2, 0x18)"
        "\<lparr>mss_old = ((0, 0), (0, 0)), mss_new = ((0, 0), (0, 0)), mss_mid = False\<rparr>"] by auto
qed

end
