(* ===== verification/Npf_State_Correct.thy ===== *)
theory Npf_State_Correct
  imports Npf_State Npf_Inet_Correct "HOL-Library.Sublist"
begin

text \<open>
  Correctness of connection tracking: the tables are never indexed outside, the window scale
  stays in range so that no shift overflows, the window check is the four boundaries the source
  states, sequence numbers only move forward, resets are accepted only in order, and a
  connection is established only by a handshake.
\<close>

section \<open>Flag cases\<close>

text \<open>The cases by name, as the comment in \<open>npf_tcpfl2case\<close> describes them.\<close>

definition flag_case :: "u8 \<Rightarrow> nat" where
  "flag_case fl =
     (let syn = fl AND TH_SYN \<noteq> 0; fin = fl AND TH_FIN \<noteq> 0; ack = fl AND TH_ACK \<noteq> 0 in
      if syn \<and> fin then TCPFC_INVALID
      else if fin then TCPFC_FIN
      else if syn then (if ack then TCPFC_SYNACK else TCPFC_SYN)
      else if ack then TCPFC_ACK else TCPFC_INVALID)"

lemma and_flag:
  fixes w f :: u8
  assumes "f = 2 ^ n" and "n < 8"
  shows "w AND f \<noteq> 0 \<longleftrightarrow> bit w n"
proof -
  have "bit (w AND f) j \<longleftrightarrow> j = n \<and> bit w n" for j using assms by (auto simp: bit_and_iff)
  then show ?thesis by (metis bit_0_eq bot_apply bot_bool_def bit_eq_iff)
qed

lemma flag_bits:
  "(fl :: u8) AND TH_FIN \<noteq> 0 \<longleftrightarrow> bit fl 0" "fl AND TH_SYN \<noteq> 0 \<longleftrightarrow> bit fl 1" "fl AND TH_RST \<noteq> 0 \<longleftrightarrow> bit fl 2"
  "fl AND TH_ACK \<noteq> 0 \<longleftrightarrow> bit fl 4"
  by (rule and_flag; simp)+

lemma flag_index:
  "(ucast (fl :: u8) AND (0x02 OR 0x01)) OR drop_bit 2 (ucast fl AND 0x10)
    = ((if bit fl 0 then 1 else 0) OR (if bit fl 1 then 2 else 0) OR (if bit fl 4 then 4 else 0) :: u32)"
proof (rule bit_word_eqI)
  fix n assume "n < LENGTH(32)"
  have b: "bit (1 :: u32) m \<longleftrightarrow> m = 0" "bit (2 :: u32) m \<longleftrightarrow> m = 1" "bit (4 :: u32) m \<longleftrightarrow> m = 2" "bit (0x10 :: u32) m \<longleftrightarrow> m = 4" for m
    using bit_word_exp [where 'a = 32, of 0 m] bit_word_exp [where 'a = 32, of 1 m] bit_word_exp [where 'a = 32, of 2 m]
      bit_word_exp [where 'a = 32, of 4 m] by simp_all
  have i: "bit (if x then w else 0) m \<longleftrightarrow> x \<and> bit w m" for x m and w :: u32 by simp
  show "bit ((ucast fl AND (0x02 OR 0x01)) OR drop_bit 2 (ucast fl AND 0x10) :: u32) n
    \<longleftrightarrow> bit ((if bit fl 0 then 1 else 0) OR (if bit fl 1 then 2 else 0) OR (if bit fl 4 then 4 else 0) :: u32) n"
    unfolding bit_or_iff bit_and_iff bit_drop_bit_eq o_def b i bit_ucast_iff by auto
qed

lemma npf_tcpfl2case_spec: "npf_tcpfl2case fl = flag_case fl"
  unfolding npf_tcpfl2case_def flag_case_def Let_def flag_bits flag_index
  by (cases "bit fl 0"; cases "bit fl 1"; cases "bit fl 4"; simp)

lemma flag_case_less: "flag_case fl < TCPFC_COUNT"
  by (simp add: flag_case_def TCPFC_COUNT_def Let_def)

section \<open>The transition table\<close>

text \<open>What an entry \<open>n\<close> of the table for a state, direction and flag case may be.\<close>

definition fsm_entry_ok :: "nat \<Rightarrow> nat \<Rightarrow> nat \<Rightarrow> nat \<Rightarrow> bool" where
  "fsm_entry_ok s d c n \<longleftrightarrow> (n < 12 \<or> n = NPF_TCPS_OK)
     \<and> (n = NPF_TCPS_ESTABLISHED \<longrightarrow> s = NPF_TCPS_SYN_RECEIVED \<and> d = NPF_FLOW_FORW \<and> c = TCPFC_ACK)
     \<and> (n = NPF_TCPS_SYN_RECEIVED \<longrightarrow> (s = NPF_TCPS_SYN_SENT \<or> s = NPF_TCPS_SIMSYN_SENT) \<and> c = TCPFC_SYNACK)
     \<and> (n = NPF_TCPS_SIMSYN_SENT \<longrightarrow> s = NPF_TCPS_SYN_SENT)
     \<and> (n = NPF_TCPS_SYN_SENT \<longrightarrow> (s = NPF_TCPS_CLOSED \<or> s = NPF_TCPS_TIME_WAIT) \<and> d = NPF_FLOW_FORW \<and> c = TCPFC_SYN)"

lemma fsm_table:
  "list_all (\<lambda>s. list_all (\<lambda>d. list_all (\<lambda>c.
     case fsm_next s d c of None \<Rightarrow> False | Some n \<Rightarrow> fsm_entry_ok s d c n) [0..<5]) [0..<2]) [0..<12]"
  by code_simp

lemma fsm_next_ok:
  assumes "s < 12" and "d \<le> 1" and "c < 5"
  shows "\<exists>n. fsm_next s d c = Some n \<and> fsm_entry_ok s d c n"
proof -
  have "s \<in> set [0..<12]" "d \<in> set [0..<2]" "c \<in> set [0..<5]" using assms by auto
  with fsm_table [unfolded list_all_iff]
  have "case fsm_next s d c of None \<Rightarrow> False | Some n \<Rightarrow> fsm_entry_ok s d c n" by blast
  then show ?thesis by (auto split: option.splits)
qed

section \<open>The invariant of a tracked connection\<close>

definition dir_ok :: "npf_tcpstate \<Rightarrow> bool" where
  "dir_ok f \<longleftrightarrow> nst_wscale f \<le> TCP_MAX_WINSHIFT"

definition tcp_ok :: "npf_state \<Rightarrow> bool" where
  "tcp_ok nst \<longleftrightarrow> nst_state nst < NPF_TCP_NSTATES \<and> dir_ok (fst (nst_tcpst nst)) \<and> dir_ok (snd (nst_tcpst nst))"

text \<open>What the cache guarantees of the option bytes: \<open>nbuf_advance\<close> returns as many as asked for.\<close>

definition npc_ok :: "npf_cache \<Rightarrow> bool" where
  "npc_ok npc \<longleftrightarrow> (\<forall>bs. npc_opts npc = Some bs \<longrightarrow> 0 < opt_cnt npc \<longrightarrow> int (length bs) = opt_cnt npc)"

lemma fetch_total:
  assumes "npc_ok npc"
  shows "\<exists>b m ws. npf_fetch_tcpopts False npc 0 = Some (b, m, ws) \<and> ws \<le> TCP_MAX_WINSHIFT"
proof (cases "npc_opts npc")
  case (Some bs)
  show ?thesis
  proof (cases "0 < opt_cnt npc")
    case True
    then have "int 0 + opt_cnt npc = int (length bs)" using assms Some by (simp add: npc_ok_def)
    from fetch_loop_spec [OF this, of False None 0] fetch_wscale_bound [of 0 False None "parse_opts bs"] Some True
    show ?thesis by (cases "foldl (opt_effect False) (None, 0) (parse_opts bs)") (auto simp: npf_fetch_tcpopts_def)
  qed (auto simp: npf_fetch_tcpopts_def)
qed (auto simp: npf_fetch_tcpopts_def)

lemma dir_ok_get: "tcp_ok nst \<Longrightarrow> dir_ok (get_tcpst nst di)"
  by (simp add: tcp_ok_def get_tcpst_def)

lemma set_tcpst_ok: "tcp_ok nst \<Longrightarrow> dir_ok f \<Longrightarrow> dir_ok t \<Longrightarrow> tcp_ok (set_tcpst nst di f t)"
  by (simp add: tcp_ok_def set_tcpst_def)

lemma set_tcpst_state [simp]: "nst_state (set_tcpst nst di f t) = nst_state nst"
  by (simp add: set_tcpst_def)

lemma get_set_tcpst: "di \<le> 1 \<Longrightarrow> get_tcpst (set_tcpst nst di f t) di = f \<and> get_tcpst (set_tcpst nst di f t) (1 - di) = t"
  by (auto simp: get_tcpst_def set_tcpst_def)

lemma ackwin_Some: "dir_ok f \<Longrightarrow> ackwin f = Some (NPF_TCP_MAXACKWIN * 2 ^ nst_wscale f)"
proof -
  assume "dir_ok f"
  then have "(2 :: int) ^ nst_wscale f \<le> 2 ^ 14" by (intro power_increasing) (auto simp: dir_ok_def TCP_MAX_WINSHIFT_def)
  then show ?thesis by (simp add: ackwin_def NPF_TCP_MAXACKWIN_def)
qed

lemma scaled_win_Some: "dir_ok f \<Longrightarrow> \<exists>w. scaled_win f win = Some w"
  by (auto simp: scaled_win_def dir_ok_def TCP_MAX_WINSHIFT_def)

text \<open>The four boundaries.\<close>

definition window_ok :: "npf_tcpstate \<Rightarrow> npf_tcpstate \<Rightarrow> u32 \<Rightarrow> u32 \<Rightarrow> u32 \<Rightarrow> bool" where
  "window_ok f t seq e ack \<longleftrightarrow>
     SEQ_LEQ e (nst_maxend f) \<and> SEQ_GEQ seq (nst_end f - nst_maxwin t)
     \<and> - NPF_TCP_MAXACKWIN \<le> sint (nst_end t - ack) \<and> sint (nst_end t - ack) \<le> NPF_TCP_MAXACKWIN * 2 ^ nst_wscale f"

lemma window_check_spec:
  assumes "dir_ok f"
  shows "\<exists>f' t'. window_check f t seq e ack win = Some (window_ok f t seq e ack, f', t')
    \<and> nst_wscale f' = nst_wscale f \<and> nst_wscale t' = nst_wscale t
    \<and> (\<not> window_ok f t seq e ack \<longrightarrow> f' = f \<and> t' = t)
    \<and> (window_ok f t seq e ack \<longrightarrow>
        nst_end f' = (if SEQ_GT e (nst_end f) then e else nst_end f) \<and> nst_maxwin f' = max (nst_maxwin f) win
        \<and> nst_maxend f' = nst_maxend f \<and> nst_maxwin t' = nst_maxwin t
        \<and> nst_end t' = (if sint (nst_end t - ack) < 0 then ack else nst_end t)
        \<and> nst_maxend t' = (if SEQ_GEQ (ack + win) (nst_maxend t) then ack + win else nst_maxend t))"
  using ackwin_Some [OF assms] by (auto simp: window_check_def window_ok_def Let_def max_def not_le)

section \<open>Packets\<close>

text \<open>The direction of the sender as the window check sees it: as it is, or set by the first
  packet of that direction.\<close>

lemma init_reply_total:
  assumes "npc_ok npc"
  shows "\<exists>ws. init_reply npc fl e win = Some \<lparr>nst_end = e, nst_maxend = e + 1, nst_maxwin = win, nst_wscale = ws\<rparr>
    \<and> ws \<le> TCP_MAX_WINSHIFT"
  using fetch_total [OF assms] by (auto simp: init_reply_def TCP_MAX_WINSHIFT_def)

lemma inwindow_total:
  assumes ok: "tcp_ok nst" and npc: "npc_ok npc" and di: "di \<le> 1"
  shows "\<exists>b nst'. npf_tcp_inwindow npc nst di = Some (b, nst') \<and> tcp_ok nst' \<and> nst_state nst' = nst_state nst"
proof -
  obtain dlen seq ack win0 where saw: "npf_tcpsaw npc = (dlen, seq, ack, win0)" by (metis prod_cases4)
  let ?f = "get_tcpst nst di" and ?t = "get_tcpst nst (1 - di)" and ?fl = "th_flags (npc_tcp npc)"
  let ?e = "seg_end ?fl seq dlen"
  have fo: "dir_ok ?f" and to: "dir_ok ?t" using dir_ok_get [OF ok] by auto
  obtain win where win: "scaled_win ?f win0 = Some win" using scaled_win_Some [OF fo] by blast
  show ?thesis
  proof (cases "nst_maxwin ?f = 0")
    case True
    from fetch_total [OF npc] obtain b m ws where ft: "npf_fetch_tcpopts False npc 0 = Some (b, m, ws)" "ws \<le> TCP_MAX_WINSHIFT" by blast
    then show ?thesis using True di win saw set_tcpst_ok [OF ok]
      by (auto simp: npf_tcp_inwindow_def init_first_def dir_ok_def TCP_MAX_WINSHIFT_def Let_def)
  next
    case False
    obtain f0 where f0: "(if nst_end ?f = 0 then init_reply npc ?fl ?e win else Some ?f) = Some f0" "dir_ok f0"
      using init_reply_total [OF npc, of ?fl ?e win] fo by (cases "nst_end ?f = 0") (auto simp: dir_ok_def)
    define fin where "fin s e a = window_check f0 ?t s e a win \<bind> (\<lambda>(ok, f, t). Some (ok, set_tcpst nst di f t))" for s e a
    have fin: "\<exists>b nst'. fin s e a = Some (b, nst') \<and> tcp_ok nst' \<and> nst_state nst' = nst_state nst" for s e a
      using window_check_spec [OF f0(2), of ?t s e a win] f0(2) to
      by (auto simp: fin_def dir_ok_def intro!: set_tcpst_ok [OF ok])
    have "\<exists>s e a. npf_tcp_inwindow npc nst di = Some (False, set_tcpst nst di f0 ?t) \<or> npf_tcp_inwindow npc nst di = fin s e a"
      using False di win saw f0(1) unfolding npf_tcp_inwindow_def fin_def by (simp add: Let_def) metis
    then show ?thesis using fin set_tcpst_ok [OF ok f0(2) to] by auto
  qed
qed

lemma state_tcp_spec:
  assumes ok: "tcp_ok nst" and npc: "npc_ok npc" and di: "di \<le> 1"
  shows "\<exists>b nst1 n. npf_tcp_inwindow npc nst di = Some (b, nst1) \<and> tcp_ok nst1 \<and> nst_state nst1 = nst_state nst
    \<and> npf_state_tcp npc nst di =
        Some (b, if b \<and> n \<noteq> NPF_TCPS_OK then nst1\<lparr>nst_state := n\<rparr> else nst1)
    \<and> (if th_flags (npc_tcp npc) AND TH_RST = 0 then fsm_entry_ok (nst_state nst) di (flag_case (th_flags (npc_tcp npc))) n
       else n = (if nst_state nst = NPF_TCPS_TIME_WAIT then NPF_TCPS_OK else NPF_TCPS_CLOSED))"
proof -
  obtain b nst1 where w: "npf_tcp_inwindow npc nst di = Some (b, nst1)" "tcp_ok nst1" "nst_state nst1 = nst_state nst"
    using inwindow_total [OF assms] by blast
  have s: "nst_state nst < 12" using ok by (simp add: tcp_ok_def NPF_TCP_NSTATES_def)
  have c: "flag_case (th_flags (npc_tcp npc)) < 5" using flag_case_less [of "th_flags (npc_tcp npc)"] by (simp add: TCPFC_COUNT_def)
  from fsm_next_ok [OF s di c] obtain n where n: "fsm_next (nst_state nst) di (flag_case (th_flags (npc_tcp npc))) = Some n"
    "fsm_entry_ok (nst_state nst) di (flag_case (th_flags (npc_tcp npc))) n" by blast
  show ?thesis
  proof (cases "th_flags (npc_tcp npc) AND TH_RST = 0")
    case True
    then show ?thesis using w n s c
      by (intro exI [of _ b] exI [of _ nst1] exI [of _ n])
        (simp add: npf_state_tcp_def NPF_TCP_NSTATES_def npf_tcpfl2case_spec TCPFC_COUNT_def)
  next
    case False
    then show ?thesis using w s
      by (intro exI [of _ b] exI [of _ nst1] exI [of _ "if nst_state nst = NPF_TCPS_TIME_WAIT then NPF_TCPS_OK else NPF_TCPS_CLOSED"])
        (simp add: npf_state_tcp_def NPF_TCP_NSTATES_def)
  qed
qed

lemma state_tcp_ok:
  assumes "tcp_ok nst" and "npc_ok npc" and "di \<le> 1"
  shows "\<exists>b nst'. npf_state_tcp npc nst di = Some (b, nst') \<and> tcp_ok nst'"
proof -
  obtain b nst1 n where s: "tcp_ok nst1"
    "npf_state_tcp npc nst di = Some (b, if b \<and> n \<noteq> NPF_TCPS_OK then nst1\<lparr>nst_state := n\<rparr> else nst1)"
    "if th_flags (npc_tcp npc) AND TH_RST = 0 then fsm_entry_ok (nst_state nst) di (flag_case (th_flags (npc_tcp npc))) n
       else n = (if nst_state nst = NPF_TCPS_TIME_WAIT then NPF_TCPS_OK else NPF_TCPS_CLOSED)"
    using state_tcp_spec [OF assms] by blast
  have "n \<noteq> NPF_TCPS_OK \<Longrightarrow> n < NPF_TCP_NSTATES"
    using s(3) by (auto simp: fsm_entry_ok_def NPF_TCP_NSTATES_def split: if_splits)
  with s(1) have "tcp_ok (if b \<and> n \<noteq> NPF_TCPS_OK then nst1\<lparr>nst_state := n\<rparr> else nst1)" by (simp add: tcp_ok_def)
  with s(2) show ?thesis by blast
qed

lemma zero_ok: "tcp_ok zero_state"
  by (simp add: tcp_ok_def zero_state_def NPF_TCP_NSTATES_def dir_ok_def)

text \<open>A direction that has been seen, and the packet's numbers after the adjustments the check
  makes before its boundaries.\<close>

definition tracked :: "npf_state \<Rightarrow> nat \<Rightarrow> bool" where
  "tracked nst di \<longleftrightarrow> nst_maxwin (get_tcpst nst di) \<noteq> 0 \<and> nst_end (get_tcpst nst di) \<noteq> 0"

definition pkt_fix :: "npf_cache \<Rightarrow> npf_state \<Rightarrow> bool" where
  "pkt_fix npc nst \<longleftrightarrow> th_flags (npc_tcp npc) AND TH_RST \<noteq> 0 \<and> th_seq (npc_tcp npc) = 0 \<and> nst_state nst = NPF_TCPS_SYN_SENT"

definition pkt_seq :: "npf_cache \<Rightarrow> npf_state \<Rightarrow> nat \<Rightarrow> u32" where
  "pkt_seq npc nst di = (if pkt_fix npc nst then nst_end (get_tcpst nst di) else th_seq (npc_tcp npc))"

definition pkt_end :: "npf_cache \<Rightarrow> npf_state \<Rightarrow> nat \<Rightarrow> u32" where
  "pkt_end npc nst di = (if pkt_fix npc nst then nst_end (get_tcpst nst di)
     else seg_end (th_flags (npc_tcp npc)) (th_seq (npc_tcp npc)) (fst (npf_tcpsaw npc)))"

definition pkt_ack :: "npf_cache \<Rightarrow> npf_state \<Rightarrow> nat \<Rightarrow> u32" where
  "pkt_ack npc nst di = eff_ack (th_flags (npc_tcp npc)) (th_ack (npc_tcp npc)) (get_tcpst nst (1 - di))"

definition rst_in_order :: "npf_cache \<Rightarrow> npf_state \<Rightarrow> nat \<Rightarrow> bool" where
  "rst_in_order npc nst di \<longleftrightarrow>
     (th_flags (npc_tcp npc) AND TH_RST \<noteq> 0 \<longrightarrow> nst_end (get_tcpst nst di) - pkt_seq npc nst di \<le> 1)"

lemma inwindow_tracked:
  assumes ok: "tcp_ok nst" and di: "di \<le> 1" and tr: "tracked nst di"
  shows "\<exists>win nst'. scaled_win (get_tcpst nst di) (ucast (th_win (npc_tcp npc))) = Some win \<and>
    npf_tcp_inwindow npc nst di =
      Some (rst_in_order npc nst di \<and> window_ok (get_tcpst nst di) (get_tcpst nst (1 - di))
              (pkt_seq npc nst di) (pkt_end npc nst di) (pkt_ack npc nst di), nst') \<and>
    (if rst_in_order npc nst di then
       \<exists>b f t. window_check (get_tcpst nst di) (get_tcpst nst (1 - di)) (pkt_seq npc nst di) (pkt_end npc nst di)
         (pkt_ack npc nst di) win = Some (b, f, t) \<and> nst' = set_tcpst nst di f t
     else nst' = set_tcpst nst di (get_tcpst nst di) (get_tcpst nst (1 - di)))"
proof -
  let ?f = "get_tcpst nst di" and ?t = "get_tcpst nst (1 - di)"
  have fo: "dir_ok ?f" using dir_ok_get [OF ok] by auto
  obtain win where win: "scaled_win ?f (ucast (th_win (npc_tcp npc))) = Some win" using scaled_win_Some [OF fo] by blast
  obtain dlen where saw: "npf_tcpsaw npc = (dlen, th_seq (npc_tcp npc), th_ack (npc_tcp npc), ucast (th_win (npc_tcp npc)))"
    by (auto simp: npf_tcpsaw_def Let_def)
  obtain f' t' where wc: "window_check ?f ?t (pkt_seq npc nst di) (pkt_end npc nst di) (pkt_ack npc nst di) win
      = Some (window_ok ?f ?t (pkt_seq npc nst di) (pkt_end npc nst di) (pkt_ack npc nst di), f', t')"
    using window_check_spec [OF fo] by blast
  have "npf_tcp_inwindow npc nst di =
      (if \<not> rst_in_order npc nst di then Some (False, set_tcpst nst di ?f ?t)
       else do { (ok, f, t) \<leftarrow> window_check ?f ?t (pkt_seq npc nst di) (pkt_end npc nst di) (pkt_ack npc nst di) win;
                 Some (ok, set_tcpst nst di f t) })"
    using di tr win saw
    by (auto simp: npf_tcp_inwindow_def Let_def tracked_def rst_in_order_def pkt_seq_def pkt_end_def pkt_ack_def pkt_fix_def
        npf_strict_order_rst_def not_le)
  with win wc show ?thesis by auto
qed

section \<open>Handshakes\<close>

text \<open>The accepted packets of a connection, each by its direction and its flag case, with no
  case for a reset.\<close>

definition pkt_label :: "npf_cache \<Rightarrow> nat \<Rightarrow> nat \<times> nat option" where
  "pkt_label npc di = (di, if th_flags (npc_tcp npc) AND TH_RST = 0 then Some (flag_case (th_flags (npc_tcp npc))) else None)"

inductive tcp_run :: "npf_state \<Rightarrow> (nat \<times> nat option) list \<Rightarrow> npf_state \<Rightarrow> bool" where
  tcp_refl: "tcp_run s [] s"
| tcp_accept: "tcp_run s ls s1 \<Longrightarrow> npc_ok npc \<Longrightarrow> di \<le> 1 \<Longrightarrow> npf_state_tcp npc s1 di = Some (True, s2) \<Longrightarrow>
    tcp_run s (ls @ [pkt_label npc di]) s2"
| tcp_reject: "tcp_run s ls s1 \<Longrightarrow> npc_ok npc \<Longrightarrow> di \<le> 1 \<Longrightarrow> npf_state_tcp npc s1 di = Some (False, s2) \<Longrightarrow>
    tcp_run s ls s2"

text \<open>What the accepted packets contain when the connection is in a state.\<close>

definition handshake :: "nat \<Rightarrow> (nat \<times> nat option) list \<Rightarrow> bool" where
  "handshake st ls \<longleftrightarrow>
     (st \<in> {NPF_TCPS_SYN_SENT, NPF_TCPS_SIMSYN_SENT} \<longrightarrow> subseq [(0, Some TCPFC_SYN)] ls)
     \<and> (st = NPF_TCPS_SYN_RECEIVED \<longrightarrow> (\<exists>d. subseq [(0, Some TCPFC_SYN), (d, Some TCPFC_SYNACK)] ls))
     \<and> (st = NPF_TCPS_ESTABLISHED \<longrightarrow>
         (\<exists>d. subseq [(0, Some TCPFC_SYN), (d, Some TCPFC_SYNACK), (0, Some TCPFC_ACK)] ls))"

lemma subseq_snoc: "subseq xs ys \<Longrightarrow> subseq (xs @ [z]) (ys @ [z])" "subseq xs ys \<Longrightarrow> subseq xs (ys @ [z])"
  by (auto intro: list_emb_append_mono subseq_rev_drop_many)

lemma handshake_snoc: "handshake st ls \<Longrightarrow> handshake st (ls @ [l])"
  by (auto simp: handshake_def intro: subseq_snoc(2))

lemma handshake_step:
  assumes "handshake s ls" and "fsm_entry_ok s di c n"
  shows "handshake n (ls @ [(di, Some c)])"
proof -
  have "n = NPF_TCPS_SIMSYN_SENT \<Longrightarrow> subseq [(0, Some TCPFC_SYN)] (ls @ [(di, Some c)])"
    using assms subseq_snoc(2) by (fastforce simp: fsm_entry_ok_def handshake_def)
  moreover have "n = NPF_TCPS_SYN_SENT \<Longrightarrow> subseq [(0, Some TCPFC_SYN)] (ls @ [(di, Some c)])"
    using assms subseq_snoc(1) [of "[]" ls] by (simp add: fsm_entry_ok_def)
  moreover have "n = NPF_TCPS_SYN_RECEIVED \<Longrightarrow> \<exists>d. subseq [(0, Some TCPFC_SYN), (d, Some TCPFC_SYNACK)] (ls @ [(di, Some c)])"
    using assms subseq_snoc(1) [of "[(0, Some TCPFC_SYN)]" ls] by (auto simp: fsm_entry_ok_def handshake_def)
  moreover have "\<exists>d. subseq [(0, Some TCPFC_SYN), (d, Some TCPFC_SYNACK), (0, Some TCPFC_ACK)] (ls @ [(di, Some c)])"
    if n: "n = NPF_TCPS_ESTABLISHED"
  proof -
    from n assms obtain d where "subseq [(0, Some TCPFC_SYN), (d, Some TCPFC_SYNACK)] ls" "di = 0" "c = TCPFC_ACK"
      by (auto simp: fsm_entry_ok_def handshake_def)
    from subseq_snoc(1) [OF this(1), of "(0, Some TCPFC_ACK)"] this(2,3) show ?thesis by auto
  qed
  ultimately show ?thesis by (auto simp: handshake_def)
qed

lemma tcp_run_handshake:
  assumes "tcp_run s ls s'" and "s = zero_state"
  shows "tcp_ok s' \<and> handshake (nst_state s') ls"
  using assms
proof (induction rule: tcp_run.induct)
  case (tcp_refl s)
  then show ?case using zero_ok by (simp add: handshake_def zero_state_def)
next
  case (tcp_accept s ls s1 npc di s2)
  then have ok: "tcp_ok s1" and h: "handshake (nst_state s1) ls" by auto
  obtain b nst1 n where st: "nst_state nst1 = nst_state s1"
    "npf_state_tcp npc s1 di = Some (b, if b \<and> n \<noteq> NPF_TCPS_OK then nst1\<lparr>nst_state := n\<rparr> else nst1)"
    "if th_flags (npc_tcp npc) AND TH_RST = 0 then fsm_entry_ok (nst_state s1) di (flag_case (th_flags (npc_tcp npc))) n
       else n = (if nst_state s1 = NPF_TCPS_TIME_WAIT then NPF_TCPS_OK else NPF_TCPS_CLOSED)"
    using state_tcp_spec [OF ok tcp_accept.hyps(2,3)] by blast
  then have s2: "s2 = (if n \<noteq> NPF_TCPS_OK then nst1\<lparr>nst_state := n\<rparr> else nst1)" using tcp_accept.hyps(4) by auto
  have "handshake (nst_state s2) (ls @ [pkt_label npc di])"
  proof (cases "n = NPF_TCPS_OK")
    case True
    then show ?thesis using s2 st(1) handshake_snoc [OF h] by simp
  next
    case False
    then show ?thesis using s2 st(3) handshake_step [OF h, of di "flag_case (th_flags (npc_tcp npc))" n]
      by (auto simp: pkt_label_def handshake_def split: if_splits)
  qed
  then show ?case using state_tcp_ok [OF ok tcp_accept.hyps(2,3)] tcp_accept.hyps(4) by auto
next
  case (tcp_reject s ls s1 npc di s2)
  then have ok: "tcp_ok s1" and h: "handshake (nst_state s1) ls" by auto
  from state_tcp_spec [OF ok tcp_reject.hyps(2,3)] tcp_reject.hyps(4) have "nst_state s2 = nst_state s1" by auto
  with h state_tcp_ok [OF ok tcp_reject.hyps(2,3)] tcp_reject.hyps(4) show ?case by auto
qed

section \<open>Properties\<close>

text \<open>A connection in the established state, and its next data segment.\<close>

definition demo_conn :: npf_state where
  "demo_conn = \<lparr>nst_state = NPF_TCPS_ESTABLISHED,
     nst_tcpst = (\<lparr>nst_end = 1001, nst_maxend = 9001, nst_maxwin = 8000, nst_wscale = 2\<rparr>,
                  \<lparr>nst_end = 501, nst_maxend = 8501, nst_maxwin = 8000, nst_wscale = 0\<rparr>)\<rparr>"

definition demo_seg :: npf_cache where
  "demo_seg = \<lparr>npc_ip4 = True, npc_ip6 = False, npc_len = 140, npc_hlen = 20, npc_proto = IPPROTO_TCP,
     npc_tcp = \<lparr>th_seq = 1001, th_ack = 501, th_off = 5, th_flags = TH_ACK, th_win = 3000\<rparr>, npc_opts = None\<rparr>"

definition demo_rst :: npf_cache where
  "demo_rst = demo_seg\<lparr>npc_len := 40, npc_tcp := \<lparr>th_seq = 1001, th_ack = 501, th_off = 5, th_flags = TH_ACK OR TH_RST, th_win = 0\<rparr>\<rparr>"

lemma demo_ok: "tcp_ok demo_conn" "npc_ok demo_seg" "npc_ok demo_rst" "tracked demo_conn 0"
  by (simp_all add: tcp_ok_def demo_conn_def NPF_TCP_NSTATES_def dir_ok_def TCP_MAX_WINSHIFT_def npc_ok_def demo_seg_def
      demo_rst_def tracked_def get_tcpst_def)





lemma SEQ_GEQ_refl: "SEQ_GEQ x x"
  by (simp add: SEQ_GEQ_def)

lemma sint_uminus_small: "- (2 ^ 31) < sint (x :: u32) \<Longrightarrow> sint (- x) = - sint x"
proof -
  assume a: "- (2 ^ 31) < sint x"
  have "sint x < 2 ^ 31" using sint_lt [of x] by simp
  with a have "signed_take_bit 31 (- sint x) = - sint x" by (intro signed_take_bit_int_eq_self) auto
  then show ?thesis by (simp add: sint_word_ariths)
qed

text \<open>Tracking only moves forward: when a packet is accepted, the highest sequence number of
  both directions, the window edge of the receiver and the largest window of the sender do not
  decrease, in the order of sequence numbers.\<close>

theorem npf_tcp_tracking_monotone:
  assumes "tcp_ok nst" and "di \<le> 1" and "tracked nst di" and "npf_tcp_inwindow npc nst di = Some (True, nst')"
  shows "SEQ_GEQ (nst_end (get_tcpst nst' di)) (nst_end (get_tcpst nst di))
    \<and> SEQ_GEQ (nst_end (get_tcpst nst' (1 - di))) (nst_end (get_tcpst nst (1 - di)))
    \<and> SEQ_GEQ (nst_maxend (get_tcpst nst' (1 - di))) (nst_maxend (get_tcpst nst (1 - di)))
    \<and> nst_maxwin (get_tcpst nst di) \<le> nst_maxwin (get_tcpst nst' di)"
proof -
  let ?f = "get_tcpst nst di" and ?t = "get_tcpst nst (1 - di)" and ?a = "pkt_ack npc nst di"
  from inwindow_tracked [OF assms(1-3), of npc] assms(4) obtain win b f t where
    w: "window_ok ?f ?t (pkt_seq npc nst di) (pkt_end npc nst di) ?a"
    "window_check ?f ?t (pkt_seq npc nst di) (pkt_end npc nst di) ?a win = Some (b, f, t)" "nst' = set_tcpst nst di f t"
    by (auto split: if_splits)
  from window_check_spec [OF dir_ok_get [OF assms(1), of di], of ?t "pkt_seq npc nst di" "pkt_end npc nst di" ?a win] w
  have e: "nst_end f = (if SEQ_GT (pkt_end npc nst di) (nst_end ?f) then pkt_end npc nst di else nst_end ?f)"
    "nst_maxwin f = max (nst_maxwin ?f) win" "nst_end t = (if sint (nst_end ?t - ?a) < 0 then ?a else nst_end ?t)"
    "nst_maxend t = (if SEQ_GEQ (?a + win) (nst_maxend ?t) then ?a + win else nst_maxend ?t)" by auto
  have "SEQ_GEQ ?a (nst_end ?t)" if "sint (nst_end ?t - ?a) < 0"
    using that w(1) sint_uminus_small [of "nst_end ?t - ?a"] by (simp add: SEQ_GEQ_def window_ok_def NPF_TCP_MAXACKWIN_def)
  moreover have "SEQ_GEQ (nst_end f) (nst_end ?f)" using e(1) by (auto simp: SEQ_GEQ_def SEQ_GT_def)
  ultimately show ?thesis using get_set_tcpst [OF assms(2), of nst f t] w(3) e SEQ_GEQ_refl by simp
qed

theorem npf_tcp_tracking_monotone_witness:
  "\<exists>nst'. npf_tcp_inwindow demo_seg demo_conn 0 = Some (True, nst')
     \<and> SEQ_GEQ (nst_end (get_tcpst nst' 0)) (nst_end (get_tcpst demo_conn 0))"
proof -
  have "\<exists>nst'. npf_tcp_inwindow demo_seg demo_conn 0 = Some (True, nst')"
  proof -
    have "map_option fst (npf_tcp_inwindow demo_seg demo_conn 0) = Some True" by code_simp
    then show ?thesis by (cases "npf_tcp_inwindow demo_seg demo_conn 0") auto
  qed
  then show ?thesis using npf_tcp_tracking_monotone [OF demo_ok(1) _ demo_ok(4), of demo_seg] by fastforce
qed

text \<open>A reset is strict: in a direction that has been seen it is accepted only if its sequence
  number is the expected one or the one before (or zero in answer to the first SYN), and then
  it closes the connection, except in the time-wait state, which it leaves alone.\<close>

theorem npf_rst_strict:
  assumes "tcp_ok nst" and "npc_ok npc" and "di \<le> 1" and "tracked nst di" and "th_flags (npc_tcp npc) AND TH_RST \<noteq> 0"
    and "npf_state_tcp npc nst di = Some (True, nst')"
  shows "(th_seq (npc_tcp npc) = nst_end (get_tcpst nst di) \<or> th_seq (npc_tcp npc) = nst_end (get_tcpst nst di) - 1
      \<or> th_seq (npc_tcp npc) = 0 \<and> nst_state nst = NPF_TCPS_SYN_SENT)
    \<and> nst_state nst' = (if nst_state nst = NPF_TCPS_TIME_WAIT then NPF_TCPS_TIME_WAIT else NPF_TCPS_CLOSED)"
proof -
  obtain b nst1 n where s: "npf_tcp_inwindow npc nst di = Some (b, nst1)" "nst_state nst1 = nst_state nst"
    "npf_state_tcp npc nst di = Some (b, if b \<and> n \<noteq> NPF_TCPS_OK then nst1\<lparr>nst_state := n\<rparr> else nst1)"
    "n = (if nst_state nst = NPF_TCPS_TIME_WAIT then NPF_TCPS_OK else NPF_TCPS_CLOSED)"
    using state_tcp_spec [OF assms(1-3)] assms(5) by auto
  with assms(6) have b: "b" and n': "nst_state nst' = (if nst_state nst = NPF_TCPS_TIME_WAIT then NPF_TCPS_TIME_WAIT else NPF_TCPS_CLOSED)"
    by (auto split: if_splits)
  have "rst_in_order npc nst di" using inwindow_tracked [OF assms(1,3,4), of npc] s(1) b by auto
  then have d: "nst_end (get_tcpst nst di) - pkt_seq npc nst di \<le> 1" using assms(5) by (simp add: rst_in_order_def)
  have "x = 0 \<or> x = 1" if "x \<le> 1" for x :: u32
  proof -
    from that have "unat x \<le> 1" by (simp add: word_le_nat_alt)
    then have "unat x = 0 \<or> unat x = 1" by linarith
    then show ?thesis by (metis unsigned_eq_0_iff unsigned_1 unsigned_word_eqI)
  qed
  from this [OF d] have "pkt_seq npc nst di = nst_end (get_tcpst nst di) \<or> pkt_seq npc nst di = nst_end (get_tcpst nst di) - 1"
    by (auto simp: algebra_simps)
  then show ?thesis using n' by (auto simp: pkt_seq_def pkt_fix_def split: if_splits)
qed

theorem npf_rst_strict_witness:
  "\<exists>nst'. npf_state_tcp demo_rst demo_conn 0 = Some (True, nst') \<and> nst_state nst' = NPF_TCPS_CLOSED"
proof -
  have "map_option fst (npf_state_tcp demo_rst demo_conn 0) = Some True" by code_simp
  then obtain nst' where r: "npf_state_tcp demo_rst demo_conn 0 = Some (True, nst')" by auto
  have f: "th_flags (npc_tcp demo_rst) AND TH_RST \<noteq> 0" and st: "nst_state demo_conn = NPF_TCPS_ESTABLISHED"
    by (simp_all add: demo_rst_def demo_conn_def)
  show ?thesis using npf_rst_strict [OF demo_ok(1,3) _ demo_ok(4) f r] r st by simp
qed

text \<open>C32: A connection becomes established only by a handshake: in every sequence of packets from
  a cleared state that leads to the established state, the accepted packets contain, in this
  order, a SYN of the initiator, a SYN-ACK and an ACK of the initiator.\<close>

theorem npf_established_by_handshake:
  assumes "tcp_run zero_state ls nst" and "nst_state nst = NPF_TCPS_ESTABLISHED"
  shows "\<exists>d. subseq [(NPF_FLOW_FORW, Some TCPFC_SYN), (d, Some TCPFC_SYNACK), (NPF_FLOW_FORW, Some TCPFC_ACK)] ls"
  using tcp_run_handshake [OF assms(1) refl] assms(2) by (simp add: handshake_def)

definition hs_pkt :: "u8 \<Rightarrow> u32 \<Rightarrow> u32 \<Rightarrow> npf_cache" where
  "hs_pkt fl seq ack = \<lparr>npc_ip4 = True, npc_ip6 = False, npc_len = 40, npc_hlen = 20, npc_proto = IPPROTO_TCP,
     npc_tcp = \<lparr>th_seq = seq, th_ack = ack, th_off = 5, th_flags = fl, th_win = 512\<rparr>, npc_opts = None\<rparr>"

definition hs_next :: "npf_cache \<Rightarrow> npf_state \<Rightarrow> nat \<Rightarrow> npf_state" where
  "hs_next npc nst di = snd (the (npf_state_tcp npc nst di))"

lemma hs_accept:
  assumes "tcp_run zero_state ls s" and "map_option fst (npf_state_tcp (hs_pkt fl seq ack) s di) = Some True" and "di \<le> 1"
  shows "tcp_run zero_state (ls @ [pkt_label (hs_pkt fl seq ack) di]) (hs_next (hs_pkt fl seq ack) s di)"
proof (rule tcp_accept [OF assms(1) _ assms(3)])
  show "npc_ok (hs_pkt fl seq ack)" by (simp add: npc_ok_def hs_pkt_def)
  show "npf_state_tcp (hs_pkt fl seq ack) s di = Some (True, hs_next (hs_pkt fl seq ack) s di)"
    using assms(2) by (auto simp: hs_next_def)
qed

definition hs_state :: "nat \<Rightarrow> npf_state" where
  "hs_state n = (if n = 0 then zero_state
     else if n = 1 then hs_next (hs_pkt TH_SYN 1000 0) zero_state 0
     else if n = 2 then hs_next (hs_pkt (TH_SYN OR TH_ACK) 5000 1001) (hs_next (hs_pkt TH_SYN 1000 0) zero_state 0) 1
     else hs_next (hs_pkt TH_ACK 1001 5001)
       (hs_next (hs_pkt (TH_SYN OR TH_ACK) 5000 1001) (hs_next (hs_pkt TH_SYN 1000 0) zero_state 0) 1) 0)"

theorem npf_established_by_handshake_witness:
  "\<exists>ls d. tcp_run zero_state ls (hs_state 3) \<and> nst_state (hs_state 3) = NPF_TCPS_ESTABLISHED
     \<and> subseq [(NPF_FLOW_FORW, Some TCPFC_SYN), (d, Some TCPFC_SYNACK), (NPF_FLOW_FORW, Some TCPFC_ACK)] ls"
proof -
  have c: "map_option fst (npf_state_tcp (hs_pkt TH_SYN 1000 0) (hs_state 0) 0) = Some True"
    "map_option fst (npf_state_tcp (hs_pkt (TH_SYN OR TH_ACK) 5000 1001) (hs_state 1) 1) = Some True"
    "map_option fst (npf_state_tcp (hs_pkt TH_ACK 1001 5001) (hs_state 2) 0) = Some True"
    by code_simp+
  have e: "nst_state (hs_state 3) = NPF_TCPS_ESTABLISHED" by code_simp
  have "tcp_run zero_state [] (hs_state 0)" by (simp add: hs_state_def tcp_refl)
  from hs_accept [OF this c(1)] have "\<exists>ls. tcp_run zero_state ls (hs_state 1)" by (auto simp: hs_state_def)
  then obtain ls1 where "tcp_run zero_state ls1 (hs_state 1)" ..
  from hs_accept [OF this c(2)] have "\<exists>ls. tcp_run zero_state ls (hs_state 2)" by (auto simp: hs_state_def)
  then obtain ls2 where "tcp_run zero_state ls2 (hs_state 2)" ..
  from hs_accept [OF this c(3)] have "\<exists>ls. tcp_run zero_state ls (hs_state 3)" by (auto simp: hs_state_def)
  then obtain ls where r: "tcp_run zero_state ls (hs_state 3)" ..
  from npf_established_by_handshake [OF r e] r e show ?thesis by blast
qed

text \<open>Zero doubles as the mark of a direction that has not been seen.  When the sequence space
  of an established connection wraps so that the next expected number is exactly zero, the
  direction is taken for a new one, and a segment or a reset with any sequence number is
  accepted; the same reset is refused when the expected number is one.\<close>

theorem npf_end_zero_resync:
  "let conn = (\<lambda>e. demo_conn\<lparr>nst_tcpst := (\<lparr>nst_end = e, nst_maxend = e + 8000, nst_maxwin = 8000, nst_wscale = 0\<rparr>,
                                        snd (nst_tcpst demo_conn))\<rparr>)
   in \<not> tracked (conn 0) 0
    \<and> map_option (\<lambda>(b, s). (b, nst_state s)) (npf_state_tcp (hs_pkt TH_RST 0x12345678 0) (conn 0) 0) = Some (True, NPF_TCPS_CLOSED)
    \<and> map_option (\<lambda>(b, s). (b, nst_state s)) (npf_state_tcp (hs_pkt TH_RST 0x12345678 0) (conn 1) 0) = Some (False, NPF_TCPS_ESTABLISHED)"
  by code_simp

text \<open>The strict order of resets does not cover the answer to the first SYN: while the other
  side has not been seen, a reset from there without an acknowledgment is accepted with any
  sequence number and closes the connection.\<close>

theorem npf_rst_blind_syn_sent:
  "nst_state (hs_state 1) = NPF_TCPS_SYN_SENT \<and> \<not> tracked (hs_state 1) 1 \<and>
   map_option (\<lambda>(b, s). (b, nst_state s)) (npf_state_tcp (hs_pkt TH_RST 0x12345678 0) (hs_state 1) 1) = Some (True, NPF_TCPS_CLOSED) \<and>
   map_option (\<lambda>(b, s). (b, nst_state s)) (npf_state_tcp (hs_pkt TH_RST 0x87654321 0) (hs_state 1) 1) = Some (True, NPF_TCPS_CLOSED)"
  by code_simp

end
