(* ===== verification/Lockf.thy ===== *)
theory Lockf
  imports Kern_Prelude "HOL-Library.Monad_Syntax"
begin

text \<open>
  Advisory byte-range locks, \<open>sys/kern/vfs_lockf.c\<close>.  A lock structure on the list of a vnode is a
  \<open>held\<close> record; the list itself is a HOL list, so \<open>lf_next\<close> of a held lock is its successor.  A
  request that sleeps is an element of the queue \<open>lf_blkhd\<close> of the lock that blocks it, together
  with what its thread keeps while it sleeps: the process, which the code finds through the
  wait channel of the thread, and the spare lock structure, of which only the user it is
  charged to matters (the rest is overwritten when it is used).  Offsets are integers; \<open>-1\<close> as
  \<open>lf_end\<close> is the end of the file, and \<open>lf_advlock\<close> checks that the arithmetic on the
  caller's values stays in the range of \<open>off_t\<close>.  All operations run under the global
  \<open>lockf_lock\<close>, so each is one step.  A result \<open>None\<close> is a panic or an access through a null or
  dangling pointer.
\<close>

section \<open>Data\<close>

datatype lftype = F_RDLCK | F_WRLCK | F_UNLCK

record lockf =
  F_POSIX :: bool
  F_FLOCK :: bool
  F_WAIT :: bool
  lf_type :: lftype
  lf_start :: int
  lf_end :: int
  lf_id :: nat
  lf_uid :: nat

record waiter =
  w_lock :: lockf
  w_proc :: nat
  w_spare :: "nat option"

record held = lockf +
  lf_blkhd :: "waiter list"

text \<open>A new structure has an empty queue.\<close>

definition as_held :: "lockf \<Rightarrow> held" where
  "as_held lock = lockf.extend lock \<lparr>lf_blkhd = []\<rparr>"

type_synonym lockcnt = "nat \<Rightarrow> u64"

definition MAXDEPTH :: nat where "MAXDEPTH = 50"
definition maxlocksperuid :: nat where "maxlocksperuid = 1024"

section \<open>Allocation\<close>

text \<open>\<open>uid\<close> is the effective user of the caller; the new structure is represented by the user it
  is charged to.\<close>

definition lf_alloc :: "nat \<Rightarrow> nat \<Rightarrow> lockcnt \<Rightarrow> nat option \<times> lockcnt" where
  "lf_alloc uid allowfail cnt =
     (let lcnt = cnt uid + 1 in
      if uid \<noteq> 0 \<and> allowfail \<noteq> 0 \<and>
         lcnt > of_nat (if allowfail = 1 then maxlocksperuid else maxlocksperuid * 2)
      then (None, cnt) else (Some uid, cnt(uid := lcnt)))"

definition lf_free :: "nat \<Rightarrow> lockcnt \<Rightarrow> lockcnt" where
  "lf_free uid cnt = cnt(uid := cnt uid - 1)"

section \<open>Overlaps\<close>

datatype lf_who = SELF | OTHERS

text \<open>The case number, the locks up to \<open>prev\<close> and the locks from \<open>overlap\<close> on.\<close>

fun lf_findoverlap :: "held list \<Rightarrow> 'a lockf_scheme \<Rightarrow> lf_who \<Rightarrow> (nat \<times> held list \<times> held list) option" where
  "lf_findoverlap [] lock who = Some (0, [], [])"
| "lf_findoverlap (lf # lfs) lock who =
     (let continue = map_option (\<lambda>(c, pre, rest). (c, lf # pre, rest)) (lf_findoverlap lfs lock who);
          start = lf_start lock; end' = lf_end lock
      in if (who = SELF \<and> lf_id lf \<noteq> lf_id lock) \<or> (who = OTHERS \<and> lf_id lf = lf_id lock) then continue
         else if (lf_end lf \<noteq> -1 \<and> start > lf_end lf) \<or> (end' \<noteq> -1 \<and> lf_start lf > end') then
           (if who = SELF \<and> end' \<noteq> -1 \<and> lf_start lf > end' then Some (0, [], lf # lfs) else continue)
         else if lf_start lf = start \<and> lf_end lf = end' then Some (1, [], lf # lfs)
         else if lf_start lf \<le> start \<and> end' \<noteq> -1 \<and> (lf_end lf \<ge> end' \<or> lf_end lf = -1)
         then Some (2, [], lf # lfs)
         else if start \<le> lf_start lf \<and> (end' = -1 \<or> (lf_end lf \<noteq> -1 \<and> end' \<ge> lf_end lf))
         then Some (3, [], lf # lfs)
         else if lf_start lf < start \<and> (lf_end lf \<ge> start \<or> lf_end lf = -1) then Some (4, [], lf # lfs)
         else if lf_start lf > start \<and> end' \<noteq> -1 \<and> (lf_end lf > end' \<or> lf_end lf = -1)
         then Some (5, [], lf # lfs)
         else None)"

text \<open>The list from \<open>overlap\<close> on is a tail of the list, so the loops below end.\<close>

lemma lf_findoverlap_append:
  "lf_findoverlap ls lock who = Some (c, pre, rest) \<Longrightarrow> ls = pre @ rest"
  by (induction ls arbitrary: c pre rest) (auto simp: Let_def split: if_splits)

text \<open>The list that replaces \<open>lock1\<close>, from the link that leads to it, and the spare lock after the
  call.  In the first case the caller has to link \<open>lock2\<close>; no caller runs into it.  The new
  structure is a copy of \<open>lock1\<close>, the user it is charged to included.\<close>

definition lf_split :: "held \<Rightarrow> held \<Rightarrow> nat option \<Rightarrow> (held list \<times> nat option) option" where
  "lf_split lock1 lock2 sparelock =
     (if lf_start lock1 = lf_start lock2 then Some ([lock1\<lparr>lf_start := lf_end lock2 + 1\<rparr>], sparelock)
      else if lf_end lock1 = lf_end lock2 then Some ([lock1\<lparr>lf_end := lf_start lock2 - 1\<rparr>, lock2], sparelock)
      else case sparelock of
             None \<Rightarrow> None
           | Some _ \<Rightarrow>
               Some ([lock1\<lparr>lf_end := lf_start lock2 - 1\<rparr>, lock2,
                      lock1\<lparr>lf_start := lf_end lock2 + 1, lf_blkhd := []\<rparr>], None))"

definition lf_wakelock :: "held \<Rightarrow> held \<times> waiter list" where
  "lf_wakelock listhead = (listhead\<lparr>lf_blkhd := []\<rparr>, lf_blkhd listhead)"

section \<open>Removing a lock\<close>

text \<open>The result is the list, the spare lock, the counts and the requests woken.\<close>

type_synonym lf_result = "held list \<times> nat option \<times> lockcnt \<times> waiter list"

definition lf_prepend :: "held list \<Rightarrow> waiter list \<Rightarrow> lf_result \<Rightarrow> lf_result" where
  "lf_prepend pre woken = (\<lambda>(ls, sparelock, cnt, wk). (pre @ ls, sparelock, cnt, woken @ wk))"

function lf_clearlock :: "held list \<Rightarrow> held \<Rightarrow> nat option \<Rightarrow> lockcnt \<Rightarrow> lf_result option" where
  "lf_clearlock lf unlock sparelock cnt =
     (case lf_findoverlap lf unlock SELF of
        Some (c, pre, overlap # rest) \<Rightarrow>
          if c = 0 then Some (pre @ overlap # rest, sparelock, cnt, [])
          else
            let (overlap, wk) = lf_wakelock overlap in
            if c = 1 then Some (pre @ rest, sparelock, lf_free (lf_uid overlap) cnt, wk)
            else if c = 2 then
              (if lf_start overlap = lf_start unlock
               then Some (pre @ overlap\<lparr>lf_start := lf_end unlock + 1\<rparr> # rest, sparelock, cnt, wk)
               else do {
                 (seg, sparelock) \<leftarrow> lf_split overlap unlock sparelock;
                 Some (pre @ hd seg # tl (tl seg) @ rest, sparelock, cnt, wk) })
            else if c = 3 then
              map_option (lf_prepend pre wk) (lf_clearlock rest unlock sparelock (lf_free (lf_uid overlap) cnt))
            else if c = 4 then
              map_option (lf_prepend (pre @ [overlap\<lparr>lf_end := lf_start unlock - 1\<rparr>]) wk)
                (lf_clearlock rest unlock sparelock cnt)
            else Some (pre @ overlap\<lparr>lf_start := lf_end unlock + 1\<rparr> # rest, sparelock, cnt, wk)
      | Some (c, pre, []) \<Rightarrow> if c = 0 then Some (pre, sparelock, cnt, []) else None
      | None \<Rightarrow> None)"
  by pat_completeness auto
termination
  by (relation "measure (\<lambda>(lf, unlock, sparelock, cnt). length lf)")
    (auto dest!: lf_findoverlap_append)

declare lf_clearlock.simps [simp del]

section \<open>Blocking locks\<close>

text \<open>The position of the first lock that blocks the request, if there is one.\<close>

function lf_getblock :: "held list \<Rightarrow> 'a lockf_scheme \<Rightarrow> nat option option" where
  "lf_getblock lf lock =
     (case lf_findoverlap lf lock OTHERS of
        Some (c, pre, overlap # rest) \<Rightarrow>
          if c = 0 then Some None
          else if lf_type lock = F_WRLCK \<or> lf_type overlap = F_WRLCK then Some (Some (length pre))
          else map_option (map_option (\<lambda>n. length pre + 1 + n)) (lf_getblock rest lock)
      | Some (c, pre, []) \<Rightarrow> if c = 0 then Some None else None
      | None \<Rightarrow> None)"
  by pat_completeness auto
termination
  by (relation "measure (\<lambda>(lf, lock). length lf)") (auto dest!: lf_findoverlap_append)

declare lf_getblock.simps [simp del]

section \<open>Setting a lock\<close>

text \<open>
  The loop that adds the lock.  The locks up to \<open>prev\<close> are \<open>bef\<close> while \<open>needtolink\<close> holds, and then
  \<open>bef @ lock # aft\<close>; the list from \<open>block\<close> on is \<open>blk\<close>.  Where the code would free or link a second
  time a lock that is on the list, the result is \<open>None\<close>.
\<close>

function lf_addlock ::
    "held list \<Rightarrow> held \<Rightarrow> held list \<Rightarrow> held list \<Rightarrow> bool \<Rightarrow> nat option \<Rightarrow> lockcnt \<Rightarrow> waiter list \<Rightarrow> lf_result option" where
  "lf_addlock bef lock aft blk needtolink sparelock cnt woken =
     (case lf_findoverlap blk lock SELF of
        None \<Rightarrow> None
      | Some (c, pre, rest) \<Rightarrow>
          if c = 0 then
            Some (if needtolink then bef @ pre @ lock # rest else bef @ lock # aft @ pre @ rest,
                  sparelock, cnt, woken)
          else case rest of [] \<Rightarrow> None | overlap # rest \<Rightarrow>
            if c = 1 then
              (if \<not> needtolink then None
               else
                 let (overlap, wk) = (if lf_type lock = F_RDLCK \<and> lf_type overlap = F_WRLCK
                                      then lf_wakelock overlap else (overlap, []))
                 in Some (bef @ pre @ overlap\<lparr>lf_type := lf_type lock\<rparr> # rest, sparelock,
                          lf_free (lf_uid lock) cnt, woken @ wk))
            else if c = 2 then
              (if \<not> needtolink then None
               else if lf_type overlap = lf_type lock then
                 Some (bef @ pre @ overlap # rest, sparelock, lf_free (lf_uid lock) cnt, woken)
               else if lf_start overlap = lf_start lock then
                 let (overlap, wk) = lf_wakelock (overlap\<lparr>lf_start := lf_end lock + 1\<rparr>)
                 in Some (bef @ pre @ lock # overlap # rest, sparelock, cnt, woken @ wk)
               else do {
                 (seg, sparelock) \<leftarrow> lf_split overlap lock sparelock;
                 let (overlap, wk) = lf_wakelock (hd seg);
                 Some (bef @ pre @ overlap # tl seg @ rest, sparelock, cnt, woken @ wk) })
            else if c = 3 then
              (let (lock, wk) = (if lf_type lock = F_RDLCK \<and> lf_type overlap = F_WRLCK
                                 then (lock, lf_blkhd overlap)
                                 else (lock\<lparr>lf_blkhd := lf_blkhd lock @ lf_blkhd overlap\<rparr>, []));
                   cnt = lf_free (lf_uid overlap) cnt
               in if needtolink then lf_addlock (bef @ pre) lock [] rest False sparelock cnt (woken @ wk)
                  else lf_addlock bef lock (aft @ pre) rest False sparelock cnt (woken @ wk))
            else if c = 4 then
              (if \<not> needtolink then None
               else
                 let (overlap, wk) = lf_wakelock (overlap\<lparr>lf_end := lf_start lock - 1\<rparr>)
                 in lf_addlock (bef @ pre @ [overlap]) lock [] rest False sparelock cnt (woken @ wk))
            else
              let (overlap, wk) = lf_wakelock (overlap\<lparr>lf_start := lf_end lock + 1\<rparr>)
              in Some (if needtolink then bef @ pre @ lock # overlap # rest
                       else bef @ lock # aft @ pre @ overlap # rest,
                       sparelock, cnt, woken @ wk))"
  by pat_completeness auto
termination
  by (relation "measure (\<lambda>(bef, lock, aft, blk, need, sparelock, cnt, woken). length blk)")
    (auto dest!: lf_findoverlap_append)

declare lf_addlock.simps [simp del]

text \<open>The lock on which a thread of the process sleeps, over the lists of all vnodes.\<close>

definition lf_waitblock :: "held list list \<Rightarrow> nat \<Rightarrow> held option" where
  "lf_waitblock files p = find (\<lambda>l. \<exists>w \<in> set (lf_blkhd l). w_proc w = p) (concat files)"

text \<open>The walk along the sleeping owners, from \<open>p\<close>; \<open>multi\<close> tells which processes have several
  threads.\<close>

function lf_deadlock :: "(nat \<Rightarrow> bool) \<Rightarrow> held list list \<Rightarrow> nat \<Rightarrow> nat \<Rightarrow> nat \<Rightarrow> nat \<Rightarrow> bool" where
  "lf_deadlock multi files maxlockdepth curproc i p =
     (if i < maxlockdepth then
        (if multi p then i + 1 \<ge> maxlockdepth
         else case lf_waitblock files p of
                None \<Rightarrow> i + 1 \<ge> maxlockdepth
              | Some waitblock \<Rightarrow>
                  if \<not> F_POSIX waitblock then i + 1 \<ge> maxlockdepth
                  else if lf_id waitblock = curproc then True
                  else lf_deadlock multi files maxlockdepth curproc (i + 1) (lf_id waitblock))
      else i + 1 \<ge> maxlockdepth)"
  by pat_completeness auto
termination
  by (relation "measure (\<lambda>(multi, files, maxlockdepth, curproc, i, p). maxlockdepth - i)") auto

declare lf_deadlock.simps [simp del]

datatype lf_out = LfOk | LfErr errno | LfSleep

text \<open>
  One pass of the loop of \<open>lf_setlock\<close> on the vnode \<open>f\<close>, up to the sleep or the return; a thread that
  wakes up makes another pass.  Removing one's own shared locks does not touch the blocking
  lock, which is then again the first one found.
\<close>

definition lf_setlock ::
    "(nat \<Rightarrow> bool) \<Rightarrow> held list list \<Rightarrow> nat \<Rightarrow> waiter \<Rightarrow> lockcnt \<Rightarrow> (lf_out \<times> held list list \<times> nat option \<times> lockcnt \<times> waiter list) option" where
  "lf_setlock multi files f w cnt =
     (let ls = files ! f; lock = as_held (w_lock w); sparelock = w_spare w in
      case lf_getblock ls lock of
        None \<Rightarrow> None
      | Some (Some n) \<Rightarrow>
          let block = ls ! n in
          if \<not> F_WAIT lock then Some (LfErr EAGAIN, files, sparelock, lf_free (lf_uid lock) cnt, [])
          else if F_POSIX lock \<and> F_POSIX block \<and> lf_deadlock multi files MAXDEPTH (w_proc w) 0 (lf_id block)
          then Some (LfErr EDEADLK, files, sparelock, lf_free (lf_uid lock) cnt, [])
          else do {
            (ls, _, cnt, woken) \<leftarrow>
              (if F_FLOCK lock \<and> lf_type lock = F_WRLCK then lf_clearlock ls (lock\<lparr>lf_type := F_UNLCK\<rparr>) None cnt
               else Some (ls, None, cnt, []));
            n \<leftarrow> Option.bind (lf_getblock ls lock) id;
            Some (LfSleep, files[f := ls[n := (ls ! n)\<lparr>lf_blkhd := lf_blkhd (ls ! n) @ [w]\<rparr>]], sparelock, cnt, woken) }
      | Some None \<Rightarrow> do {
          (ls, sparelock, cnt, woken) \<leftarrow> lf_addlock [] lock [] ls True sparelock cnt [];
          Some (LfOk, files[f := ls], sparelock, cnt, woken) })"

section \<open>The system call interface\<close>

datatype whence = SEEK_SET | SEEK_CUR | SEEK_END | SEEK_OTHER

record flock =
  l_whence :: whence
  l_start :: int
  l_len :: int
  l_type :: lftype
  l_pid :: int

datatype lf_op = OP_SETLK | OP_UNLCK | OP_GETLK | OP_OTHER

text \<open>\<open>pid\<close> gives the process identifier of a process.\<close>

definition lf_getlock :: "(nat \<Rightarrow> int) \<Rightarrow> held list \<Rightarrow> held \<Rightarrow> flock \<Rightarrow> flock option" where
  "lf_getlock pid ls lock fl =
     (case lf_getblock ls lock of
        None \<Rightarrow> None
      | Some (Some n) \<Rightarrow>
          let block = ls ! n in
          Some (fl\<lparr>l_type := lf_type block, l_whence := SEEK_SET, l_start := lf_start block,
                   l_len := (if lf_end block = -1 then 0 else lf_end block - lf_start block + 1),
                   l_pid := (if F_POSIX block then pid (lf_id block) else -1)\<rparr>)
      | Some None \<Rightarrow> Some (fl\<lparr>l_type := F_UNLCK\<rparr>))"

definition off_t :: "int \<Rightarrow> int option" where
  "off_t x = (if - (2 ^ 63) \<le> x \<and> x < 2 ^ 63 then Some x else None)"

text \<open>The start and end of the range, or an error.\<close>

definition lf_range :: "flock \<Rightarrow> int \<Rightarrow> (errno + int \<times> int) option" where
  "lf_range fl fsize =
     (case (case l_whence fl of SEEK_SET \<Rightarrow> Some (off_t (l_start fl)) | SEEK_CUR \<Rightarrow> Some (off_t (l_start fl))
            | SEEK_END \<Rightarrow> Some (off_t (fsize + l_start fl)) | SEEK_OTHER \<Rightarrow> None) of
        None \<Rightarrow> Some (Inl EINVAL)
      | Some s \<Rightarrow> do {
          start \<leftarrow> s;
          (start, end') \<leftarrow>
            (if l_len fl = 0 then Some (start, -1)
             else if l_len fl > 0 then do { t \<leftarrow> off_t (start + l_len fl); e \<leftarrow> off_t (t - 1); Some (start, e) }
             else do { e \<leftarrow> off_t (start - 1); s \<leftarrow> off_t (start + l_len fl); Some (s, e) });
          Some (if start < 0 then Inl EINVAL else Inr (start, end')) })"

record lf_world =
  wo_files :: "held list list"
  wo_cnt :: lockcnt
  wo_woken :: "(nat \<times> waiter) list"

text \<open>What the caller passes in \<open>ap\<close>, with the process, its effective user and the vnode.\<close>

record advlock_args =
  a_op :: lf_op
  a_posix :: bool
  a_flock :: bool
  a_wait :: bool
  a_id :: nat
  a_fl :: flock
  a_proc :: nat
  a_euid :: nat
  a_vp :: nat
  a_size :: int

definition lf_quit :: "nat option \<Rightarrow> lockcnt \<Rightarrow> lockcnt" where
  "lf_quit sparelock cnt = (case sparelock of None \<Rightarrow> cnt | Some u \<Rightarrow> lf_free u cnt)"

text \<open>A pass of \<open>lf_setlock\<close> and the return from \<open>lf_advlock\<close>, which keeps the spare lock while the
  thread sleeps.\<close>

definition lf_setlock_pass :: "(nat \<Rightarrow> bool) \<Rightarrow> nat \<Rightarrow> waiter \<Rightarrow> lf_world \<Rightarrow> (lf_out \<times> lf_world) option" where
  "lf_setlock_pass multi f w wo = do {
     (out, files, sparelock, cnt, woken) \<leftarrow> lf_setlock multi (wo_files wo) f w (wo_cnt wo);
     Some (out, wo\<lparr>wo_files := files, wo_cnt := (if out = LfSleep then cnt else lf_quit sparelock cnt),
                   wo_woken := wo_woken wo @ map (Pair f) woken\<rparr>) }"

text \<open>The second half of \<open>lf_advlock\<close>, from the interlock on, with the new lock charged to \<open>uid\<close>.\<close>

definition lf_advlock_locked ::
    "(nat \<Rightarrow> bool) \<Rightarrow> (nat \<Rightarrow> int) \<Rightarrow> advlock_args \<Rightarrow> int \<Rightarrow> int \<Rightarrow> nat option \<Rightarrow> nat \<Rightarrow> lf_world
      \<Rightarrow> (lf_out \<times> flock \<times> lf_world) option" where
  "lf_advlock_locked multi pid ap start end' sparelock uid wo =
     (let fl = a_fl ap; f = a_vp ap;
          quit = (\<lambda>sparelock cnt. lf_quit sparelock (lf_free uid cnt));
          lock = \<lparr>F_POSIX = a_posix ap, F_FLOCK = a_flock ap, F_WAIT = a_wait ap,
                  lf_type = l_type fl, lf_start = start, lf_end = end', lf_id = a_id ap, lf_uid = uid\<rparr>
      in if wo_files wo ! f = [] \<and> a_op ap \<noteq> OP_SETLK
         then Some (LfOk, fl\<lparr>l_type := F_UNLCK\<rparr>, wo\<lparr>wo_cnt := quit sparelock (wo_cnt wo)\<rparr>)
         else if a_op ap = OP_SETLK then
           map_option (\<lambda>(out, wo'). (out, fl, wo'))
             (lf_setlock_pass multi f \<lparr>w_lock = lock, w_proc = a_proc ap, w_spare = sparelock\<rparr> wo)
         else if a_op ap = OP_UNLCK then
           map_option (\<lambda>(ls, sparelock, cnt, woken).
               (LfOk, fl, wo\<lparr>wo_files := (wo_files wo)[f := ls], wo_cnt := quit sparelock cnt,
                             wo_woken := wo_woken wo @ map (Pair f) woken\<rparr>))
             (lf_clearlock (wo_files wo ! f) (as_held lock) sparelock (wo_cnt wo))
         else
           map_option (\<lambda>fl'. (LfOk, fl', wo\<lparr>wo_cnt := quit sparelock (wo_cnt wo)\<rparr>))
             (lf_getlock pid (wo_files wo ! f) (as_held lock) fl))"

definition lf_advlock ::
    "(nat \<Rightarrow> bool) \<Rightarrow> (nat \<Rightarrow> int) \<Rightarrow> advlock_args \<Rightarrow> lf_world \<Rightarrow> (lf_out \<times> flock \<times> lf_world) option" where
  "lf_advlock multi pid ap wo =
     (case lf_range (a_fl ap) (a_size ap) of
        None \<Rightarrow> None
      | Some (Inl e) \<Rightarrow> Some (LfErr e, a_fl ap, wo)
      | Some (Inr (start, end')) \<Rightarrow>
          if a_op ap = OP_OTHER then Some (LfErr EINVAL, a_fl ap, wo)
          else
            let (sparelock, cnt) = (if a_op ap \<noteq> OP_GETLK \<and> \<not> a_flock ap then lf_alloc (a_euid ap) 0 (wo_cnt wo)
                                    else (None, wo_cnt wo));
                (lock, cnt) = lf_alloc (a_euid ap)
                  (case a_op ap of OP_SETLK \<Rightarrow> 1
                   | OP_UNLCK \<Rightarrow> if start = 0 \<or> end' = -1 then 0 else 2 | _ \<Rightarrow> 0) cnt
            in case lock of
                 None \<Rightarrow> Some (LfErr ENOMEM, a_fl ap, wo\<lparr>wo_cnt := lf_quit sparelock cnt\<rparr>)
               | Some uid \<Rightarrow>
                   lf_advlock_locked multi pid ap start end' sparelock uid (wo\<lparr>wo_cnt := cnt\<rparr>))"

section \<open>Processes and vnodes together\<close>

text \<open>What the callers of \<open>lf_advlock\<close> guarantee: \<open>fcntl\<close> passes the calling process as the owner of a
  POSIX lock, \<open>flock\<close> passes the open file and a range that is the whole file.  \<open>isproc\<close> tells which
  owners are processes.\<close>

definition lf_args_ok :: "(nat \<Rightarrow> bool) \<Rightarrow> advlock_args \<Rightarrow> lf_world \<Rightarrow> bool" where
  "lf_args_ok isproc ap wo \<longleftrightarrow>
     a_vp ap < length (wo_files wo) \<and> a_posix ap = isproc (a_id ap) \<and> a_flock ap = (\<not> a_posix ap) \<and>
     (a_posix ap \<longrightarrow> a_id ap = a_proc ap) \<and>
     (a_flock ap \<longrightarrow> l_whence (a_fl ap) = SEEK_SET \<and> l_start (a_fl ap) = 0 \<and> l_len (a_fl ap) = 0) \<and>
     (a_op ap = OP_SETLK \<longrightarrow> l_type (a_fl ap) \<noteq> F_UNLCK)"

text \<open>The requests that sleep and those that are awake again but have not run yet.\<close>

definition sleeping :: "lf_world \<Rightarrow> waiter list" where
  "sleeping wo = concat (map lf_blkhd (concat (wo_files wo)))"

definition pending :: "lf_world \<Rightarrow> waiter list" where
  "pending wo = sleeping wo @ map snd (wo_woken wo)"

text \<open>
  The steps: a thread calls \<open>lf_advlock\<close>, which the only thread of a process cannot do while it waits
  for a lock; a thread whose request was woken makes another pass or returns an error because of
  a signal; a signal takes a sleeping request off its queue.
\<close>

inductive lf_step :: "(nat \<Rightarrow> bool) \<Rightarrow> (nat \<Rightarrow> bool) \<Rightarrow> lf_world \<Rightarrow> lf_world \<Rightarrow> bool" for multi isproc where
  lf_call: "lf_args_ok isproc ap wo \<Longrightarrow> multi (a_proc ap) \<or> a_proc ap \<notin> w_proc ` set (pending wo) \<Longrightarrow>
    lf_advlock multi pid ap wo = Some (out, fl, wo') \<Longrightarrow> lf_step multi isproc wo wo'"
| lf_retry: "(f, w) \<in> set (wo_woken wo) \<Longrightarrow>
    lf_setlock_pass multi f w (wo\<lparr>wo_woken := remove1 (f, w) (wo_woken wo)\<rparr>) = Some (out, wo') \<Longrightarrow>
    lf_step multi isproc wo wo'"
| lf_error: "(f, w) \<in> set (wo_woken wo) \<Longrightarrow>
    lf_step multi isproc wo
      (wo\<lparr>wo_woken := remove1 (f, w) (wo_woken wo),
          wo_cnt := lf_quit (w_spare w) (lf_free (lf_uid (w_lock w)) (wo_cnt wo))\<rparr>)"
| lf_signal: "f < length (wo_files wo) \<Longrightarrow> wo_files wo ! f = pre @ l # post \<Longrightarrow> lf_blkhd l = ws1 @ w # ws2 \<Longrightarrow>
    lf_step multi isproc wo
      (wo\<lparr>wo_files := (wo_files wo)[f := pre @ l\<lparr>lf_blkhd := ws1 @ ws2\<rparr> # post],
          wo_woken := wo_woken wo @ [(f, w)]\<rparr>)"

inductive lf_reachable :: "(nat \<Rightarrow> bool) \<Rightarrow> (nat \<Rightarrow> bool) \<Rightarrow> lf_world \<Rightarrow> bool" for multi isproc where
  lf_initial: "lf_reachable multi isproc \<lparr>wo_files = replicate n [], wo_cnt = cnt, wo_woken = []\<rparr>"
| lf_next: "lf_reachable multi isproc wo \<Longrightarrow> lf_step multi isproc wo wo' \<Longrightarrow> lf_reachable multi isproc wo'"

end
