(* ===== verification/Lockf_Correct.thy ===== *)
theory Lockf_Correct
  imports Lockf "HOL-Library.Multiset"
begin

text \<open>
  Correctness of the list operations on byte-range locks.  The bytes an owner has locked are
  read off the list as a set; setting and clearing a lock change this set on the given range of
  the given owner and nowhere else.  Clearing equals a reference definition that cuts the range
  out of every lock of the owner, and adding a lock equals inserting it between the cut locks.
\<close>

section \<open>Ranges\<close>

definition covers :: "'a lockf_scheme \<Rightarrow> int \<Rightarrow> bool" where
  "covers l b \<longleftrightarrow> lf_start l \<le> b \<and> (lf_end l = -1 \<or> b \<le> lf_end l)"

definition range_ok :: "'a lockf_scheme \<Rightarrow> bool" where
  "range_ok l \<longleftrightarrow> 0 \<le> lf_start l \<and> (lf_end l = -1 \<or> lf_start l \<le> lf_end l)"

definition before :: "'a lockf_scheme \<Rightarrow> 'b lockf_scheme \<Rightarrow> bool" where
  "before a b \<longleftrightarrow> lf_end a \<noteq> -1 \<and> lf_end a < lf_start b"

definition overlaps :: "'a lockf_scheme \<Rightarrow> 'b lockf_scheme \<Rightarrow> bool" where
  "overlaps a b \<longleftrightarrow> \<not> before a b \<and> \<not> before b a"

definition within :: "'a lockf_scheme \<Rightarrow> 'b lockf_scheme \<Rightarrow> bool" where
  "within a b \<longleftrightarrow> lf_start b \<le> lf_start a \<and> (lf_end b = -1 \<or> lf_end a \<noteq> -1 \<and> lf_end a \<le> lf_end b)"

lemmas range_defs = covers_def range_ok_def before_def overlaps_def within_def

lemma overlaps_iff_common: "range_ok a \<Longrightarrow> range_ok b \<Longrightarrow> overlaps a b \<longleftrightarrow> (\<exists>x. covers a x \<and> covers b x)"
  by (auto simp: range_defs intro!: exI [of _ "max (lf_start a) (lf_start b)"])

definition lf_ok :: "held list \<Rightarrow> bool" where
  "lf_ok ls \<longleftrightarrow> (\<forall>l \<in> set ls. range_ok l) \<and> sorted_wrt (\<lambda>a b. lf_id a = lf_id b \<longrightarrow> before a b) ls"

definition locked :: "held list \<Rightarrow> (nat \<times> int \<times> lftype) set" where
  "locked ls = {(i, b, t). \<exists>l \<in> set ls. lf_id l = i \<and> lf_type l = t \<and> covers l b}"

text \<open>The six cases.\<close>

definition ov_case :: "nat \<Rightarrow> 'a lockf_scheme \<Rightarrow> 'b lockf_scheme \<Rightarrow> bool" where
  "ov_case c ov lock \<longleftrightarrow>
     c = 1 \<and> lf_start ov = lf_start lock \<and> lf_end ov = lf_end lock \<or>
     c = 2 \<and> lf_start ov \<le> lf_start lock \<and> lf_end lock \<noteq> -1 \<and> (lf_end ov = -1 \<or> lf_end lock \<le> lf_end ov)
       \<and> (lf_start ov = lf_start lock \<longrightarrow> lf_end ov \<noteq> lf_end lock) \<or>
     c = 3 \<and> within ov lock \<or>
     c = 4 \<and> lf_start ov < lf_start lock \<and> \<not> before ov lock \<and>
       (lf_end lock = -1 \<or> lf_end ov \<noteq> -1 \<and> lf_end ov < lf_end lock) \<or>
     c = 5 \<and> lf_start lock < lf_start ov \<and> \<not> before lock ov \<and> lf_end lock \<noteq> -1 \<and>
       (lf_end ov = -1 \<or> lf_end lock < lf_end ov)"

lemma findoverlap_self:
  assumes "\<forall>l \<in> set ls. range_ok l" and "range_ok lock"
  shows "\<exists>c pre rest. lf_findoverlap ls lock SELF = Some (c, pre, rest) \<and> ls = pre @ rest \<and>
    (\<forall>x \<in> set pre. lf_id x = lf_id lock \<longrightarrow> before x lock) \<and>
    (if c = 0 then rest = [] \<or> lf_id (hd rest) = lf_id lock \<and> before lock (hd rest)
     else \<exists>ov r. rest = ov # r \<and> lf_id ov = lf_id lock \<and> ov_case c ov lock)"
  using assms(1)
proof (induction ls)
  case Nil
  then show ?case by simp
next
  case (Cons l ls)
  then obtain c pre rest where IH: "lf_findoverlap ls lock SELF = Some (c, pre, rest)" "ls = pre @ rest"
    "\<forall>x \<in> set pre. lf_id x = lf_id lock \<longrightarrow> before x lock"
    "if c = 0 then rest = [] \<or> lf_id (hd rest) = lf_id lock \<and> before lock (hd rest)
     else \<exists>ov r. rest = ov # r \<and> lf_id ov = lf_id lock \<and> ov_case c ov lock" by auto
  have l: "range_ok l" using Cons.prems by simp
  show ?case
  proof (cases "lf_id l \<noteq> lf_id lock \<or> before l lock \<and> \<not> before lock l")
    case True
    then have "lf_findoverlap (l # ls) lock SELF = Some (c, l # pre, rest)"
      using IH(1) by (auto simp: before_def Let_def)
    then show ?thesis using True IH(2-4) by auto
  next
    case False
    then show ?thesis
      using l assms(2) by (auto simp: Let_def ov_case_def range_defs)
  qed
qed

lemma lf_ok_append:
  "lf_ok (xs @ ys) \<longleftrightarrow> lf_ok xs \<and> lf_ok ys \<and> (\<forall>x \<in> set xs. \<forall>y \<in> set ys. lf_id x = lf_id y \<longrightarrow> before x y)"
  by (auto simp: lf_ok_def sorted_wrt_append)

lemma lf_ok_Cons:
  "lf_ok (x # ys) \<longleftrightarrow> range_ok x \<and> lf_ok ys \<and> (\<forall>y \<in> set ys. lf_id x = lf_id y \<longrightarrow> before x y)"
  by (auto simp: lf_ok_def)

lemma lf_ok_Nil [simp]: "lf_ok []"
  by (simp add: lf_ok_def)

section \<open>Clearing a range\<close>

text \<open>What is left of one lock, and the requests it wakes.\<close>

definition clear1 :: "'a lockf_scheme \<Rightarrow> held \<Rightarrow> held list" where
  "clear1 u l =
     (if lf_id l = lf_id u \<and> overlaps l u then
        (if lf_start l < lf_start u then [l\<lparr>lf_end := lf_start u - 1, lf_blkhd := []\<rparr>] else []) @
        (if lf_end u \<noteq> -1 \<and> (lf_end l = -1 \<or> lf_end u < lf_end l)
         then [l\<lparr>lf_start := lf_end u + 1, lf_blkhd := []\<rparr>] else [])
      else [l])"

definition wake1 :: "'a lockf_scheme \<Rightarrow> held \<Rightarrow> waiter list" where
  "wake1 u l = (if lf_id l = lf_id u \<and> overlaps l u then lf_blkhd l else [])"

definition clear_ref :: "'a lockf_scheme \<Rightarrow> held list \<Rightarrow> held list" where
  "clear_ref u ls = concat (map (clear1 u) ls)"

definition wake_ref :: "'a lockf_scheme \<Rightarrow> held list \<Rightarrow> waiter list" where
  "wake_ref u ls = concat (map (wake1 u) ls)"

lemma clear_ref_cong:
  "lf_id u = lf_id v \<Longrightarrow> lf_start u = lf_start v \<Longrightarrow> lf_end u = lf_end v \<Longrightarrow>
    clear_ref u = clear_ref v \<and> wake_ref u = wake_ref v"
  unfolding clear_ref_def wake_ref_def clear1_def [abs_def] wake1_def [abs_def] overlaps_def before_def
  by (simp cong: if_cong)

lemma clear_ref_simps [simp]:
  "clear_ref u [] = []" "clear_ref u (x # xs) = clear1 u x @ clear_ref u xs"
  "clear_ref u (xs @ ys) = clear_ref u xs @ clear_ref u ys"
  "wake_ref u [] = []" "wake_ref u (x # xs) = wake1 u x @ wake_ref u xs"
  "wake_ref u (xs @ ys) = wake_ref u xs @ wake_ref u ys"
  by (simp_all add: clear_ref_def wake_ref_def)

lemma clear1_disjoint:
  "lf_id l = lf_id u \<longrightarrow> before l u \<or> before u l \<Longrightarrow> clear1 u l = [l] \<and> wake1 u l = []"
  by (auto simp: clear1_def wake1_def overlaps_def)

lemma clear_ref_disjoint:
  "\<forall>l \<in> set ls. lf_id l = lf_id u \<longrightarrow> before l u \<or> before u l \<Longrightarrow> clear_ref u ls = ls \<and> wake_ref u ls = []"
  by (induction ls) (auto simp: clear1_disjoint)

lemma before_trans: "before a b \<Longrightarrow> range_ok b \<Longrightarrow> before b c \<Longrightarrow> before a c"
  by (auto simp: range_defs)

text \<open>In a list in order, the locks of the owner after one that reaches beyond the range are
  outside of it.\<close>

lemma clear_ref_tail:
  assumes "lf_ok (ov # r)" and "lf_id ov = lf_id u" and "lf_end u \<noteq> -1" and "lf_end ov = -1 \<or> lf_end u \<le> lf_end ov"
  shows "clear_ref u r = r \<and> wake_ref u r = []"
proof (rule clear_ref_disjoint)
  show "\<forall>l \<in> set r. lf_id l = lf_id u \<longrightarrow> before l u \<or> before u l"
    using assms by (auto simp: lf_ok_Cons before_def)
qed

lemma clear_ref_after:
  assumes "lf_ok rest" and "range_ok u" and "rest = [] \<or> lf_id (hd rest) = lf_id u \<and> before u (hd rest)"
  shows "clear_ref u rest = rest \<and> wake_ref u rest = []"
proof (rule clear_ref_disjoint)
  show "\<forall>l \<in> set rest. lf_id l = lf_id u \<longrightarrow> before l u \<or> before u l"
  proof (cases rest)
    case (Cons x r)
    then show ?thesis using assms by (auto simp: lf_ok_Cons intro: before_trans)
  qed simp
qed

lemma ov_case_overlaps: "ov_case c ov u \<Longrightarrow> range_ok ov \<Longrightarrow> range_ok u \<Longrightarrow> overlaps ov u"
  unfolding ov_case_def by (elim disjE conjE) (simp_all add: range_defs, linarith+)

text \<open>What is left of an overlap in each case.\<close>

lemma clear1_cases:
  assumes "lf_id ov = lf_id u" and "ov_case c ov u" and "range_ok ov" and "range_ok u"
  shows "wake1 u ov = lf_blkhd ov"
    and "c = 1 \<or> c = 3 \<Longrightarrow> clear1 u ov = []"
    and "c = 2 \<Longrightarrow> lf_start ov = lf_start u \<Longrightarrow> clear1 u ov = [ov\<lparr>lf_start := lf_end u + 1, lf_blkhd := []\<rparr>]"
    and "c = 2 \<Longrightarrow> lf_start ov \<noteq> lf_start u \<Longrightarrow> lf_end ov = lf_end u \<Longrightarrow>
      clear1 u ov = [ov\<lparr>lf_end := lf_start u - 1, lf_blkhd := []\<rparr>]"
    and "c = 2 \<Longrightarrow> lf_start ov \<noteq> lf_start u \<Longrightarrow> lf_end ov \<noteq> lf_end u \<Longrightarrow>
      clear1 u ov = [ov\<lparr>lf_end := lf_start u - 1, lf_blkhd := []\<rparr>, ov\<lparr>lf_start := lf_end u + 1, lf_blkhd := []\<rparr>]"
    and "c = 4 \<Longrightarrow> clear1 u ov = [ov\<lparr>lf_end := lf_start u - 1, lf_blkhd := []\<rparr>]"
    and "c = 5 \<Longrightarrow> clear1 u ov = [ov\<lparr>lf_start := lf_end u + 1, lf_blkhd := []\<rparr>]"
proof -
  note ov = ov_case_overlaps [OF assms(2-4)]
  note defs = clear1_def wake1_def ov_case_def before_def within_def
  show "wake1 u ov = lf_blkhd ov" using ov assms(1) by (simp add: wake1_def)
  show "c = 1 \<or> c = 3 \<Longrightarrow> clear1 u ov = []" using ov assms(1,2) by (auto simp: defs)
  show "c = 2 \<Longrightarrow> lf_start ov = lf_start u \<Longrightarrow> clear1 u ov = [ov\<lparr>lf_start := lf_end u + 1, lf_blkhd := []\<rparr>]"
    using ov assms(1,2) by (simp add: defs) linarith?
  show "c = 2 \<Longrightarrow> lf_start ov \<noteq> lf_start u \<Longrightarrow> lf_end ov = lf_end u \<Longrightarrow>
      clear1 u ov = [ov\<lparr>lf_end := lf_start u - 1, lf_blkhd := []\<rparr>]"
    using ov assms(1,2) by (simp add: defs)
  show "c = 2 \<Longrightarrow> lf_start ov \<noteq> lf_start u \<Longrightarrow> lf_end ov \<noteq> lf_end u \<Longrightarrow>
      clear1 u ov = [ov\<lparr>lf_end := lf_start u - 1, lf_blkhd := []\<rparr>, ov\<lparr>lf_start := lf_end u + 1, lf_blkhd := []\<rparr>]"
    using ov assms(1,2) by (simp add: defs) linarith?
  show "c = 4 \<Longrightarrow> clear1 u ov = [ov\<lparr>lf_end := lf_start u - 1, lf_blkhd := []\<rparr>]"
    using ov assms(1,2) by (simp add: defs) linarith?
  show "c = 5 \<Longrightarrow> clear1 u ov = [ov\<lparr>lf_start := lf_end u + 1, lf_blkhd := []\<rparr>]"
    using ov assms(1,2) by (simp add: defs) linarith?
qed

lemma clearlock_ref:
  assumes "lf_ok ls" and "range_ok u" and "sp \<noteq> None \<or> lf_end u = -1"
  shows "\<exists>sp' cnt'. lf_clearlock ls u sp cnt = Some (clear_ref u ls, sp', cnt', wake_ref u ls)"
  using assms(1)
proof (induction ls arbitrary: cnt rule: length_induct)
  case (1 ls)
  from "1.prems" have "\<forall>l \<in> set ls. range_ok l" by (simp add: lf_ok_def)
  from findoverlap_self [OF this assms(2)] obtain c pre rest where fo:
    "lf_findoverlap ls u SELF = Some (c, pre, rest)" "ls = pre @ rest"
    "\<forall>x \<in> set pre. lf_id x = lf_id u \<longrightarrow> before x u"
    "if c = 0 then rest = [] \<or> lf_id (hd rest) = lf_id u \<and> before u (hd rest)
     else \<exists>ov r. rest = ov # r \<and> lf_id ov = lf_id u \<and> ov_case c ov u" by blast
  have ok: "lf_ok rest" using "1.prems" fo(2) by (simp add: lf_ok_append)
  have pre: "clear_ref u pre = pre" "wake_ref u pre = []"
    using clear_ref_disjoint [of pre u] fo(3) by auto
  have ref: "clear_ref u ls = pre @ clear_ref u rest" "wake_ref u ls = wake_ref u rest"
    using fo(2) pre by simp_all
  note split = lf_clearlock.simps [of ls] fo(1) ref
  show ?case
  proof (cases "c = 0")
    case True
    then have "clear_ref u rest = rest \<and> wake_ref u rest = []"
      using fo(4) by (intro clear_ref_after [OF ok assms(2)]) simp
    then show ?thesis using True by (cases rest) (simp_all add: split)
  next
    case False
    then obtain ov r where rest: "rest = ov # r" "lf_id ov = lf_id u" "ov_case c ov u" using fo(4) by auto
    have okr: "lf_ok r" "range_ok ov" using ok rest(1) by (simp_all add: lf_ok_Cons)
    have IH: "\<exists>sp' cnt''. lf_clearlock r u sp cnt' = Some (clear_ref u r, sp', cnt'', wake_ref u r)" for cnt'
      using "1.IH" okr(1) fo(2) rest(1) by simp
    note c1 = clear1_cases [OF rest(2,3) okr(2) assms(2)]
    have tail: "lf_end u \<noteq> -1 \<Longrightarrow> lf_end ov = -1 \<or> lf_end u \<le> lf_end ov \<Longrightarrow> clear_ref u r = r \<and> wake_ref u r = []"
      using clear_ref_tail [of ov r u] ok rest by simp
    from rest(3) consider "c = 1" | "c = 2" | "c = 3" | "c = 4" | "c = 5" by (auto simp: ov_case_def)
    then show ?thesis
    proof cases
      case 1
      have "clear_ref u r = r \<and> wake_ref u r = []"
      proof (cases "lf_end u = -1")
        case True
        then show ?thesis using 1 rest ok
          by (intro clear_ref_disjoint) (auto simp: lf_ok_Cons ov_case_def before_def)
      next
        case False
        then show ?thesis using 1 rest by (intro tail) (auto simp: ov_case_def)
      qed
      then show ?thesis using 1 rest by (simp add: split lf_wakelock_def c1)
    next
      case 2
      then have tl: "clear_ref u r = r \<and> wake_ref u r = []" using rest by (intro tail) (auto simp: ov_case_def)
      have "sp \<noteq> None" using 2 rest(3) assms(3) by (auto simp: ov_case_def)
      then obtain v where sp: "sp = Some v" by auto
      show ?thesis
      proof (cases "lf_start ov = lf_start u")
        case True
        then show ?thesis using 2 rest(1) tl by (simp add: split lf_wakelock_def c1)
      next
        case neq: False
        then show ?thesis using 2 rest(1) tl sp
          by (cases "lf_end ov = lf_end u") (simp_all add: split lf_wakelock_def lf_split_def c1)
      qed
    next
      case 3
      obtain sp' cnt' where "lf_clearlock r u sp (lf_free (lf_uid ov) cnt) = Some (clear_ref u r, sp', cnt', wake_ref u r)"
        using IH by blast
      then show ?thesis using 3 rest by (simp add: split lf_wakelock_def lf_prepend_def c1)
    next
      case 4
      obtain sp' cnt' where "lf_clearlock r u sp cnt = Some (clear_ref u r, sp', cnt', wake_ref u r)"
        using IH by blast
      then show ?thesis using 4 rest by (simp add: split lf_wakelock_def lf_prepend_def c1)
    next
      case 5
      then have "clear_ref u r = r \<and> wake_ref u r = []" using rest by (intro tail) (auto simp: ov_case_def)
      then show ?thesis using 5 rest by (simp add: split lf_wakelock_def c1)
    qed
  qed
qed

lemma clear1_piece:
  assumes "x \<in> set (clear1 u l)" and "range_ok l" and "range_ok u"
  shows "range_ok x \<and> within x l \<and> lf_id x = lf_id l \<and> lf_type x = lf_type l \<and> F_POSIX x = F_POSIX l \<and>
    (lf_id l = lf_id u \<longrightarrow> before x u \<or> before u x) \<and> (x = l \<or> lf_blkhd x = [])"
proof -
  consider "x = l" "lf_id l = lf_id u \<longrightarrow> \<not> overlaps l u"
    | "x = l\<lparr>lf_end := lf_start u - 1, lf_blkhd := []\<rparr>" "overlaps l u" "lf_start l < lf_start u"
    | "x = l\<lparr>lf_start := lf_end u + 1, lf_blkhd := []\<rparr>" "overlaps l u" "lf_end u \<noteq> -1" "lf_end l = -1 \<or> lf_end u < lf_end l"
    using assms(1) by (auto simp: clear1_def split: if_splits)
  then show ?thesis
  proof cases
    case 1
    then show ?thesis using assms(2) by (auto simp: overlaps_def within_def)
  next
    case 2
    then show ?thesis using assms(2,3) by (simp add: range_defs) linarith?
  next
    case 3
    then show ?thesis using assms(2,3) by (simp add: range_defs) linarith?
  qed
qed

lemma cut_range:
  fixes s e u v b :: int
  assumes "0 \<le> s" and "e = -1 \<or> s \<le> e" and "0 \<le> u" and "v = -1 \<or> u \<le> v"
    and "v = -1 \<or> s \<le> v" and "e = -1 \<or> u \<le> e"
  shows "s < u \<and> s \<le> b \<and> (u - 1 = -1 \<or> b \<le> u - 1) \<or>
      (v \<noteq> -1 \<and> (e = -1 \<or> v < e)) \<and> v + 1 \<le> b \<and> (e = -1 \<or> b \<le> e) \<longleftrightarrow>
    (s \<le> b \<and> (e = -1 \<or> b \<le> e)) \<and> \<not> (u \<le> b \<and> (v = -1 \<or> b \<le> v))"
proof (cases "u \<le> b")
  case True
  then show ?thesis using assms by (cases "e = -1"; cases "v = -1") auto
next
  case False
  then show ?thesis using assms by (cases "e = -1"; cases "v = -1") auto
qed

lemma clear1_covers:
  assumes "range_ok l" and "range_ok u"
  shows "(\<exists>x \<in> set (clear1 u l). covers x b) \<longleftrightarrow> covers l b \<and> \<not> (lf_id l = lf_id u \<and> covers u b)"
proof (cases "lf_id l = lf_id u \<and> overlaps l u")
  case True
  have "(\<exists>x \<in> set (clear1 u l). covers x b) \<longleftrightarrow>
      lf_start l < lf_start u \<and> lf_start l \<le> b \<and> (lf_start u - 1 = -1 \<or> b \<le> lf_start u - 1) \<or>
      (lf_end u \<noteq> -1 \<and> (lf_end l = -1 \<or> lf_end u < lf_end l)) \<and> lf_end u + 1 \<le> b \<and> (lf_end l = -1 \<or> b \<le> lf_end l)"
    using True
    by (cases "lf_start l < lf_start u"; cases "lf_end u \<noteq> -1 \<and> (lf_end l = -1 \<or> lf_end u < lf_end l)")
      (simp_all add: clear1_def covers_def)
  also have "\<dots> \<longleftrightarrow> covers l b \<and> \<not> covers u b"
    unfolding covers_def using True assms
    by (intro cut_range) (auto simp: range_ok_def overlaps_def before_def)
  finally show ?thesis using True by simp
next
  case False
  then have "\<not> (lf_id l = lf_id u \<and> covers l b \<and> covers u b)"
    by (auto simp: range_defs)
  then show ?thesis using False by (auto simp: clear1_def)
qed

lemma before_within:
  "before a y \<Longrightarrow> within x y \<Longrightarrow> before a x"
  "before y b \<Longrightarrow> within x y \<Longrightarrow> before x b"
  by (auto simp: range_defs)

lemma set_clear_ref: "x \<in> set (clear_ref u ls) \<longleftrightarrow> (\<exists>l \<in> set ls. x \<in> set (clear1 u l))"
  by (auto simp: clear_ref_def)

lemma lf_ok_clear1: "range_ok l \<Longrightarrow> range_ok u \<Longrightarrow> lf_ok (clear1 u l)"
  unfolding clear1_def by (auto simp: lf_ok_def range_defs)

lemma lf_ok_clear_ref:
  assumes "lf_ok ls" and "range_ok u"
  shows "lf_ok (clear_ref u ls)"
  using assms(1)
proof (induction ls)
  case (Cons l ls)
  have l: "range_ok l" and ls: "lf_ok ls" "\<forall>y \<in> set ls. lf_id l = lf_id y \<longrightarrow> before l y"
    using Cons.prems by (auto simp: lf_ok_Cons)
  have "before x y" if xy: "x \<in> set (clear1 u l)" "y \<in> set (clear_ref u ls)" "lf_id x = lf_id y" for x y
  proof -
    obtain z where z: "z \<in> set ls" "y \<in> set (clear1 u z)" using xy(2) by (auto simp: set_clear_ref)
    then have "range_ok z" using ls(1) by (simp add: lf_ok_def)
    then show ?thesis using clear1_piece [OF xy(1) l assms(2)] clear1_piece [OF z(2) _ assms(2)] z(1) ls(2) xy(3)
      by (metis before_within)
  qed
  then show ?case using Cons.IH ls(1) lf_ok_clear1 [OF l assms(2)] by (simp add: lf_ok_append)
qed simp

lemma locked_clear_ref:
  assumes "\<forall>l \<in> set ls. range_ok l" and "range_ok u"
  shows "locked (clear_ref u ls) = {(i, b, t) \<in> locked ls. \<not> (i = lf_id u \<and> covers u b)}"
proof (intro set_eqI iffI; clarify)
  fix i b t assume "(i, b, t) \<in> locked (clear_ref u ls)"
  then obtain l x where x: "l \<in> set ls" "x \<in> set (clear1 u l)" "lf_id x = i" "lf_type x = t" "covers x b"
    by (auto simp: locked_def set_clear_ref)
  then have "range_ok l" using assms(1) by simp
  then show "(i, b, t) \<in> locked ls \<and> \<not> (i = lf_id u \<and> covers u b)"
    using clear1_piece [OF x(2) _ assms(2)] clear1_covers [OF _ assms(2), of l b] x by (auto simp: locked_def)
next
  fix i b t assume "(i, b, t) \<in> locked ls" and n: "\<not> (i = lf_id u \<and> covers u b)"
  then obtain l where l: "l \<in> set ls" "lf_id l = i" "lf_type l = t" "covers l b" by (auto simp: locked_def)
  then have "range_ok l" using assms(1) by simp
  then obtain x where "x \<in> set (clear1 u l)" "covers x b"
    using clear1_covers [OF _ assms(2), of l b] l n by auto
  then show "(i, b, t) \<in> locked (clear_ref u ls)"
    using clear1_piece [OF _ \<open>range_ok l\<close> assms(2)] l by (force simp: locked_def set_clear_ref)
qed

section \<open>Adding a lock\<close>

text \<open>The new lock takes over the queue of a lock it replaces.\<close>

definition takes :: "'a lockf_scheme \<Rightarrow> held \<Rightarrow> bool" where
  "takes lock ov \<longleftrightarrow> lf_id ov = lf_id lock \<and> within ov lock \<and> \<not> (lf_type lock = F_RDLCK \<and> lf_type ov = F_WRLCK)"

lemma addlock_linked:
  assumes "lf_ok blk" and "range_ok lock" and "\<forall>x \<in> set blk. lf_id x = lf_id lock \<longrightarrow> lf_start lock < lf_start x"
  shows "\<exists>q sp' cnt' wk. lf_addlock bef lock aft blk False sp cnt woken =
      Some (bef @ lock\<lparr>lf_blkhd := lf_blkhd lock @ q\<rparr> # aft @ clear_ref lock blk, sp', cnt', woken @ wk) \<and>
    mset q + mset wk = mset (wake_ref lock blk) \<and>
    (\<forall>w \<in> set q. \<exists>ov \<in> set blk. takes lock ov \<and> w \<in> set (lf_blkhd ov))"
  using assms
proof (induction blk arbitrary: lock aft cnt woken rule: length_induct)
  case (1 blk)
  note r_lock = "1.prems"(2)
  from "1.prems"(1) have "\<forall>l \<in> set blk. range_ok l" by (simp add: lf_ok_def)
  from findoverlap_self [OF this r_lock] obtain c pre rest where fo:
    "lf_findoverlap blk lock SELF = Some (c, pre, rest)" "blk = pre @ rest"
    "\<forall>x \<in> set pre. lf_id x = lf_id lock \<longrightarrow> before x lock"
    "if c = 0 then rest = [] \<or> lf_id (hd rest) = lf_id lock \<and> before lock (hd rest)
     else \<exists>ov r. rest = ov # r \<and> lf_id ov = lf_id lock \<and> ov_case c ov lock" by blast
  have ok: "lf_ok rest" using "1.prems"(1) fo(2) by (simp add: lf_ok_append)
  have ref: "clear_ref lock blk = pre @ clear_ref lock rest" "wake_ref lock blk = wake_ref lock rest"
    using clear_ref_disjoint [of pre lock] fo(2,3) by auto
  note unf = lf_addlock.simps [of _ _ _ blk] fo(1) ref
  show ?case
  proof (cases "c = 0")
    case True
    then have "clear_ref lock rest = rest \<and> wake_ref lock rest = []"
      using fo(4) by (intro clear_ref_after [OF ok r_lock]) simp
    then show ?thesis using True by (simp add: unf)
  next
    case False
    then obtain ov r where rest: "rest = ov # r" "lf_id ov = lf_id lock" "ov_case c ov lock" using fo(4) by auto
    have okr: "lf_ok r" "range_ok ov" using ok rest(1) by (simp_all add: lf_ok_Cons)
    note c1 = clear1_cases [OF rest(2,3) okr(2) r_lock]
    have gt: "lf_start lock < lf_start ov" using "1.prems"(3) fo(2) rest by auto
    then have "c = 3 \<or> c = 5" using rest(3) by (auto simp: ov_case_def)
    then show ?thesis
    proof
      assume c: "c = 5"
      then have "clear_ref lock r = r \<and> wake_ref lock r = []"
        using clear_ref_tail [of ov r lock] ok rest by (auto simp: ov_case_def)
      then show ?thesis using c rest by (simp add: unf lf_wakelock_def c1)
    next
      assume c: "c = 3"
      define dn where "dn \<longleftrightarrow> lf_type lock = F_RDLCK \<and> lf_type ov = F_WRLCK"
      define lock' where "lock' = (if dn then lock else lock\<lparr>lf_blkhd := lf_blkhd lock @ lf_blkhd ov\<rparr>)"
      define wk0 where "wk0 = (if dn then lf_blkhd ov else [])"
      have step: "lf_addlock bef lock aft blk False sp cnt woken =
          lf_addlock bef lock' (aft @ pre) r False sp (lf_free (lf_uid ov) cnt) (woken @ wk0)"
        using c rest by (simp add: unf lock'_def wk0_def dn_def)
      have same: "clear_ref lock' = clear_ref lock" "wake_ref lock' = wake_ref lock" "takes lock' = takes lock"
        using clear_ref_cong [of lock' lock] by (simp_all add: takes_def within_def lock'_def fun_eq_iff)
      have "length r < length blk" using fo(2) rest(1) by simp
      moreover have "range_ok lock'" using r_lock by (simp add: lock'_def range_ok_def)
      moreover have "\<forall>x \<in> set r. lf_id x = lf_id lock' \<longrightarrow> lf_start lock' < lf_start x"
        using "1.prems"(3) fo(2) rest(1) by (simp add: lock'_def)
      ultimately obtain q sp' cnt' wk where IH:
        "lf_addlock bef lock' (aft @ pre) r False sp (lf_free (lf_uid ov) cnt) (woken @ wk0) =
           Some (bef @ lock'\<lparr>lf_blkhd := lf_blkhd lock' @ q\<rparr> # (aft @ pre) @ clear_ref lock' r, sp', cnt', (woken @ wk0) @ wk)"
        "mset q + mset wk = mset (wake_ref lock' r)"
        "\<forall>w \<in> set q. \<exists>ov \<in> set r. takes lock' ov \<and> w \<in> set (lf_blkhd ov)"
        using "1.IH" okr(1) by blast
      define q0 where "q0 = (if dn then [] else lf_blkhd ov)"
      have lk: "lock'\<lparr>lf_blkhd := lf_blkhd lock' @ q\<rparr> = lock\<lparr>lf_blkhd := lf_blkhd lock @ (q0 @ q)\<rparr>"
        by (simp add: lock'_def q0_def)
      have "takes lock ov \<or> dn" using c rest by (auto simp: takes_def dn_def ov_case_def)
      then have "\<forall>w \<in> set (q0 @ q). \<exists>ov \<in> set blk. takes lock ov \<and> w \<in> set (lf_blkhd ov)"
        using IH(3) fo(2) rest(1) by (auto simp: q0_def same split: if_splits)
      moreover have "mset (q0 @ q) + mset (wk0 @ wk) = mset (wake_ref lock blk)"
        using IH(2) rest(1) by (simp add: ref c1 q0_def wk0_def same)
      moreover have "lf_addlock bef lock aft blk False sp cnt woken =
          Some (bef @ lock\<lparr>lf_blkhd := lf_blkhd lock @ (q0 @ q)\<rparr> # aft @ clear_ref lock blk, sp', cnt', woken @ (wk0 @ wk))"
        using IH(1) lk rest(1) c by (simp add: step ref c1 same)
      ultimately show ?thesis by blast
    qed
  qed
qed

text \<open>The list after a lock was added: it stands between the locks cut to make room for it.\<close>

definition added :: "held \<Rightarrow> held list \<Rightarrow> held list \<Rightarrow> waiter list \<Rightarrow> bool" where
  "added lock ls ls' wk \<longleftrightarrow>
     (\<exists>L x R. ls' = L @ x # R \<and> L @ R = clear_ref lock ls \<and>
       lf_id x = lf_id lock \<and> lf_type x = lf_type lock \<and> lf_start x = lf_start lock \<and> lf_end x = lf_end lock \<and>
       (F_POSIX x = F_POSIX lock \<or> (\<exists>ov \<in> set ls. lf_id ov = lf_id lock \<and> F_POSIX x = F_POSIX ov)) \<and>
       (\<forall>y \<in> set L. lf_id y = lf_id lock \<longrightarrow> before y lock) \<and> (\<forall>y \<in> set R. lf_id y = lf_id lock \<longrightarrow> before lock y) \<and>
       mset (lf_blkhd x) + mset wk = mset (wake_ref lock ls) \<and>
       (\<forall>w \<in> set (lf_blkhd x). \<exists>ov \<in> set ls. takes lock ov \<and> w \<in> set (lf_blkhd ov)))"

definition merged :: "held \<Rightarrow> held list \<Rightarrow> held list \<Rightarrow> waiter list \<Rightarrow> bool" where
  "merged lock ls ls' wk \<longleftrightarrow> ls' = ls \<and> wk = [] \<and>
     (\<exists>ov \<in> set ls. lf_id ov = lf_id lock \<and> lf_type ov = lf_type lock \<and> within lock ov)"

lemma addedI:
  assumes "ls' = L @ x # R" "L @ R = clear_ref lock ls" "lf_id x = lf_id lock" "lf_type x = lf_type lock"
    "lf_start x = lf_start lock" "lf_end x = lf_end lock"
    "F_POSIX x = F_POSIX lock \<or> (\<exists>ov \<in> set ls. lf_id ov = lf_id lock \<and> F_POSIX x = F_POSIX ov)"
    "\<forall>y \<in> set L. lf_id y = lf_id lock \<longrightarrow> before y lock" "\<forall>y \<in> set R. lf_id y = lf_id lock \<longrightarrow> before lock y"
    "mset (lf_blkhd x) + mset wk = mset (wake_ref lock ls)"
    "\<forall>w \<in> set (lf_blkhd x). \<exists>ov \<in> set ls. takes lock ov \<and> w \<in> set (lf_blkhd ov)"
  shows "added lock ls ls' wk"
  using assms unfolding added_def by blast

text \<open>The locks of the owner that follow an overlap come after the new lock once they are cut.\<close>

lemma after_cut:
  assumes "lf_ok (ov # r)" and "lf_id ov = lf_id lock" and "range_ok lock" and "lf_start lock \<le> lf_start ov \<or> \<not> before ov lock"
  shows "\<forall>x \<in> set r. lf_id x = lf_id lock \<longrightarrow> lf_start lock < lf_start x"
    and "\<forall>x \<in> set (clear_ref lock r). lf_id x = lf_id lock \<longrightarrow> before lock x"
proof -
  show A: "\<forall>x \<in> set r. lf_id x = lf_id lock \<longrightarrow> lf_start lock < lf_start x"
    using assms by (auto simp: lf_ok_Cons range_defs)
  show "\<forall>x \<in> set (clear_ref lock r). lf_id x = lf_id lock \<longrightarrow> before lock x"
  proof (intro ballI impI)
    fix x assume "x \<in> set (clear_ref lock r)" and id: "lf_id x = lf_id lock"
    then obtain l where l: "l \<in> set r" "x \<in> set (clear1 lock l)" by (auto simp: set_clear_ref)
    then have ok: "range_ok l" using assms(1) by (auto simp: lf_ok_def)
    have "lf_id l = lf_id lock" "before x lock \<or> before lock x" "within x l" "range_ok x"
      using clear1_piece [OF l(2) ok assms(3)] id by auto
    then show "before lock x" using A l(1) by (auto simp: range_defs)
  qed
qed

text \<open>The first overlap of the owner, and what the list becomes around it.\<close>

definition first_overlap :: "held list \<Rightarrow> held \<Rightarrow> nat \<Rightarrow> held list \<Rightarrow> held \<Rightarrow> held list \<Rightarrow> bool" where
  "first_overlap ls lock c pre ov r \<longleftrightarrow>
     lf_findoverlap ls lock SELF = Some (c, pre, ov # r) \<and> ls = pre @ ov # r \<and> lf_ok ls \<and> range_ok lock \<and>
     lf_blkhd lock = [] \<and> (\<forall>x \<in> set pre. lf_id x = lf_id lock \<longrightarrow> before x lock) \<and>
     lf_id ov = lf_id lock \<and> ov_case c ov lock"

lemma first_overlapD:
  assumes "first_overlap ls lock c pre ov r"
  shows "lf_findoverlap ls lock SELF = Some (c, pre, ov # r)" "ls = pre @ ov # r" "ov \<in> set ls"
    "lf_ok r" "range_ok ov" "range_ok lock" "lf_blkhd lock = []"
    "\<forall>x \<in> set pre. lf_id x = lf_id lock \<longrightarrow> before x lock" "lf_id ov = lf_id lock" "ov_case c ov lock"
    "clear_ref lock ls = pre @ clear1 lock ov @ clear_ref lock r" "wake_ref lock ls = lf_blkhd ov @ wake_ref lock r"
    "\<forall>x \<in> set r. lf_id x = lf_id lock \<longrightarrow> lf_start lock < lf_start x"
    "\<forall>x \<in> set (clear_ref lock r). lf_id x = lf_id lock \<longrightarrow> before lock x"
proof -
  show A: "lf_findoverlap ls lock SELF = Some (c, pre, ov # r)" "ls = pre @ ov # r" "ov \<in> set ls"
    "range_ok lock" "lf_blkhd lock = []"
    "\<forall>x \<in> set pre. lf_id x = lf_id lock \<longrightarrow> before x lock" "lf_id ov = lf_id lock" "ov_case c ov lock"
    using assms by (auto simp: first_overlap_def)
  have ok: "lf_ok (ov # r)" using assms by (auto simp: first_overlap_def lf_ok_append)
  then show B: "lf_ok r" "range_ok ov" by (simp_all add: lf_ok_Cons)
  have "\<not> before ov lock" using ov_case_overlaps [OF A(8) B(2) A(4)] by (simp add: overlaps_def)
  from after_cut [OF ok A(7) A(4) disjI2 [OF this]]
  show "\<forall>x \<in> set r. lf_id x = lf_id lock \<longrightarrow> lf_start lock < lf_start x"
    "\<forall>x \<in> set (clear_ref lock r). lf_id x = lf_id lock \<longrightarrow> before lock x" .
  have "clear_ref lock pre = pre \<and> wake_ref lock pre = []" using A(6) by (intro clear_ref_disjoint) auto
  then show "clear_ref lock ls = pre @ clear1 lock ov @ clear_ref lock r" "wake_ref lock ls = lf_blkhd ov @ wake_ref lock r"
    using A(2) clear1_cases(1) [OF A(7,8) B(2) A(4)] by simp_all
qed

lemma first_overlap_tail:
  assumes "first_overlap ls lock c pre ov r" and "c = 1 \<or> c = 2 \<or> c = 5"
  shows "clear_ref lock r = r" "wake_ref lock r = []"
proof -
  have ok: "lf_ok (ov # r)" "lf_id ov = lf_id lock" "ov_case c ov lock"
    using assms(1) by (auto simp: first_overlap_def lf_ok_append)
  have "clear_ref lock r = r \<and> wake_ref lock r = []"
  proof (cases "lf_end lock = -1")
    case True
    then have "lf_end ov = -1" using ok(3) assms(2) by (auto simp: ov_case_def)
    then show ?thesis using ok by (intro clear_ref_disjoint) (auto simp: lf_ok_Cons before_def)
  next
    case False
    then show ?thesis using ok assms(2) by (intro clear_ref_tail [of ov]) (auto simp: ov_case_def)
  qed
  then show "clear_ref lock r = r" "wake_ref lock r = []" by auto
qed

lemmas addlock_unfold = lf_addlock.simps lf_wakelock_def lf_split_def

lemma addlock_same_range:
  assumes "first_overlap ls lock 1 pre ov r"
  shows "\<exists>ls' cnt' wk. lf_addlock [] lock [] ls True sp cnt [] = Some (ls', sp, cnt', wk) \<and> added lock ls ls' wk"
proof -
  note F = first_overlapD [OF assms] and T = first_overlap_tail [OF assms]
  define dn where "dn \<longleftrightarrow> lf_type lock = F_RDLCK \<and> lf_type ov = F_WRLCK"
  define q where "q = (if dn then [] else lf_blkhd ov)"
  define wk where "wk = (if dn then lf_blkhd ov else [])"
  have eq: "lf_start ov = lf_start lock" "lf_end ov = lf_end lock" using F(10) by (auto simp: ov_case_def)
  then have "takes lock ov \<or> dn" using F(9) by (auto simp: takes_def dn_def within_def)
  then have "added lock ls (pre @ ov\<lparr>lf_blkhd := q\<rparr>\<lparr>lf_type := lf_type lock\<rparr> # r) wk"
    using F(3,8,9,14) T eq clear1_cases [OF F(9,10,5,6)]
    by (intro addedI [OF refl]) (auto simp: F(11,12) q_def wk_def split: if_splits)
  moreover have "lf_addlock [] lock [] ls True sp cnt [] =
      Some (pre @ ov\<lparr>lf_blkhd := q\<rparr>\<lparr>lf_type := lf_type lock\<rparr> # r, sp, lf_free (lf_uid lock) cnt, wk)"
    using F(1) by (simp add: addlock_unfold q_def wk_def dn_def)
  ultimately show ?thesis by blast
qed

lemma addlock_inside:
  assumes "first_overlap ls lock 2 pre ov r" and "sp \<noteq> None"
  shows "\<exists>ls' sp' cnt' wk. lf_addlock [] lock [] ls True sp cnt [] = Some (ls', sp', cnt', wk) \<and>
    (added lock ls ls' wk \<or> merged lock ls ls' wk)"
proof -
  note F = first_overlapD [OF assms(1)] and T = first_overlap_tail [OF assms(1)]
  note c1 = clear1_cases [OF F(9,10,5,6)]
  note oc = F(10) [unfolded ov_case_def, simplified]
  obtain v where sp: "sp = Some v" using assms(2) by auto
  let ?l = "ov\<lparr>lf_end := lf_start lock - 1, lf_blkhd := []\<rparr>"
  let ?r = "ov\<lparr>lf_start := lf_end lock + 1, lf_blkhd := []\<rparr>"
  have right: "before lock ?r" using oc by (auto simp: before_def)
  have left: "before ?l lock" if "lf_start ov \<noteq> lf_start lock" using oc that F(5) by (auto simp: before_def range_ok_def)
  consider "lf_type ov = lf_type lock" | "lf_type ov \<noteq> lf_type lock" "lf_start ov = lf_start lock"
    | "lf_type ov \<noteq> lf_type lock" "lf_start ov \<noteq> lf_start lock" "lf_end ov = lf_end lock"
    | "lf_type ov \<noteq> lf_type lock" "lf_start ov \<noteq> lf_start lock" "lf_end ov \<noteq> lf_end lock" by blast
  then show ?thesis
  proof cases
    case 1
    then have "merged lock ls ls []" using oc F(3,9) by (auto simp: merged_def within_def)
    then show ?thesis using F(1,2) 1 by (simp add: addlock_unfold)
  next
    case 2
    then have "added lock ls (pre @ lock # ?r # r) (lf_blkhd ov)"
      using F(7,8,14) c1 T right by (intro addedI [OF refl]) (auto simp: F(11,12))
    then show ?thesis using F(1) 2 by (simp add: addlock_unfold)
  next
    case 3
    then have "added lock ls ((pre @ [?l]) @ lock # r) (lf_blkhd ov)"
      using F(7,8,14) c1 T left [OF 3(2)] by (intro addedI [OF refl]) (auto simp: F(11,12))
    then show ?thesis using F(1) 3 by (simp add: addlock_unfold)
  next
    case 4
    then have "added lock ls ((pre @ [?l]) @ lock # ?r # r) (lf_blkhd ov)"
      using F(7,8,14) c1 T left [OF 4(2)] right by (intro addedI [OF refl]) (auto simp: F(11,12))
    then show ?thesis using F(1) 4 sp by (simp add: addlock_unfold)
  qed
qed

lemma addlock_around:
  assumes "first_overlap ls lock 3 pre ov r"
  shows "\<exists>ls' sp' cnt' wk. lf_addlock [] lock [] ls True sp cnt [] = Some (ls', sp', cnt', wk) \<and> added lock ls ls' wk"
proof -
  note F = first_overlapD [OF assms]
  define dn where "dn \<longleftrightarrow> lf_type lock = F_RDLCK \<and> lf_type ov = F_WRLCK"
  define q0 where "q0 = (if dn then [] else lf_blkhd ov)"
  define wk0 where "wk0 = (if dn then lf_blkhd ov else [])"
  define lock' where "lock' = (if dn then lock else lock\<lparr>lf_blkhd := lf_blkhd ov\<rparr>)"
  have q0: "lf_blkhd lock' = q0" using F(7) by (simp add: lock'_def q0_def)
  have lock': "lock'\<lparr>lf_blkhd := q\<rparr> = lock\<lparr>lf_blkhd := q\<rparr>" for q by (simp add: lock'_def)
  have same: "clear_ref lock' = clear_ref lock" "wake_ref lock' = wake_ref lock" "takes lock' = takes lock"
    using clear_ref_cong [of lock' lock] by (simp_all add: takes_def within_def lock'_def fun_eq_iff)
  have "lf_addlock [] lock [] ls True sp cnt [] = lf_addlock pre lock' [] r False sp (lf_free (lf_uid ov) cnt) wk0"
    using F(1,7) by (simp add: lf_addlock.simps [of _ _ _ ls] lock'_def wk0_def dn_def)
  moreover have "range_ok lock'" "\<forall>x \<in> set r. lf_id x = lf_id lock' \<longrightarrow> lf_start lock' < lf_start x"
    using F(6,13) by (simp_all add: lock'_def range_ok_def)
  ultimately obtain q sp' cnt' wk where A:
    "lf_addlock [] lock [] ls True sp cnt [] =
      Some (pre @ lock'\<lparr>lf_blkhd := lf_blkhd lock' @ q\<rparr> # [] @ clear_ref lock' r, sp', cnt', wk0 @ wk)"
    "mset q + mset wk = mset (wake_ref lock' r)"
    "\<forall>w \<in> set q. \<exists>ov \<in> set r. takes lock' ov \<and> w \<in> set (lf_blkhd ov)"
    using addlock_linked [OF F(4), of lock' pre "[]" sp "lf_free (lf_uid ov) cnt" wk0] by auto
  have "takes lock ov \<or> dn" using F(9,10) by (auto simp: takes_def dn_def ov_case_def)
  then have q: "\<forall>w \<in> set (q0 @ q). \<exists>ov \<in> set ls. takes lock ov \<and> w \<in> set (lf_blkhd ov)"
    using A(3) F(2) by (auto simp: same q0_def split: if_splits)
  have "added lock ls (pre @ lock\<lparr>lf_blkhd := q0 @ q\<rparr> # clear_ref lock r) (wk0 @ wk)"
    using F(8,14) A(2) q clear1_cases [OF F(9,10,5,6)]
    by (intro addedI [OF refl]) (auto simp: F(11,12) same q0_def wk0_def)
  then show ?thesis using A(1) by (auto simp: same q0 lock')
qed

lemma addlock_left:
  assumes "first_overlap ls lock 4 pre ov r"
  shows "\<exists>ls' sp' cnt' wk. lf_addlock [] lock [] ls True sp cnt [] = Some (ls', sp', cnt', wk) \<and> added lock ls ls' wk"
proof -
  note F = first_overlapD [OF assms]
  let ?l = "ov\<lparr>lf_end := lf_start lock - 1, lf_blkhd := []\<rparr>"
  have "lf_addlock [] lock [] ls True sp cnt [] = lf_addlock (pre @ [?l]) lock [] r False sp cnt (lf_blkhd ov)"
    using F(1) by (simp add: lf_addlock.simps [of _ _ _ ls] lf_wakelock_def)
  then obtain q sp' cnt' wk where A:
    "lf_addlock [] lock [] ls True sp cnt [] = Some ((pre @ [?l]) @ lock\<lparr>lf_blkhd := q\<rparr> # clear_ref lock r, sp', cnt', lf_blkhd ov @ wk)"
    "mset q + mset wk = mset (wake_ref lock r)"
    "\<forall>w \<in> set q. \<exists>ov \<in> set r. takes lock ov \<and> w \<in> set (lf_blkhd ov)"
    using addlock_linked [OF F(4,6,13), of "pre @ [?l]" "[]" sp cnt "lf_blkhd ov"] F(7) by auto
  have q: "\<forall>w \<in> set q. \<exists>ov \<in> set ls. takes lock ov \<and> w \<in> set (lf_blkhd ov)" using A(3) F(2) by auto
  have "before ?l lock" using F(5,10) by (auto simp: ov_case_def before_def range_ok_def)
  then have "added lock ls ((pre @ [?l]) @ lock\<lparr>lf_blkhd := q\<rparr> # clear_ref lock r) (lf_blkhd ov @ wk)"
    using F(8,14) A(2) q clear1_cases [OF F(9,10,5,6)] by (intro addedI [OF refl]) (auto simp: F(11,12))
  then show ?thesis using A(1) by auto
qed

lemma addlock_right:
  assumes "first_overlap ls lock 5 pre ov r"
  shows "\<exists>ls' sp' cnt' wk. lf_addlock [] lock [] ls True sp cnt [] = Some (ls', sp', cnt', wk) \<and> added lock ls ls' wk"
proof -
  note F = first_overlapD [OF assms] and T = first_overlap_tail [OF assms]
  have "added lock ls (pre @ lock # ov\<lparr>lf_start := lf_end lock + 1, lf_blkhd := []\<rparr> # r) (lf_blkhd ov)"
    using F(7,8,10,14) T clear1_cases [OF F(9,10,5,6)]
    by (intro addedI [OF refl]) (auto simp: F(11,12) before_def ov_case_def)
  then show ?thesis using F(1) by (simp add: addlock_unfold)
qed

lemma addlock_apart:
  assumes "lf_findoverlap ls lock SELF = Some (0, pre, rest)" and "ls = pre @ rest" and "lf_ok ls" and "range_ok lock"
    and "lf_blkhd lock = []" and "\<forall>x \<in> set pre. lf_id x = lf_id lock \<longrightarrow> before x lock"
    and "rest = [] \<or> lf_id (hd rest) = lf_id lock \<and> before lock (hd rest)"
  shows "lf_addlock [] lock [] ls True sp cnt [] = Some (pre @ lock # rest, sp, cnt, []) \<and> added lock ls (pre @ lock # rest) []"
proof
  have ok: "lf_ok rest" using assms(2,3) by (simp add: lf_ok_append)
  have nil: "clear_ref lock rest = rest" "wake_ref lock rest = []" "clear_ref lock pre = pre" "wake_ref lock pre = []"
    using clear_ref_after [OF ok assms(4,7)] clear_ref_disjoint [of pre lock] assms(6) by auto
  have "\<forall>y \<in> set rest. lf_id y = lf_id lock \<longrightarrow> before lock y"
    using assms(7) ok by (cases rest) (auto simp: lf_ok_Cons intro: before_trans)
  then show "added lock ls (pre @ lock # rest) []"
    using assms(2,5,6) nil by (intro addedI [OF refl]) auto
  show "lf_addlock [] lock [] ls True sp cnt [] = Some (pre @ lock # rest, sp, cnt, [])"
    using assms(1) by (simp add: addlock_unfold)
qed

lemma addlock_spec:
  assumes "lf_ok ls" and "range_ok lock" and "lf_blkhd lock = []" and "sp \<noteq> None \<or> lf_end lock = -1"
  shows "\<exists>ls' sp' cnt' wk. lf_addlock [] lock [] ls True sp cnt [] = Some (ls', sp', cnt', wk) \<and>
    (added lock ls ls' wk \<or> merged lock ls ls' wk)"
proof -
  from assms(1) have "\<forall>l \<in> set ls. range_ok l" by (simp add: lf_ok_def)
  from findoverlap_self [OF this assms(2)] obtain c pre rest where fo:
    "lf_findoverlap ls lock SELF = Some (c, pre, rest)" "ls = pre @ rest"
    "\<forall>x \<in> set pre. lf_id x = lf_id lock \<longrightarrow> before x lock"
    "if c = 0 then rest = [] \<or> lf_id (hd rest) = lf_id lock \<and> before lock (hd rest)
     else \<exists>ov r. rest = ov # r \<and> lf_id ov = lf_id lock \<and> ov_case c ov lock" by blast
  show ?thesis
  proof (cases "c = 0")
    case True
    then show ?thesis using addlock_apart [of ls lock pre rest sp cnt] fo assms by auto
  next
    case False
    then obtain ov r where "first_overlap ls lock c pre ov r"
      using fo assms by (auto simp: first_overlap_def)
    moreover from this have "ov_case c ov lock" by (rule first_overlapD)
    then consider "c = 1" | "c = 2" "sp \<noteq> None" | "c = 3" | "c = 4" | "c = 5"
      using assms(4) by (auto simp: ov_case_def)
    ultimately show ?thesis
      using addlock_same_range addlock_inside addlock_around addlock_left addlock_right by cases metis+
  qed
qed

lemma lf_ok_added:
  assumes "lf_ok ls" and "range_ok lock" and "added lock ls ls' wk"
  shows "lf_ok ls'"
proof -
  obtain L x R where A: "ls' = L @ x # R" "L @ R = clear_ref lock ls" "lf_id x = lf_id lock"
    "lf_start x = lf_start lock" "lf_end x = lf_end lock"
    "\<forall>y \<in> set L. lf_id y = lf_id lock \<longrightarrow> before y lock" "\<forall>y \<in> set R. lf_id y = lf_id lock \<longrightarrow> before lock y"
    using assms(3) unfolding added_def by blast
  have "lf_ok (L @ R)" using lf_ok_clear_ref [OF assms(1,2)] A(2) by simp
  moreover have "range_ok x" "\<forall>y \<in> set L. lf_id y = lf_id x \<longrightarrow> before y x" "\<forall>y \<in> set R. lf_id x = lf_id y \<longrightarrow> before x y"
    using assms(2) A(3-7) by (auto simp: range_ok_def before_def)
  ultimately show ?thesis by (auto simp: A(1) lf_ok_append lf_ok_Cons)
qed

text \<open>The locked bytes after a request of \<open>lock\<close> was granted.\<close>

definition set_bytes :: "'a lockf_scheme \<Rightarrow> (nat \<times> int \<times> lftype) set \<Rightarrow> (nat \<times> int \<times> lftype) set" where
  "set_bytes lock S = {(i, b, t) \<in> S. \<not> (i = lf_id lock \<and> covers lock b)}
     \<union> {(i, b, t). i = lf_id lock \<and> t = lf_type lock \<and> covers lock b}"

lemma locked_Un: "locked (xs @ ys) = locked xs \<union> locked ys"
  by (auto simp: locked_def)

lemma locked_added:
  assumes "lf_ok ls" and "range_ok lock" and "added lock ls ls' wk"
  shows "locked ls' = set_bytes lock (locked ls)"
proof -
  obtain L x R where A: "ls' = L @ x # R" "L @ R = clear_ref lock ls" "lf_id x = lf_id lock" "lf_type x = lf_type lock"
    "lf_start x = lf_start lock" "lf_end x = lf_end lock"
    using assms(3) unfolding added_def by blast
  have "locked ls' = locked (L @ R) \<union> {(i, b, t). i = lf_id lock \<and> t = lf_type lock \<and> covers lock b}"
    using A(3-6) by (auto simp: A(1) locked_def covers_def)
  moreover have "locked (L @ R) = {(i, b, t) \<in> locked ls. \<not> (i = lf_id lock \<and> covers lock b)}"
    using assms(1,2) by (simp add: A(2) locked_clear_ref lf_ok_def)
  ultimately show ?thesis by (simp add: set_bytes_def)
qed

text \<open>A byte of an owner is locked in one way only.\<close>

lemma locked_functional:
  assumes "lf_ok ls" and "(i, b, t) \<in> locked ls" and "(i, b, u) \<in> locked ls"
  shows "t = u"
proof -
  obtain k l where "k \<in> set ls" "l \<in> set ls" "lf_id k = i" "lf_id l = i" and ty: "lf_type k = t" "lf_type l = u"
    and c: "covers k b" "covers l b"
    using assms(2,3) by (auto simp: locked_def)
  then have "k = l \<or> before k l \<or> before l k"
    using assms(1) by (auto simp: lf_ok_def sorted_wrt_iff_nth_less in_set_conv_nth) (metis linorder_neqE_nat)
  then show ?thesis using c ty by (auto simp: range_defs)
qed

lemma locked_merged:
  assumes "lf_ok ls" and "range_ok lock" and "merged lock ls ls' wk"
  shows "locked ls' = set_bytes lock (locked ls)"
proof -
  obtain ov where ov: "ov \<in> set ls" "lf_id ov = lf_id lock" "lf_type ov = lf_type lock" "within lock ov" and ls': "ls' = ls"
    using assms(3) by (auto simp: merged_def)
  have in_ov: "(lf_id lock, b, lf_type lock) \<in> locked ls" if "covers lock b" for b
    using ov that by (auto simp: locked_def range_defs)
  show ?thesis
    using in_ov locked_functional [OF assms(1)] by (auto simp: ls' set_bytes_def)
qed

text \<open>No request is lost or queued twice.\<close>

abbreviation queues :: "held list \<Rightarrow> waiter multiset" where
  "queues ls \<equiv> mset (concat (map lf_blkhd ls))"

lemma queues_clear_ref: "queues (clear_ref u ls) + mset (wake_ref u ls) = queues ls"
proof (induction ls)
  case (Cons l ls)
  have "queues (clear1 u l) + mset (wake1 u l) = mset (lf_blkhd l)" by (simp add: clear1_def wake1_def)
  with Cons.IH show ?case by (simp add: ac_simps)
qed simp

lemma queues_added: "added lock ls ls' wk \<Longrightarrow> queues ls' + mset wk = queues ls"
proof -
  assume "added lock ls ls' wk"
  then obtain L x R where "ls' = L @ x # R" "L @ R = clear_ref lock ls" "mset (lf_blkhd x) + mset wk = mset (wake_ref lock ls)"
    unfolding added_def by blast
  moreover from this(2) have "queues ls = (queues L + queues R) + mset (wake_ref lock ls)"
    using queues_clear_ref [of lock ls] by (metis concat_append map_append mset_append)
  ultimately show ?thesis by (simp add: ac_simps)
qed

lemma queues_merged: "merged lock ls ls' wk \<Longrightarrow> queues ls' + mset wk = queues ls"
  by (simp add: merged_def)

section \<open>Blocking locks\<close>

definition blocks :: "'a lockf_scheme \<Rightarrow> 'b lockf_scheme \<Rightarrow> bool" where
  "blocks l lock \<longleftrightarrow> lf_id l \<noteq> lf_id lock \<and> overlaps l lock \<and> (lf_type lock = F_WRLCK \<or> lf_type l = F_WRLCK)"

lemma findoverlap_others:
  assumes "\<forall>l \<in> set ls. range_ok l" and "range_ok lock"
  shows "\<exists>c pre rest. lf_findoverlap ls lock OTHERS = Some (c, pre, rest) \<and> ls = pre @ rest \<and>
    (\<forall>x \<in> set pre. lf_id x \<noteq> lf_id lock \<longrightarrow> \<not> overlaps x lock) \<and>
    (if c = 0 then rest = [] else \<exists>ov r. rest = ov # r \<and> lf_id ov \<noteq> lf_id lock \<and> overlaps ov lock)"
  using assms(1)
proof (induction ls)
  case (Cons l ls)
  then obtain c pre rest where IH: "lf_findoverlap ls lock OTHERS = Some (c, pre, rest)" "ls = pre @ rest"
    "\<forall>x \<in> set pre. lf_id x \<noteq> lf_id lock \<longrightarrow> \<not> overlaps x lock"
    "if c = 0 then rest = [] else \<exists>ov r. rest = ov # r \<and> lf_id ov \<noteq> lf_id lock \<and> overlaps ov lock" by auto
  have l: "range_ok l" using Cons.prems by simp
  show ?case
  proof (cases "lf_id l = lf_id lock \<or> \<not> overlaps l lock")
    case True
    then have "lf_findoverlap (l # ls) lock OTHERS = Some (c, l # pre, rest)"
      using IH(1) by (auto simp: overlaps_def before_def Let_def)
    then show ?thesis using True IH(2-4) by auto
  next
    case False
    then have "\<exists>c. c \<noteq> 0 \<and> lf_findoverlap (l # ls) lock OTHERS = Some (c, [], l # ls)"
      using l assms(2) by (simp add: Let_def range_defs) linarith?
    then show ?thesis using False by force
  qed
qed simp

lemma getblock_spec:
  assumes "\<forall>l \<in> set ls. range_ok l" and "range_ok lock"
  shows "\<exists>r. lf_getblock ls lock = Some r \<and>
    (case r of None \<Rightarrow> \<forall>l \<in> set ls. \<not> blocks l lock
     | Some n \<Rightarrow> n < length ls \<and> blocks (ls ! n) lock \<and> (\<forall>m < n. \<not> blocks (ls ! m) lock))"
  using assms(1)
proof (induction ls rule: length_induct)
  case (1 ls)
  from findoverlap_others [OF "1.prems" assms(2)] obtain c pre rest where fo:
    "lf_findoverlap ls lock OTHERS = Some (c, pre, rest)" "ls = pre @ rest"
    "\<forall>x \<in> set pre. lf_id x \<noteq> lf_id lock \<longrightarrow> \<not> overlaps x lock"
    "if c = 0 then rest = [] else \<exists>ov r. rest = ov # r \<and> lf_id ov \<noteq> lf_id lock \<and> overlaps ov lock" by blast
  have pre: "\<forall>x \<in> set pre. \<not> blocks x lock" using fo(3) by (auto simp: blocks_def)
  note unf = lf_getblock.simps [of ls] fo(1)
  show ?case
  proof (cases "c = 0")
    case True
    then have "lf_getblock ls lock = Some None" using fo(4) by (simp add: unf)
    then show ?thesis using True fo(2,4) pre by simp
  next
    case False
    then obtain ov r where rest: "rest = ov # r" "lf_id ov \<noteq> lf_id lock" "overlaps ov lock" using fo(4) by auto
    show ?thesis
    proof (cases "lf_type lock = F_WRLCK \<or> lf_type ov = F_WRLCK")
      case True
      then have "lf_getblock ls lock = Some (Some (length pre))" using False rest(1) by (auto simp: unf)
      moreover have "blocks ov lock" using True rest by (simp add: blocks_def)
      ultimately show ?thesis using pre fo(2) rest(1) by (simp add: nth_append)
    next
      case nb: False
      have "length r < length ls" "\<forall>l \<in> set r. range_ok l" using "1.prems" fo(2) rest(1) by auto
      then obtain x where x: "lf_getblock r lock = Some x"
        "case x of None \<Rightarrow> \<forall>l \<in> set r. \<not> blocks l lock
         | Some n \<Rightarrow> n < length r \<and> blocks (r ! n) lock \<and> (\<forall>m < n. \<not> blocks (r ! m) lock)"
        using "1.IH" by blast
      have ov: "\<not> blocks ov lock" using nb by (simp add: blocks_def)
      have eq: "lf_getblock ls lock = Some (map_option (\<lambda>n. length pre + 1 + n) x)"
        using False nb rest(1) x(1) by (cases x) (simp_all add: unf)
      show ?thesis
      proof (cases x)
        case None
        then show ?thesis using eq x(2) ov pre fo(2) rest(1) by auto
      next
        case (Some n)
        have "\<not> blocks (ls ! m) lock" if "m < length pre + 1 + n" for m
        proof -
          have "m < length pre \<or> m = length pre \<or> m = length pre + 1 + (m - length pre - 1) \<and> m - length pre - 1 < n"
            using that by linarith
          then consider "m < length pre" | "m = length pre" | k where "m = length pre + 1 + k" "k < n" by blast
          then show ?thesis using pre ov x(2) Some fo(2) rest(1) by cases (auto simp: nth_append)
        qed
        then show ?thesis using eq x(2) Some fo(2) rest(1) by (simp add: nth_append)
      qed
    qed
  qed
qed

section \<open>Properties of one list\<close>

lemma as_held_simps [simp]:
  "lf_blkhd (as_held l) = []" "lf_id (as_held l) = lf_id l" "lf_type (as_held l) = lf_type l"
  "lf_start (as_held l) = lf_start l" "lf_end (as_held l) = lf_end l" "lf_uid (as_held l) = lf_uid l"
  "F_POSIX (as_held l) = F_POSIX l" "F_FLOCK (as_held l) = F_FLOCK l" "F_WAIT (as_held l) = F_WAIT l"
  by (simp_all add: as_held_def lockf.defs)

lemma range_ok_as_held [simp]: "range_ok (as_held l) = range_ok l"
  by (simp add: range_ok_def)

definition demo_lock :: "nat \<Rightarrow> lftype \<Rightarrow> int \<Rightarrow> int \<Rightarrow> held" where
  "demo_lock i t s e = as_held \<lparr>F_POSIX = True, F_FLOCK = False, F_WAIT = True, lf_type = t,
     lf_start = s, lf_end = e, lf_id = i, lf_uid = 7\<rparr>"

lemmas demo_simps = demo_lock_def lf_ok_def range_ok_def before_def overlaps_def

text \<open>C13: On a list in order, \<open>lf_clearlock\<close> ends without a panic or a null spare lock; it leaves the list in
  order, and the owner of the request has lost exactly the bytes in the range, with every other
  byte and every other owner untouched.  It wakes exactly the requests queued on the owner's
  locks that overlap the range.\<close>

theorem lf_clearlock_correct:
  assumes "lf_ok ls" and "range_ok unlock" and "sparelock \<noteq> None \<or> lf_end unlock = -1"
  shows "\<exists>ls' sparelock' cnt' woken. lf_clearlock ls unlock sparelock cnt = Some (ls', sparelock', cnt', woken) \<and>
    lf_ok ls' \<and> locked ls' = {(i, b, t) \<in> locked ls. \<not> (i = lf_id unlock \<and> covers unlock b)} \<and>
    set woken = {w. \<exists>l \<in> set ls. lf_id l = lf_id unlock \<and> overlaps l unlock \<and> w \<in> set (lf_blkhd l)}"
proof -
  have "set (wake_ref unlock ls) = {w. \<exists>l \<in> set ls. lf_id l = lf_id unlock \<and> overlaps l unlock \<and> w \<in> set (lf_blkhd l)}"
    by (auto simp: wake_ref_def wake1_def split: if_splits)
  moreover have "locked (clear_ref unlock ls) = {(i, b, t) \<in> locked ls. \<not> (i = lf_id unlock \<and> covers unlock b)}"
    using assms(1) by (intro locked_clear_ref [OF _ assms(2)]) (simp add: lf_ok_def)
  moreover obtain sp' cnt' where "lf_clearlock ls unlock sparelock cnt = Some (clear_ref unlock ls, sp', cnt', wake_ref unlock ls)"
    using clearlock_ref [OF assms] by blast
  ultimately show ?thesis using lf_ok_clear_ref [OF assms(1,2)] by blast
qed

theorem lf_clearlock_correct_witness:
  "\<exists>ls' sparelock' cnt' woken.
     lf_clearlock [demo_lock 1 F_WRLCK 0 9, demo_lock 2 F_RDLCK 20 (-1)] (demo_lock 1 F_UNLCK 3 5) (Some 7) (\<lambda>_. 3)
       = Some (ls', sparelock', cnt', woken) \<and> lf_ok ls' \<and>
     (1, 2, F_WRLCK) \<in> locked ls' \<and> (1, 4, F_WRLCK) \<notin> locked ls' \<and> (2, 21, F_RDLCK) \<in> locked ls'"
proof -
  let ?ls = "[demo_lock 1 F_WRLCK 0 9, demo_lock 2 F_RDLCK 20 (-1)]"
  let ?u = "demo_lock 1 F_UNLCK 3 5"
  have "lf_ok ?ls" "range_ok ?u" "(1, 2, F_WRLCK) \<in> locked ?ls" "(2, 21, F_RDLCK) \<in> locked ?ls"
    "\<not> covers ?u 2" "covers ?u 4" "lf_id ?u = 1"
    by (simp_all add: demo_simps locked_def covers_def)
  moreover from this(1,2) obtain ls' sparelock' cnt' woken where
    "lf_clearlock ?ls ?u (Some 7) (\<lambda>_. 3) = Some (ls', sparelock', cnt', woken)" "lf_ok ls'"
    "locked ls' = {(i, b, t) \<in> locked ?ls. \<not> (i = lf_id ?u \<and> covers ?u b)}"
    using lf_clearlock_correct [of ?ls ?u "Some 7" "\<lambda>_. 3"] by blast
  ultimately show ?thesis by auto
qed

text \<open>C12: On a list in order, adding a lock ends without a panic, without a null spare lock and without
  linking or freeing a lock twice; it leaves the list in order.  Afterwards the owner holds every
  byte of the range in the new mode and nothing else has changed.  Requests queued on the owner's
  overlapping locks are woken or queued on the new lock, none is lost or queued twice, unless
  the range was already held in that mode.\<close>

theorem lf_addlock_correct:
  assumes "lf_ok ls" and "range_ok lock" and "lf_blkhd lock = []" and "sparelock \<noteq> None \<or> lf_end lock = -1"
  shows "\<exists>ls' sparelock' cnt' woken. lf_addlock [] lock [] ls True sparelock cnt [] = Some (ls', sparelock', cnt', woken) \<and>
    lf_ok ls' \<and> locked ls' = set_bytes lock (locked ls) \<and>
    mset (concat (map lf_blkhd ls')) + mset woken = mset (concat (map lf_blkhd ls))"
proof -
  obtain ls' sp' cnt' wk where A: "lf_addlock [] lock [] ls True sparelock cnt [] = Some (ls', sp', cnt', wk)"
    "added lock ls ls' wk \<or> merged lock ls ls' wk"
    using addlock_spec [OF assms] by blast
  have "lf_ok ls' \<and> locked ls' = set_bytes lock (locked ls)"
    using A(2) lf_ok_added [OF assms(1,2)] locked_added [OF assms(1,2)] locked_merged [OF assms(1,2)] assms(1)
    by (auto simp: merged_def)
  moreover have "mset (concat (map lf_blkhd ls')) + mset wk = mset (concat (map lf_blkhd ls))"
    using A(2) queues_added queues_merged by blast
  ultimately show ?thesis using A(1) by blast
qed

theorem lf_addlock_correct_witness:
  "\<exists>ls' sparelock' cnt' woken.
     lf_addlock [] (demo_lock 1 F_RDLCK 3 5) [] [demo_lock 1 F_WRLCK 0 9, demo_lock 2 F_RDLCK 20 (-1)] True (Some 7) (\<lambda>_. 3) []
       = Some (ls', sparelock', cnt', woken) \<and> lf_ok ls' \<and>
     (1, 2, F_WRLCK) \<in> locked ls' \<and> (1, 4, F_RDLCK) \<in> locked ls' \<and> (1, 4, F_WRLCK) \<notin> locked ls'"
proof -
  let ?ls = "[demo_lock 1 F_WRLCK 0 9, demo_lock 2 F_RDLCK 20 (-1)]"
  let ?l = "demo_lock 1 F_RDLCK 3 5"
  have "lf_ok ?ls" "range_ok ?l" "lf_blkhd ?l = []" "(1, 2, F_WRLCK) \<in> set_bytes ?l (locked ?ls)"
    "(1, 4, F_RDLCK) \<in> set_bytes ?l (locked ?ls)" "(1, 4, F_WRLCK) \<notin> set_bytes ?l (locked ?ls)"
    by (simp_all add: demo_simps locked_def covers_def set_bytes_def)
  moreover from this(1-3) obtain ls' sparelock' cnt' woken where
    "lf_addlock [] ?l [] ?ls True (Some 7) (\<lambda>_. 3) [] = Some (ls', sparelock', cnt', woken)" "lf_ok ls'"
    "locked ls' = set_bytes ?l (locked ?ls)"
    using lf_addlock_correct [of ?ls ?l "Some 7" "\<lambda>_. 3"] by blast
  ultimately show ?thesis by auto
qed

text \<open>\<open>lf_getblock\<close> ends without a panic and finds the first lock of another owner that shares a byte with
  the request and is exclusive or stands against an exclusive request; it finds none exactly when
  there is none.\<close>

theorem lf_getblock_correct:
  assumes "lf_ok ls" and "range_ok lock"
  shows "\<exists>r. lf_getblock ls lock = Some r \<and>
    (r = None \<longleftrightarrow> (\<forall>l \<in> set ls. \<not> blocks l lock)) \<and>
    (\<forall>n. r = Some n \<longrightarrow> n < length ls \<and> blocks (ls ! n) lock \<and> (\<exists>b. covers (ls ! n) b \<and> covers lock b) \<and>
        (\<forall>m < n. \<not> blocks (ls ! m) lock))"
proof -
  have ok: "\<forall>l \<in> set ls. range_ok l" using assms(1) by (simp add: lf_ok_def)
  obtain r where r: "lf_getblock ls lock = Some r"
    "case r of None \<Rightarrow> \<forall>l \<in> set ls. \<not> blocks l lock
     | Some n \<Rightarrow> n < length ls \<and> blocks (ls ! n) lock \<and> (\<forall>m < n. \<not> blocks (ls ! m) lock)"
    using getblock_spec [OF ok assms(2)] by blast
  show ?thesis
  proof (cases r)
    case None
    then show ?thesis using r by auto
  next
    case (Some n)
    then have "n < length ls" "blocks (ls ! n) lock" using r(2) by auto
    then have "\<exists>b. covers (ls ! n) b \<and> covers lock b"
      using overlaps_iff_common [OF _ assms(2), of "ls ! n"] ok by (auto simp: blocks_def)
    then show ?thesis using r Some by auto
  qed
qed

theorem lf_getblock_correct_witness:
  "\<exists>r. lf_getblock [demo_lock 1 F_RDLCK 0 9, demo_lock 2 F_WRLCK 5 5] (demo_lock 3 F_RDLCK 4 (-1)) = Some r \<and> r \<noteq> None"
proof -
  let ?ls = "[demo_lock 1 F_RDLCK 0 9, demo_lock 2 F_WRLCK 5 5]"
  let ?l = "demo_lock 3 F_RDLCK 4 (-1)"
  have "lf_ok ?ls" "range_ok ?l" "\<not> (\<forall>l \<in> set ?ls. \<not> blocks l ?l)"
    by (simp_all add: demo_simps blocks_def)
  then show ?thesis using lf_getblock_correct [of ?ls ?l] by blast
qed

end
