(* ===== verification/Lockf_World.thy ===== *)
theory Lockf_World
  imports Lockf_Correct
begin

text \<open>
  Byte-range locks of many processes on many vnodes, over every sequence of calls, wake-ups and
  signals.  The invariant: every list is in order, no two owners hold conflicting locks, every
  sleeping request is queued on a lock that blocks it, a process with a single thread waits for
  at most one lock, and the processes with a single thread that wait for POSIX locks do not wait
  for each other in a circle.
\<close>

section \<open>The invariant of one list\<close>

definition waiter_ok :: "(nat \<Rightarrow> bool) \<Rightarrow> waiter \<Rightarrow> bool" where
  "waiter_ok isproc w \<longleftrightarrow> (let l = w_lock w in
     range_ok l \<and> lf_type l \<noteq> F_UNLCK \<and> F_POSIX l = isproc (lf_id l) \<and> F_FLOCK l = (\<not> F_POSIX l) \<and>
     (F_POSIX l \<longrightarrow> w_proc w = lf_id l \<and> w_spare w \<noteq> None) \<and> (F_FLOCK l \<longrightarrow> lf_end l = -1))"

definition list_inv :: "(nat \<Rightarrow> bool) \<Rightarrow> held list \<Rightarrow> bool" where
  "list_inv isproc ls \<longleftrightarrow> lf_ok ls \<and>
     (\<forall>l \<in> set ls. F_POSIX l = isproc (lf_id l) \<and> lf_type l \<noteq> F_UNLCK) \<and>
     (\<forall>a \<in> set ls. \<forall>b \<in> set ls. \<not> blocks a b) \<and>
     (\<forall>l \<in> set ls. \<forall>w \<in> set (lf_blkhd l). blocks l (w_lock w) \<and> waiter_ok isproc w)"

text \<open>A change of a list that keeps the invariant and moves requests only between locks of one
  owner, or wakes them.\<close>

definition evolves :: "(nat \<Rightarrow> bool) \<Rightarrow> held list \<Rightarrow> held list \<Rightarrow> waiter list \<Rightarrow> bool" where
  "evolves isproc ls ls' wk \<longleftrightarrow> list_inv isproc ls' \<and> queues ls' + mset wk = queues ls \<and>
     (\<forall>l' \<in> set ls'. \<forall>w \<in> set (lf_blkhd l'). \<exists>l \<in> set ls. w \<in> set (lf_blkhd l) \<and> lf_id l = lf_id l' \<and> F_POSIX l = F_POSIX l')"

lemma overlaps_sym: "overlaps a b \<longleftrightarrow> overlaps b a"
  by (auto simp: overlaps_def)

lemma blocks_sym: "blocks a b \<longleftrightarrow> blocks b a"
  unfolding blocks_def overlaps_def by metis

lemma overlaps_within: "within x l \<Longrightarrow> overlaps x m \<Longrightarrow> overlaps l m"
  by (auto simp: overlaps_def before_def within_def)

lemma blocks_piece:
  assumes "within x l" and "lf_id x = lf_id l" and "lf_type x = lf_type l" and "blocks x m"
  shows "blocks l m"
  using assms overlaps_within by (auto simp: blocks_def)

lemma evolves_refl: "list_inv isproc ls \<Longrightarrow> evolves isproc ls ls []"
  by (auto simp: evolves_def)

lemma evolves_clear_ref:
  assumes "list_inv isproc ls" and "range_ok u"
  shows "evolves isproc ls (clear_ref u ls) (wake_ref u ls)"
proof -
  have ok: "lf_ok ls" using assms(1) by (simp add: list_inv_def)
  have piece: "\<exists>l \<in> set ls. within x l \<and> lf_id x = lf_id l \<and> lf_type x = lf_type l \<and> F_POSIX x = F_POSIX l \<and> (x = l \<or> lf_blkhd x = [])"
    if x: "x \<in> set (clear_ref u ls)" for x
  proof -
    obtain l where l: "l \<in> set ls" "x \<in> set (clear1 u l)" using x by (auto simp: set_clear_ref)
    then have "range_ok l" using ok by (simp add: lf_ok_def)
    then show ?thesis using clear1_piece [OF l(2) _ assms(2)] l(1) by blast
  qed
  have "\<not> blocks a b" if ab: "a \<in> set (clear_ref u ls)" "b \<in> set (clear_ref u ls)" for a b
  proof
    assume "blocks a b"
    obtain k l where "k \<in> set ls" "within a k" "lf_id a = lf_id k" "lf_type a = lf_type k"
      "l \<in> set ls" "within b l" "lf_id b = lf_id l" "lf_type b = lf_type l"
      using piece [OF ab(1)] piece [OF ab(2)] by blast
    then have "blocks k l" using \<open>blocks a b\<close> blocks_piece blocks_sym by metis
    then show False using assms(1) \<open>k \<in> set ls\<close> \<open>l \<in> set ls\<close> by (simp add: list_inv_def)
  qed
  moreover have old: "x \<in> set ls" if "x \<in> set (clear_ref u ls)" "w \<in> set (lf_blkhd x)" for x w
    using piece [OF that(1)] that(2) by auto
  moreover have "F_POSIX x = isproc (lf_id x) \<and> lf_type x \<noteq> F_UNLCK" if "x \<in> set (clear_ref u ls)" for x
    using piece [OF that] assms(1) unfolding list_inv_def by metis
  ultimately have "list_inv isproc (clear_ref u ls)"
    using lf_ok_clear_ref [OF ok assms(2)] assms(1) unfolding list_inv_def by blast
  then show ?thesis using queues_clear_ref [of u ls] old unfolding evolves_def by blast
qed

lemma evolves_added:
  assumes inv: "list_inv isproc ls" and r: "range_ok lock" and ty: "lf_type lock \<noteq> F_UNLCK"
    and posix: "F_POSIX lock = isproc (lf_id lock)" and free: "\<forall>l \<in> set ls. \<not> blocks l lock" and a: "added lock ls ls' wk"
  shows "evolves isproc ls ls' wk"
proof -
  obtain L x R where A: "ls' = L @ x # R" "L @ R = clear_ref lock ls" "lf_id x = lf_id lock" "lf_type x = lf_type lock"
    "lf_start x = lf_start lock" "lf_end x = lf_end lock"
    "F_POSIX x = F_POSIX lock \<or> (\<exists>ov \<in> set ls. lf_id ov = lf_id lock \<and> F_POSIX x = F_POSIX ov)"
    "\<forall>w \<in> set (lf_blkhd x). \<exists>ov \<in> set ls. takes lock ov \<and> w \<in> set (lf_blkhd ov)"
    using a unfolding added_def by blast
  have ok: "lf_ok ls" using inv by (simp add: list_inv_def)
  have ev: "evolves isproc ls (L @ R) (wake_ref lock ls)" using evolves_clear_ref [OF inv r] A(2) by simp
  have bx: "blocks x m = blocks lock m" "blocks m x = blocks m lock" for m :: "'b lockf_scheme"
    using A(3-6) by (simp_all add: blocks_def overlaps_def before_def)
  have px: "F_POSIX x = isproc (lf_id x)" using A(3,7) posix inv by (auto simp: list_inv_def)
  have nb: "\<not> blocks y lock" if y: "y \<in> set (L @ R)" for y
  proof -
    obtain l where l: "l \<in> set ls" "y \<in> set (clear1 lock l)" using y [unfolded A(2)] by (auto simp: set_clear_ref)
    then have "range_ok l" using ok by (simp add: lf_ok_def)
    then show ?thesis using clear1_piece [OF l(2) _ r] free l(1) blocks_piece by metis
  qed
  have qx: "blocks x (w_lock w) \<and> waiter_ok isproc w \<and>
      (\<exists>l \<in> set ls. w \<in> set (lf_blkhd l) \<and> lf_id l = lf_id x \<and> F_POSIX l = F_POSIX x)"
    if w: "w \<in> set (lf_blkhd x)" for w
  proof -
    obtain ov where ov: "ov \<in> set ls" "takes lock ov" "w \<in> set (lf_blkhd ov)" using A(8) w by blast
    then have *: "blocks ov (w_lock w)" "waiter_ok isproc w" "lf_type ov \<noteq> F_UNLCK" "F_POSIX ov = isproc (lf_id ov)"
      using inv by (auto simp: list_inv_def)
    have "lf_id ov = lf_id lock" "within ov lock" "\<not> (lf_type lock = F_RDLCK \<and> lf_type ov = F_WRLCK)"
      using ov(2) by (auto simp: takes_def)
    then have "blocks lock (w_lock w)"
      using *(1) overlaps_within [of ov lock "w_lock w"] ty by (cases "lf_type lock") (auto simp: blocks_def)
    then show ?thesis using ov *(2,4) A(3) px by (auto simp: bx takes_def)
  qed
  have "\<not> blocks lock lock" by (simp add: blocks_def)
  then have "list_inv isproc ls'"
    using ev nb qx px ty A(4) lf_ok_added [OF ok r a] blocks_sym [of lock]
    by (auto simp: A(1) list_inv_def evolves_def bx)
  then show ?thesis using ev qx queues_added [OF a] by (auto simp: evolves_def A(1))
qed

lemma evolves_merged: "list_inv isproc ls \<Longrightarrow> merged lock ls ls' wk \<Longrightarrow> evolves isproc ls ls' wk"
  by (auto simp: merged_def intro: evolves_refl)

text \<open>A request that goes to sleep.\<close>

lemma list_inv_enqueue:
  assumes "list_inv isproc ls" and "n < length ls" and "blocks (ls ! n) (w_lock w)" and "waiter_ok isproc w"
  shows "list_inv isproc (ls[n := (ls ! n)\<lparr>lf_blkhd := lf_blkhd (ls ! n) @ [w]\<rparr>])"
proof -
  let ?x = "(ls ! n)\<lparr>lf_blkhd := lf_blkhd (ls ! n) @ [w]\<rparr>"
  have same: "blocks ?x m = blocks (ls ! n) m" "blocks m ?x = blocks m (ls ! n)" for m :: "'b lockf_scheme"
    by (simp_all add: blocks_def overlaps_def before_def)
  have in_ls: "ls ! n \<in> set ls" using assms(2) by simp
  have "lf_ok (ls[n := ?x])"
  proof -
    have "lf_ok ls" using assms(1) by (simp add: list_inv_def)
    then have "lf_ok (take n ls @ ls ! n # drop (Suc n) ls)" using assms(2) by (simp add: id_take_nth_drop [symmetric])
    then show ?thesis using assms(2) by (simp add: upd_conv_take_nth_drop lf_ok_append lf_ok_Cons range_ok_def before_def)
  qed
  moreover have el: "y = ?x \<or> y \<in> set ls" if "y \<in> set (ls[n := ?x])" for y
    using set_update_subset_insert that by fast
  moreover have "blocks y (w_lock v) \<and> waiter_ok isproc v" if "y \<in> set (ls[n := ?x])" "v \<in> set (lf_blkhd y)" for y v
    using el [OF that(1)]
  proof
    assume y: "y = ?x"
    then have "v = w \<or> v \<in> set (lf_blkhd (ls ! n))" using that(2) by auto
    then show ?thesis using assms in_ls y by (auto simp: list_inv_def same)
  qed (use that(2) assms(1) in \<open>auto simp: list_inv_def\<close>)
  moreover have "\<not> blocks y z" if "y \<in> set (ls[n := ?x])" "z \<in> set (ls[n := ?x])" for y z
    using el [OF that(1)] el [OF that(2)] assms(1) in_ls by (auto simp: list_inv_def same)
  moreover have "F_POSIX y = isproc (lf_id y) \<and> lf_type y \<noteq> F_UNLCK" if "y \<in> set (ls[n := ?x])" for y
    using el [OF that] assms(1) in_ls by (auto simp: list_inv_def)
  ultimately show ?thesis unfolding list_inv_def by blast
qed

section \<open>One pass of a request\<close>

text \<open>Clearing one's own locks leaves the locks of others, so the first blocking lock stays the
  same.\<close>

lemma filter_blocks_clear_ref:
  assumes "lf_id u = lf_id lock"
  shows "filter (\<lambda>l. blocks l lock) (clear_ref u ls) = filter (\<lambda>l. blocks l lock) ls"
proof (induction ls)
  case (Cons l ls)
  then show ?case using assms by (cases "lf_id l = lf_id u") (auto simp: clear1_def blocks_def)
qed simp

lemma first_filter:
  assumes "n < length xs" and "P (xs ! n)" and "\<forall>m < n. \<not> P (xs ! m)"
  shows "hd (filter P xs) = xs ! n"
proof -
  have "filter P (take n xs) = []" using assms(1,3) by (auto simp: filter_empty_conv in_set_conv_nth)
  then show ?thesis using assms(1,2)
    by (subst id_take_nth_drop [OF assms(1)]) simp
qed

lemma getblock_after_clear:
  assumes "lf_ok ls" and "range_ok u" and "range_ok lock" and "lf_id u = lf_id lock" and "lf_getblock ls lock = Some (Some n)"
  shows "\<exists>m. lf_getblock (clear_ref u ls) lock = Some (Some m) \<and> m < length (clear_ref u ls) \<and> clear_ref u ls ! m = ls ! n"
proof -
  have r: "\<forall>l \<in> set ls. range_ok l" "\<forall>l \<in> set (clear_ref u ls). range_ok l"
    using assms(1) lf_ok_clear_ref [OF assms(1,2)] by (simp_all add: lf_ok_def)
  have n: "n < length ls" "blocks (ls ! n) lock" "\<forall>m < n. \<not> blocks (ls ! m) lock"
    using getblock_spec [OF r(1) assms(3)] assms(5) by auto
  then have "filter (\<lambda>l. blocks l lock) ls \<noteq> []" by (auto simp: filter_empty_conv)
  then have ne: "\<exists>l \<in> set (clear_ref u ls). blocks l lock"
    using filter_blocks_clear_ref [OF assms(4)] by (metis filter_empty_conv)
  obtain x where x: "lf_getblock (clear_ref u ls) lock = Some x"
    "case x of None \<Rightarrow> \<forall>l \<in> set (clear_ref u ls). \<not> blocks l lock
     | Some m \<Rightarrow> m < length (clear_ref u ls) \<and> blocks (clear_ref u ls ! m) lock \<and> (\<forall>k < m. \<not> blocks (clear_ref u ls ! k) lock)"
    using getblock_spec [OF r(2) assms(3)] by blast
  then obtain m where m: "x = Some m" "m < length (clear_ref u ls)" "blocks (clear_ref u ls ! m) lock"
      "\<forall>k < m. \<not> blocks (clear_ref u ls ! k) lock"
    using ne by (cases x) auto
  have "clear_ref u ls ! m = ls ! n"
    using first_filter [of n ls "\<lambda>l. blocks l lock", OF n] first_filter [of m _ "\<lambda>l. blocks l lock", OF m(2-4)]
      filter_blocks_clear_ref [OF assms(4)] by metis
  then show ?thesis using x(1) m(1,2) by blast
qed

definition enqueue :: "held list \<Rightarrow> nat \<Rightarrow> waiter \<Rightarrow> held list" where
  "enqueue ls n w = ls[n := (ls ! n)\<lparr>lf_blkhd := lf_blkhd (ls ! n) @ [w]\<rparr>]"

text \<open>The four ways a pass can end.\<close>

lemma setlock_cases:
  assumes inv: "list_inv isproc (files ! f)" and w: "waiter_ok isproc w"
  shows "(\<exists>e cnt'. lf_setlock multi files f w cnt = Some (LfErr e, files, w_spare w, cnt', [])) \<or>
    (\<exists>ls' sp cnt' wk. lf_setlock multi files f w cnt = Some (LfOk, files[f := ls'], sp, cnt', wk) \<and>
       evolves isproc (files ! f) ls' wk \<and> locked ls' = set_bytes (w_lock w) (locked (files ! f))) \<or>
    (\<exists>ls' n cnt' wk. lf_setlock multi files f w cnt = Some (LfSleep, files[f := enqueue ls' n w], w_spare w, cnt', wk) \<and>
       evolves isproc (files ! f) ls' wk \<and> n < length ls' \<and> blocks (ls' ! n) (w_lock w) \<and>
       (F_POSIX (w_lock w) \<and> F_POSIX (ls' ! n) \<longrightarrow> \<not> lf_deadlock multi files MAXDEPTH (w_proc w) 0 (lf_id (ls' ! n))))"
proof -
  define lock where "lock = as_held (w_lock w)"
  have ok: "lf_ok (files ! f)" using inv by (simp add: list_inv_def)
  have r: "range_ok lock" "\<forall>l \<in> set (files ! f). range_ok l" using w ok by (auto simp: lock_def waiter_ok_def Let_def lf_ok_def)
  have bl: "blocks l lock = blocks l (w_lock w)" for l :: held
    by (simp add: lock_def blocks_def overlaps_def before_def)
  obtain x where x: "lf_getblock (files ! f) lock = Some x"
    "case x of None \<Rightarrow> \<forall>l \<in> set (files ! f). \<not> blocks l lock
     | Some n \<Rightarrow> n < length (files ! f) \<and> blocks (files ! f ! n) lock \<and> (\<forall>m < n. \<not> blocks (files ! f ! m) lock)"
    using getblock_spec [OF r(2,1)] by blast
  show ?thesis
  proof (cases x)
    case None
    have q: "lf_blkhd lock = []" by (simp add: lock_def)
    have sp: "w_spare w \<noteq> None \<or> lf_end lock = -1" using w by (auto simp: waiter_ok_def Let_def lock_def)
    obtain ls' sp' cnt' wk where A: "lf_addlock [] lock [] (files ! f) True (w_spare w) cnt [] = Some (ls', sp', cnt', wk)"
      "added lock (files ! f) ls' wk \<or> merged lock (files ! f) ls' wk"
      using addlock_spec [OF ok r(1) q sp, of cnt] by blast
    have "evolves isproc (files ! f) ls' wk"
      using A(2) evolves_added [OF inv r(1)] evolves_merged [OF inv] x(2) None w by (auto simp: lock_def waiter_ok_def Let_def)
    moreover have "locked ls' = set_bytes lock (locked (files ! f))"
      using A(2) locked_added [OF ok r(1)] locked_merged [OF ok r(1)] by blast
    then have "locked ls' = set_bytes (w_lock w) (locked (files ! f))"
      by (simp add: lock_def set_bytes_def covers_def)
    ultimately show ?thesis using x(1) None A(1) by (auto simp: lf_setlock_def Let_def simp flip: lock_def)
  next
    case (Some n)
    then have n: "n < length (files ! f)" "blocks (files ! f ! n) lock" using x(2) by auto
    let ?bad = "F_POSIX lock \<and> F_POSIX (files ! f ! n) \<and> lf_deadlock multi files MAXDEPTH (w_proc w) 0 (lf_id (files ! f ! n))"
    consider "\<not> F_WAIT lock \<or> ?bad" | "F_WAIT lock" "\<not> ?bad" "F_FLOCK lock" "lf_type lock = F_WRLCK"
      | "F_WAIT lock" "\<not> ?bad" "\<not> (F_FLOCK lock \<and> lf_type lock = F_WRLCK)" by blast
    then show ?thesis
    proof cases
      case 1
      then show ?thesis using x(1) Some by (auto simp: lf_setlock_def Let_def simp flip: lock_def)
    next
      case 2
      define u where "u = lock\<lparr>lf_type := F_UNLCK\<rparr>"
      have u: "range_ok u" "lf_id u = lf_id lock" "lf_end u = -1" "\<not> F_POSIX lock"
        using r(1) w 2(3) by (auto simp: u_def range_ok_def lock_def waiter_ok_def Let_def)
      obtain cnt' sp' where C: "lf_clearlock (files ! f) u None cnt = Some (clear_ref u (files ! f), sp', cnt', wake_ref u (files ! f))"
        using clearlock_ref [OF ok u(1), of None cnt] u(3) by auto
      obtain m where m: "lf_getblock (clear_ref u (files ! f)) lock = Some (Some m)" "m < length (clear_ref u (files ! f))"
        "clear_ref u (files ! f) ! m = files ! f ! n"
        using getblock_after_clear [OF ok u(1) r(1) u(2)] x(1) Some by blast
      have "lf_setlock multi files f w cnt =
          Some (LfSleep, files[f := enqueue (clear_ref u (files ! f)) m w], w_spare w, cnt', wake_ref u (files ! f))"
        using x(1) Some 2 C m(1) unfolding lf_setlock_def Let_def enqueue_def lock_def [symmetric] u_def [symmetric] by auto
      moreover have "blocks (clear_ref u (files ! f) ! m) (w_lock w)" "\<not> F_POSIX (w_lock w)"
        using m(3) n(2) u(4) by (simp_all add: bl) (simp add: lock_def)
      ultimately show ?thesis using evolves_clear_ref [OF inv u(1)] m(2) by blast
    next
      case 3
      then have "lf_setlock multi files f w cnt = Some (LfSleep, files[f := enqueue (files ! f) n w], w_spare w, cnt, [])"
        using x(1) Some by (auto simp: lf_setlock_def Let_def enqueue_def simp flip: lock_def)
      moreover have "blocks (files ! f ! n) (w_lock w)" using n(2) by (simp add: bl)
      moreover have "F_POSIX lock = F_POSIX (w_lock w)" by (simp add: lock_def)
      ultimately show ?thesis using evolves_refl [OF inv] n(1) 3(2) by blast
    qed
  qed
qed

section \<open>The invariant of the system\<close>

definition waits :: "(nat \<Rightarrow> bool) \<Rightarrow> held list list \<Rightarrow> (nat \<times> nat) set" where
  "waits multi files = {(p, q). \<exists>ls \<in> set files. \<exists>l \<in> set ls. \<exists>w \<in> set (lf_blkhd l).
     F_POSIX (w_lock w) \<and> w_proc w = p \<and> \<not> multi p \<and> F_POSIX l \<and> lf_id l = q}"

abbreviation of_proc :: "nat \<Rightarrow> waiter multiset \<Rightarrow> waiter multiset" where
  "of_proc p M \<equiv> filter_mset (\<lambda>w. w_proc w = p) M"

definition lf_inv :: "(nat \<Rightarrow> bool) \<Rightarrow> (nat \<Rightarrow> bool) \<Rightarrow> lf_world \<Rightarrow> bool" where
  "lf_inv multi isproc wo \<longleftrightarrow> (\<forall>ls \<in> set (wo_files wo). list_inv isproc ls) \<and>
     (\<forall>(f, w) \<in> set (wo_woken wo). f < length (wo_files wo) \<and> waiter_ok isproc w) \<and>
     (\<forall>p. \<not> multi p \<longrightarrow> size (of_proc p (mset (pending wo))) \<le> 1) \<and>
     acyclic (waits multi (wo_files wo))"

lemma queues_update:
  assumes "f < length files"
  shows "queues (concat (files[f := ls'])) + queues (files ! f) = queues (concat files) + queues ls'"
proof -
  have "concat files = concat (take f files) @ files ! f @ concat (drop (Suc f) files)"
    using id_take_nth_drop [OF assms] by (metis concat.simps(2) concat_append)
  moreover have "concat (files[f := ls']) = concat (take f files) @ ls' @ concat (drop (Suc f) files)"
    using upd_conv_take_nth_drop [OF assms] by simp
  ultimately show ?thesis by simp
qed

lemma pending_mset: "mset (pending wo) = queues (concat (wo_files wo)) + mset (map snd (wo_woken wo))"
  by (simp add: pending_def sleeping_def)

text \<open>The pending requests after a list evolved and its woken requests were recorded are the same as before.\<close>

lemma pending_evolves:
  assumes "f < length files" and "queues ls' + mset wk = queues (files ! f)"
  shows "queues (concat (files[f := ls'])) + mset wk = queues (concat files)"
proof -
  have "queues (concat (files[f := ls'])) + (queues ls' + mset wk) = queues (concat files) + queues ls'"
    unfolding assms(2) by (rule queues_update [OF assms(1)])
  then have "(queues (concat (files[f := ls'])) + mset wk) + queues ls' = queues (concat files) + queues ls'"
    by (simp only: ac_simps)
  then show ?thesis by (rule add_right_imp_eq)
qed

lemma queues_enqueue:
  assumes "n < length ls"
  shows "queues (enqueue ls n w) = add_mset w (queues ls)"
proof -
  have "queues ls = queues (take n ls) + mset (lf_blkhd (ls ! n)) + queues (drop (Suc n) ls)"
    by (subst id_take_nth_drop [OF assms]) simp
  then show ?thesis using assms by (simp add: enqueue_def upd_conv_take_nth_drop)
qed

lemma waits_evolves:
  assumes "f < length files" and "evolves isproc (files ! f) ls' wk"
  shows "waits multi (files[f := ls']) \<subseteq> waits multi files"
proof -
  have "ls \<in> set files \<or> ls = ls'" if "ls \<in> set (files[f := ls'])" for ls
    using set_update_subset_insert that by fast
  moreover have "files ! f \<in> set files" using assms(1) by simp
  ultimately show ?thesis using assms(2) unfolding waits_def evolves_def by blast
qed

lemma waitsI:
  "ls \<in> set files \<Longrightarrow> l \<in> set ls \<Longrightarrow> w \<in> set (lf_blkhd l) \<Longrightarrow> F_POSIX (w_lock w) \<Longrightarrow> \<not> multi (w_proc w) \<Longrightarrow>
    F_POSIX l \<Longrightarrow> (w_proc w, lf_id l) \<in> waits multi files"
  unfolding waits_def by blast

lemma list_update_mem:
  assumes "y \<in> set (xs[i := a])"
  shows "y = a \<or> y \<in> set (xs[i := b])"
proof -
  obtain j where j: "j < length xs" "y = xs[i := a] ! j" using assms by (metis in_set_conv_nth length_list_update)
  then show ?thesis using nth_mem [of j "xs[i := b]"] by (cases "j = i") auto
qed

lemma waits_enqueue:
  assumes "f < length files" and "n < length ls"
  shows "waits multi (files[f := enqueue ls n w]) \<subseteq> waits multi (files[f := ls]) \<union>
    (if F_POSIX (w_lock w) \<and> F_POSIX (ls ! n) \<and> \<not> multi (w_proc w) then {(w_proc w, lf_id (ls ! n))} else {})"
proof (rule subrelI)
  fix p q assume "(p, q) \<in> waits multi (files[f := enqueue ls n w])"
  then obtain xs l v where v: "xs \<in> set (files[f := enqueue ls n w])" "l \<in> set xs" "v \<in> set (lf_blkhd l)"
    and pq: "F_POSIX (w_lock v)" "w_proc v = p" "\<not> multi p" "F_POSIX l" "lf_id l = q"
    unfolding waits_def by blast
  have ls: "ls \<in> set (files[f := ls])" "ls ! n \<in> set ls" using assms set_update_memI by auto
  have new: "xs = enqueue ls n w" if "xs \<notin> set (files[f := ls])"
    using list_update_mem [OF v(1)] that by blast
  have el: "l \<in> set ls \<or> l = (ls ! n)\<lparr>lf_blkhd := lf_blkhd (ls ! n) @ [w]\<rparr>" if "l \<in> set (enqueue ls n w)"
    using subsetD [OF set_update_subset_insert that [unfolded enqueue_def]] by simp blast
  consider "xs \<in> set (files[f := ls])" | "l \<in> set ls" | "l = (ls ! n)\<lparr>lf_blkhd := lf_blkhd (ls ! n) @ [w]\<rparr>"
    using new v(2) el by blast
  then have "(p, q) \<in> waits multi (files[f := ls]) \<or> v = w \<and> F_POSIX (ls ! n) \<and> q = lf_id (ls ! n)"
  proof cases
    case 1
    then show ?thesis using waitsI [OF 1 v(2,3)] pq by simp
  next
    case 2
    then show ?thesis using waitsI [OF ls(1) 2 v(3)] pq by simp
  next
    case 3
    then have "v = w \<or> v \<in> set (lf_blkhd (ls ! n))" "F_POSIX (ls ! n)" "q = lf_id (ls ! n)" using v(3) pq(4,5) by auto
    then show ?thesis using waitsI [OF ls, of v] pq by auto
  qed
  then show "(p, q) \<in> waits multi (files[f := ls]) \<union>
    (if F_POSIX (w_lock w) \<and> F_POSIX (ls ! n) \<and> \<not> multi (w_proc w) then {(w_proc w, lf_id (ls ! n))} else {})"
    using pq by auto
qed

section \<open>The search for a circle\<close>

text \<open>A process with one thread has one pending request, so the walk of \<open>lf_deadlock\<close> follows the
  waits-for relation.\<close>

lemma of_proc_pos: "w \<in># M \<Longrightarrow> w_proc w = p \<Longrightarrow> 0 < size (of_proc p M)"
  by (auto simp: nonempty_has_size [symmetric] dest: multi_member_split)

lemma queues_middle: "queues (xs @ l # ys) = mset (lf_blkhd l) + queues (xs @ ys)"
  by simp

lemma waitblock_unique:
  assumes one: "size (of_proc p (queues (concat files))) \<le> 1"
    and l: "ls \<in> set files" "l \<in> set ls" "w \<in> set (lf_blkhd l)" "w_proc w = p"
  shows "lf_waitblock files p = Some l"
proof -
  let ?P = "\<lambda>l. \<exists>w \<in> set (lf_blkhd l). w_proc w = p"
  have in_l: "l \<in> set (concat files)" "?P l" using l by auto
  obtain k where k: "lf_waitblock files p = Some k" "k \<in> set (concat files)" "?P k"
  proof (cases "find ?P (concat files)")
    case None
    then show thesis using in_l unfolding find_None_iff by blast
  next
    case (Some k)
    then obtain i where "i < length (concat files)" "?P (concat files ! i)" "k = concat files ! i"
      unfolding find_Some_iff by blast
    then show thesis using Some that [of k] unfolding lf_waitblock_def by (metis (mono_tags, lifting) nth_mem)
  qed
  have "k = l"
  proof (rule ccontr)
    assume "k \<noteq> l"
    obtain xs ys where xs: "concat files = xs @ l # ys" using in_l(1) by (meson split_list)
    then have "k \<in> set (xs @ ys)" using k(2) \<open>k \<noteq> l\<close> by auto
    then obtain us vs where "xs @ ys = us @ k # vs" by (meson split_list)
    then have "queues (concat files) = mset (lf_blkhd l) + mset (lf_blkhd k) + queues (us @ vs)"
      unfolding xs queues_middle by (simp only: queues_middle ac_simps)
    then have "size (of_proc p (mset (lf_blkhd l))) + size (of_proc p (mset (lf_blkhd k))) \<le> 1" using one by simp
    moreover have "0 < size (of_proc p (mset (lf_blkhd l)))" "0 < size (of_proc p (mset (lf_blkhd k)))"
      using in_l(2) k(3) by (auto intro: of_proc_pos)
    ultimately show False by simp
  qed
  then show ?thesis using k(1) by simp
qed

lemma deadlock_search:
  assumes "\<forall>p. \<not> multi p \<longrightarrow> size (of_proc p (queues (concat files))) \<le> 1" and "\<not> lf_deadlock multi files d cur i q"
  shows "(q, cur) \<notin> (waits multi files)\<^sup>+"
  using assms
proof (induction multi files d cur i q rule: lf_deadlock.induct)
  case (1 multi files d cur i q)
  show ?case
  proof
    assume "(q, cur) \<in> (waits multi files)\<^sup>+"
    then obtain r where r: "(q, r) \<in> waits multi files" "(r, cur) \<in> (waits multi files)\<^sup>*" by (meson tranclD)
    then obtain ls l w where l: "ls \<in> set files" "l \<in> set ls" "w \<in> set (lf_blkhd l)" "w_proc w = q"
      "\<not> multi q" "F_POSIX l" "lf_id l = r" unfolding waits_def by blast
    have wb: "lf_waitblock files q = Some l" using waitblock_unique [OF _ l(1-4)] "1.prems"(1) l(5) by simp
    have nd: "i < d" "r \<noteq> cur" "\<not> lf_deadlock multi files d cur (i + 1) r"
      using "1.prems"(2) wb l(5-7) by (simp_all add: lf_deadlock.simps [of multi files d cur i] split: if_splits)
    then have "(r, cur) \<notin> (waits multi files)\<^sup>+" using "1.IH" [OF nd(1) l(5) wb] l(6,7) "1.prems"(1) by simp
    then show False using r(2) nd(2) by (meson rtranclD)
  qed
qed

section \<open>Every step keeps the invariant\<close>

lemma lf_invI:
  assumes "\<forall>ls \<in> set (wo_files wo). list_inv isproc ls"
    and "\<forall>(f, w) \<in> set (wo_woken wo). f < length (wo_files wo) \<and> waiter_ok isproc w"
    and "\<forall>p. \<not> multi p \<longrightarrow> size (of_proc p (mset (pending wo))) \<le> 1"
    and "acyclic (waits multi (wo_files wo))"
  shows "lf_inv multi isproc wo"
  using assms by (simp add: lf_inv_def)

lemma lf_inv_cnt: "lf_inv multi isproc (wo\<lparr>wo_cnt := cnt\<rparr>) = lf_inv multi isproc wo"
  by (simp add: lf_inv_def pending_def sleeping_def)

lemma of_proc_mono: "M \<subseteq># N \<Longrightarrow> size (of_proc p M) \<le> size (of_proc p N)"
  by (intro size_mset_mono multiset_filter_mono)

lemma woken_ok:
  assumes "list_inv isproc ls" and "evolves isproc ls ls' wk" and "w \<in> set wk"
  shows "waiter_ok isproc w"
proof -
  have "w \<in># queues ls" using assms(2,3) unfolding evolves_def by (metis Un_iff set_mset_mset set_mset_union)
  then show ?thesis using assms(1) by (auto simp: list_inv_def)
qed

text \<open>A list evolves, its woken requests are recorded.\<close>

lemma lf_inv_evolves:
  assumes inv: "lf_inv multi isproc wo" and f: "f < length (wo_files wo)" and ev: "evolves isproc (wo_files wo ! f) ls' wk"
  shows "lf_inv multi isproc (wo\<lparr>wo_files := (wo_files wo)[f := ls'], wo_cnt := cnt, wo_woken := wo_woken wo @ map (Pair f) wk\<rparr>)"
proof (rule lf_invI)
  let ?wo = "wo\<lparr>wo_files := (wo_files wo)[f := ls'], wo_cnt := cnt, wo_woken := wo_woken wo @ map (Pair f) wk\<rparr>"
  have li: "list_inv isproc (wo_files wo ! f)" using inv f by (simp add: lf_inv_def)
  show "\<forall>ls \<in> set (wo_files ?wo). list_inv isproc ls"
    using inv ev set_update_subset_insert [of "wo_files wo" f ls'] by (auto simp: lf_inv_def evolves_def)
  show "\<forall>(f, w) \<in> set (wo_woken ?wo). f < length (wo_files ?wo) \<and> waiter_ok isproc w"
    using inv f woken_ok [OF li ev] by (auto simp: lf_inv_def)
  have "mset (pending ?wo) = mset (pending wo)"
    using pending_evolves [OF f, of ls' wk] ev by (simp add: pending_mset evolves_def comp_def ac_simps)
  then show "\<forall>p. \<not> multi p \<longrightarrow> size (of_proc p (mset (pending ?wo))) \<le> 1"
    using inv by (simp add: lf_inv_def)
  show "acyclic (waits multi (wo_files ?wo))"
    using inv waits_evolves [OF f ev] by (auto simp: lf_inv_def intro: acyclic_subset)
qed

text \<open>A request goes to sleep.\<close>

lemma lf_inv_sleep:
  assumes inv: "lf_inv multi isproc wo" and f: "f < length (wo_files wo)" and n: "n < length (wo_files wo ! f)"
    and b: "blocks (wo_files wo ! f ! n) (w_lock w)" and w: "waiter_ok isproc w"
    and fresh: "multi (w_proc w) \<or> w_proc w \<notin> w_proc ` set (pending wo)"
    and dl: "F_POSIX (w_lock w) \<Longrightarrow> F_POSIX (wo_files wo ! f ! n) \<Longrightarrow> \<not> multi (w_proc w) \<Longrightarrow>
      (lf_id (wo_files wo ! f ! n), w_proc w) \<notin> (waits multi (wo_files wo))\<^sup>+"
  shows "lf_inv multi isproc (wo\<lparr>wo_files := (wo_files wo)[f := enqueue (wo_files wo ! f) n w]\<rparr>)"
proof (rule lf_invI)
  let ?ls = "wo_files wo ! f" and ?wo = "wo\<lparr>wo_files := (wo_files wo)[f := enqueue (wo_files wo ! f) n w]\<rparr>"
  have "list_inv isproc ?ls" using inv f by (simp add: lf_inv_def)
  then have "list_inv isproc (enqueue ?ls n w)" using list_inv_enqueue n b w by (simp add: enqueue_def)
  then show "\<forall>ls \<in> set (wo_files ?wo). list_inv isproc ls"
    using inv set_update_subset_insert [of "wo_files wo" f "enqueue ?ls n w"] by (auto simp: lf_inv_def)
  show "\<forall>(f, w) \<in> set (wo_woken ?wo). f < length (wo_files ?wo) \<and> waiter_ok isproc w" using inv by (simp add: lf_inv_def)
  have "mset (pending ?wo) = add_mset w (mset (pending wo))"
    using queues_update [OF f, of "enqueue ?ls n w"] queues_enqueue [OF n, of w] by (simp add: pending_mset)
  moreover have "size (of_proc (w_proc w) (mset (pending wo))) = 0" if "\<not> multi (w_proc w)"
    using fresh that by (auto simp: filter_mset_eq_conv image_iff)
  ultimately show "\<forall>p. \<not> multi p \<longrightarrow> size (of_proc p (mset (pending ?wo))) \<le> 1"
    using inv by (auto simp: lf_inv_def)
  let ?new = "F_POSIX (w_lock w) \<and> F_POSIX (?ls ! n) \<and> \<not> multi (w_proc w)"
  have sub: "waits multi (wo_files ?wo) \<subseteq> waits multi (wo_files wo) \<union> (if ?new then {(w_proc w, lf_id (?ls ! n))} else {})"
    using waits_enqueue [OF f n, of multi w] by simp
  have "acyclic (waits multi (wo_files wo) \<union> (if ?new then {(w_proc w, lf_id (?ls ! n))} else {}))"
  proof (cases ?new)
    case True
    then have "lf_id (?ls ! n) \<noteq> w_proc w" using w b by (auto simp: waiter_ok_def Let_def blocks_def)
    then have "(lf_id (?ls ! n), w_proc w) \<notin> (waits multi (wo_files wo))\<^sup>*" using dl True by (meson rtranclD)
    then show ?thesis using inv True by (simp add: lf_inv_def)
  next
    case False
    then show ?thesis using inv by (auto simp: lf_inv_def)
  qed
  then show "acyclic (waits multi (wo_files ?wo))" using sub by (rule acyclic_subset)
qed

lemma setlock_pass_inv:
  assumes inv: "lf_inv multi isproc wo" and f: "f < length (wo_files wo)" and w: "waiter_ok isproc w"
    and fresh: "multi (w_proc w) \<or> w_proc w \<notin> w_proc ` set (pending wo)"
  shows "\<exists>out wo'. lf_setlock_pass multi f w wo = Some (out, wo') \<and> lf_inv multi isproc wo'"
proof -
  have li: "list_inv isproc (wo_files wo ! f)" using inv f by (simp add: lf_inv_def)
  from setlock_cases [OF li w, of multi "wo_cnt wo"]
  consider e cnt' where "lf_setlock multi (wo_files wo) f w (wo_cnt wo) = Some (LfErr e, wo_files wo, w_spare w, cnt', [])"
    | ls' sp cnt' wk where "lf_setlock multi (wo_files wo) f w (wo_cnt wo) = Some (LfOk, (wo_files wo)[f := ls'], sp, cnt', wk)"
        "evolves isproc (wo_files wo ! f) ls' wk"
    | ls' n cnt' wk where "lf_setlock multi (wo_files wo) f w (wo_cnt wo) =
          Some (LfSleep, (wo_files wo)[f := enqueue ls' n w], w_spare w, cnt', wk)"
        "evolves isproc (wo_files wo ! f) ls' wk" "n < length ls'" "blocks (ls' ! n) (w_lock w)"
        "F_POSIX (w_lock w) \<and> F_POSIX (ls' ! n) \<longrightarrow> \<not> lf_deadlock multi (wo_files wo) MAXDEPTH (w_proc w) 0 (lf_id (ls' ! n))"
    by blast
  then show ?thesis
  proof cases
    case 1
    then show ?thesis using inv by (simp add: lf_setlock_pass_def lf_inv_cnt)
  next
    case 2
    then show ?thesis using lf_inv_evolves [OF inv f 2(2)] by (simp add: lf_setlock_pass_def)
  next
    case 3
    define wo1 where "wo1 = wo\<lparr>wo_files := (wo_files wo)[f := ls'], wo_cnt := cnt', wo_woken := wo_woken wo @ map (Pair f) wk\<rparr>"
    have wo1: "lf_inv multi isproc wo1" using lf_inv_evolves [OF inv f 3(2)] by (simp add: wo1_def)
    have f1: "f < length (wo_files wo1)" "wo_files wo1 ! f = ls'" using f by (simp_all add: wo1_def)
    have "mset (pending wo1) = mset (pending wo)"
      using pending_evolves [OF f, of ls' wk] 3(2) by (simp add: wo1_def pending_mset evolves_def comp_def ac_simps)
    then have fresh1: "multi (w_proc w) \<or> w_proc w \<notin> w_proc ` set (pending wo1)"
      using fresh by (metis set_mset_mset)
    have one: "\<forall>p. \<not> multi p \<longrightarrow> size (of_proc p (queues (concat (wo_files wo)))) \<le> 1"
      using inv by (simp add: lf_inv_def pending_mset) (meson add_leD1)
    have "(lf_id (ls' ! n), w_proc w) \<notin> (waits multi (wo_files wo1))\<^sup>+" if "F_POSIX (w_lock w)" "F_POSIX (ls' ! n)"
    proof -
      have "(lf_id (ls' ! n), w_proc w) \<notin> (waits multi (wo_files wo))\<^sup>+"
        using deadlock_search [OF one] 3(5) that by blast
      moreover have "waits multi (wo_files wo1) \<subseteq> waits multi (wo_files wo)"
        using waits_evolves [OF f 3(2)] by (simp add: wo1_def)
      ultimately show ?thesis using trancl_mono by blast
    qed
    then have "lf_inv multi isproc (wo1\<lparr>wo_files := (wo_files wo1)[f := enqueue (wo_files wo1 ! f) n w]\<rparr>)"
      using 3(3,4) f1 by (intro lf_inv_sleep [OF wo1 _ _ _ w fresh1]) auto
    moreover have "wo1\<lparr>wo_files := (wo_files wo1)[f := enqueue (wo_files wo1 ! f) n w]\<rparr> =
        wo\<lparr>wo_files := (wo_files wo)[f := enqueue ls' n w], wo_cnt := cnt', wo_woken := wo_woken wo @ map (Pair f) wk\<rparr>"
      using f1(2) by (cases wo) (simp add: wo1_def)
    ultimately show ?thesis using 3(1) by (simp add: lf_setlock_pass_def)
  qed
qed

lemma lf_range_ok:
  assumes "lf_range fl fsize = Some (Inr (s, e))"
  shows "0 \<le> s \<and> (e = -1 \<or> s \<le> e) \<and> (l_whence fl = SEEK_SET \<and> l_start fl = 0 \<and> l_len fl = 0 \<longrightarrow> e = -1)"
  using assms by (auto simp: lf_range_def off_t_def split: whence.splits if_splits bind_splits)

lemma advlock_locked_inv:
  assumes inv: "lf_inv multi isproc wo" and ok: "lf_args_ok isproc ap wo"
    and r: "lf_range (a_fl ap) (a_size ap) = Some (Inr (start, end'))" and op: "a_op ap \<noteq> OP_OTHER"
    and fresh: "multi (a_proc ap) \<or> a_proc ap \<notin> w_proc ` set (pending wo)"
    and sp: "a_op ap = OP_GETLK \<or> a_flock ap \<or> sp \<noteq> None"
  shows "\<exists>out fl wo'. lf_advlock_locked multi pid ap start end' sp uid wo = Some (out, fl, wo') \<and> lf_inv multi isproc wo'"
proof -
  define lock where "lock = \<lparr>F_POSIX = a_posix ap, F_FLOCK = a_flock ap, F_WAIT = a_wait ap,
    lf_type = l_type (a_fl ap), lf_start = start, lf_end = end', lf_id = a_id ap, lf_uid = uid\<rparr>"
  define ls where "ls = wo_files wo ! a_vp ap"
  have f: "a_vp ap < length (wo_files wo)" using ok by (simp add: lf_args_ok_def)
  then have li: "list_inv isproc ls" using inv by (simp add: lf_inv_def ls_def)
  then have lok: "lf_ok ls" "\<forall>l \<in> set ls. range_ok l" by (simp_all add: list_inv_def lf_ok_def)
  have rng: "range_ok lock" "a_flock ap \<longrightarrow> end' = -1"
    using lf_range_ok [OF r] ok by (auto simp: lock_def range_ok_def lf_args_ok_def)
  note unf = lf_advlock_locked_def Let_def lock_def [symmetric] ls_def [symmetric]
  consider "ls = []" "a_op ap \<noteq> OP_SETLK" | "a_op ap = OP_SETLK" | "ls \<noteq> []" "a_op ap = OP_UNLCK" | "ls \<noteq> []" "a_op ap = OP_GETLK"
    using op by (cases "a_op ap") auto
  then show ?thesis
  proof cases
    case 1
    then show ?thesis using inv by (simp add: unf lf_inv_cnt)
  next
    case 2
    have "waiter_ok isproc \<lparr>w_lock = lock, w_proc = a_proc ap, w_spare = sp\<rparr>"
      using ok rng sp 2 by (auto simp: waiter_ok_def lf_args_ok_def lock_def)
    then show ?thesis
      using setlock_pass_inv [OF inv f, of "\<lparr>w_lock = lock, w_proc = a_proc ap, w_spare = sp\<rparr>"] fresh 2
      by (auto simp: unf)
  next
    case 3
    have "sp \<noteq> None \<or> lf_end (as_held lock) = -1" using sp 3 rng by (auto simp: lock_def)
    then obtain sp' cnt' where "lf_clearlock ls (as_held lock) sp (wo_cnt wo) =
        Some (clear_ref (as_held lock) ls, sp', cnt', wake_ref (as_held lock) ls)"
      using clearlock_ref [of ls "as_held lock" sp "wo_cnt wo"] lok(1) rng(1) by auto
    moreover have "evolves isproc (wo_files wo ! a_vp ap) (clear_ref (as_held lock) ls) (wake_ref (as_held lock) ls)"
      using evolves_clear_ref [OF li, of "as_held lock"] rng(1) by (simp add: ls_def)
    ultimately show ?thesis using lf_inv_evolves [OF inv f] 3 by (simp add: unf)
  next
    case 4
    obtain x where "lf_getblock ls (as_held lock) = Some x"
      using getblock_spec [OF lok(2), of "as_held lock"] rng(1) by auto
    then have "\<exists>fl. lf_getlock pid ls (as_held lock) (a_fl ap) = Some fl"
      by (cases x) (simp_all add: lf_getlock_def Let_def)
    then show ?thesis using inv 4 by (auto simp: unf lf_inv_cnt)
  qed
qed

lemma lf_advlock_inv:
  assumes inv: "lf_inv multi isproc wo" and ok: "lf_args_ok isproc ap wo" and r: "lf_range (a_fl ap) (a_size ap) \<noteq> None"
    and fresh: "multi (a_proc ap) \<or> a_proc ap \<notin> w_proc ` set (pending wo)"
  shows "\<exists>out fl wo'. lf_advlock multi pid ap wo = Some (out, fl, wo') \<and> lf_inv multi isproc wo'"
proof -
  obtain x where x: "lf_range (a_fl ap) (a_size ap) = Some x" using r by blast
  show ?thesis
  proof (cases "(\<exists>e. x = Inl e) \<or> a_op ap = OP_OTHER")
    case True
    then show ?thesis using x inv by (cases x) (auto simp: lf_advlock_def)
  next
    case False
    then obtain start end' where r': "lf_range (a_fl ap) (a_size ap) = Some (Inr (start, end'))"
      using x by (cases x) auto
    define a where "a = (if a_op ap \<noteq> OP_GETLK \<and> \<not> a_flock ap then lf_alloc (a_euid ap) 0 (wo_cnt wo) else (None, wo_cnt wo))"
    define b where "b = lf_alloc (a_euid ap) (case a_op ap of OP_SETLK \<Rightarrow> 1
        | OP_UNLCK \<Rightarrow> if start = 0 \<or> end' = -1 then 0 else 2 | _ \<Rightarrow> 0) (snd a)"
    have op: "a_op ap \<noteq> OP_OTHER" using False by simp
    have eq: "lf_advlock multi pid ap wo = (case fst b of
        None \<Rightarrow> Some (LfErr ENOMEM, a_fl ap, wo\<lparr>wo_cnt := lf_quit (fst a) (snd b)\<rparr>)
      | Some uid \<Rightarrow> lf_advlock_locked multi pid ap start end' (fst a) uid (wo\<lparr>wo_cnt := snd b\<rparr>))"
      using op unfolding lf_advlock_def r' Let_def case_prod_beta a_def b_def by (simp only: option.case sum.case prod.sel if_False)
    have "a_op ap = OP_GETLK \<or> a_flock ap \<or> fst a \<noteq> None" by (auto simp: a_def lf_alloc_def)
    then have "\<exists>out fl wo'. lf_advlock_locked multi pid ap start end' (fst a) uid (wo\<lparr>wo_cnt := snd b\<rparr>) = Some (out, fl, wo')
        \<and> lf_inv multi isproc wo'" for uid
      using inv ok fresh False
      by (intro advlock_locked_inv [OF _ _ r']) (auto simp: lf_inv_cnt lf_args_ok_def pending_def sleeping_def)
    then show ?thesis using inv by (cases "fst b") (simp_all add: eq lf_inv_cnt)
  qed
qed

lemma lf_inv_woken_remove:
  assumes inv: "lf_inv multi isproc wo" and w: "(f, w) \<in> set (wo_woken wo)"
  shows "lf_inv multi isproc (wo\<lparr>wo_woken := remove1 (f, w) (wo_woken wo)\<rparr>)"
    and "multi (w_proc w) \<or> w_proc w \<notin> w_proc ` set (pending (wo\<lparr>wo_woken := remove1 (f, w) (wo_woken wo)\<rparr>))"
proof -
  let ?wo = "wo\<lparr>wo_woken := remove1 (f, w) (wo_woken wo)\<rparr>"
  have p: "mset (pending wo) = add_mset w (mset (pending ?wo))"
    using w image_eqI [of w snd "(f, w)" "set (wo_woken wo)"] by (simp add: pending_mset image_mset_Diff)
  have one: "size (of_proc p (mset (pending wo))) \<le> 1" if "\<not> multi p" for p using inv that by (simp add: lf_inv_def)
  then have "\<forall>p. \<not> multi p \<longrightarrow> size (of_proc p (mset (pending ?wo))) \<le> 1"
    using of_proc_mono [of "mset (pending ?wo)" "mset (pending wo)"] le_trans unfolding p by fastforce
  then show "lf_inv multi isproc ?wo"
    using inv set_remove1_subset [of "(f, w)" "wo_woken wo"] by (auto simp: lf_inv_def)
  show "multi (w_proc w) \<or> w_proc w \<notin> w_proc ` set (pending ?wo)"
  proof (rule ccontr)
    assume "\<not> ?thesis"
    then obtain v where "v \<in># mset (pending ?wo)" "w_proc v = w_proc w" "\<not> multi (w_proc w)" by auto
    then show False using one [of "w_proc w"] of_proc_pos [of v "mset (pending ?wo)" "w_proc w"] by (simp add: p)
  qed
qed

lemma evolves_signal:
  assumes "list_inv isproc ls" and "ls = pre @ l # post" and "lf_blkhd l = ws1 @ w # ws2"
  shows "evolves isproc ls (pre @ l\<lparr>lf_blkhd := ws1 @ ws2\<rparr> # post) [w]"
proof -
  let ?x = "l\<lparr>lf_blkhd := ws1 @ ws2\<rparr>"
  have same: "blocks ?x m = blocks l m" "blocks m ?x = blocks m l" for m :: "'b lockf_scheme"
    by (simp_all add: blocks_def overlaps_def before_def)
  have "lf_ok (pre @ ?x # post)" using assms(1,2)
    by (simp add: list_inv_def lf_ok_append lf_ok_Cons range_ok_def before_def)
  then have "list_inv isproc (pre @ ?x # post)" using assms unfolding list_inv_def by (auto simp: same)
  then show ?thesis using assms(2,3) by (auto simp: evolves_def)
qed

lemma lf_step_inv:
  assumes "lf_step multi isproc wo wo'" and "lf_inv multi isproc wo"
  shows "lf_inv multi isproc wo'"
  using assms
proof (induction rule: lf_step.induct)
  case (lf_call ap wo pid out fl wo')
  have "lf_range (a_fl ap) (a_size ap) \<noteq> None" using lf_call(3)
    by (cases "lf_range (a_fl ap) (a_size ap)") (auto simp: lf_advlock_def)
  then show ?case using lf_advlock_inv [OF lf_call(4,1) _ lf_call(2), of pid] lf_call(3) by auto
next
  case (lf_retry f w wo out wo')
  have "f < length (wo_files wo)" "waiter_ok isproc w" using lf_retry(1,3) by (auto simp: lf_inv_def)
  then show ?case
    using setlock_pass_inv [of multi isproc "wo\<lparr>wo_woken := remove1 (f, w) (wo_woken wo)\<rparr>" f w]
      lf_inv_woken_remove [OF lf_retry(3,1)] lf_retry(2) by auto
next
  case (lf_error f w wo)
  then show ?case using lf_inv_woken_remove(1) [OF lf_error(2,1)]
    by (simp add: lf_inv_def pending_def sleeping_def)
next
  case (lf_signal f wo pre l post ws1 w ws2)
  have "list_inv isproc (wo_files wo ! f)" using lf_signal(1,4) by (simp add: lf_inv_def)
  from lf_inv_evolves [OF lf_signal(4,1) evolves_signal [OF this lf_signal(2,3)], of "wo_cnt wo"]
  show ?case by simp
qed

lemma reachable_inv: "lf_reachable multi isproc wo \<Longrightarrow> lf_inv multi isproc wo"
proof (induction rule: lf_reachable.induct)
  case (lf_initial n cnt)
  have "waits multi (replicate n []) = {}" by (auto simp: waits_def)
  then show ?case by (auto simp: lf_inv_def list_inv_def pending_def sleeping_def acyclic_def)
qed (rule lf_step_inv)

section \<open>A scenario\<close>

text \<open>Calls of \<open>fcntl\<close> by process \<open>p\<close> as user \<open>uid\<close>, and of \<open>flock\<close> with the open file \<open>10\<close>.\<close>

definition posix_args :: "lf_op \<Rightarrow> nat \<Rightarrow> nat \<Rightarrow> nat \<Rightarrow> lftype \<Rightarrow> int \<Rightarrow> int \<Rightarrow> advlock_args" where
  "posix_args opr p uid vp t start len =
     \<lparr>a_op = opr, a_posix = True, a_flock = False, a_wait = True, a_id = p,
      a_fl = \<lparr>l_whence = SEEK_SET, l_start = start, l_len = len, l_type = t, l_pid = 0\<rparr>,
      a_proc = p, a_euid = uid, a_vp = vp, a_size = 100\<rparr>"

definition flock_args :: "nat \<Rightarrow> nat \<Rightarrow> lftype \<Rightarrow> advlock_args" where
  "flock_args p vp t =
     \<lparr>a_op = OP_SETLK, a_posix = False, a_flock = True, a_wait = True, a_id = 10,
      a_fl = \<lparr>l_whence = SEEK_SET, l_start = 0, l_len = 0, l_type = t, l_pid = 0\<rparr>,
      a_proc = p, a_euid = 7, a_vp = vp, a_size = 100\<rparr>"

definition after :: "lf_world \<Rightarrow> advlock_args \<Rightarrow> lf_world" where
  "after wo ap = (case lf_advlock (\<lambda>_. False) int ap wo of Some (_, _, wo') \<Rightarrow> wo' | None \<Rightarrow> wo)"

definition lf_start0 :: lf_world where
  "lf_start0 = \<lparr>wo_files = [[], []], wo_cnt = (\<lambda>_. 0), wo_woken = []\<rparr>"

abbreviation small :: "nat \<Rightarrow> bool" where "small i \<equiv> i < 10"

lemma start_reachable: "lf_reachable multi isproc lf_start0"
  using lf_initial [of multi isproc 2 "\<lambda>_. 0"] by (simp add: lf_start0_def numeral_2_eq_2)

lemma after_reachable:
  assumes "lf_reachable (\<lambda>_. False) small wo" and "lf_args_ok small ap wo" and "a_proc ap \<notin> set (map w_proc (pending wo))"
    and "lf_range (a_fl ap) (a_size ap) \<noteq> None"
  shows "lf_reachable (\<lambda>_. False) small (after wo ap)"
proof -
  obtain out fl wo' where a: "lf_advlock (\<lambda>_. False) int ap wo = Some (out, fl, wo')"
    using lf_advlock_inv [OF reachable_inv [OF assms(1)] assms(2,4)] assms(3) by auto blast
  then have "lf_step (\<lambda>_. False) small wo wo'" using assms(2,3) by (intro lf_call) auto
  then show ?thesis using a assms(1) by (simp add: after_def lf_next)
qed

text \<open>Process 1 locks vnode 0, process 2 locks vnode 1 and then waits for vnode 0.\<close>

definition scene1 :: lf_world where
  "scene1 = after (after (after lf_start0 (posix_args OP_SETLK 1 7 0 F_WRLCK 0 10))
     (posix_args OP_SETLK 2 7 1 F_WRLCK 0 0)) (posix_args OP_SETLK 2 7 0 F_RDLCK 5 1)"

lemma scene1_reachable: "lf_reachable (\<lambda>_. False) small scene1"
  unfolding scene1_def
  by (intro after_reachable start_reachable; code_simp)

lemma scene1_files:
  "map (map (\<lambda>l. (lf_id l, lf_start l, lf_end l, map w_proc (lf_blkhd l)))) (wo_files scene1) = [[(1, 0, 9, [2])], [(2, 0, -1, [])]]"
  by code_simp

section \<open>Properties of the system\<close>

text \<open>C3: Mutual exclusion.  In every reachable state, a byte of a vnode that two owners have locked is
  locked shared by both.\<close>

theorem lockf_exclusion:
  assumes "lf_reachable multi isproc wo" and "ls \<in> set (wo_files wo)"
    and "(i, b, t) \<in> locked ls" and "(j, b, u) \<in> locked ls" and "i \<noteq> j"
  shows "t = F_RDLCK \<and> u = F_RDLCK"
proof -
  have inv: "list_inv isproc ls" using reachable_inv [OF assms(1)] assms(2) by (simp add: lf_inv_def)
  obtain k l where k: "k \<in> set ls" "lf_id k = i" "lf_type k = t" "covers k b"
    and l: "l \<in> set ls" "lf_id l = j" "lf_type l = u" "covers l b"
    using assms(3,4) by (auto simp: locked_def)
  then have "\<not> blocks k l" "range_ok k" "range_ok l" "t \<noteq> F_UNLCK" "u \<noteq> F_UNLCK"
    using inv by (auto simp: list_inv_def lf_ok_def)
  moreover from this(2,3) have "overlaps k l" using overlaps_iff_common k(4) l(4) by blast
  ultimately show ?thesis using k l assms(5) by (cases t; cases u) (auto simp: blocks_def)
qed

theorem lockf_exclusion_witness:
  "\<exists>ls \<in> set (wo_files scene1). (1, 5, F_WRLCK) \<in> locked ls \<and> (2, 5, F_RDLCK) \<notin> locked ls"
proof -
  have 1: "wo_files scene1 ! 0 \<in> set (wo_files scene1)" by code_simp
  have "(1, 5, F_WRLCK) \<in> locked (wo_files scene1 ! 0)"
    unfolding locked_def mem_Collect_eq prod.case by code_simp
  moreover from lockf_exclusion [OF scene1_reachable 1 this, of 2 F_RDLCK]
  have "(2, 5, F_RDLCK) \<notin> locked (wo_files scene1 ! 0)" by auto
  ultimately show ?thesis using 1 by blast
qed





text \<open>In every reachable state, a call of \<open>lf_advlock\<close> within its contract whose range does not overflow
  \<open>off_t\<close>, and another pass of a request that was woken, end with a result: \<open>lf_findoverlap\<close> does not
  panic, no spare lock is missing and no lock is linked or freed twice.\<close>

theorem lf_advlock_total:
  assumes "lf_reachable multi isproc wo"
  shows "(lf_args_ok isproc ap wo \<and> lf_range (a_fl ap) (a_size ap) \<noteq> None \<and>
      (multi (a_proc ap) \<or> a_proc ap \<notin> w_proc ` set (pending wo)) \<longrightarrow> lf_advlock multi pid ap wo \<noteq> None) \<and>
    ((f, w) \<in> set (wo_woken wo) \<longrightarrow>
      lf_setlock_pass multi f w (wo\<lparr>wo_woken := remove1 (f, w) (wo_woken wo)\<rparr>) \<noteq> None)"
proof (intro conjI impI)
  note inv = reachable_inv [OF assms]
  show "lf_advlock multi pid ap wo \<noteq> None" if "lf_args_ok isproc ap wo \<and> lf_range (a_fl ap) (a_size ap) \<noteq> None \<and>
      (multi (a_proc ap) \<or> a_proc ap \<notin> w_proc ` set (pending wo))"
    using lf_advlock_inv [OF inv, of ap pid] that by auto
  assume w: "(f, w) \<in> set (wo_woken wo)"
  then have "f < length (wo_files wo)" "waiter_ok isproc w" using inv by (auto simp: lf_inv_def)
  then show "lf_setlock_pass multi f w (wo\<lparr>wo_woken := remove1 (f, w) (wo_woken wo)\<rparr>) \<noteq> None"
    using setlock_pass_inv [of multi isproc "wo\<lparr>wo_woken := remove1 (f, w) (wo_woken wo)\<rparr>" f w]
      lf_inv_woken_remove [OF inv w] by auto
qed

theorem lf_advlock_total_witness:
  "lf_advlock (\<lambda>_. False) int (posix_args OP_UNLCK 1 7 0 F_UNLCK 3 2) scene1 \<noteq> None"
proof -
  have "lf_args_ok small (posix_args OP_UNLCK 1 7 0 F_UNLCK 3 2) scene1"
    "lf_range (a_fl (posix_args OP_UNLCK 1 7 0 F_UNLCK 3 2)) (a_size (posix_args OP_UNLCK 1 7 0 F_UNLCK 3 2)) \<noteq> None"
    "a_proc (posix_args OP_UNLCK 1 7 0 F_UNLCK 3 2) \<notin> w_proc ` set (pending scene1)"
    by code_simp+
  then show ?thesis using lf_advlock_total [OF scene1_reachable] by blast
qed

text \<open>Then process 1 asks for the whole of vnode 1 with \<open>flock\<close>.\<close>

definition scene2 :: lf_world where
  "scene2 = after scene1 (flock_args 1 1 F_WRLCK)"

text \<open>A deadlock that is not detected.  Requests of \<open>flock\<close> are not checked for deadlock, although they
  also wait for POSIX locks: in a reachable state process 1 sleeps behind a lock of process 2 and process 2
  behind a lock of process 1, and nothing else is pending.\<close>

theorem lf_flock_deadlock:
  "lf_reachable (\<lambda>_. False) small scene2 \<and> wo_woken scene2 = [] \<and>
   map (map (\<lambda>l. (lf_id l, map w_proc (lf_blkhd l)))) (wo_files scene2) = [[(1, [2])], [(2, [1])]]"
proof (intro conjI)
  show "lf_reachable (\<lambda>_. False) small scene2"
    unfolding scene2_def by (intro after_reachable scene1_reachable; code_simp)
qed code_simp+

text \<open>Locks charged to the wrong user.  A process locks a range as user 7 and, as user 8, unlocks three
  bytes in the middle and then the rest.  The copies made by \<open>lf_split\<close> are charged to user 7 although
  user 8 was charged for the structures: no lock is left, user 8 stays charged for three, the
  count of user 7 has wrapped around, and the next lock of user 7 is refused.\<close>

definition scene3 :: lf_world where
  "scene3 = after (after (after (after (after lf_start0 (posix_args OP_SETLK 1 7 0 F_WRLCK 0 100))
     (posix_args OP_UNLCK 1 8 0 F_UNLCK 10 1)) (posix_args OP_UNLCK 1 8 0 F_UNLCK 20 1))
     (posix_args OP_UNLCK 1 8 0 F_UNLCK 30 1)) (posix_args OP_UNLCK 1 8 0 F_UNLCK 0 0)"

theorem lf_split_wrong_user:
  "lf_reachable (\<lambda>_. False) small scene3 \<and> wo_files scene3 = [[], []] \<and> pending scene3 = [] \<and>
   wo_cnt scene3 7 = -3 \<and> wo_cnt scene3 8 = 3 \<and>
   map_option fst (lf_advlock (\<lambda>_. False) int (posix_args OP_SETLK 2 7 0 F_RDLCK 0 10) scene3) = Some (LfErr ENOMEM)"
proof (intro conjI)
  show "lf_reachable (\<lambda>_. False) small scene3"
    unfolding scene3_def by (intro after_reachable start_reachable; code_simp)
qed code_simp+

text \<open>A request for the last byte that \<open>off_t\<close> can name overflows in \<open>start + l_len\<close>.\<close>

lemma lf_range_overflow:
  "lf_range \<lparr>l_whence = SEEK_SET, l_start = 2 ^ 63 - 1, l_len = 1, l_type = F_RDLCK, l_pid = 0\<rparr> 100 = None"
  by code_simp

text \<open>The list of a vnode is sorted by the start of the lock only for each owner.\<close>

lemma lf_list_unsorted:
  "map lf_start (wo_files (after (after lf_start0 (posix_args OP_SETLK 1 7 0 F_RDLCK 50 1))
     (posix_args OP_SETLK 2 7 0 F_RDLCK 0 1)) ! 0) = [50, 0]"
  by code_simp

end
