(* ===== verification/Rwlock.thy ===== *)
theory Rwlock
  imports Kern_Prelude
begin

text \<open>
  Reader/writer locks, \<open>sys/kern/kern_rwlock.c\<close>: every load, compare-and-swap and swap of the owner
  word is a transition of a system with \<open>n\<close> threads, interleaved in any order.  \<open>addr\<close> gives the
  address of the structure of a thread.  The two sleep queues of the turnstile belong to the
  state; the turnstile chain lock makes a change of the owner word under that lock and the change
  of the queue that goes with it one step for everybody who looks at both.  The local variable
  \<open>owner\<close> of a thread, loaded earlier, is part of its state.  \<open>Aborted\<close> is a failed assertion of the
  \<open>DIAGNOSTIC\<close> or \<open>LOCKDEBUG\<close> kernel, which includes locking against oneself and the use of a turnstile
  that does not exist.  Spinning on a running owner only delays a thread; lock statistics are left out.
\<close>

section \<open>The owner word\<close>

datatype krw_t = RW_READER | RW_WRITER

definition RW_HAS_WAITERS :: u64 where "RW_HAS_WAITERS = 1"
definition RW_WRITE_WANTED :: u64 where "RW_WRITE_WANTED = 2"
definition RW_WRITE_LOCKED :: u64 where "RW_WRITE_LOCKED = 4"
definition RW_READ_INCR :: u64 where "RW_READ_INCR = push_bit 4 1"
definition RW_THREAD :: u64 where "RW_THREAD = - RW_READ_INCR"

definition incr :: "krw_t \<Rightarrow> u64 \<Rightarrow> u64" where
  "incr opn curthread = (if opn = RW_READER then RW_READ_INCR else curthread OR RW_WRITE_LOCKED)"

definition set_wait :: "krw_t \<Rightarrow> u64" where
  "set_wait opn = (if opn = RW_READER then RW_HAS_WAITERS else RW_HAS_WAITERS OR RW_WRITE_WANTED)"

definition need_wait :: "krw_t \<Rightarrow> u64" where
  "need_wait opn = (if opn = RW_READER then RW_WRITE_LOCKED OR RW_WRITE_WANTED else RW_WRITE_LOCKED OR RW_THREAD)"

text \<open>\<open>rcnt << RW_READ_COUNT_SHIFT\<close>, where \<open>rcnt\<close> is an \<open>int\<close>.\<close>

definition rcnt_shift :: "nat \<Rightarrow> u64" where
  "rcnt_shift rcnt = scast (push_bit 4 (of_nat rcnt :: u32))"

section \<open>Queries\<close>

definition rw_read_held :: "u64 \<Rightarrow> bool" where
  "rw_read_held owner \<longleftrightarrow> owner AND RW_WRITE_LOCKED = 0 \<and> owner AND RW_THREAD \<noteq> 0"

definition rw_write_held :: "u64 \<Rightarrow> u64 \<Rightarrow> bool" where
  "rw_write_held owner curlwp \<longleftrightarrow> owner AND (RW_WRITE_LOCKED OR RW_THREAD) = RW_WRITE_LOCKED OR curlwp"

definition rw_lock_held :: "u64 \<Rightarrow> bool" where
  "rw_lock_held owner \<longleftrightarrow> owner AND RW_THREAD \<noteq> 0"

text \<open>The function \<open>rw_owner\<close>, which has the name of the field.\<close>

definition rw_owner_lwp :: "u64 \<Rightarrow> u64 option" where
  "rw_owner_lwp owner = (if owner AND RW_WRITE_LOCKED = 0 then None else Some (owner AND RW_THREAD))"

section \<open>Threads\<close>

datatype rthread =
    Idle
  | Held krw_t
  | Enter krw_t u64
  | Lookup krw_t
  | Sleep krw_t u64
  | Blocked krw_t
  | Woken krw_t
  | Reload krw_t
  | TryTop krw_t
  | TryCas krw_t u64
  | Exiting u64 u64
  | Give u64
  | DownCas u64
  | DownWait u64
  | Upgrade u64
  | Aborted

record rwlock =
  rw_owner :: u64
  reader_q :: "nat list"
  writer_q :: "nat list"
  thr :: "nat \<Rightarrow> rthread"

definition goto :: "rwlock \<Rightarrow> nat \<Rightarrow> rthread \<Rightarrow> rwlock" where
  "goto s t st = s\<lparr>thr := (thr s)(t := st)\<rparr>"

definition set_owner :: "rwlock \<Rightarrow> u64 \<Rightarrow> rwlock" where
  "set_owner s v = s\<lparr>rw_owner := v\<rparr>"

text \<open>\<open>turnstile_block\<close> puts the thread at the place its priority gives it, \<open>i\<close>.\<close>

definition block :: "rwlock \<Rightarrow> nat \<Rightarrow> krw_t \<Rightarrow> nat \<Rightarrow> rwlock" where
  "block s t opn i =
     (if opn = RW_READER then s\<lparr>reader_q := take i (reader_q s) @ t # drop i (reader_q s), thr := (thr s)(t := Blocked opn)\<rparr>
      else s\<lparr>writer_q := take i (writer_q s) @ t # drop i (writer_q s), thr := (thr s)(t := Blocked opn)\<rparr>)"

definition wake_readers :: "rwlock \<Rightarrow> rwlock" where
  "wake_readers s = s\<lparr>reader_q := [], thr := (\<lambda>t. if t \<in> set (reader_q s) then Woken RW_READER else thr s t)\<rparr>"

definition wake_writers :: "rwlock \<Rightarrow> rwlock" where
  "wake_writers s = s\<lparr>writer_q := [], thr := (\<lambda>t. if t \<in> set (writer_q s) then Woken RW_WRITER else thr s t)\<rparr>"

definition wake_writer :: "rwlock \<Rightarrow> nat \<Rightarrow> rwlock" where
  "wake_writer s l = s\<lparr>writer_q := tl (writer_q s), thr := (thr s)(l := Woken RW_WRITER)\<rparr>"

section \<open>Steps of a thread\<close>

text \<open>\<open>rw_vector_enter\<close>: the top of the loop with \<open>owner\<close> in hand, the check for locking against myself,
  the reload under the turnstile chain lock, the second compare-and-swap, and the return from
  \<open>turnstile_block\<close>.  \<open>oncpu\<close> is the answer of \<open>rw_oncpu\<close>.\<close>

definition enter_top :: "rwlock \<Rightarrow> u64 \<Rightarrow> nat \<Rightarrow> krw_t \<Rightarrow> u64 \<Rightarrow> rwlock" where
  "enter_top s curthread t opn owner =
     (if owner AND need_wait opn = 0 then
        if rw_owner s = owner
        then goto (set_owner s ((owner + incr opn curthread) AND NOT RW_WRITE_WANTED)) t (Held opn)
        else goto s t (Enter opn (rw_owner s))
      else if rw_owner s AND RW_THREAD = curthread then goto s t Aborted
      else goto s t (Lookup opn))"

definition enter_spun :: "rwlock \<Rightarrow> nat \<Rightarrow> krw_t \<Rightarrow> rwlock" where
  "enter_spun s t opn = (if rw_owner s AND need_wait opn = 0 then goto s t (Enter opn (rw_owner s)) else s)"

definition enter_lookup :: "rwlock \<Rightarrow> nat \<Rightarrow> krw_t \<Rightarrow> bool \<Rightarrow> rwlock" where
  "enter_lookup s t opn oncpu =
     (if rw_owner s AND need_wait opn = 0 \<or> oncpu then goto s t (Enter opn (rw_owner s))
      else goto s t (Sleep opn (rw_owner s)))"

definition enter_sleep :: "rwlock \<Rightarrow> nat \<Rightarrow> krw_t \<Rightarrow> u64 \<Rightarrow> nat \<Rightarrow> rwlock" where
  "enter_sleep s t opn owner i =
     (if rw_owner s = owner then block (set_owner s (owner OR set_wait opn)) t opn i
      else goto s t (Enter opn (rw_owner s)))"

definition enter_woken :: "rwlock \<Rightarrow> u64 \<Rightarrow> nat \<Rightarrow> krw_t \<Rightarrow> rwlock" where
  "enter_woken s curthread t opn =
     (if opn = RW_READER \<or> rw_owner s AND RW_THREAD = curthread then goto s t (Held opn)
      else goto s t (Reload opn))"

text \<open>\<open>rw_vector_exit\<close>: the start, the loop, and the hand-off.\<close>

definition exit_start :: "rwlock \<Rightarrow> u64 \<Rightarrow> nat \<Rightarrow> rwlock" where
  "exit_start s curthread t =
     (let owner = rw_owner s in
      if owner AND RW_WRITE_LOCKED \<noteq> 0 then
        if owner AND RW_THREAD = curthread then goto s t (Exiting (curthread OR RW_WRITE_LOCKED) owner) else goto s t Aborted
      else if owner AND RW_THREAD \<noteq> 0 then goto s t (Exiting RW_READ_INCR owner) else goto s t Aborted)"

definition exit_loop :: "rwlock \<Rightarrow> nat \<Rightarrow> u64 \<Rightarrow> u64 \<Rightarrow> rwlock" where
  "exit_loop s t decr owner =
     (let newown = owner - decr in
      if newown AND (RW_THREAD OR RW_HAS_WAITERS) = RW_HAS_WAITERS then goto s t (Give decr)
      else if rw_owner s = owner then goto (set_owner s newown) t Idle
      else goto s t (Exiting decr (rw_owner s)))"

definition exit_give :: "rwlock \<Rightarrow> (nat \<Rightarrow> u64) \<Rightarrow> nat \<Rightarrow> u64 \<Rightarrow> rwlock" where
  "exit_give s addr t decr =
     (let owner = rw_owner s; wcnt = length (writer_q s); rcnt = length (reader_q s) in
      if owner AND RW_HAS_WAITERS = 0 then goto s t Aborted
      else if rcnt = 0 \<or> decr = RW_READ_INCR then
        if wcnt = 0 \<or> owner AND RW_WRITE_WANTED = 0 then goto s t Aborted
        else if rcnt \<noteq> 0 then
          let l = hd (writer_q s);
              newown = addr l OR RW_WRITE_LOCKED OR RW_HAS_WAITERS;
              newown = (if wcnt > 1 then newown OR RW_WRITE_WANTED else newown)
          in goto (wake_writer (set_owner s newown) l) t Idle
        else goto (wake_writers (set_owner s RW_WRITE_WANTED)) t Idle
      else
        let newown = rcnt_shift rcnt;
            newown = (if wcnt \<noteq> 0 then newown OR (RW_HAS_WAITERS OR RW_WRITE_WANTED) else newown)
        in goto (wake_readers (set_owner s newown)) t Idle)"

text \<open>\<open>rw_vector_tryenter\<close>.\<close>

definition try_top :: "rwlock \<Rightarrow> nat \<Rightarrow> krw_t \<Rightarrow> rwlock" where
  "try_top s t opn =
     (if rw_owner s AND need_wait opn \<noteq> 0 then goto s t Idle else goto s t (TryCas opn (rw_owner s)))"

definition try_cas :: "rwlock \<Rightarrow> u64 \<Rightarrow> nat \<Rightarrow> krw_t \<Rightarrow> u64 \<Rightarrow> rwlock" where
  "try_cas s curthread t opn owner =
     (if rw_owner s = owner then goto (set_owner s (owner + incr opn curthread)) t (Held opn)
      else goto s t (TryTop opn))"

text \<open>\<open>rw_downgrade\<close>: the start, the easy way, and the loop under the turnstile chain lock.\<close>

definition down_start :: "rwlock \<Rightarrow> u64 \<Rightarrow> nat \<Rightarrow> rwlock" where
  "down_start s curthread t =
     (let owner = rw_owner s in
      if owner AND RW_WRITE_LOCKED = 0 \<or> owner AND RW_THREAD \<noteq> curthread then goto s t Aborted
      else if owner AND RW_HAS_WAITERS = 0 then goto s t (DownCas owner) else goto s t (DownWait owner))"

definition down_cas :: "rwlock \<Rightarrow> nat \<Rightarrow> u64 \<Rightarrow> rwlock" where
  "down_cas s t owner =
     (if rw_owner s = owner then goto (set_owner s RW_READ_INCR) t (Held RW_READER)
      else goto s t (DownWait (rw_owner s)))"

definition down_wait :: "rwlock \<Rightarrow> nat \<Rightarrow> u64 \<Rightarrow> rwlock" where
  "down_wait s t owner =
     (let rcnt = length (reader_q s); wcnt = length (writer_q s) in
      if rcnt = 0 \<and> wcnt = 0 then goto s t Aborted
      else if rcnt = 0 then
        if rw_owner s AND RW_WRITE_WANTED = 0 \<or> rw_owner s AND RW_HAS_WAITERS = 0 then goto s t Aborted
        else if rw_owner s = owner
        then goto (set_owner s (RW_READ_INCR OR RW_HAS_WAITERS OR RW_WRITE_WANTED)) t (Held RW_READER)
        else goto s t (DownWait (rw_owner s))
      else
        let newown = rcnt_shift rcnt + RW_READ_INCR;
            newown = (if wcnt \<noteq> 0 then newown OR (RW_HAS_WAITERS OR RW_WRITE_WANTED) else newown)
        in if rw_owner s = owner then goto (wake_readers (set_owner s newown)) t (Held RW_READER)
           else goto s t (DownWait (rw_owner s)))"

text \<open>\<open>rw_tryupgrade\<close>: the assertion and the load, and the loop.\<close>

definition upgrade_start :: "rwlock \<Rightarrow> nat \<Rightarrow> rwlock" where
  "upgrade_start s t =
     (if rw_read_held (rw_owner s) then goto s t (Upgrade (rw_owner s)) else goto s t Aborted)"

definition upgrade_loop :: "rwlock \<Rightarrow> u64 \<Rightarrow> nat \<Rightarrow> u64 \<Rightarrow> rwlock" where
  "upgrade_loop s curthread t owner =
     (if owner AND RW_WRITE_LOCKED \<noteq> 0 then goto s t Aborted
      else if owner AND RW_THREAD \<noteq> RW_READ_INCR then
        if owner AND RW_THREAD = 0 then goto s t Aborted else goto s t (Held RW_READER)
      else if rw_owner s = owner
      then goto (set_owner s (curthread OR RW_WRITE_LOCKED OR (owner AND NOT RW_THREAD))) t (Held RW_WRITER)
      else goto s t (Upgrade (rw_owner s)))"

section \<open>The system\<close>

text \<open>A thread asks for the lock only while it does not hold it, and releases, downgrades or upgrades
  what it holds.\<close>

inductive rw_step :: "nat \<Rightarrow> (nat \<Rightarrow> u64) \<Rightarrow> rwlock \<Rightarrow> rwlock \<Rightarrow> bool" for n addr where
  "t < n \<Longrightarrow> thr s t = Idle \<Longrightarrow> rw_step n addr s (goto s t (Enter opn (rw_owner s)))"
| "t < n \<Longrightarrow> thr s t = Idle \<Longrightarrow> rw_step n addr s (goto s t (TryTop opn))"
| "t < n \<Longrightarrow> thr s t = Enter opn v \<Longrightarrow> rw_step n addr s (enter_top s (addr t) t opn v)"
| "t < n \<Longrightarrow> thr s t = Lookup opn \<Longrightarrow> rw_step n addr s (enter_spun s t opn)"
| "t < n \<Longrightarrow> thr s t = Lookup opn \<Longrightarrow> rw_step n addr s (enter_lookup s t opn oncpu)"
| "t < n \<Longrightarrow> thr s t = Sleep opn v \<Longrightarrow> rw_step n addr s (enter_sleep s t opn v i)"
| "t < n \<Longrightarrow> thr s t = Woken opn \<Longrightarrow> rw_step n addr s (enter_woken s (addr t) t opn)"
| "t < n \<Longrightarrow> thr s t = Reload opn \<Longrightarrow> rw_step n addr s (goto s t (Enter opn (rw_owner s)))"
| "t < n \<Longrightarrow> thr s t = TryTop opn \<Longrightarrow> rw_step n addr s (try_top s t opn)"
| "t < n \<Longrightarrow> thr s t = TryCas opn v \<Longrightarrow> rw_step n addr s (try_cas s (addr t) t opn v)"
| "t < n \<Longrightarrow> thr s t = Held opn \<Longrightarrow> rw_step n addr s (exit_start s (addr t) t)"
| "t < n \<Longrightarrow> thr s t = Exiting decr v \<Longrightarrow> rw_step n addr s (exit_loop s t decr v)"
| "t < n \<Longrightarrow> thr s t = Give decr \<Longrightarrow> rw_step n addr s (exit_give s addr t decr)"
| "t < n \<Longrightarrow> thr s t = Held RW_WRITER \<Longrightarrow> rw_step n addr s (down_start s (addr t) t)"
| "t < n \<Longrightarrow> thr s t = DownCas v \<Longrightarrow> rw_step n addr s (down_cas s t v)"
| "t < n \<Longrightarrow> thr s t = DownWait v \<Longrightarrow> rw_step n addr s (down_wait s t v)"
| "t < n \<Longrightarrow> thr s t = Held RW_READER \<Longrightarrow> rw_step n addr s (upgrade_start s t)"
| "t < n \<Longrightarrow> thr s t = Upgrade v \<Longrightarrow> rw_step n addr s (upgrade_loop s (addr t) t v)"

definition rw_init :: rwlock where
  "rw_init = \<lparr>rw_owner = 0, reader_q = [], writer_q = [], thr = (\<lambda>_. Idle)\<rparr>"

inductive rw_reachable :: "nat \<Rightarrow> (nat \<Rightarrow> u64) \<Rightarrow> rwlock \<Rightarrow> bool" for n addr where
  rw_start: "rw_reachable n addr rw_init"
| rw_next: "rw_reachable n addr s \<Longrightarrow> rw_step n addr s s' \<Longrightarrow> rw_reachable n addr s'"

end
