(* ===== verification/Rwlock_Correct.thy ===== *)
theory Rwlock_Correct
  imports Rwlock
begin

text \<open>
  The owner word of a reader/writer lock as a number and three flags, and the invariant of the
  lock over every interleaving: the word says who holds the lock, the flags agree with the
  sleep queues, and where a thread sleeps there is one awake that will hand the lock on.
\<close>

section \<open>The fields of the owner word\<close>

definition flags :: "bool \<Rightarrow> bool \<Rightarrow> bool \<Rightarrow> nat" where
  "flags l w h = of_bool l * 4 + of_bool w * 2 + of_bool h"

lemma flags_less: "flags l w h < 8"
  by (cases l; cases w; cases h) (simp_all add: flags_def)

lemma bit_flags: "bit (flags l w h) i \<longleftrightarrow> (i = 0 \<and> h) \<or> (i = 1 \<and> w) \<or> (i = 2 \<and> l)"
proof (cases "i < 3")
  case True
  then have "i = 0 \<or> i = 1 \<or> i = 2" by auto
  then show ?thesis by (cases l; cases w; cases h) (auto simp: flags_def bit_iff_odd)
next
  case False
  have "flags l w h < 2 ^ 3" using flags_less by simp
  also have "\<dots> \<le> 2 ^ i" using False by (intro power_increasing) simp_all
  finally show ?thesis using False by (simp add: bit_iff_odd)
qed

text \<open>\<open>x\<close> is the read count or the address of the owner divided by 16; \<open>l\<close>, \<open>w\<close> and \<open>h\<close> are write
  locked, write wanted and has waiters.\<close>

definition pk :: "nat \<Rightarrow> bool \<Rightarrow> bool \<Rightarrow> bool \<Rightarrow> u64" where
  "pk x l w h = of_nat (16 * x + flags l w h)"

lemma pk_or: "pk x l w h = push_bit 4 (of_nat x) OR of_nat (flags l w h)"
proof -
  have "push_bit 4 x OR take_bit 4 (flags l w h) = push_bit 4 x + take_bit 4 (flags l w h)"
    by (rule disjunctive_add [symmetric]) (auto simp: bit_simps)
  moreover have "take_bit 4 (flags l w h) = flags l w h" using flags_less [of l w h] by (simp add: take_bit_nat_eq_self)
  ultimately have "16 * x + flags l w h = push_bit 4 x OR flags l w h" by (simp add: push_bit_eq_mult)
  then show ?thesis by (simp add: pk_def of_nat_or_eq of_nat_push_bit)
qed

lemma bit_pk: "bit (pk x l w h) i \<longleftrightarrow> i < 64 \<and> ((i = 0 \<and> h) \<or> (i = 1 \<and> w) \<or> (i = 2 \<and> l) \<or> (4 \<le> i \<and> bit x (i - 4)))"
  unfolding pk_or by (auto simp: bit_simps bit_flags bit_of_nat_iff)

lemma bit_RW_THREAD: "bit RW_THREAD i \<longleftrightarrow> 4 \<le> i \<and> i < 64"
proof -
  have m: "RW_THREAD = NOT (mask 4)" by (simp add: RW_THREAD_def RW_READ_INCR_def mask_eq_exp_minus_1 not_eq_complement)
  show ?thesis unfolding m by (auto simp: bit_simps)
qed

lemma pk_consts:
  "RW_HAS_WAITERS = pk 0 False False True" "RW_WRITE_WANTED = pk 0 False True False"
  "RW_WRITE_LOCKED = pk 0 True False False" "RW_READ_INCR = pk (Suc 0) False False False" "0 = pk 0 False False False"
  by (simp_all add: pk_def flags_def RW_HAS_WAITERS_def RW_WRITE_WANTED_def RW_WRITE_LOCKED_def RW_READ_INCR_def)

lemma pk_logic:
  "pk x l w h OR pk 0 l' w' h' = pk x (l \<or> l') (w \<or> w') (h \<or> h')"
  "pk x l w h AND pk 0 l' w' h' = pk 0 (l \<and> l') (w \<and> w') (h \<and> h')"
  "pk x l w h AND RW_THREAD = pk x False False False"
  "pk x l w h AND NOT RW_THREAD = pk 0 l w h"
  "pk x l w h AND (pk 0 True False False OR RW_THREAD) = pk x l False False"
  "pk x l w h AND (RW_THREAD OR pk 0 False False True) = pk x False False h"
  "pk x l w h AND NOT (pk 0 False True False) = pk x l False h"
  by (rule bit_word_eqI, auto simp: bit_simps bit_pk bit_RW_THREAD)+

lemma pk_arith:
  "pk x l w h + pk (Suc 0) False False False = pk (Suc x) l w h"
  "pk 0 False w h + pk x True False False = pk x True w h"
  "pk (Suc x) l w h - pk (Suc 0) False False False = pk x l w h"
  "pk x True w h - pk x True False False = pk 0 False w h"
  by (simp_all add: pk_def flags_def algebra_simps)

lemma pk_eq:
  assumes "x < 2 ^ 60" and "y < 2 ^ 60"
  shows "pk x l w h = pk y l' w' h' \<longleftrightarrow> x = y \<and> l = l' \<and> w = w' \<and> h = h'"
proof
  assume eq: "pk x l w h = pk y l' w' h'"
  have bits: "bit (pk x l w h) i = bit (pk y l' w' h') i" for i using eq by simp
  have "bit x i = bit y i" for i
  proof (cases "i < 60")
    case True
    then show ?thesis using bits [of "i + 4"] by (simp add: bit_pk)
  next
    case False
    then have "x < 2 ^ i" "y < 2 ^ i" using assms power_increasing [of 60 i "2::nat"] by (auto intro: order_less_le_trans)
    then show ?thesis by (simp add: bit_iff_odd)
  qed
  then have "x = y" by (rule bit_eqI)
  then show "x = y \<and> l = l' \<and> w = w' \<and> h = h'" using bits [of 0] bits [of 1] bits [of 2] by (simp add: bit_pk)
qed simp

lemma rcnt_shift_pk: "n < 2 ^ 27 \<Longrightarrow> rcnt_shift n = pk n False False False"
proof -
  assume n: "n < 2 ^ 27"
  have p: "push_bit 4 (of_nat n :: u32) = of_nat (16 * n)" by (simp add: push_bit_eq_mult)
  have "16 * n < 2 ^ 31" using n by simp
  then have "sint (of_nat (16 * n) :: u32) = int (16 * n)"
    by (simp add: signed_of_nat signed_take_bit_int_eq_self del: of_nat_mult)
  then have "(scast (of_nat (16 * n) :: u32) :: u64) = word_of_int (int (16 * n))" by (metis scast_eq)
  then show ?thesis unfolding rcnt_shift_def p by (simp add: pk_def flags_def)
qed

section \<open>The invariant\<close>

text \<open>Thread structures are aligned, distinct, and lie above the addresses that a count of all threads
  could be mistaken for.\<close>

definition threads_ok :: "nat \<Rightarrow> (nat \<Rightarrow> u64) \<Rightarrow> bool" where
  "threads_ok n addr \<longleftrightarrow> n < 2 ^ 27 \<and> inj_on addr {..<n} \<and> (\<forall>t < n. addr t AND 15 = 0 \<and> 16 * n < unat (addr t))"

definition num :: "(nat \<Rightarrow> u64) \<Rightarrow> nat \<Rightarrow> nat" where
  "num addr t = unat (addr t) div 16"

fun reading :: "rthread \<Rightarrow> bool" where
  "reading (Held opn) = (opn = RW_READER)"
| "reading (Woken opn) = (opn = RW_READER)"
| "reading (Exiting decr v) = (decr = RW_READ_INCR)"
| "reading (Give decr) = (decr = RW_READ_INCR)"
| "reading (Upgrade v) = True"
| "reading _ = False"

fun writing :: "rthread \<Rightarrow> bool" where
  "writing (Held opn) = (opn = RW_WRITER)"
| "writing (Exiting decr v) = (decr \<noteq> RW_READ_INCR)"
| "writing (Give decr) = (decr \<noteq> RW_READ_INCR)"
| "writing (DownCas v) = True"
| "writing (DownWait v) = True"
| "writing _ = False"

text \<open>A writer that is awake in \<open>rw_vector_enter\<close>.\<close>

fun seeking :: "rthread \<Rightarrow> bool" where
  "seeking (Enter opn v) = (opn = RW_WRITER)"
| "seeking (Lookup opn) = (opn = RW_WRITER)"
| "seeking (Sleep opn v) = (opn = RW_WRITER)"
| "seeking (Reload opn) = (opn = RW_WRITER)"
| "seeking _ = False"

text \<open>What the local variables of a thread say about the lock.\<close>

fun local_ok :: "nat \<Rightarrow> rthread \<Rightarrow> nat \<Rightarrow> bool \<Rightarrow> bool \<Rightarrow> bool" where
  "local_ok a (Exiting decr v) x w h =
     (if decr = RW_READ_INCR
      then \<exists>x' w' h'. v = pk x' False w' h' \<and> 1 \<le> x' \<and> x' < 2 ^ 60 \<and> (x' = 1 \<and> h' \<longrightarrow> x = 1 \<and> h)
      else decr = pk a True False False \<and> (\<exists>w' h'. v = pk a True w' h' \<and> (h' \<longrightarrow> h)))"
| "local_ok a (Give decr) x w h = (h \<and> (if decr = RW_READ_INCR then x = 1 else decr = pk a True False False))"
| "local_ok a (DownCas v) x w h = (\<exists>w'. v = pk a True w' False \<and> (h \<or> w = w'))"
| "local_ok a (DownWait v) x w h = h"
| "local_ok a (Upgrade v) x w h = (\<exists>x' w' h'. v = pk x' False w' h' \<and> 1 \<le> x' \<and> x' < 2 ^ 60)"
| "local_ok a (Sleep opn v) x w h = (v AND need_wait opn \<noteq> 0)"
| "local_ok a (TryCas opn v) x w h = (v AND need_wait opn = 0)"
| "local_ok a Aborted x w h = False"
| "local_ok a _ x w h = True"

text \<open>The queues agree with the threads and the flags.\<close>

definition queues_ok :: "nat \<Rightarrow> rwlock \<Rightarrow> bool \<Rightarrow> bool \<Rightarrow> bool" where
  "queues_ok n s w h \<longleftrightarrow> (h \<longleftrightarrow> reader_q s \<noteq> [] \<or> writer_q s \<noteq> []) \<and> (writer_q s \<noteq> [] \<longrightarrow> w) \<and>
     distinct (reader_q s) \<and> distinct (writer_q s) \<and>
     (\<forall>t. t \<in> set (reader_q s) \<longleftrightarrow> thr s t = Blocked RW_READER) \<and>
     (\<forall>t. t \<in> set (writer_q s) \<longleftrightarrow> thr s t = Blocked RW_WRITER) \<and> (\<forall>t \<ge> n. thr s t = Idle)"

definition write_locked :: "nat \<Rightarrow> (nat \<Rightarrow> u64) \<Rightarrow> rwlock \<Rightarrow> nat \<Rightarrow> bool" where
  "write_locked n addr s x \<longleftrightarrow> (\<exists>t < n. x = num addr t \<and> (writing (thr s t) \<or> thr s t = Woken RW_WRITER) \<and>
     (\<forall>u. u \<noteq> t \<longrightarrow> \<not> writing (thr s u)) \<and> (\<forall>u. \<not> reading (thr s u)))"

definition read_locked :: "rwlock \<Rightarrow> nat \<Rightarrow> bool \<Rightarrow> bool \<Rightarrow> bool" where
  "read_locked s x w h \<longleftrightarrow> x = card {t. reading (thr s t)} \<and> (\<forall>u. \<not> writing (thr s u)) \<and>
     (0 < x \<and> (w \<or> h) \<longrightarrow> writer_q s \<noteq> []) \<and> (x = 0 \<longrightarrow> writer_q s = [] \<and> (reader_q s \<noteq> [] \<longrightarrow> w))"

definition progress :: "(nat \<Rightarrow> u64) \<Rightarrow> rwlock \<Rightarrow> nat \<Rightarrow> bool \<Rightarrow> bool \<Rightarrow> bool" where
  "progress addr s x l w \<longleftrightarrow> (w \<and> writer_q s = [] \<longrightarrow>
     (\<exists>t. seeking (thr s t) \<or> thr s t = Woken RW_WRITER \<and> \<not> (l \<and> x = num addr t)))"

definition rw_inv :: "nat \<Rightarrow> (nat \<Rightarrow> u64) \<Rightarrow> rwlock \<Rightarrow> nat \<Rightarrow> bool \<Rightarrow> bool \<Rightarrow> bool \<Rightarrow> bool" where
  "rw_inv n addr s x l w h \<longleftrightarrow> rw_owner s = pk x l w h \<and> queues_ok n s w h \<and>
     (if l then write_locked n addr s x else read_locked s x w h) \<and> progress addr s x l w \<and>
     (\<forall>t. local_ok (num addr t) (thr s t) x w h)"

lemma addr_pk:
  assumes "threads_ok n addr" and "t < n"
  shows "addr t = pk (num addr t) False False False \<and> n < num addr t \<and> num addr t < 2 ^ 60"
proof -
  have a: "addr t AND 15 = 0" "16 * n < unat (addr t)" using assms by (auto simp: threads_ok_def)
  have "unat (addr t AND mask 4) = take_bit 4 (unat (addr t))"
    by (simp only: take_bit_eq_mask [symmetric] unsigned_take_bit_eq)
  then have "unat (addr t) mod 16 = unat (addr t AND mask 4)" by (simp add: take_bit_eq_mod)
  also have "\<dots> = 0" using a(1) by (simp add: mask_eq_exp_minus_1)
  finally have m: "16 * num addr t = unat (addr t)" unfolding num_def by presburger
  then have "addr t = of_nat (16 * num addr t)" by simp
  moreover have "unat (addr t) < 2 ^ 64" by (rule unat_u64_less)
  ultimately show ?thesis using m a(2) by (simp add: pk_def flags_def)
qed

lemma num_inj: "threads_ok n addr \<Longrightarrow> t < n \<Longrightarrow> u < n \<Longrightarrow> num addr t = num addr u \<Longrightarrow> t = u"
  using addr_pk [of n addr t] addr_pk [of n addr u] by (auto simp: threads_ok_def inj_on_def)

lemma goto_simps [simp]:
  "rw_owner (goto s t st) = rw_owner s" "reader_q (goto s t st) = reader_q s" "writer_q (goto s t st) = writer_q s"
  "thr (goto s t st) = (thr s)(t := st)"
  "rw_owner (set_owner s v) = v" "reader_q (set_owner s v) = reader_q s" "writer_q (set_owner s v) = writer_q s"
  "thr (set_owner s v) = thr s"
  by (simp_all add: goto_def set_owner_def)

lemma card_reading:
  assumes "queues_ok n s w h"
  shows "finite {t. reading (thr s t)}" "card {t. reading (thr s t)} \<le> n"
proof -
  have sub: "{t. reading (thr s t)} \<subseteq> {..<n}" using assms by (force simp: queues_ok_def not_le [symmetric])
  then show "finite {t. reading (thr s t)}" by (rule finite_subset) simp
  show "card {t. reading (thr s t)} \<le> n" using card_mono [OF _ sub] by simp
qed

lemma reading_upd:
  "{u. reading (((thr s)(t := st)) u)} =
    (if reading st then insert t {u. reading (thr s u)} else {u. reading (thr s u)} - {t})"
  by auto

text \<open>A step that changes only the thread, and neither what it holds nor its search.\<close>

lemma inv_goto:
  assumes "rw_inv n addr s x l w h" and "t < n"
    and "reading st = reading (thr s t)" and "writing st = writing (thr s t)" and "seeking (thr s t) \<longrightarrow> seeking st"
    and "\<forall>opn. st \<noteq> Blocked opn \<and> thr s t \<noteq> Blocked opn" and "thr s t \<noteq> Woken RW_WRITER"
    and "local_ok (num addr t) st x w h"
  shows "rw_inv n addr (goto s t st) x l w h"
proof -
  have "queues_ok n (goto s t st) w h" using assms(1,2,6) by (auto simp: rw_inv_def queues_ok_def)
  moreover have "write_locked n addr (goto s t st) x" if l: l
  proof -
    obtain o' where o: "o' < n" "x = num addr o'" "writing (thr s o') \<or> thr s o' = Woken RW_WRITER"
      "\<forall>u. u \<noteq> o' \<longrightarrow> \<not> writing (thr s u)" "\<forall>u. \<not> reading (thr s u)"
      using assms(1) l by (auto simp: rw_inv_def write_locked_def)
    then show ?thesis unfolding write_locked_def using assms(3,4,7) by (intro exI [of _ o']) auto
  qed
  moreover have "read_locked (goto s t st) x w h" if "\<not> l"
  proof -
    have "{u. reading (thr (goto s t st) u)} = {u. reading (thr s u)}" using assms(3) by auto
    then show ?thesis using assms(1,4) that by (auto simp: rw_inv_def read_locked_def)
  qed
  moreover have "progress addr (goto s t st) x l w"
    unfolding progress_def
  proof
    assume "w \<and> writer_q (goto s t st) = []"
    then obtain u where "seeking (thr s u) \<or> thr s u = Woken RW_WRITER \<and> \<not> (l \<and> x = num addr u)"
      using assms(1) by (auto simp: rw_inv_def progress_def)
    then show "\<exists>t'. seeking (thr (goto s t st) t') \<or> thr (goto s t st) t' = Woken RW_WRITER \<and> \<not> (l \<and> x = num addr t')"
      using assms(5,7) by (intro exI [of _ u]) auto
  qed
  ultimately show ?thesis using assms(1,8) by (auto simp: rw_inv_def)
qed

section \<open>Changes of the owner word\<close>

lemma local_indep: "\<not> reading st \<Longrightarrow> \<not> writing st \<Longrightarrow> local_ok a st x w h = local_ok a st x' w' h'"
  by (cases st) auto

lemma state_disj:
  "writing st \<Longrightarrow> \<not> reading st \<and> \<not> seeking st \<and> st \<noteq> Woken RW_WRITER \<and> st \<noteq> Idle \<and> (\<forall>opn. st \<noteq> Blocked opn)"
  "reading st \<Longrightarrow> \<not> writing st \<and> \<not> seeking st \<and> st \<noteq> Woken RW_WRITER \<and> st \<noteq> Idle \<and> (\<forall>opn. st \<noteq> Blocked opn)"
  by (cases st; auto)+

lemma locals_quiet:
  assumes "\<forall>u. local_ok (num addr u) (thr s u) x w h" and "\<forall>u. u \<noteq> t \<longrightarrow> \<not> reading (thr s u) \<and> \<not> writing (thr s u)"
    and "local_ok (num addr t) st x' w' h'"
  shows "\<forall>u. local_ok (num addr u) (((thr s)(t := st)) u) x' w' h'"
proof
  fix u
  show "local_ok (num addr u) (((thr s)(t := st)) u) x' w' h'"
  proof (cases "u = t")
    case True
    then show ?thesis using assms(3) by simp
  next
    case False
    then have "\<not> reading (thr s u)" "\<not> writing (thr s u)" using assms(2) by auto
    from local_indep [OF this] assms(1) False show ?thesis by (metis fun_upd_other)
  qed
qed

lemma rw_inv_readI:
  "rw_owner s = pk x False w h \<Longrightarrow> queues_ok n s w h \<Longrightarrow> read_locked s x w h \<Longrightarrow> progress addr s x False w \<Longrightarrow>
    \<forall>t. local_ok (num addr t) (thr s t) x w h \<Longrightarrow> rw_inv n addr s x False w h"
  by (simp add: rw_inv_def)

lemma rw_inv_writeI:
  "rw_owner s = pk x True w h \<Longrightarrow> queues_ok n s w h \<Longrightarrow> write_locked n addr s x \<Longrightarrow> progress addr s x True w \<Longrightarrow>
    \<forall>t. local_ok (num addr t) (thr s t) x w h \<Longrightarrow> rw_inv n addr s x True w h"
  by (simp add: rw_inv_def)

definition quiet :: "rthread \<Rightarrow> bool" where
  "quiet st \<longleftrightarrow> \<not> reading st \<and> \<not> writing st \<and> (\<forall>opn. st \<noteq> Blocked opn) \<and> st \<noteq> Woken RW_WRITER"

lemma acquire_read:
  assumes inv: "rw_inv n addr s x False False h" and t: "t < n" "quiet (thr s t)"
  shows "rw_inv n addr (goto (set_owner s (pk (Suc x) False False h)) t (Held RW_READER)) (Suc x) False False h"
proof (rule rw_inv_readI)
  let ?s = "goto (set_owner s (pk (Suc x) False False h)) t (Held RW_READER)"
  have q: "queues_ok n s False h" and r: "read_locked s x False h" using inv by (auto simp: rw_inv_def)
  have h: "\<not> h" "writer_q s = []" "reader_q s = []" using q r by (auto simp: queues_ok_def read_locked_def)
  show "rw_owner ?s = pk (Suc x) False False h" by simp
  show "queues_ok n ?s False h" using q t by (auto simp: queues_ok_def quiet_def)
  have c: "{u. reading (thr ?s u)} = insert t {u. reading (thr s u)}" by auto
  show "read_locked ?s (Suc x) False h"
    unfolding read_locked_def c using r t h card_reading [OF q] by (auto simp: read_locked_def quiet_def)
  show "progress addr ?s (Suc x) False False" by (simp add: progress_def)
  show "\<forall>u. local_ok (num addr u) (thr ?s u) (Suc x) False h"
  proof
    fix u
    have "local_ok (num addr u) (thr s u) x False h" "\<not> writing (thr s u)" using inv by (auto simp: rw_inv_def read_locked_def)
    then show "local_ok (num addr u) (thr ?s u) (Suc x) False h" using h(1) by (cases "thr s u") (auto split: if_splits)
  qed
qed

lemma unlocked_none:
  assumes "rw_inv n addr s 0 False w h"
  shows "\<not> reading (thr s u)" "\<not> writing (thr s u)"
proof -
  have q: "queues_ok n s w h" and r: "read_locked s 0 w h" using assms by (auto simp: rw_inv_def)
  show "\<not> reading (thr s u)" "\<not> writing (thr s u)" using r card_reading [OF q] by (auto simp: read_locked_def)
qed

lemma not_idle: "rw_inv n addr s x l w h \<Longrightarrow> thr s u \<noteq> Idle \<Longrightarrow> u < n"
  by (meson not_le queues_ok_def rw_inv_def)

lemma acquire_write:
  assumes T: "threads_ok n addr" and inv: "rw_inv n addr s 0 False w h" and t: "t < n" "quiet (thr s t)" and w': "w' \<longrightarrow> w \<and> \<not> seeking (thr s t)"
  shows "rw_inv n addr (goto (set_owner s (pk (num addr t) True w' h)) t (Held RW_WRITER)) (num addr t) True w' h"
proof (rule rw_inv_writeI)
  let ?s = "goto (set_owner s (pk (num addr t) True w' h)) t (Held RW_WRITER)"
  note none = unlocked_none [OF inv]
  have q: "queues_ok n s w h" and r: "read_locked s 0 w h" using inv by (auto simp: rw_inv_def)
  show "rw_owner ?s = pk (num addr t) True w' h" by simp
  show "queues_ok n ?s w' h" using q r t by (auto simp: queues_ok_def quiet_def read_locked_def)
  show "write_locked n addr ?s (num addr t)" unfolding write_locked_def using none t by (intro exI [of _ t]) auto
  show "progress addr ?s (num addr t) True w'"
    unfolding progress_def
  proof
    assume "w' \<and> writer_q ?s = []"
    then obtain u where "seeking (thr s u) \<or> thr s u = Woken RW_WRITER" "u \<noteq> t"
      using inv w' t by (auto simp: rw_inv_def progress_def quiet_def)
    then show "\<exists>u. seeking (thr ?s u) \<or> thr ?s u = Woken RW_WRITER \<and> \<not> (True \<and> num addr t = num addr u)"
      using num_inj [OF T t(1) not_idle [OF inv, of u]] by (intro exI [of _ u]) auto
  qed
  show "\<forall>u. local_ok (num addr u) (thr ?s u) (num addr t) w' h"
    using inv none by (simp only: goto_simps, intro locals_quiet [of addr s 0 w h]) (auto simp: rw_inv_def)
qed

lemma release_read:
  assumes inv: "rw_inv n addr s (Suc x) False w h" and t: "reading (thr s t)" "\<forall>opn. thr s t \<noteq> Blocked opn" and nw: "\<not> (x = 0 \<and> h)"
  shows "rw_inv n addr (goto (set_owner s (pk x False w h)) t Idle) x False w h"
proof (rule rw_inv_readI)
  let ?s = "goto (set_owner s (pk x False w h)) t Idle"
  have q: "queues_ok n s w h" and r: "read_locked s (Suc x) w h" using inv by (auto simp: rw_inv_def)
  have c: "{u. reading (thr ?s u)} = {u. reading (thr s u)} - {t}" by auto
  have x: "card ({u. reading (thr s u)} - {t}) = x" using r t(1) card_reading [OF q] by (auto simp: read_locked_def)
  show "rw_owner ?s = pk x False w h" by simp
  show "queues_ok n ?s w h" using q t by (auto simp: queues_ok_def)
  have r': "\<forall>u. \<not> writing (thr s u)" "w \<or> h \<longrightarrow> writer_q s \<noteq> []" using r by (auto simp: read_locked_def)
  have e: "writer_q s \<noteq> [] \<or> reader_q s \<noteq> [] \<longrightarrow> h" using q by (auto simp: queues_ok_def)
  show "read_locked ?s x w h" unfolding read_locked_def c x using r' e nw by auto
  show "progress addr ?s x False w" using r' by (auto simp: progress_def)
  show "\<forall>u. local_ok (num addr u) (thr ?s u) x w h"
  proof
    fix u
    have "1 \<le> x" if "u \<noteq> t" "reading (thr s u)"
    proof -
      have "u \<in> {u. reading (thr s u)} - {t}" using that by simp
      then have "0 < card ({u. reading (thr s u)} - {t})" using card_reading(1) [OF q] card_gt_0_iff by blast
      then show ?thesis using x by simp
    qed
    moreover have "local_ok (num addr u) (thr s u) (Suc x) w h" "\<not> writing (thr s u)"
      using inv r by (auto simp: rw_inv_def read_locked_def)
    ultimately show "local_ok (num addr u) (thr ?s u) x w h" by (cases "thr s u") (auto split: if_splits)
  qed
qed

text \<open>The owner of a write lock.\<close>

lemma owner_only:
  assumes inv: "rw_inv n addr s x True w h" and t: "writing (thr s t)"
  shows "x = num addr t" "\<forall>u. u \<noteq> t \<longrightarrow> \<not> writing (thr s u)" "\<forall>u. \<not> reading (thr s u)" "t < n"
proof -
  obtain o' where o: "o' < n" "x = num addr o'" "\<forall>u. u \<noteq> o' \<longrightarrow> \<not> writing (thr s u)" "\<forall>u. \<not> reading (thr s u)"
    using inv by (auto simp: rw_inv_def write_locked_def)
  then have "o' = t" using t by metis
  then show "x = num addr t" "\<forall>u. u \<noteq> t \<longrightarrow> \<not> writing (thr s u)" "\<forall>u. \<not> reading (thr s u)" "t < n" using o by auto
qed

lemma writing_locked: "rw_inv n addr s x l w h \<Longrightarrow> writing (thr s t) \<Longrightarrow> l"
  by (auto simp: rw_inv_def read_locked_def split: if_splits)

lemma reading_unlocked: "rw_inv n addr s x l w h \<Longrightarrow> reading (thr s t) \<Longrightarrow> \<not> l \<and> 0 < x"
proof -
  assume inv: "rw_inv n addr s x l w h" and t: "reading (thr s t)"
  then have "\<not> l" by (auto simp: rw_inv_def write_locked_def split: if_splits)
  moreover have "0 < x" using inv t \<open>\<not> l\<close> card_reading [of n s w h] by (auto simp: rw_inv_def read_locked_def card_gt_0_iff)
  ultimately show ?thesis by simp
qed

lemma release_write:
  assumes inv: "rw_inv n addr s x True w False" and t: "writing (thr s t)"
  shows "rw_inv n addr (goto (set_owner s (pk 0 False w False)) t Idle) 0 False w False"
proof (rule rw_inv_readI)
  let ?s = "goto (set_owner s (pk 0 False w False)) t Idle"
  note o = owner_only [OF inv t]
  have q: "queues_ok n s w False" using inv by (auto simp: rw_inv_def)
  show "rw_owner ?s = pk 0 False w False" by simp
  show "queues_ok n ?s w False" using q t by (auto simp: queues_ok_def)
  have c: "{u. reading (thr ?s u)} = {}" using o by auto
  show "read_locked ?s 0 w False" unfolding read_locked_def c using o q by (auto simp: queues_ok_def)
  show "progress addr ?s 0 False w"
    unfolding progress_def
  proof
    assume "w \<and> writer_q ?s = []"
    then obtain u where "seeking (thr s u) \<or> thr s u = Woken RW_WRITER" using inv by (auto simp: rw_inv_def progress_def)
    then show "\<exists>u. seeking (thr ?s u) \<or> thr ?s u = Woken RW_WRITER \<and> \<not> (False \<and> 0 = num addr u)"
      using state_disj(1) [OF t] by (intro exI [of _ u]) auto
  qed
  show "\<forall>u. local_ok (num addr u) (thr ?s u) 0 w False"
    using inv o by (simp only: goto_simps, intro locals_quiet [of addr s x w False]) (auto simp: rw_inv_def)
qed

text \<open>A thread goes to sleep.\<close>

lemma local_mono: "local_ok a st x w h \<Longrightarrow> local_ok a st x w' True"
  by (cases st) (auto split: if_splits)

lemma block_simps [simp]:
  "rw_owner (block s t opn i) = rw_owner s" "thr (block s t opn i) = (thr s)(t := Blocked opn)"
  "reader_q (block s t opn i) = (if opn = RW_READER then take i (reader_q s) @ t # drop i (reader_q s) else reader_q s)"
  "writer_q (block s t opn i) = (if opn = RW_READER then writer_q s else take i (writer_q s) @ t # drop i (writer_q s))"
  by (simp_all add: block_def)

lemma set_insert_at: "set (take i xs @ t # drop i xs) = insert t (set xs)"
  by (metis Un_insert_right append_take_drop_id list.simps(15) set_append)

lemma distinct_insert_at: "t \<notin> set xs \<Longrightarrow> distinct xs \<Longrightarrow> distinct (take i xs @ t # drop i xs)"
  by (auto simp: set_take_disj_set_drop_if_distinct dest: in_set_takeD in_set_dropD)

lemma inv_block:
  assumes inv: "rw_inv n addr s x l w h" and t: "t < n" "quiet (thr s t)"
    and need: "if opn = RW_READER then l \<or> w else l \<or> 0 < x" and sk: "opn = RW_READER \<longrightarrow> \<not> seeking (thr s t)"
  shows "rw_inv n addr (block (set_owner s (pk x l (w \<or> opn = RW_WRITER) True)) t opn i) x l (w \<or> opn = RW_WRITER) True"
proof -
  let ?s = "block (set_owner s (pk x l (w \<or> opn = RW_WRITER) True)) t opn i"
  have q: "queues_ok n s w h" using inv by (auto simp: rw_inv_def)
  have "queues_ok n ?s (w \<or> opn = RW_WRITER) True"
    using q t unfolding queues_ok_def
    by (cases opn) (auto simp: quiet_def set_insert_at distinct_insert_at simp del: set_append distinct.simps distinct_append)
  moreover have "write_locked n addr ?s x" if l: l
  proof -
    obtain o' where "o' < n" "x = num addr o'" "writing (thr s o') \<or> thr s o' = Woken RW_WRITER"
      "\<forall>u. u \<noteq> o' \<longrightarrow> \<not> writing (thr s u)" "\<forall>u. \<not> reading (thr s u)"
      using inv l by (auto simp: rw_inv_def write_locked_def)
    then show ?thesis unfolding write_locked_def using t by (intro exI [of _ o']) (auto simp: quiet_def)
  qed
  moreover have "read_locked ?s x (w \<or> opn = RW_WRITER) True" if l: "\<not> l"
  proof -
    have c: "{u. reading (thr ?s u)} = {u. reading (thr s u)}" using t by (auto simp: quiet_def)
    show ?thesis unfolding read_locked_def c using inv l need by (cases opn) (auto simp: rw_inv_def read_locked_def)
  qed
  moreover have "progress addr ?s x l (w \<or> opn = RW_WRITER)"
    unfolding progress_def
  proof
    assume "(w \<or> opn = RW_WRITER) \<and> writer_q ?s = []"
    then have rw: "opn = RW_READER" "w" "writer_q s = []" by (cases opn; auto)+
    then obtain u where "seeking (thr s u) \<or> thr s u = Woken RW_WRITER \<and> \<not> (l \<and> x = num addr u)"
      using inv by (auto simp: rw_inv_def progress_def)
    then show "\<exists>u. seeking (thr ?s u) \<or> thr ?s u = Woken RW_WRITER \<and> \<not> (l \<and> x = num addr u)"
      using rw(1) sk t by (intro exI [of _ u]) (auto simp: quiet_def)
  qed
  moreover have "\<forall>u. local_ok (num addr u) (thr ?s u) x (w \<or> opn = RW_WRITER) True"
    using inv local_mono [of _ _ x w h "w \<or> opn = RW_WRITER"] by (simp add: rw_inv_def)
  ultimately show ?thesis by (auto simp: rw_inv_def)
qed

section \<open>Handing the lock on\<close>

lemma wake_simps [simp]:
  "rw_owner (wake_readers s) = rw_owner s" "rw_owner (wake_writers s) = rw_owner s" "rw_owner (wake_writer s l) = rw_owner s"
  "reader_q (wake_readers s) = []" "reader_q (wake_writers s) = reader_q s" "reader_q (wake_writer s l) = reader_q s"
  "writer_q (wake_readers s) = writer_q s" "writer_q (wake_writers s) = []" "writer_q (wake_writer s l) = tl (writer_q s)"
  "thr (wake_readers s) u = (if u \<in> set (reader_q s) then Woken RW_READER else thr s u)"
  "thr (wake_writers s) u = (if u \<in> set (writer_q s) then Woken RW_WRITER else thr s u)"
  "thr (wake_writer s l) = (thr s)(l := Woken RW_WRITER)"
  by (simp_all add: wake_readers_def wake_writers_def wake_writer_def)

text \<open>Nobody but \<open>t\<close> holds the lock, so the local variables of the others say nothing about it.\<close>

definition sole :: "rwlock \<Rightarrow> nat \<Rightarrow> bool" where
  "sole s t \<longleftrightarrow> (\<forall>u. u \<noteq> t \<longrightarrow> \<not> reading (thr s u) \<and> \<not> writing (thr s u)) \<and> (reading (thr s t) \<or> writing (thr s t))"

lemma sole_local:
  assumes "rw_inv n addr s x l w h" and "sole s t" and "u \<noteq> t"
  shows "local_ok (num addr u) (thr s u) x' w' h'"
proof -
  have "local_ok (num addr u) (thr s u) x w h" using assms(1) by (simp add: rw_inv_def)
  then show ?thesis using local_indep [of "thr s u"] assms(2,3) unfolding sole_def by metis
qed

lemma sole_notin:
  assumes "rw_inv n addr s x l w h" and "sole s t"
  shows "t \<notin> set (reader_q s)" "t \<notin> set (writer_q s)" "t < n"
  using assms state_disj [of "thr s t"] not_idle [OF assms(1), of t] by (auto simp: rw_inv_def queues_ok_def sole_def)

text \<open>The writer at the head of the queue becomes the owner while readers wait.\<close>

lemma give_writer:
  assumes T: "threads_ok n addr" and inv: "rw_inv n addr s x l w True" and t: "sole s t"
    and wq: "writer_q s = k # ks" and rq: "reader_q s \<noteq> []"
  shows "rw_inv n addr (goto (wake_writer (set_owner s (pk (num addr k) True (ks \<noteq> []) True)) k) t Idle) (num addr k) True (ks \<noteq> []) True"
proof (rule rw_inv_writeI)
  let ?s = "goto (wake_writer (set_owner s (pk (num addr k) True (ks \<noteq> []) True)) k) t Idle"
  have q: "queues_ok n s w True" using inv by (auto simp: rw_inv_def)
  note tn = sole_notin [OF inv t]
  have kb: "thr s k = Blocked RW_WRITER" using wq q by (auto simp: queues_ok_def)
  then have k: "k \<noteq> t" "thr s k = Blocked RW_WRITER" "k < n" using tn(2) wq not_idle [OF inv, of k] by auto
  show "rw_owner ?s = pk (num addr k) True (ks \<noteq> []) True" by simp
  show "queues_ok n ?s (ks \<noteq> []) True"
    using q wq rq tn k unfolding queues_ok_def by (auto split: if_splits)
  show "write_locked n addr ?s (num addr k)"
    unfolding write_locked_def using k t by (intro exI [of _ k]) (auto simp: sole_def)
  show "progress addr ?s (num addr k) True (ks \<noteq> [])" using wq by (simp add: progress_def)
  show "\<forall>u. local_ok (num addr u) (thr ?s u) (num addr k) (ks \<noteq> []) True"
    using sole_local [OF inv t] by simp
qed

text \<open>All writers are woken, no reader waits.\<close>

lemma give_writers:
  assumes inv: "rw_inv n addr s x l w True" and t: "sole s t" and wq: "writer_q s \<noteq> []" and rq: "reader_q s = []"
  shows "rw_inv n addr (goto (wake_writers (set_owner s (pk 0 False True False))) t Idle) 0 False True False"
proof (rule rw_inv_readI)
  let ?s = "goto (wake_writers (set_owner s (pk 0 False True False))) t Idle"
  have q: "queues_ok n s w True" using inv by (auto simp: rw_inv_def)
  note tn = sole_notin [OF inv t]
  show "rw_owner ?s = pk 0 False True False" by simp
  show "queues_ok n ?s True False" using q rq tn unfolding queues_ok_def by (auto split: if_splits)
  have none: "\<not> reading (thr ?s u)" "\<not> writing (thr ?s u)" for u using t by (auto simp: sole_def)
  then show "read_locked ?s 0 True False" using rq by (simp add: read_locked_def)
  have "hd (writer_q s) \<in> set (writer_q s)" using wq by simp
  then show "progress addr ?s 0 False True"
    unfolding progress_def using tn(2) by (intro impI exI [of _ "hd (writer_q s)"]) auto
  show "\<forall>u. local_ok (num addr u) (thr ?s u) 0 True False" using sole_local [OF inv t] by simp
qed

text \<open>All waiting readers get the lock; with \<open>keep\<close> the thread that held it for writing stays as a reader.\<close>

lemma give_readers:
  assumes inv: "rw_inv n addr s x l w h" and t: "sole s t" and st: "st = (if keep then Held RW_READER else Idle)"
    and rq: "reader_q s \<noteq> [] \<or> keep"
    and x': "x' = length (reader_q s) + of_bool keep" and wq: "wq = (writer_q s \<noteq> [])"
  shows "rw_inv n addr (goto (wake_readers (set_owner s (pk x' False wq wq))) t st) x' False wq wq"
proof (rule rw_inv_readI)
  let ?s = "goto (wake_readers (set_owner s (pk x' False wq wq))) t st"
  have q: "queues_ok n s w h" using inv by (auto simp: rw_inv_def)
  note tn = sole_notin [OF inv t]
  show "rw_owner ?s = pk x' False wq wq" by simp
  show "queues_ok n ?s wq wq" using q tn unfolding queues_ok_def by (auto simp: st wq split: if_splits)
  have c: "{u. reading (thr ?s u)} = set (reader_q s) \<union> (if keep then {t} else {})"
    using t tn(1) by (auto simp: sole_def st)
  have "card {u. reading (thr ?s u)} = length (reader_q s) + of_bool keep"
    unfolding c using q tn(1) by (auto simp: distinct_card queues_ok_def)
  then have "card {u. reading (thr ?s u)} = x'" using x' by simp
  moreover have "\<not> writing (thr ?s u)" for u using t by (auto simp: sole_def st)
  moreover have "0 < x'" using rq by (auto simp: x')
  ultimately show "read_locked ?s x' wq wq" by (auto simp: read_locked_def wq)
  show "progress addr ?s x' False wq" by (simp add: progress_def wq)
  show "\<forall>u. local_ok (num addr u) (thr ?s u) x' wq wq" using sole_local [OF inv t] by (simp add: st)
qed

lemma sole_writer: "rw_inv n addr s x l w h \<Longrightarrow> writing (thr s t) \<Longrightarrow> sole s t"
  using writing_locked [of n addr s x l w h t] owner_only [of n addr s x w h t] by (auto simp: sole_def)

lemma sole_reader:
  assumes inv: "rw_inv n addr s 1 l w h" and t: "reading (thr s t)"
  shows "sole s t"
proof -
  have "\<not> l" using reading_unlocked [OF inv t] by simp
  then have r: "card {u. reading (thr s u)} = 1" "\<forall>u. \<not> writing (thr s u)" using inv by (auto simp: rw_inv_def read_locked_def)
  then obtain v where "{u. reading (thr s u)} = {v}" by (auto simp: card_1_singleton_iff)
  then have "reading (thr s u) \<longleftrightarrow> u = v" for u by blast
  then show ?thesis using r(2) t by (auto simp: sole_def)
qed

lemma wake_readers_nil: "reader_q s = [] \<Longrightarrow> wake_readers s = s"
  by (simp add: wake_readers_def)

lemma inv_upgrade:
  assumes T: "threads_ok n addr" and inv: "rw_inv n addr s 1 False w h" and t: "reading (thr s t)"
  shows "rw_inv n addr (goto (set_owner s (pk (num addr t) True w h)) t (Held RW_WRITER)) (num addr t) True w h"
proof (rule rw_inv_writeI)
  let ?s = "goto (set_owner s (pk (num addr t) True w h)) t (Held RW_WRITER)"
  have so: "sole s t" by (rule sole_reader [OF inv t])
  note tn = sole_notin [OF inv so]
  have q: "queues_ok n s w h" using inv by (auto simp: rw_inv_def)
  show "rw_owner ?s = pk (num addr t) True w h" by simp
  show "queues_ok n ?s w h" using q tn state_disj(2) [OF t] unfolding queues_ok_def by auto
  show "write_locked n addr ?s (num addr t)" unfolding write_locked_def using so tn(3) by (intro exI [of _ t]) (auto simp: sole_def)
  show "progress addr ?s (num addr t) True w" using inv by (auto simp: progress_def rw_inv_def read_locked_def)
  show "\<forall>u. local_ok (num addr u) (thr ?s u) (num addr t) w h" using sole_local [OF inv so] by simp
qed

text \<open>A writer that was woken finds that it was handed the lock, or that it was not.\<close>

lemma woken_owner:
  assumes T: "threads_ok n addr" and inv: "rw_inv n addr s (num addr t) True w h" and t: "t < n" "thr s t = Woken RW_WRITER"
  shows "rw_inv n addr (goto s t (Held RW_WRITER)) (num addr t) True w h"
proof (rule rw_inv_writeI)
  let ?s = "goto s t (Held RW_WRITER)"
  have q: "queues_ok n s w h" using inv by (auto simp: rw_inv_def)
  obtain k where k: "k < n" "num addr t = num addr k" "\<forall>u. u \<noteq> k \<longrightarrow> \<not> writing (thr s u)" "\<forall>u. \<not> reading (thr s u)"
    using inv by (auto simp: rw_inv_def write_locked_def)
  then have "k = t" using num_inj [OF T t(1) k(1)] by simp
  show "rw_owner ?s = pk (num addr t) True w h" using inv by (simp add: rw_inv_def)
  show "queues_ok n ?s w h" using q t unfolding queues_ok_def by auto
  show "write_locked n addr ?s (num addr t)" unfolding write_locked_def using t k \<open>k = t\<close> by (intro exI [of _ t]) auto
  show "progress addr ?s (num addr t) True w"
    unfolding progress_def
  proof
    assume "w \<and> writer_q ?s = []"
    then obtain u where "seeking (thr s u) \<or> thr s u = Woken RW_WRITER \<and> num addr t \<noteq> num addr u"
      using inv by (auto simp: rw_inv_def progress_def)
    then show "\<exists>u. seeking (thr ?s u) \<or> thr ?s u = Woken RW_WRITER \<and> \<not> (True \<and> num addr t = num addr u)"
      using t(2) by (intro exI [of _ u]) auto
  qed
  show "\<forall>u. local_ok (num addr u) (thr ?s u) (num addr t) w h" using inv by (simp add: rw_inv_def)
qed

lemma woken_retry:
  assumes inv: "rw_inv n addr s x l w h" and t: "t < n" "thr s t = Woken RW_WRITER" and no: "\<not> (l \<and> x = num addr t)"
  shows "rw_inv n addr (goto s t (Reload RW_WRITER)) x l w h"
proof -
  let ?s = "goto s t (Reload RW_WRITER)"
  have "queues_ok n ?s w h" using inv t unfolding rw_inv_def queues_ok_def by auto
  moreover have "write_locked n addr ?s x" if l: l
  proof -
    obtain k where k: "k < n" "x = num addr k" "writing (thr s k) \<or> thr s k = Woken RW_WRITER"
      "\<forall>u. u \<noteq> k \<longrightarrow> \<not> writing (thr s u)" "\<forall>u. \<not> reading (thr s u)"
      using inv l by (auto simp: rw_inv_def write_locked_def)
    then have "k \<noteq> t" using no l by auto
    then show ?thesis unfolding write_locked_def using k by (intro exI [of _ k]) auto
  qed
  moreover have "read_locked ?s x w h" if l: "\<not> l"
  proof -
    have c: "{u. reading (thr ?s u)} = {u. reading (thr s u)}" using t by auto
    show ?thesis unfolding read_locked_def c using inv l by (auto simp: rw_inv_def read_locked_def)
  qed
  moreover have "progress addr ?s x l w" unfolding progress_def by (intro impI exI [of _ t]) simp
  moreover have "\<forall>u. local_ok (num addr u) (thr ?s u) x w h" using inv by (simp add: rw_inv_def)
  ultimately show ?thesis using inv by (auto simp: rw_inv_def)
qed

section \<open>Every step keeps the invariant\<close>

definition rw_good :: "nat \<Rightarrow> (nat \<Rightarrow> u64) \<Rightarrow> rwlock \<Rightarrow> bool" where
  "rw_good n addr s \<longleftrightarrow> (\<exists>x l w h. rw_inv n addr s x l w h)"

lemma rw_goodI: "rw_inv n addr s x l w h \<Longrightarrow> rw_good n addr s"
  by (auto simp: rw_good_def)

lemma x_bound:
  assumes T: "threads_ok n addr" and inv: "rw_inv n addr s x l w h"
  shows "x < 2 ^ 60" "\<not> l \<Longrightarrow> x \<le> n"
proof -
  show le: "x \<le> n" if l: "\<not> l"
    using inv l card_reading(2) [of n s w h] by (auto simp: rw_inv_def read_locked_def)
  show "x < 2 ^ 60"
  proof (cases l)
    case True
    then obtain k where "k < n" "x = num addr k" using inv by (auto simp: rw_inv_def write_locked_def)
    then show ?thesis using addr_pk [OF T] by auto
  next
    case False
    have "n < 2 ^ 27" using T by (simp add: threads_ok_def)
    then show ?thesis using le [OF False] by simp
  qed
qed

lemma is_me:
  assumes T: "threads_ok n addr" and inv: "rw_inv n addr s x l w h" and t: "t < n"
  shows "rw_owner s AND RW_THREAD = addr t \<longleftrightarrow> l \<and> x = num addr t"
proof -
  have "rw_owner s AND RW_THREAD = pk x False False False" using inv by (simp add: rw_inv_def pk_logic)
  then have "rw_owner s AND RW_THREAD = addr t \<longleftrightarrow> x = num addr t"
    using addr_pk [OF T t] pk_eq [OF x_bound(1) [OF T inv]] by metis
  moreover have "l" if "x = num addr t" using x_bound(2) [OF T inv] addr_pk [OF T t] that by fastforce
  ultimately show ?thesis by blast
qed

lemma incr_write: "threads_ok n addr \<Longrightarrow> t < n \<Longrightarrow> addr t OR RW_WRITE_LOCKED = pk (num addr t) True False False"
  using addr_pk [of n addr t] by (metis pk_consts(3) pk_logic(1))

text \<open>The tests on a word, field by field.\<close>

lemma need_wait_pk:
  assumes "x < 2 ^ 60"
  shows "pk x l w h AND need_wait RW_READER = 0 \<longleftrightarrow> \<not> l \<and> \<not> w" "pk x l w h AND need_wait RW_WRITER = 0 \<longleftrightarrow> \<not> l \<and> x = 0"
  using assms by (auto simp: need_wait_def pk_consts pk_logic pk_eq)

lemma enter_top_good:
  assumes T: "threads_ok n addr" and inv: "rw_inv n addr s x l w h" and t: "t < n" "thr s t = Enter opn v"
  shows "rw_good n addr (enter_top s (addr t) t opn v)"
proof -
  have o: "rw_owner s = pk x l w h" using inv by (simp add: rw_inv_def)
  note xb = x_bound(1) [OF T inv]
  have qt: "quiet (thr s t)" using t by (simp add: quiet_def)
  have same: "rw_good n addr (goto s t st)" if "st = Enter opn u \<or> st = Lookup opn" for st u
    using that t by (intro rw_goodI [OF inv_goto [OF inv t(1)]]) auto
  consider "v AND need_wait opn = 0" "rw_owner s = v" "opn = RW_READER" | "v AND need_wait opn = 0" "rw_owner s = v" "opn = RW_WRITER"
    | "v AND need_wait opn = 0" "rw_owner s \<noteq> v" | "v AND need_wait opn \<noteq> 0" by (cases opn) auto
  then show ?thesis
  proof cases
    case 1
    then have "\<not> l" "\<not> w" using o need_wait_pk [OF xb] by auto
    moreover from this have v: "v = pk x False False h" using 1 o by simp
    have "(v + incr opn (addr t)) AND NOT RW_WRITE_WANTED = pk (Suc x) False False h"
      unfolding v using 1 by (simp add: incr_def pk_consts pk_arith pk_logic)
    ultimately show ?thesis using 1 acquire_read [of n addr s x h t] inv t(1) qt by (auto simp: enter_top_def intro: rw_goodI)
  next
    case 2
    then have f: "\<not> l" "x = 0" using o need_wait_pk [OF xb] by auto
    moreover from this have v: "v = pk 0 False w h" using 2 o by simp
    have "(v + incr opn (addr t)) AND NOT RW_WRITE_WANTED = pk (num addr t) True False h"
      unfolding v using 2 incr_write [OF T t(1)] by (simp add: incr_def pk_arith) (simp add: pk_consts pk_logic)
    ultimately show ?thesis using 2 acquire_write [OF T, of s w h t False] inv t(1) qt by (auto simp: enter_top_def intro: rw_goodI)
  next
    case 3
    then show ?thesis using same by (simp add: enter_top_def)
  next
    case 4
    have "\<not> (l \<and> x = num addr t)"
    proof
      assume "l \<and> x = num addr t"
      then obtain k where "k < n" "num addr t = num addr k" "writing (thr s k) \<or> thr s k = Woken RW_WRITER"
        using inv by (auto simp: rw_inv_def write_locked_def)
      then show False using num_inj [OF T t(1)] t(2) by fastforce
    qed
    then show ?thesis using 4 same is_me [OF T inv t(1)] by (auto simp: enter_top_def)
  qed
qed

lemma enter_rest_good:
  assumes T: "threads_ok n addr" and inv: "rw_inv n addr s x l w h" and t: "t < n"
  shows "thr s t = Lookup opn \<Longrightarrow> rw_good n addr (enter_spun s t opn)"
    and "thr s t = Lookup opn \<Longrightarrow> rw_good n addr (enter_lookup s t opn oncpu)"
    and "thr s t = Sleep opn v \<Longrightarrow> rw_good n addr (enter_sleep s t opn v i)"
    and "thr s t = Woken opn \<Longrightarrow> rw_good n addr (enter_woken s (addr t) t opn)"
    and "thr s t = Reload opn \<Longrightarrow> rw_good n addr (goto s t (Enter opn v))"
proof -
  note G = rw_goodI [OF inv_goto [OF inv t]] and xb = x_bound(1) [OF T inv]
  have o: "rw_owner s = pk x l w h" using inv by (simp add: rw_inv_def)
  show "rw_good n addr (enter_spun s t opn)" if a: "thr s t = Lookup opn"
    using a rw_goodI [OF inv] by (auto simp: enter_spun_def intro!: G)
  show "rw_good n addr (enter_lookup s t opn oncpu)" if a: "thr s t = Lookup opn"
    using a by (auto simp: enter_lookup_def intro!: G)
  show "rw_good n addr (enter_sleep s t opn v i)" if a: "thr s t = Sleep opn v"
  proof (cases "rw_owner s = v")
    case True
    have "v AND need_wait opn \<noteq> 0" using inv a by (auto simp: rw_inv_def dest!: spec [of _ t])
    then have "if opn = RW_READER then l \<or> w else l \<or> 0 < x" using True o need_wait_pk [OF xb, of l w h] by (cases opn) auto
    moreover have "v OR set_wait opn = pk x l (w \<or> opn = RW_WRITER) True"
      using True o by (cases opn) (auto simp: set_wait_def pk_consts pk_logic)
    ultimately show ?thesis
      using True a inv_block [OF inv t, of opn i] by (auto simp: enter_sleep_def quiet_def intro: rw_goodI)
  next
    case False
    then show ?thesis using a by (auto simp: enter_sleep_def intro!: G)
  qed
  show "rw_good n addr (goto s t (Enter opn v))" if a: "thr s t = Reload opn"
    using a by (auto intro!: G)
  show "rw_good n addr (enter_woken s (addr t) t opn)" if a: "thr s t = Woken opn"
  proof (cases opn)
    case RW_READER
    then show ?thesis using a by (auto simp: enter_woken_def intro!: G)
  next
    case RW_WRITER
    then show ?thesis
      using a t is_me [OF T inv t] woken_owner [OF T, of s t w h] woken_retry [OF inv t] inv
      by (cases "l \<and> x = num addr t") (auto simp: enter_woken_def intro: rw_goodI)
  qed
qed

lemma try_good:
  assumes T: "threads_ok n addr" and inv: "rw_inv n addr s x l w h" and t: "t < n"
  shows "thr s t = TryTop opn \<Longrightarrow> rw_good n addr (try_top s t opn)"
    and "thr s t = TryCas opn v \<Longrightarrow> rw_good n addr (try_cas s (addr t) t opn v)"
proof -
  note G = rw_goodI [OF inv_goto [OF inv t]] and xb = x_bound(1) [OF T inv]
  have o: "rw_owner s = pk x l w h" using inv by (simp add: rw_inv_def)
  show "rw_good n addr (try_top s t opn)" if a: "thr s t = TryTop opn"
    using a by (auto simp: try_top_def intro!: G)
  show "rw_good n addr (try_cas s (addr t) t opn v)" if a: "thr s t = TryCas opn v"
  proof -
    have qt: "quiet (thr s t)" "\<not> seeking (thr s t)" using a by (auto simp: quiet_def)
    have nw: "v AND need_wait opn = 0" using inv a by (auto simp: rw_inv_def dest!: spec [of _ t])
    consider "rw_owner s \<noteq> v" | "rw_owner s = v" "opn = RW_READER" | "rw_owner s = v" "opn = RW_WRITER" by (cases opn) auto
    then show ?thesis
    proof cases
      case 1
      then show ?thesis using a by (auto simp: try_cas_def intro!: G)
    next
      case 2
      then have "\<not> l" "\<not> w" using nw o need_wait_pk [OF xb] by auto
      moreover from this have v: "v = pk x False False h" using 2 o by simp
      have "v + incr opn (addr t) = pk (Suc x) False False h"
        unfolding v using 2 by (simp add: incr_def pk_consts pk_arith)
      ultimately show ?thesis using 2 acquire_read [of n addr s x h t] inv t qt(1) by (auto simp: try_cas_def intro: rw_goodI)
    next
      case 3
      then have f: "\<not> l" "x = 0" using nw o need_wait_pk [OF xb] by auto
      moreover from this have v: "v = pk 0 False w h" using 3 o by simp
      have "v + incr opn (addr t) = pk (num addr t) True w h"
        unfolding v using 3 incr_write [OF T t] by (simp add: incr_def pk_arith)
      ultimately show ?thesis using 3 acquire_write [OF T, of s w h t w] inv t qt by (auto simp: try_cas_def intro: rw_goodI)
    qed
  qed
qed

text \<open>Tests on single fields.\<close>

lemma field_tests:
  assumes "x < 2 ^ 60"
  shows "pk x l w h AND RW_WRITE_LOCKED = 0 \<longleftrightarrow> \<not> l" "pk x l w h AND RW_HAS_WAITERS = 0 \<longleftrightarrow> \<not> h"
    "pk x l w h AND RW_WRITE_WANTED = 0 \<longleftrightarrow> \<not> w" "pk x l w h AND RW_THREAD = 0 \<longleftrightarrow> x = 0"
    "pk x l w h AND RW_THREAD = RW_READ_INCR \<longleftrightarrow> x = 1"
    "pk x l w h AND (RW_THREAD OR RW_HAS_WAITERS) = RW_HAS_WAITERS \<longleftrightarrow> x = 0 \<and> h"
  using assms by (simp_all add: pk_consts pk_logic pk_eq)

lemma write_not_incr: "threads_ok n addr \<Longrightarrow> t < n \<Longrightarrow> pk (num addr t) True False False \<noteq> RW_READ_INCR"
  using addr_pk [of n addr t] by (simp add: pk_consts pk_eq)

lemma local_exiting:
  "1 \<le> x \<Longrightarrow> x < 2 ^ 60 \<Longrightarrow> local_ok a (Exiting RW_READ_INCR (pk x False w h)) x w h"
  "pk a True False False \<noteq> RW_READ_INCR \<Longrightarrow> local_ok a (Exiting (pk a True False False) (pk a True w h)) x w h"
  by (auto simp del: One_nat_def)

lemma exit_start_good:
  assumes T: "threads_ok n addr" and inv: "rw_inv n addr s x l w h" and t: "t < n" "thr s t = Held opn"
  shows "rw_good n addr (exit_start s (addr t) t)"
proof -
  have o: "rw_owner s = pk x l w h" using inv by (simp add: rw_inv_def)
  note xb = x_bound(1) [OF T inv] and wi = incr_write [OF T t(1)] write_not_incr [OF T t(1)]
  note ft = field_tests [OF xb, of l w h, folded o]
  show ?thesis
  proof (cases opn)
    case RW_READER
    then have "\<not> l" "0 < x" using reading_unlocked [OF inv, of t] t by auto
    then have "exit_start s (addr t) t = goto s t (Exiting RW_READ_INCR (pk x False w h))" using o ft by (simp add: exit_start_def)
    moreover have "local_ok (num addr t) (Exiting RW_READ_INCR (pk x False w h)) x w h"
      using \<open>0 < x\<close> xb by (intro local_exiting) simp_all
    ultimately show ?thesis using t RW_READER by (auto simp del: local_ok.simps intro!: rw_goodI [OF inv_goto [OF inv t(1)]])
  next
    case RW_WRITER
    then have l: "l" using writing_locked [OF inv, of t] t by auto
    have x: "x = num addr t" using owner_only(1) [of n addr s x w h t] inv l t RW_WRITER by simp
    have "exit_start s (addr t) t = goto s t (Exiting (pk (num addr t) True False False) (pk (num addr t) True w h))"
      using l x o ft is_me [OF T inv t(1)] wi(1) by (simp add: exit_start_def)
    then show ?thesis using t RW_WRITER wi(2) local_exiting(2)
      by (auto simp del: local_ok.simps intro!: rw_goodI [OF inv_goto [OF inv t(1)]])
  qed
qed

lemma exit_read_good:
  assumes T: "threads_ok n addr" and inv: "rw_inv n addr s x l w h" and t: "t < n" "thr s t = Exiting RW_READ_INCR v"
  shows "rw_good n addr (exit_loop s t RW_READ_INCR v)"
proof -
  note G = rw_goodI [OF inv_goto [OF inv t(1)]] and xb = x_bound(1) [OF T inv]
  have rd: "\<not> l" "0 < x" using reading_unlocked [OF inv, of t] t by auto
  have o: "rw_owner s = pk x False w h" using inv rd by (simp add: rw_inv_def)
  have "local_ok (num addr t) (Exiting RW_READ_INCR v) x w h" using inv t(2) unfolding rw_inv_def by metis
  then obtain x' w' h' where v: "v = pk x' False w' h'" "1 \<le> x'" "x' < 2 ^ 60" "x' = 1 \<and> h' \<longrightarrow> x = 1 \<and> h" by auto
  then obtain y where y: "x' = Suc y" by (cases x') auto
  have newown: "v - RW_READ_INCR = pk y False w' h'" by (simp add: v(1) y pk_consts pk_arith)
  have test: "pk y False w' h' AND (RW_THREAD OR RW_HAS_WAITERS) = RW_HAS_WAITERS \<longleftrightarrow> y = 0 \<and> h'"
    using v(3) y by (intro field_tests) simp
  consider "y = 0" "h'" | "\<not> (y = 0 \<and> h')" "rw_owner s = v" | "\<not> (y = 0 \<and> h')" "rw_owner s \<noteq> v" by blast
  then show ?thesis
  proof cases
    case 1
    then have "exit_loop s t RW_READ_INCR v = goto s t (Give RW_READ_INCR)" using newown test by (simp add: exit_loop_def)
    then show ?thesis using 1 v(4) y t by (auto intro!: G)
  next
    case 2
    then have "x = Suc y" "w = w'" "h = h'" using o v(1,3) y pk_eq [OF xb v(3)] by auto
    moreover have "exit_loop s t RW_READ_INCR v = goto (set_owner s (pk y False w' h')) t Idle"
      unfolding exit_loop_def Let_def newown using 2 test by auto
    ultimately show ?thesis using release_read [of n addr s y w h t] inv rd(1) 2(1) t(2) by (auto intro: rw_goodI)
  next
    case 3
    then have "exit_loop s t RW_READ_INCR v = goto s t (Exiting RW_READ_INCR (pk x False w h))"
      unfolding exit_loop_def Let_def newown using test o by auto
    moreover have "local_ok (num addr t) (Exiting RW_READ_INCR (pk x False w h)) x w h"
      using rd(2) xb by (intro local_exiting) simp_all
    ultimately show ?thesis using t by (auto simp del: local_ok.simps intro!: G)
  qed
qed

lemma exit_write_good:
  assumes T: "threads_ok n addr" and inv: "rw_inv n addr s x l w h" and t: "t < n" "thr s t = Exiting decr v" "decr \<noteq> RW_READ_INCR"
  shows "rw_good n addr (exit_loop s t decr v)"
proof -
  note G = rw_goodI [OF inv_goto [OF inv t(1)]]
  have l: l using writing_locked [OF inv, of t] t by auto
  have x: "x = num addr t" using owner_only(1) [of n addr s x w h t] inv l t by simp
  have o: "rw_owner s = pk (num addr t) True w h" using inv l x by (simp add: rw_inv_def)
  have xb: "num addr t < 2 ^ 60" using addr_pk [OF T t(1)] by simp
  have "local_ok (num addr t) (Exiting decr v) x w h" using inv t(2) unfolding rw_inv_def by metis
  then obtain w' h' where v: "decr = pk (num addr t) True False False" "v = pk (num addr t) True w' h'" "h' \<longrightarrow> h"
    using t(3) by auto
  have newown: "v - decr = pk 0 False w' h'" by (simp add: v pk_arith)
  have test: "pk 0 False w' h' AND (RW_THREAD OR RW_HAS_WAITERS) = RW_HAS_WAITERS \<longleftrightarrow> h'" by (simp add: field_tests)
  consider "h'" | "\<not> h'" "rw_owner s = v" | "\<not> h'" "rw_owner s \<noteq> v" by blast
  then show ?thesis
  proof cases
    case 1
    then have "exit_loop s t decr v = goto s t (Give decr)" using newown test by (simp add: exit_loop_def)
    then show ?thesis using 1 v(1,3) t by (auto intro!: G)
  next
    case 2
    then have "w = w'" "\<not> h" using o v(2) pk_eq [OF xb xb] by auto
    moreover have "exit_loop s t decr v = goto (set_owner s (pk 0 False w' False)) t Idle"
      using 2 newown test by (simp add: exit_loop_def)
    ultimately show ?thesis using release_write [of n addr s x w t] inv l t by (auto intro: rw_goodI)
  next
    case 3
    then have "exit_loop s t decr v = goto s t (Exiting decr (pk (num addr t) True w h))"
      using newown test o by (simp add: exit_loop_def)
    then show ?thesis using t v(1) local_exiting(2) by (auto simp del: local_ok.simps intro!: G)
  qed
qed

lemma pk_waiters: "pk y False False False OR RW_HAS_WAITERS OR RW_WRITE_WANTED = pk y False True True"
  by (simp only: pk_consts pk_logic(1), simp)

lemma pk_or_flags:
  assumes "threads_ok n addr" and "k < n"
  shows "addr k OR RW_WRITE_LOCKED OR RW_HAS_WAITERS = pk (num addr k) True False True"
    "(addr k OR RW_WRITE_LOCKED OR RW_HAS_WAITERS) OR RW_WRITE_WANTED = pk (num addr k) True True True"
proof -
  have a: "addr k = pk (num addr k) False False False" using addr_pk [OF assms] by simp
  show "addr k OR RW_WRITE_LOCKED OR RW_HAS_WAITERS = pk (num addr k) True False True"
    "(addr k OR RW_WRITE_LOCKED OR RW_HAS_WAITERS) OR RW_WRITE_WANTED = pk (num addr k) True True True"
    by (subst a, simp only: pk_consts pk_logic(1), simp)+
qed

lemma reader_count:
  assumes T: "threads_ok n addr" and inv: "rw_inv n addr s x l w h"
  shows "length (reader_q s) < 2 ^ 27"
proof -
  have q: "queues_ok n s w h" using inv by (simp add: rw_inv_def)
  have "set (reader_q s) \<subseteq> {..<n}" using q not_idle [OF inv] by (auto simp: queues_ok_def)
  then have "length (reader_q s) \<le> n" using q by (metis card_lessThan card_mono distinct_card finite_lessThan queues_ok_def)
  then show ?thesis using T by (simp add: threads_ok_def)
qed

lemma exit_give_good:
  assumes T: "threads_ok n addr" and inv: "rw_inv n addr s x l w h" and t: "t < n" "thr s t = Give decr"
  shows "rw_good n addr (exit_give s addr t decr)"
proof -
  have o: "rw_owner s = pk x l w h" using inv by (simp add: rw_inv_def)
  note ft = field_tests [OF x_bound(1) [OF T inv], of l w h, folded o]
  have "local_ok (num addr t) (Give decr) x w h" using inv t(2) unfolding rw_inv_def by metis
  then have h: h and d: "decr = RW_READ_INCR \<Longrightarrow> x = 1" by (auto split: if_splits)
  have q: "queues_ok n s w h" using inv by (simp add: rw_inv_def)
  have so: "sole s t"
    using sole_writer [OF inv, of t] sole_reader [of n addr s l w h t] inv t d by (cases "decr = RW_READ_INCR") auto
  have wq: "writer_q s \<noteq> []" if "decr = RW_READ_INCR \<or> reader_q s = []"
    using that q h d inv reading_unlocked [OF inv, of t] t by (auto simp: queues_ok_def rw_inv_def read_locked_def split: if_splits)
  have w: w if "writer_q s \<noteq> []" using that q by (simp add: queues_ok_def)
  have inv': "rw_inv n addr s x l w True" using inv h by simp
  consider "reader_q s = [] \<or> decr = RW_READ_INCR" "reader_q s \<noteq> []" | "reader_q s = []" | "reader_q s \<noteq> []" "decr \<noteq> RW_READ_INCR" by blast
  then show ?thesis
  proof cases
    case 1
    then obtain k ks where k: "writer_q s = k # ks" using wq by (cases "writer_q s") auto
    have "thr s k = Blocked RW_WRITER" using q k by (auto simp: queues_ok_def)
    then have kn: "k < n" using not_idle [OF inv, of k] by simp
    have "(if length (writer_q s) > 1 then (addr k OR RW_WRITE_LOCKED OR RW_HAS_WAITERS) OR RW_WRITE_WANTED
        else addr k OR RW_WRITE_LOCKED OR RW_HAS_WAITERS) = pk (num addr k) True (ks \<noteq> []) True"
      using pk_or_flags [OF T kn] k by simp
    then have "exit_give s addr t decr = goto (wake_writer (set_owner s (pk (num addr k) True (ks \<noteq> []) True)) k) t Idle"
      using 1 k ft h w by (auto simp: exit_give_def Let_def)
    then show ?thesis using give_writer [OF T inv' so k 1(2)] by (auto intro: rw_goodI)
  next
    case 2
    then have "exit_give s addr t decr = goto (wake_writers (set_owner s (pk 0 False True False))) t Idle"
      using wq w ft h by (simp add: exit_give_def pk_consts(2))
    then show ?thesis using give_writers [OF inv' so _ 2] wq 2 by (auto intro: rw_goodI)
  next
    case 3
    have "rcnt_shift (length (reader_q s)) = pk (length (reader_q s)) False False False"
      by (rule rcnt_shift_pk [OF reader_count [OF T inv]])
    then have "exit_give s addr t decr =
        goto (wake_readers (set_owner s (pk (length (reader_q s)) False (writer_q s \<noteq> []) (writer_q s \<noteq> [])))) t Idle"
      using 3 ft(2) h by (simp add: exit_give_def pk_waiters Let_def)
    then show ?thesis using give_readers [OF inv so, of Idle False] 3 by (auto intro: rw_goodI)
  qed
qed

lemma down_good:
  assumes T: "threads_ok n addr" and inv: "rw_inv n addr s x l w h" and t: "t < n"
  shows "thr s t = Held RW_WRITER \<Longrightarrow> rw_good n addr (down_start s (addr t) t)"
    and "thr s t = DownCas v \<Longrightarrow> rw_good n addr (down_cas s t v)"
    and "thr s t = DownWait v \<Longrightarrow> rw_good n addr (down_wait s t v)"
proof -
  note G = rw_goodI [OF inv_goto [OF inv t]] and xb = x_bound(1) [OF T inv]
  have o: "rw_owner s = pk x l w h" using inv by (simp add: rw_inv_def)
  note ft = field_tests [OF xb, of l w h, folded o] and me = is_me [OF T inv t]
  have q: "queues_ok n s w h" using inv by (simp add: rw_inv_def)
  have wr: "l" "x = num addr t" "sole s t" if "writing (thr s t)"
    using that writing_locked [OF inv, of t] owner_only(1) [of n addr s x w h t] sole_writer [OF inv, of t] inv by auto
  have keep: "rw_good n addr (goto (wake_readers (set_owner s (pk (Suc (length (reader_q s))) False wq wq))) t (Held RW_READER))"
    if "writing (thr s t)" "wq = (writer_q s \<noteq> [])" for wq
    using give_readers [OF inv wr(3) [OF that(1)], of "Held RW_READER" True] that(2) by (auto intro: rw_goodI)
  show "rw_good n addr (down_start s (addr t) t)" if a: "thr s t = Held RW_WRITER"
  proof -
    have "l" "x = num addr t" using wr a by auto
    then have "down_start s (addr t) t = (if h then goto s t (DownWait (rw_owner s)) else goto s t (DownCas (rw_owner s)))"
      using ft me by (simp add: down_start_def Let_def)
    then show ?thesis using a o \<open>l\<close> \<open>x = num addr t\<close> by (auto intro!: G)
  qed
  show "rw_good n addr (down_cas s t v)" if a: "thr s t = DownCas v"
  proof -
    have lx: "l" "x = num addr t" using wr a by auto
    have "local_ok (num addr t) (DownCas v) x w h" using inv a unfolding rw_inv_def by metis
    then obtain w' where v: "v = pk x True w' False" "h \<or> w = w'" using lx by auto
    show ?thesis
    proof (cases "rw_owner s = v")
      case True
      then have "\<not> h" using o v pk_eq [OF xb xb] by simp
      then have e: "reader_q s = []" "writer_q s = []" using q by (auto simp: queues_ok_def)
      then show ?thesis using True keep [of False] a by (simp add: down_cas_def pk_consts(4) wake_readers_nil)
    next
      case False
      then have "h" using o v lx by (cases h) auto
      then show ?thesis using False a by (auto simp: down_cas_def intro!: G)
    qed
  qed
  show "rw_good n addr (down_wait s t v)" if a: "thr s t = DownWait v"
  proof -
    have "local_ok (num addr t) (DownWait v) x w h" using inv a unfolding rw_inv_def by metis
    then have h: h by simp
    have again: "rw_good n addr (goto s t (DownWait u))" for u using a h by (auto intro!: G)
    have wq: "w" if "writer_q s \<noteq> []" using that q by (simp add: queues_ok_def)
    show ?thesis
    proof (cases "reader_q s = []")
      case True
      then have "writer_q s \<noteq> []" using h q by (auto simp: queues_ok_def)
      moreover have "RW_READ_INCR OR RW_HAS_WAITERS OR RW_WRITE_WANTED = pk (Suc 0) False True True"
        by (simp only: pk_consts(4) pk_waiters)
      ultimately show ?thesis
        using True again wq h ft keep [of True] a by (simp add: down_wait_def wake_readers_nil)
    next
      case False
      have "rcnt_shift (length (reader_q s)) + RW_READ_INCR = pk (Suc (length (reader_q s))) False False False"
        using reader_count [OF T inv] by (simp add: rcnt_shift_pk pk_consts pk_arith)
      then show ?thesis
        using False again keep [of "writer_q s \<noteq> []"] a by (auto simp: down_wait_def Let_def pk_waiters)
    qed
  qed
qed

lemma upgrade_good:
  assumes T: "threads_ok n addr" and inv: "rw_inv n addr s x l w h" and t: "t < n"
  shows "thr s t = Held RW_READER \<Longrightarrow> rw_good n addr (upgrade_start s t)"
    and "thr s t = Upgrade v \<Longrightarrow> rw_good n addr (upgrade_loop s (addr t) t v)"
proof -
  note G = rw_goodI [OF inv_goto [OF inv t]] and xb = x_bound(1) [OF T inv]
  have rd: "\<not> l \<and> 0 < x" if "reading (thr s t)" using reading_unlocked [OF inv that] .
  have o: "rw_owner s = pk x False w h" if "reading (thr s t)" using inv rd [OF that] by (simp add: rw_inv_def)
  have up: "local_ok (num addr t) (Upgrade (pk x False w h)) x w h" if "0 < x"
    using that xb unfolding local_ok.simps by (intro exI [of _ x] exI [of _ w] exI [of _ h]) simp
  have again: "rw_good n addr (goto s t (Upgrade (rw_owner s)))" if "reading (thr s t)"
    using that o rd up state_disj(2) [OF that] by (auto simp del: local_ok.simps intro!: G)
  show "rw_good n addr (upgrade_start s t)" if a: "thr s t = Held RW_READER"
    using a again rd o field_tests [OF xb, of False w h] by (auto simp: upgrade_start_def rw_read_held_def)
  show "rw_good n addr (upgrade_loop s (addr t) t v)" if a: "thr s t = Upgrade v"
  proof -
    have r: "reading (thr s t)" using a by simp
    have "local_ok (num addr t) (Upgrade v) x w h" using inv a unfolding rw_inv_def by metis
    then obtain y w' h' where v: "v = pk y False w' h'" "1 \<le> y" "y < 2 ^ 60" by auto
    note ft = field_tests [OF v(3), of False w' h', folded v(1)]
    consider "y \<noteq> 1" | "y = 1" "rw_owner s = v" | "y = 1" "rw_owner s \<noteq> v" by blast
    then show ?thesis
    proof cases
      case 1
      then have "upgrade_loop s (addr t) t v = goto s t (Held RW_READER)" using ft v(2) by (simp add: upgrade_loop_def)
      then show ?thesis using a by (auto intro!: G)
    next
      case 2
      then have e: "x = 1" "w = w'" "h = h'" using o [OF r] v pk_eq [OF xb v(3)] by auto
      have "addr t OR RW_WRITE_LOCKED OR (v AND NOT RW_THREAD) = pk (num addr t) True w h"
        using addr_pk [OF T t] e v(1) by (metis (full_types) or.assoc incr_write [OF T t] pk_logic(1,4))
      then have "upgrade_loop s (addr t) t v = goto (set_owner s (pk (num addr t) True w h)) t (Held RW_WRITER)"
        using 2 ft by (simp add: upgrade_loop_def)
      then show ?thesis using inv_upgrade [OF T, of s w h t] inv e rd [OF r] r by (auto intro: rw_goodI)
    next
      case 3
      then have "upgrade_loop s (addr t) t v = goto s t (Upgrade (rw_owner s))" using ft by (simp add: upgrade_loop_def)
      then show ?thesis using again [OF r] by simp
    qed
  qed
qed

lemma start_good:
  "rw_inv n addr s x l w h \<Longrightarrow> t < n \<Longrightarrow> thr s t = Idle \<Longrightarrow> st = Enter opn v \<or> st = TryTop opn \<Longrightarrow> rw_good n addr (goto s t st)"
  by (rule rw_goodI [OF inv_goto]) auto

lemma rw_step_good:
  assumes T: "threads_ok n addr" and "rw_good n addr s" and "rw_step n addr s s'"
  shows "rw_good n addr s'"
proof -
  obtain x l w h where inv: "rw_inv n addr s x l w h" using assms(2) by (auto simp: rw_good_def)
  note goods = start_good [OF inv] enter_top_good [OF T inv] enter_rest_good [OF T inv] try_good [OF T inv]
    exit_start_good [OF T inv] exit_give_good [OF T inv] down_good [OF T inv] upgrade_good [OF T inv]
  have exit: "rw_good n addr (exit_loop s t decr v)" if "t < n" "thr s t = Exiting decr v" for t decr v
    using that exit_read_good [OF T inv] exit_write_good [OF T inv] by (cases "decr = RW_READ_INCR") auto
  show ?thesis using assms(3) by cases (auto intro: goods exit)
qed

lemma rw_reachable_good: "threads_ok n addr \<Longrightarrow> rw_reachable n addr s \<Longrightarrow> rw_good n addr s"
proof -
  assume T: "threads_ok n addr" and "rw_reachable n addr s"
  from this(2) show ?thesis
  proof (induction rule: rw_reachable.induct)
    case rw_start
    have "rw_inv n addr rw_init 0 False False False"
      by (auto simp: rw_inv_def rw_init_def pk_consts(5) queues_ok_def read_locked_def progress_def)
    then show ?case by (rule rw_goodI)
  next
    case (rw_next s s')
    then show ?case using rw_step_good [OF T] by blast
  qed
qed

section \<open>A run\<close>

text \<open>The first of two threads takes the lock for writing, the second asks for it and goes to sleep.\<close>

definition ex_addr :: "nat \<Rightarrow> u64" where
  "ex_addr t = 0x1000 * of_nat (Suc t)"

definition ex_written :: rwlock where
  "ex_written = enter_top (goto rw_init 0 (Enter RW_WRITER 0)) (ex_addr 0) 0 RW_WRITER 0"

definition ex_waiting :: rwlock where
  "ex_waiting = enter_lookup (enter_top (goto ex_written 1 (Enter RW_READER 0x1004)) (ex_addr 1) 1 RW_READER 0x1004) 1 RW_READER False"

definition ex_asleep :: rwlock where
  "ex_asleep = enter_sleep ex_waiting 1 RW_READER 0x1004 0"

definition ex_shared :: rwlock where
  "ex_shared = enter_top (goto rw_init 0 (Enter RW_READER 0)) (ex_addr 0) 0 RW_READER 0"

lemma ex_threads_ok: "threads_ok 2 ex_addr"
proof -
  have "t < 2 \<Longrightarrow> t = 0 \<or> t = 1" for t :: nat by auto
  then show ?thesis unfolding threads_ok_def inj_on_def by (auto simp: ex_addr_def dest!: less_2_cases)
qed

lemma ex_values:
  "rw_owner rw_init = 0" "thr rw_init 0 = Idle" "rw_owner ex_written = 0x1004" "thr ex_written 0 = Held RW_WRITER" "thr ex_written 1 = Idle"
  "thr (goto ex_written 1 (Enter RW_READER 0x1004)) 1 = Enter RW_READER 0x1004"
  "thr (enter_top (goto ex_written 1 (Enter RW_READER 0x1004)) (ex_addr 1) 1 RW_READER 0x1004) 1 = Lookup RW_READER"
  "thr ex_waiting 1 = Sleep RW_READER 0x1004" "thr ex_asleep 1 = Blocked RW_READER" "rw_owner ex_asleep = 0x1005"
  "thr ex_asleep 0 = Held RW_WRITER" "thr ex_shared 0 = Held RW_READER" "rw_owner ex_shared = 16"
  by code_simp+

lemma ex_reachable: "rw_reachable 2 ex_addr ex_written" "rw_reachable 2 ex_addr ex_asleep" "rw_reachable 2 ex_addr ex_shared"
proof -
  note nx = rw_next [of 2 ex_addr]
  have first: "rw_reachable 2 ex_addr (goto rw_init 0 (Enter opn 0))" for opn
    using nx [OF rw_start] rw_step.intros(1) [of 0 2 rw_init ex_addr opn] by (simp add: ex_values)
  have "rw_step 2 ex_addr (goto rw_init 0 (Enter opn 0)) (enter_top (goto rw_init 0 (Enter opn 0)) (ex_addr 0) 0 opn 0)" for opn
    by (rule rw_step.intros(3)) simp_all
  then have top: "rw_reachable 2 ex_addr (enter_top (goto rw_init 0 (Enter opn 0)) (ex_addr 0) 0 opn 0)" for opn
    using nx [OF first] by blast
  show w: "rw_reachable 2 ex_addr ex_written" and "rw_reachable 2 ex_addr ex_shared"
    using top by (simp_all add: ex_written_def ex_shared_def)
  have "rw_step 2 ex_addr ex_written (goto ex_written 1 (Enter RW_READER 0x1004))"
    using rw_step.intros(1) [of 1 2 ex_written ex_addr RW_READER] by (simp add: ex_values del: One_nat_def)
  from nx [OF nx [OF w this] rw_step.intros(3)] ex_values(6)
  have "rw_reachable 2 ex_addr (enter_top (goto ex_written 1 (Enter RW_READER 0x1004)) (ex_addr 1) 1 RW_READER 0x1004)" by simp
  from nx [OF this rw_step.intros(5)] ex_values(7)
  have "rw_reachable 2 ex_addr ex_waiting" unfolding ex_waiting_def by simp
  from nx [OF this rw_step.intros(6)] ex_values(8)
  show "rw_reachable 2 ex_addr ex_asleep" unfolding ex_asleep_def by simp
qed

section \<open>What the lock promises\<close>

text \<open>C6: while a thread holds the lock for writing, up to the exchange of the owner word that releases
  it, no other thread holds it for reading or for writing.\<close>

theorem rw_exclusion:
  assumes "threads_ok n addr" and "rw_reachable n addr s" and "writing (thr s t)" and "u \<noteq> t"
  shows "\<not> reading (thr s u) \<and> \<not> writing (thr s u)"
proof -
  obtain x l w h where inv: "rw_inv n addr s x l w h" using rw_reachable_good [OF assms(1,2)] by (auto simp: rw_good_def)
  then show ?thesis using sole_writer [OF inv assms(3)] assms(4) by (auto simp: sole_def)
qed

theorem rw_exclusion_witness: "\<not> reading (thr ex_asleep 1) \<and> \<not> writing (thr ex_asleep 1)"
  using rw_exclusion [OF ex_threads_ok ex_reachable(2), of 0 1] by (simp add: ex_values del: One_nat_def)



text \<open>C8: nobody sleeps forgotten.  While a thread sleeps, the owner word has the waiters bit, so that the
  next release goes through the turnstile, and there is a thread to do it: one that holds the
  lock, or a writer awake inside \<open>rw_vector_enter\<close>.\<close>

theorem rw_waiters_served:
  assumes "threads_ok n addr" and "rw_reachable n addr s" and "thr s t = Blocked opn"
  shows "rw_owner s AND RW_HAS_WAITERS \<noteq> 0 \<and>
    (\<exists>u. reading (thr s u) \<or> writing (thr s u) \<or> seeking (thr s u) \<or> thr s u = Woken RW_WRITER)"
proof -
  obtain x l w h where inv: "rw_inv n addr s x l w h" using rw_reachable_good [OF assms(1,2)] by (auto simp: rw_good_def)
  then have o: "rw_owner s = pk x l w h" and q: "queues_ok n s w h" by (simp_all add: rw_inv_def)
  have "t \<in> set (reader_q s) \<or> t \<in> set (writer_q s)" using q assms(3) by (cases opn) (auto simp: queues_ok_def)
  then have ne: "reader_q s \<noteq> [] \<or> writer_q s \<noteq> []" by auto
  then have "rw_owner s AND RW_HAS_WAITERS \<noteq> 0"
    using q o field_tests(2) [OF x_bound(1) [OF assms(1) inv]] by (simp add: queues_ok_def)
  moreover have "\<exists>u. reading (thr s u) \<or> writing (thr s u) \<or> seeking (thr s u) \<or> thr s u = Woken RW_WRITER"
  proof (cases l)
    case True
    then show ?thesis using inv by (auto simp: rw_inv_def write_locked_def)
  next
    case False
    then have r: "read_locked s x w h" "progress addr s x l w" using inv by (auto simp: rw_inv_def)
    show ?thesis
    proof (cases "x = 0")
      case True
      then show ?thesis using r ne by (auto simp: read_locked_def progress_def)
    next
      case False
      then have "card {u. reading (thr s u)} \<noteq> 0" using r(1) by (simp add: read_locked_def)
      then show ?thesis by (metis (mono_tags, lifting) card.empty empty_Collect_eq)
    qed
  qed
  ultimately show ?thesis by blast
qed

theorem rw_waiters_served_witness: "rw_owner ex_asleep AND RW_HAS_WAITERS \<noteq> 0"
  using rw_waiters_served [OF ex_threads_ok ex_reachable(2) ex_values(9)] by blast

text \<open>C17: while the lock is not held for writing, the count in the owner word is the number of threads
  that hold it for reading; it is at most the number of threads and so never carries into the
  address range or out of the word.\<close>

theorem rw_read_count:
  assumes "threads_ok n addr" and "rw_reachable n addr s" and "rw_owner s AND RW_WRITE_LOCKED = 0"
  shows "unat (rw_owner s) div 16 = card {t. reading (thr s t)} \<and> card {t. reading (thr s t)} \<le> n"
proof -
  obtain x l w h where inv: "rw_inv n addr s x l w h" using rw_reachable_good [OF assms(1,2)] by (auto simp: rw_good_def)
  note xb = x_bound [OF assms(1) inv]
  have o: "rw_owner s = pk x l w h" using inv by (simp add: rw_inv_def)
  then have l: "\<not> l" using assms(3) field_tests(1) [OF xb(1)] by simp
  then have c: "x = card {t. reading (thr s t)}" using inv by (simp add: rw_inv_def read_locked_def)
  have "16 * x + flags l w h < 2 ^ 64" using xb(1) flags_less [of l w h] by simp
  then have "unat (pk x l w h) = 16 * x + flags l w h" unfolding pk_def
    by (simp add: unat_of_nat take_bit_nat_eq_self del: of_nat_add of_nat_mult)
  then show ?thesis using o c xb(2) [OF l] flags_less [of l w h] by simp
qed

theorem rw_read_count_witness: "card {t. reading (thr ex_shared t)} = 1"
proof -
  have "rw_owner ex_shared AND RW_WRITE_LOCKED = 0" by code_simp
  moreover have "unat (rw_owner ex_shared) div 16 = 1" by (simp add: ex_values)
  ultimately show ?thesis using rw_read_count [OF ex_threads_ok ex_reachable(3)] by simp
qed

text \<open>The queries used in assertions are right: a thread that has not just been woken sees
  \<open>rw_write_held\<close> exactly while it holds the lock for writing.\<close>

theorem rw_write_held_iff:
  assumes "threads_ok n addr" and "rw_reachable n addr s" and "t < n" and "thr s t \<noteq> Woken RW_WRITER"
  shows "rw_write_held (rw_owner s) (addr t) \<longleftrightarrow> writing (thr s t)"
proof -
  obtain x l w h where inv: "rw_inv n addr s x l w h" using rw_reachable_good [OF assms(1,2)] by (auto simp: rw_good_def)
  have o: "rw_owner s = pk x l w h" using inv by (simp add: rw_inv_def)
  have "rw_owner s AND (RW_WRITE_LOCKED OR RW_THREAD) = pk x l False False" by (simp add: o pk_consts pk_logic)
  moreover have "RW_WRITE_LOCKED OR addr t = pk (num addr t) True False False"
    using incr_write [OF assms(1,3)] by (simp add: or.commute)
  ultimately have "rw_write_held (rw_owner s) (addr t) \<longleftrightarrow> l \<and> x = num addr t"
    using pk_eq [OF x_bound(1) [OF assms(1) inv]] addr_pk [OF assms(1,3)] by (auto simp: rw_write_held_def)
  also have "\<dots> \<longleftrightarrow> writing (thr s t)"
  proof
    assume lx: "l \<and> x = num addr t"
    then obtain k where "k < n" "num addr t = num addr k" "writing (thr s k) \<or> thr s k = Woken RW_WRITER"
      using inv by (auto simp: rw_inv_def write_locked_def)
    then show "writing (thr s t)" using num_inj [OF assms(1,3)] assms(4) by blast
  next
    assume "writing (thr s t)"
    then show "l \<and> x = num addr t" using writing_locked [OF inv] owner_only(1) [of n addr s x w h t] inv by auto
  qed
  finally show ?thesis .
qed

theorem rw_write_held_iff_witness: "rw_write_held (rw_owner ex_asleep) (ex_addr 0)"
  using rw_write_held_iff [OF ex_threads_ok ex_reachable(2), of 0] by (simp add: ex_values)

end
