(* ===== verification/Blist.thy ===== *)
theory Blist
  imports Kern_Prelude
begin

text \<open>
  The bitmap allocator of swap space, \<open>sys/kern/subr_blist.c\<close>: a radix tree of bitmaps laid out in one
  array, \<open>bl_root\<close>.  A pointer \<open>scan\<close> into the tree is an index into the array, and \<open>scan[i]\<close> is the
  element \<open>scan + i\<close>.  A \<open>blist_blkno_t\<close> is a natural number below \<open>2^32\<close> and its arithmetic wraps where
  the operations below say so.  The result \<open>Undef\<close> stands for an access outside the array, a shift by
  the width or more, a division by zero or a loop that never ends.  The \<open>blist_t\<close> is not \<open>NULL\<close>.
\<close>

section \<open>Results\<close>

datatype 'a bl = Undef | Panic | Ret 'a

fun bl_bind :: "'a bl \<Rightarrow> ('a \<Rightarrow> 'b bl) \<Rightarrow> 'b bl" where
  "bl_bind Undef f = Undef"
| "bl_bind Panic f = Panic"
| "bl_bind (Ret x) f = f x"

lemma bl_bind_cong [fundef_cong]: "m = m' \<Longrightarrow> (\<And>x. m' = Ret x \<Longrightarrow> f x = g x) \<Longrightarrow> bl_bind m f = bl_bind m' g"
  by (cases m') auto

section \<open>Data\<close>

definition add32 :: "nat \<Rightarrow> nat \<Rightarrow> nat" where "add32 a b = (a + b) mod 2 ^ 32"
definition sub32 :: "nat \<Rightarrow> nat \<Rightarrow> nat" where "sub32 a b = (a + (2 ^ 32 - b)) mod 2 ^ 32"
definition mul32 :: "nat \<Rightarrow> nat \<Rightarrow> nat" where "mul32 a b = (a * b) mod 2 ^ 32"

definition BLIST_NONE :: nat where "BLIST_NONE = 2 ^ 32 - 1"
definition BLIST_BMAP_RADIX :: nat where "BLIST_BMAP_RADIX = 32"
definition BLIST_META_RADIX :: nat where "BLIST_META_RADIX = 16"

text \<open>The hint \<open>(blist_blkno_t)-1\<close> marks the end of the children of a node.\<close>

definition BL_END :: nat where "BL_END = 2 ^ 32 - 1"

text \<open>The union \<open>u\<close> is one word, read as a count in a meta node and as a bitmap in a leaf.\<close>

record blmeta =
  bmu :: u32
  bm_bighint :: nat

definition bmu_avail :: "blmeta \<Rightarrow> nat" where "bmu_avail m = unat (bmu m)"
definition set_avail :: "nat \<Rightarrow> blmeta \<Rightarrow> blmeta" where "set_avail v m = m\<lparr>bmu := of_nat v\<rparr>"

record blist =
  bl_blocks :: nat
  bl_radix :: nat
  bl_skip :: nat
  bl_free :: nat
  bl_root :: "blmeta list"
  bl_rootblks :: nat

definition rd :: "blmeta list \<Rightarrow> nat \<Rightarrow> blmeta bl" where
  "rd a i = (if i < length a then Ret (a ! i) else Undef)"

definition wr :: "blmeta list \<Rightarrow> nat \<Rightarrow> (blmeta \<Rightarrow> blmeta) \<Rightarrow> blmeta list bl" where
  "wr a i f = (if i < length a then Ret (a[i := f (a ! i)]) else Undef)"

section \<open>Leaves\<close>

text \<open>The search for one free bit by halving, and for a run of bits.\<close>

fun leaf_one :: "nat \<Rightarrow> nat \<Rightarrow> u32 \<Rightarrow> u32 \<Rightarrow> nat" where
  "leaf_one j r orig msk =
     (if j = 0 then r
      else let r' = (if orig AND msk = 0 then r + j else r);
               orig' = (if orig AND msk = 0 then drop_bit j orig else orig)
           in leaf_one (j div 2) r' orig' (drop_bit (j div 2) msk))"

declare leaf_one.simps [simp del]

function leaf_run :: "nat \<Rightarrow> nat \<Rightarrow> u32 \<Rightarrow> u32 \<Rightarrow> (nat \<times> u32) option" where
  "leaf_run n j orig msk =
     (if j \<le> n then if orig AND msk = msk then Some (j, msk) else leaf_run n (j + 1) orig (push_bit 1 msk)
      else None)"
  by pat_completeness auto
termination
  by (relation "measure (\<lambda>(n, j, orig, msk). Suc n - j)") auto

declare leaf_run.simps [simp del]

definition blst_leaf_alloc :: "blmeta list \<Rightarrow> nat \<Rightarrow> nat \<Rightarrow> nat \<Rightarrow> (nat \<times> blmeta list) bl" where
  "blst_leaf_alloc a scan blk count =
     bl_bind (rd a scan) (\<lambda>m.
       let orig = bmu m; failed = Ret (BLIST_NONE, a[scan := m\<lparr>bm_bighint := sub32 count 1\<rparr>]) in
       if orig = 0 then Ret (BLIST_NONE, a[scan := m\<lparr>bm_bighint := 0\<rparr>])
       else if count = 1 then
         let r = leaf_one (BLIST_BMAP_RADIX div 2) 0 orig (drop_bit (BLIST_BMAP_RADIX div 2) (-1))
         in Ret (add32 blk r, a[scan := m\<lparr>bmu := bmu m AND NOT (push_bit r 1)\<rparr>])
       else if count = 0 then Undef
       else if count \<le> BLIST_BMAP_RADIX then
         case leaf_run (BLIST_BMAP_RADIX - count) 0 orig (drop_bit (BLIST_BMAP_RADIX - count) (-1)) of
           Some (j, msk) \<Rightarrow> Ret (add32 blk j, a[scan := m\<lparr>bmu := bmu m AND NOT msk\<rparr>])
         | None \<Rightarrow> failed
       else failed)"

definition leaf_mask :: "nat \<Rightarrow> nat \<Rightarrow> u32 bl" where
  "leaf_mask n count =
     (if n + count \<le> BLIST_BMAP_RADIX \<and> 0 < n + count
      then Ret (push_bit n (-1) AND drop_bit (BLIST_BMAP_RADIX - count - n) (-1)) else Undef)"

definition blst_leaf_free :: "blmeta list \<Rightarrow> nat \<Rightarrow> nat \<Rightarrow> nat \<Rightarrow> blmeta list bl" where
  "blst_leaf_free a scan blk count =
     bl_bind (leaf_mask (blk mod BLIST_BMAP_RADIX) count) (\<lambda>msk. bl_bind (rd a scan) (\<lambda>m.
       if bmu m AND msk \<noteq> 0 then Panic
       else Ret (a[scan := m\<lparr>bmu := bmu m OR msk, bm_bighint := BLIST_BMAP_RADIX\<rparr>])))"

lemma and_minus_one_less: "b \<noteq> 0 \<Longrightarrow> unat (b AND (b - 1)) < unat (b :: u32)"
proof -
  assume b: "b \<noteq> 0"
  have "unat (b AND (b - 1)) \<le> unat (b - 1)" using word_and_le1 [of b "b - 1"] by (simp add: word_le_nat_alt)
  also have "\<dots> < unat b" using b by (simp add: unat_minus_one unat_gt_0)
  finally show ?thesis .
qed

function leaf_count :: "u32 \<Rightarrow> nat \<Rightarrow> nat" where
  "leaf_count bitmap nblks = (if bitmap \<noteq> 0 then leaf_count (bitmap AND (bitmap - 1)) (nblks + 1) else nblks)"
  by pat_completeness auto
termination
  by (relation "measure (\<lambda>(bitmap, nblks). unat bitmap)") (auto simp: and_minus_one_less)

declare leaf_count.simps [simp del]

definition blst_leaf_fill :: "blmeta list \<Rightarrow> nat \<Rightarrow> nat \<Rightarrow> nat \<Rightarrow> (nat \<times> blmeta list) bl" where
  "blst_leaf_fill a scan blk count =
     bl_bind (leaf_mask (blk mod BLIST_BMAP_RADIX) count) (\<lambda>msk. bl_bind (rd a scan) (\<lambda>m.
       Ret (leaf_count (bmu m AND msk) 0, a[scan := m\<lparr>bmu := bmu m AND NOT msk\<rparr>])))"

section \<open>Meta nodes\<close>

text \<open>The children of a node that was all free, or all allocated, are brought up to date.\<close>

function expand_free :: "blmeta list \<Rightarrow> nat \<Rightarrow> nat \<Rightarrow> nat \<Rightarrow> nat \<Rightarrow> blmeta list bl" where
  "expand_free a scan radix skip i =
     (let next_skip = skip div BLIST_META_RADIX in
      if i \<le> skip then bl_bind (rd a (scan + i)) (\<lambda>c.
        if bm_bighint c = BL_END then Ret a
        else if next_skip = 0 then Undef
        else expand_free
          (a[scan + i := if next_skip = 1 then c\<lparr>bmu := -1, bm_bighint := BLIST_BMAP_RADIX\<rparr> else (set_avail radix c)\<lparr>bm_bighint := radix\<rparr>])
          scan radix skip (i + next_skip))
      else Ret a)"
  by pat_completeness auto
termination
  by (relation "measure (\<lambda>(a, scan, radix, skip, i). Suc skip - i)") auto

function expand_alloc :: "blmeta list \<Rightarrow> nat \<Rightarrow> nat \<Rightarrow> nat \<Rightarrow> blmeta list bl" where
  "expand_alloc a scan skip i =
     (let next_skip = skip div BLIST_META_RADIX in
      if i \<le> skip then bl_bind (rd a (scan + i)) (\<lambda>c.
        if bm_bighint c = BL_END then Ret a
        else if next_skip = 0 then Undef
        else expand_alloc (a[scan + i := c\<lparr>bmu := 0, bm_bighint := 0\<rparr>]) scan skip (i + next_skip))
      else Ret a)"
  by pat_completeness auto
termination
  by (relation "measure (\<lambda>(a, scan, skip, i). Suc skip - i)") auto

declare expand_free.simps [simp del] expand_alloc.simps [simp del]

text \<open>Allocation.  The loop over the children is \<open>meta_alloc_scan\<close>, with \<open>radix\<close> already divided.\<close>

definition meta_alloc_failed :: "blmeta list \<Rightarrow> nat \<Rightarrow> nat \<Rightarrow> (nat \<times> blmeta list) bl" where
  "meta_alloc_failed a scan count =
     bl_bind (wr a scan (\<lambda>m. if bm_bighint m \<ge> count then m\<lparr>bm_bighint := sub32 count 1\<rparr> else m)) (\<lambda>a. Ret (BLIST_NONE, a))"

definition meta_alloc_done :: "blmeta list \<Rightarrow> nat \<Rightarrow> nat \<Rightarrow> nat \<Rightarrow> (nat \<times> blmeta list) bl" where
  "meta_alloc_done a scan count r =
     bl_bind (wr a scan (\<lambda>m.
       let m = set_avail (sub32 (bmu_avail m) count) m
       in if bm_bighint m > bmu_avail m then m\<lparr>bm_bighint := bmu_avail m\<rparr> else m)) (\<lambda>a. Ret (r, a))"

function blst_meta_alloc :: "blmeta list \<Rightarrow> nat \<Rightarrow> nat \<Rightarrow> nat \<Rightarrow> nat \<Rightarrow> nat \<Rightarrow> (nat \<times> blmeta list) bl"
  and meta_alloc_scan :: "blmeta list \<Rightarrow> nat \<Rightarrow> nat \<Rightarrow> nat \<Rightarrow> nat \<Rightarrow> nat \<Rightarrow> nat \<Rightarrow> (nat \<times> blmeta list) bl" where
  "blst_meta_alloc a scan blk count radix skip =
     bl_bind (rd a scan) (\<lambda>m.
       if bmu_avail m = 0 then Ret (BLIST_NONE, a[scan := m\<lparr>bm_bighint := count\<rparr>])
       else bl_bind (if bmu_avail m = radix then expand_free a scan (radix div BLIST_META_RADIX) skip 1 else Ret a) (\<lambda>a.
         meta_alloc_scan a scan blk count (radix div BLIST_META_RADIX) skip 1))"
| "meta_alloc_scan a scan blk count radix skip i =
     (let next_skip = skip div BLIST_META_RADIX in
      if i \<le> skip then bl_bind (rd a (scan + i)) (\<lambda>c.
        if bm_bighint c = BL_END then meta_alloc_failed a scan count
        else if next_skip = 0 then Undef
        else if count \<le> bm_bighint c then
          bl_bind (if next_skip = 1 then blst_leaf_alloc a (scan + i) blk count
                   else blst_meta_alloc a (scan + i) blk count radix (next_skip - 1)) (\<lambda>(r, a).
            if r \<noteq> BLIST_NONE then meta_alloc_done a scan count r
            else meta_alloc_scan a scan (add32 blk radix) count radix skip (i + next_skip))
        else if count > radix then Panic
        else meta_alloc_scan a scan (add32 blk radix) count radix skip (i + next_skip))
      else meta_alloc_failed a scan count)"
  by pat_completeness auto
termination
  by (relation "measures [\<lambda>x. case x of Inl (a, scan, blk, count, radix, skip) \<Rightarrow> skip | Inr (a, scan, blk, count, radix, skip, i) \<Rightarrow> skip,
      \<lambda>x. case x of Inl (a, scan, blk, count, radix, skip) \<Rightarrow> skip + 2 | Inr (a, scan, blk, count, radix, skip, i) \<Rightarrow> Suc skip - i]")
    (auto simp: BLIST_META_RADIX_def)

text \<open>Freeing.\<close>

function blst_meta_free :: "blmeta list \<Rightarrow> nat \<Rightarrow> nat \<Rightarrow> nat \<Rightarrow> nat \<Rightarrow> nat \<Rightarrow> nat \<Rightarrow> blmeta list bl"
  and meta_free_scan :: "blmeta list \<Rightarrow> nat \<Rightarrow> nat \<Rightarrow> nat \<Rightarrow> nat \<Rightarrow> nat \<Rightarrow> nat \<Rightarrow> nat \<Rightarrow> blmeta list bl" where
  "blst_meta_free a scan freeBlk count radix skip blk =
     bl_bind (rd a scan) (\<lambda>m.
     bl_bind
       (if bmu_avail m = 0 then
          let a = a[scan := (set_avail count m)\<lparr>bm_bighint := count\<rparr>]
          in if count \<noteq> radix then expand_alloc a scan skip 1 else Ret a
        else Ret (a[scan := set_avail (add32 (bmu_avail m) count) m])) (\<lambda>a.
     bl_bind (rd a scan) (\<lambda>m.
       if bmu_avail m = radix then Ret a
       else if bmu_avail m > radix then Panic
       else let radix = radix div BLIST_META_RADIX in
         if radix = 0 then Undef
         else let i = sub32 freeBlk blk div radix
           in meta_free_scan a scan freeBlk count radix skip (add32 blk (mul32 i radix))
                (add32 (mul32 i (skip div BLIST_META_RADIX)) 1))))"
| "meta_free_scan a scan freeBlk count radix skip blk i =
     (let next_skip = skip div BLIST_META_RADIX in
      if i \<le> skip \<and> blk < add32 freeBlk count then
        let v = sub32 (add32 blk radix) freeBlk; v = (if v > count then count else v) in
        bl_bind (rd a scan) (\<lambda>m.
          if bm_bighint m = BL_END then Panic
          else if next_skip = 0 then Undef
          else bl_bind (if next_skip = 1 then blst_leaf_free a (scan + i) freeBlk v
                        else blst_meta_free a (scan + i) freeBlk v radix (next_skip - 1) blk) (\<lambda>a.
               bl_bind (rd a (scan + i)) (\<lambda>c.
               bl_bind (wr a scan (\<lambda>m. if bm_bighint m < bm_bighint c then m\<lparr>bm_bighint := bm_bighint c\<rparr> else m)) (\<lambda>a.
                 meta_free_scan a scan (add32 freeBlk v) (sub32 count v) radix skip (add32 blk radix) (i + next_skip)))))
      else Ret a)"
  by pat_completeness auto
termination
  by (relation "measures [\<lambda>x. case x of Inl (a, scan, freeBlk, count, radix, skip, blk) \<Rightarrow> skip | Inr (a, scan, freeBlk, count, radix, skip, blk, i) \<Rightarrow> skip,
      \<lambda>x. case x of Inl (a, scan, freeBlk, count, radix, skip, blk) \<Rightarrow> skip + 2 | Inr (a, scan, freeBlk, count, radix, skip, blk, i) \<Rightarrow> Suc skip - i]")
    (auto simp: BLIST_META_RADIX_def)

text \<open>Filling.\<close>

function blst_meta_fill :: "blmeta list \<Rightarrow> nat \<Rightarrow> nat \<Rightarrow> nat \<Rightarrow> nat \<Rightarrow> nat \<Rightarrow> nat \<Rightarrow> (nat \<times> blmeta list) bl"
  and meta_fill_scan :: "blmeta list \<Rightarrow> nat \<Rightarrow> nat \<Rightarrow> nat \<Rightarrow> nat \<Rightarrow> nat \<Rightarrow> nat \<Rightarrow> nat \<Rightarrow> nat \<Rightarrow> (nat \<times> blmeta list) bl" where
  "blst_meta_fill a scan allocBlk count radix skip blk =
     bl_bind (rd a scan) (\<lambda>m.
       if count = radix \<or> bmu_avail m = 0 then
         Ret (bmu_avail m, a[scan := (set_avail 0 m)\<lparr>bm_bighint := count\<rparr>])
       else if count > radix then Panic
       else bl_bind (if bmu_avail m = radix then expand_free a scan (radix div BLIST_META_RADIX) skip 1 else Ret a) (\<lambda>a.
         let radix = radix div BLIST_META_RADIX in
         if radix = 0 then Undef
         else let i = sub32 allocBlk blk div radix
           in meta_fill_scan a scan allocBlk count radix skip (add32 blk (mul32 i radix))
                (add32 (mul32 i (skip div BLIST_META_RADIX)) 1) 0))"
| "meta_fill_scan a scan allocBlk count radix skip blk i nblks =
     (let next_skip = skip div BLIST_META_RADIX in
      if i \<le> skip \<and> blk < add32 allocBlk count then
        let v = sub32 (add32 blk radix) allocBlk; v = (if v > count then count else v) in
        bl_bind (rd a scan) (\<lambda>m.
          if bm_bighint m = BL_END then Panic
          else if next_skip = 0 then Undef
          else bl_bind (if next_skip = 1 then blst_leaf_fill a (scan + i) allocBlk v
                        else blst_meta_fill a (scan + i) allocBlk v radix (next_skip - 1) blk) (\<lambda>(k, a).
               meta_fill_scan a scan (add32 allocBlk v) (sub32 count v) radix skip (add32 blk radix) (i + next_skip) (add32 nblks k)))
      else bl_bind (wr a scan (\<lambda>m. set_avail (sub32 (bmu_avail m) nblks) m)) (\<lambda>a. Ret (nblks, a)))"
  by pat_completeness auto
termination
  by (relation "measures [\<lambda>x. case x of Inl (a, scan, allocBlk, count, radix, skip, blk) \<Rightarrow> skip | Inr (a, scan, allocBlk, count, radix, skip, blk, i, nblks) \<Rightarrow> skip,
      \<lambda>x. case x of Inl (a, scan, allocBlk, count, radix, skip, blk) \<Rightarrow> skip + 2 | Inr (a, scan, allocBlk, count, radix, skip, blk, i, nblks) \<Rightarrow> Suc skip - i]")
    (auto simp: BLIST_META_RADIX_def)

declare blst_meta_alloc.simps [simp del] meta_alloc_scan.simps [simp del] blst_meta_free.simps [simp del]
  meta_free_scan.simps [simp del] blst_meta_fill.simps [simp del] meta_fill_scan.simps [simp del]

section \<open>Creation\<close>

text \<open>\<open>blst_radix_init\<close> runs once with a \<open>NULL\<close> pointer, which only counts the nodes, and once on the array.\<close>

definition wr_opt :: "blmeta list \<Rightarrow> nat option \<Rightarrow> (blmeta \<Rightarrow> blmeta) \<Rightarrow> blmeta list bl" where
  "wr_opt a scan f = (case scan of None \<Rightarrow> Ret a | Some s \<Rightarrow> wr a s f)"

function blst_radix_init :: "blmeta list \<Rightarrow> nat option \<Rightarrow> nat \<Rightarrow> nat \<Rightarrow> nat \<Rightarrow> (nat \<times> blmeta list) bl"
  and radix_init_scan :: "blmeta list \<Rightarrow> nat option \<Rightarrow> nat \<Rightarrow> nat \<Rightarrow> nat \<Rightarrow> nat \<Rightarrow> nat \<Rightarrow> (nat \<times> blmeta list) bl" where
  "blst_radix_init a scan radix skip count =
     bl_bind (wr_opt a scan (\<lambda>m. m\<lparr>bmu := 0, bm_bighint := 0\<rparr>)) (\<lambda>a.
       if radix = BLIST_BMAP_RADIX then Ret (0, a)
       else radix_init_scan a scan (radix div BLIST_META_RADIX) skip count 1 0)"
| "radix_init_scan a scan radix skip count i memindex =
     (let next_skip = skip div BLIST_META_RADIX; sub = map_option (\<lambda>s. s + i) scan in
      if i \<le> skip then
        if next_skip = 0 then Undef
        else if count \<ge> radix then
          bl_bind (blst_radix_init a sub radix (next_skip - 1) radix) (\<lambda>(k, a).
            radix_init_scan a scan radix skip (count - radix) (i + next_skip) (i + k))
        else if count > 0 then
          bl_bind (blst_radix_init a sub radix (next_skip - 1) count) (\<lambda>(k, a).
            radix_init_scan a scan radix skip 0 (i + next_skip) (i + k))
        else bl_bind (wr_opt a sub (\<lambda>m. m\<lparr>bm_bighint := BL_END\<rparr>)) (\<lambda>a.
            Ret (if memindex < i then i else memindex, a))
      else Ret (if memindex < i then i else memindex, a))"
  by pat_completeness auto
termination
  by (relation "measures [\<lambda>x. case x of Inl (a, scan, radix, skip, count) \<Rightarrow> skip | Inr (a, scan, radix, skip, count, i, memindex) \<Rightarrow> skip,
      \<lambda>x. case x of Inl (a, scan, radix, skip, count) \<Rightarrow> skip + 2 | Inr (a, scan, radix, skip, count, i, memindex) \<Rightarrow> Suc skip - i]")
    (auto simp: BLIST_META_RADIX_def)

declare blst_radix_init.simps [simp del] radix_init_scan.simps [simp del]

partial_function (option) create_radix :: "nat \<Rightarrow> nat \<Rightarrow> nat \<Rightarrow> (nat \<times> nat) option" where
  "create_radix radix skip blocks =
     (if radix < blocks then create_radix (mul32 radix BLIST_META_RADIX) (mul32 (add32 skip 1) BLIST_META_RADIX) blocks
      else Some (radix, skip))"

text \<open>\<open>mem\<close> is what the memory from \<open>kmem_alloc\<close> holds.\<close>

definition blist_create :: "(nat \<Rightarrow> blmeta) \<Rightarrow> nat \<Rightarrow> blist bl" where
  "blist_create mem blocks =
     (case create_radix BLIST_BMAP_RADIX 0 blocks of
        None \<Rightarrow> Undef
      | Some (radix, skip) \<Rightarrow>
          bl_bind (blst_radix_init [] None radix skip blocks) (\<lambda>(k, _).
          bl_bind (blst_radix_init (map mem [0..<add32 1 k]) (Some 0) radix skip blocks) (\<lambda>(_, root).
            Ret \<lparr>bl_blocks = blocks, bl_radix = radix, bl_skip = skip, bl_free = 0, bl_root = root, bl_rootblks = add32 1 k\<rparr>)))"

section \<open>The interface\<close>

definition blist_alloc :: "blist \<Rightarrow> nat \<Rightarrow> (nat \<times> blist) bl" where
  "blist_alloc bl count =
     bl_bind (if bl_radix bl = BLIST_BMAP_RADIX then blst_leaf_alloc (bl_root bl) 0 0 count
              else blst_meta_alloc (bl_root bl) 0 0 count (bl_radix bl) (bl_skip bl)) (\<lambda>(blk, root).
       Ret (blk, bl\<lparr>bl_root := root, bl_free := if blk \<noteq> BLIST_NONE then sub32 (bl_free bl) count else bl_free bl\<rparr>))"

definition blist_free :: "blist \<Rightarrow> nat \<Rightarrow> nat \<Rightarrow> blist bl" where
  "blist_free bl blkno count =
     bl_bind (if bl_radix bl = BLIST_BMAP_RADIX then blst_leaf_free (bl_root bl) 0 blkno count
              else blst_meta_free (bl_root bl) 0 blkno count (bl_radix bl) (bl_skip bl) 0) (\<lambda>root.
       Ret (bl\<lparr>bl_root := root, bl_free := add32 (bl_free bl) count\<rparr>))"

definition blist_fill :: "blist \<Rightarrow> nat \<Rightarrow> nat \<Rightarrow> (nat \<times> blist) bl" where
  "blist_fill bl blkno count =
     bl_bind (if bl_radix bl = BLIST_BMAP_RADIX then blst_leaf_fill (bl_root bl) 0 blkno count
              else blst_meta_fill (bl_root bl) 0 blkno count (bl_radix bl) (bl_skip bl) 0) (\<lambda>(filled, root).
       Ret (filled, bl\<lparr>bl_root := root, bl_free := sub32 (bl_free bl) filled\<rparr>))"

section \<open>Resizing\<close>

text \<open>\<open>1 << j\<close> is bit \<open>j\<close> also for \<open>j = 31\<close>, as the compiler has it.\<close>

function copy_bits :: "u32 \<Rightarrow> nat \<Rightarrow> nat \<Rightarrow> nat \<Rightarrow> blist \<Rightarrow> blist bl" where
  "copy_bits v blk count j dest =
     (if j < BLIST_BMAP_RADIX \<and> j < count then
        bl_bind (if bit v j then blist_free dest (add32 blk j) 1 else Ret dest) (\<lambda>dest. copy_bits v blk count (j + 1) dest)
      else Ret dest)"
  by pat_completeness auto
termination
  by (relation "measure (\<lambda>(v, blk, count, j, dest). count - j)") auto

declare copy_bits.simps [simp del]

function blst_copy :: "blmeta list \<Rightarrow> nat \<Rightarrow> nat \<Rightarrow> nat \<Rightarrow> nat \<Rightarrow> blist \<Rightarrow> nat \<Rightarrow> blist bl"
  and copy_scan :: "blmeta list \<Rightarrow> nat \<Rightarrow> nat \<Rightarrow> nat \<Rightarrow> nat \<Rightarrow> blist \<Rightarrow> nat \<Rightarrow> nat \<Rightarrow> blist bl" where
  "blst_copy a scan blk radix skip dest count =
     bl_bind (rd a scan) (\<lambda>m.
       if radix = BLIST_BMAP_RADIX then
         if bmu m = -1 then blist_free dest blk count
         else if bmu m \<noteq> 0 then copy_bits (bmu m) blk count 0 dest
         else Ret dest
       else if bmu_avail m = 0 then Ret dest
       else if bmu_avail m = radix then
         if count < radix then blist_free dest blk count else blist_free dest blk radix
       else copy_scan a scan blk (radix div BLIST_META_RADIX) skip dest count 1)"
| "copy_scan a scan blk radix skip dest count i =
     (let next_skip = skip div BLIST_META_RADIX in
      if count \<noteq> 0 \<and> i \<le> skip then bl_bind (rd a (scan + i)) (\<lambda>c.
        if bm_bighint c = BL_END then Ret dest
        else if next_skip = 0 then Undef
        else if count \<ge> radix then
          bl_bind (blst_copy a (scan + i) blk radix (next_skip - 1) dest radix) (\<lambda>dest.
            copy_scan a scan (add32 blk radix) radix skip dest (count - radix) (i + next_skip))
        else
          bl_bind (blst_copy a (scan + i) blk radix (next_skip - 1) dest count) (\<lambda>dest.
            copy_scan a scan (add32 blk radix) radix skip dest 0 (i + next_skip)))
      else Ret dest)"
  by pat_completeness auto
termination
  by (relation "measures [\<lambda>x. case x of Inl (a, scan, blk, radix, skip, dest, count) \<Rightarrow> skip | Inr (a, scan, blk, radix, skip, dest, count, i) \<Rightarrow> skip,
      \<lambda>x. case x of Inl (a, scan, blk, radix, skip, dest, count) \<Rightarrow> skip + 2 | Inr (a, scan, blk, radix, skip, dest, count, i) \<Rightarrow> Suc skip - i]")
    (auto simp: BLIST_META_RADIX_def)

declare blst_copy.simps [simp del] copy_scan.simps [simp del]

definition blist_resize :: "(nat \<Rightarrow> blmeta) \<Rightarrow> blist \<Rightarrow> nat \<Rightarrow> bool \<Rightarrow> blist bl" where
  "blist_resize mem save count freenew =
     bl_bind (blist_create mem count) (\<lambda>newbl.
       let count = (if count > bl_blocks save then bl_blocks save else count) in
       bl_bind (blst_copy (bl_root save) 0 0 (bl_radix save) (bl_skip save) newbl count) (\<lambda>newbl.
         if freenew \<and> count < bl_blocks newbl then blist_free newbl count (sub32 (bl_blocks newbl) count)
         else Ret newbl))"

end
