(* ===== verification/Blist_Leaf.thy ===== *)
theory Blist_Leaf
  imports Blist
begin

text \<open>The bitmaps of the leaves: the searches find what they look for, and masks cover what they should.\<close>

lemma bit_lt_32: "bit (x :: u32) j \<Longrightarrow> j < 32"
  using bit_imp_le_length by force

lemma finite_bits [simp, intro]: "finite {j. bit (x :: u32) j}"
  by (rule finite_subset [of _ "{..<32}"]) (auto dest: bit_lt_32)

lemma nonzero_bit:
  assumes "(x :: u32) \<noteq> 0"
  obtains i where "bit x i" "i < 32"
proof -
  have "\<exists>i. bit x i"
  proof (rule ccontr)
    assume "\<nexists>i. bit x i"
    then have "x = 0" by (intro bit_word_eqI) simp
    then show False using assms by simp
  qed
  then show ?thesis using that bit_lt_32 by blast
qed

section \<open>One bit\<close>

lemma and_mask_zero_iff: "(x :: u32) AND mask j = 0 \<longleftrightarrow> (\<forall>i < j. \<not> bit x i)"
proof
  assume z: "x AND mask j = 0"
  show "\<forall>i < j. \<not> bit x i"
  proof (intro allI impI notI)
    fix i assume "i < j" "bit x i"
    then have "bit (x AND mask j) i" by (auto simp: bit_simps dest: bit_lt_32)
    then show False using z by simp
  qed
next
  assume "\<forall>i < j. \<not> bit x i"
  then show "x AND mask j = 0" by (intro bit_word_eqI) (auto simp: bit_simps)
qed

lemma drop_bit_mask_word: "n \<le> m \<Longrightarrow> m \<le> 32 \<Longrightarrow> drop_bit n (mask m :: u32) = mask (m - n)"
  by (rule bit_word_eqI) (auto simp: bit_simps)

lemma leaf_one_correct:
  assumes "\<exists>i < 2 ^ Suc m. bit orig i" and "2 ^ m \<le> (16 :: nat)"
  shows "\<exists>i. leaf_one (2 ^ m) r orig (mask (2 ^ m)) = r + i \<and> bit orig i"
  using assms
proof (induction m arbitrary: r orig)
  case 0
  show ?case
  proof (cases "bit orig 0")
    case True
    then have "orig AND mask 1 \<noteq> 0" using and_mask_zero_iff [of orig 1] zero_less_one by blast
    then have "leaf_one (2 ^ 0) r orig (mask (2 ^ 0)) = r + 0" by (simp add: leaf_one.simps [of "Suc 0"] leaf_one.simps [of 0])
    then show ?thesis using True by blast
  next
    case False
    then have "bit orig 1" using 0 by (metis One_nat_def Suc_1 less_2_cases power_one_right)
    moreover have "orig AND mask 1 = 0" using False and_mask_zero_iff [of orig 1] by auto
    then have "leaf_one (2 ^ 0) r orig (mask (2 ^ 0)) = r + 1" by (simp add: leaf_one.simps [of "Suc 0"] leaf_one.simps [of 0])
    ultimately show ?thesis by blast
  qed
next
  case (Suc m)
  let ?j = "2 ^ Suc m :: nat"
  have half: "?j div 2 = 2 ^ m" "drop_bit (2 ^ m) (mask ?j :: u32) = mask (2 ^ m)"
    using Suc.prems(2) drop_bit_mask_word [of "2 ^ m" "2 ^ Suc m"] by simp_all
  have small: "2 ^ m \<le> (16 :: nat)" using Suc.prems(2) by simp
  show ?case
  proof (cases "orig AND mask ?j = 0")
    case True
    then have low: "\<forall>i < ?j. \<not> bit orig i" by (simp only: and_mask_zero_iff)
    obtain i where i: "i < 2 ^ Suc (Suc m)" "bit orig i" using Suc.prems(1) by blast
    then have "?j \<le> i" using low by (meson leI)
    then have "bit (drop_bit ?j orig) (i - ?j)" "i - ?j < ?j" using i by (auto simp: bit_simps)
    then obtain i' where "leaf_one (2 ^ m) (r + ?j) (drop_bit ?j orig) (mask (2 ^ m)) = (r + ?j) + i'" "bit (drop_bit ?j orig) i'"
      using Suc.IH [of "drop_bit ?j orig" "r + ?j"] small by blast
    moreover have "leaf_one ?j r orig (mask ?j) = leaf_one (2 ^ m) (r + ?j) (drop_bit ?j orig) (mask (2 ^ m))"
      using True half by (subst leaf_one.simps) (simp add: Let_def)
    ultimately show ?thesis by (intro exI [of _ "?j + i'"]) (auto simp: bit_simps)
  next
    case False
    then obtain i where "i < ?j" "bit orig i" by (auto simp: and_mask_zero_iff)
    then obtain i' where "leaf_one (2 ^ m) r orig (mask (2 ^ m)) = r + i'" "bit orig i'"
      using Suc.IH [of orig r] small by blast
    moreover have "leaf_one ?j r orig (mask ?j) = leaf_one (2 ^ m) r orig (mask (2 ^ m))"
      using False half by (subst leaf_one.simps) (simp add: Let_def)
    ultimately show ?thesis by (intro exI [of _ i']) simp
  qed
qed

lemma all_ones_drop: "n \<le> 32 \<Longrightarrow> drop_bit n (- 1 :: u32) = mask (32 - n)"
  by (rule bit_word_eqI) (auto simp: bit_simps)

lemma leaf_one_bit:
  assumes "orig \<noteq> 0"
  shows "bit orig (leaf_one 16 0 orig (drop_bit 16 (- 1)))"
proof -
  obtain i where "bit orig i" "i < 32" using assms by (rule nonzero_bit)
  then have "\<exists>i < 2 ^ Suc 4. bit orig i" by auto
  then obtain r where "leaf_one (2 ^ 4) 0 orig (mask (2 ^ 4)) = 0 + r" "bit orig r"
    using leaf_one_correct [of 4 orig 0] by auto
  moreover have "drop_bit 16 (- 1) = (mask (2 ^ 4) :: u32)" using all_ones_drop [of 16] by simp
  ultimately show ?thesis by simp
qed

section \<open>A run of bits\<close>

definition run_at :: "u32 \<Rightarrow> nat \<Rightarrow> nat \<Rightarrow> bool" where
  "run_at v count j \<longleftrightarrow> (\<forall>i < count. bit v (j + i))"

lemma and_run_iff:
  assumes "j + count \<le> 32"
  shows "v AND push_bit j (mask count) = push_bit j (mask count) \<longleftrightarrow> run_at v count j"
proof
  assume e: "v AND push_bit j (mask count) = push_bit j (mask count)"
  show "run_at v count j"
    unfolding run_at_def
  proof (intro allI impI)
    fix i assume "i < count"
    then have "bit (push_bit j (mask count) :: u32) (j + i)" using assms by (auto simp: bit_simps)
    then show "bit v (j + i)" using e by (metis bit_and_iff)
  qed
next
  assume r: "run_at v count j"
  show "v AND push_bit j (mask count) = push_bit j (mask count)"
  proof (rule bit_word_eqI)
    fix i assume "i < LENGTH(32)"
    have "bit v i" if "j \<le> i" "i - j < count" using r that unfolding run_at_def by (metis le_add_diff_inverse)
    then show "bit (v AND push_bit j (mask count)) i = bit (push_bit j (mask count) :: u32) i" by (auto simp: bit_simps)
  qed
qed

lemma leaf_run_correct:
  assumes "n + count = 32"
  shows "case leaf_run n j orig (push_bit j (mask count)) of
      Some (j', m) \<Rightarrow> j \<le> j' \<and> j' \<le> n \<and> m = push_bit j' (mask count) \<and> run_at orig count j'
    | None \<Rightarrow> \<forall>j'. j \<le> j' \<and> j' \<le> n \<longrightarrow> \<not> run_at orig count j'"
proof (induction "Suc n - j" arbitrary: j)
  case 0
  then show ?case by (subst leaf_run.simps) auto
next
  case (Suc d)
  show ?case
  proof (cases "j \<le> n")
    case True
    have p: "push_bit 1 (push_bit j (mask count)) = (push_bit (j + 1) (mask count) :: u32)" by (simp add: push_bit_push_bit add.commute)
    have i: "orig AND push_bit j (mask count) = push_bit j (mask count) \<longleftrightarrow> run_at orig count j"
      using True assms by (intro and_run_iff) simp
    show ?thesis
    proof (cases "run_at orig count j")
      case True
      then show ?thesis using \<open>j \<le> n\<close> i by (subst leaf_run.simps) simp
    next
      case False
      have "leaf_run n j orig (push_bit j (mask count)) = leaf_run n (j + 1) orig (push_bit (j + 1) (mask count))"
        using False \<open>j \<le> n\<close> i p by (subst leaf_run.simps) simp
      moreover have "d = Suc n - (j + 1)" using Suc.hyps(2) by simp
      note ih = Suc.hyps(1) [OF this]
      moreover have "\<not> run_at orig count j'" if "\<forall>j'. j + 1 \<le> j' \<and> j' \<le> n \<longrightarrow> \<not> run_at orig count j'" "j \<le> j'" "j' \<le> n" for j'
        using that False by (cases "j' = j") auto
      ultimately show ?thesis by (simp only:) (auto split: option.splits)
    qed
  qed (use Suc in auto)
qed

section \<open>Masks and counting\<close>

lemma leaf_mask_bits:
  assumes "n + count \<le> 32" and "0 < count"
  shows "\<exists>m. leaf_mask n count = Ret m \<and> (\<forall>i. bit m i \<longleftrightarrow> n \<le> i \<and> i < n + count)"
proof -
  let ?m = "push_bit n (- 1) AND drop_bit (32 - count - n) (- 1) :: u32"
  have "bit ?m i \<longleftrightarrow> n \<le> i \<and> i < n + count" for i using assms by (auto simp: bit_simps)
  then show ?thesis using assms by (auto simp: leaf_mask_def BLIST_BMAP_RADIX_def)
qed

lemma and_minus_one_bits:
  assumes "bit (b :: u32) l" and "\<forall>i < l. \<not> bit b i"
  shows "bit (b AND (b - 1)) i \<longleftrightarrow> bit b i \<and> i \<noteq> l"
proof -
  have l: "l < 32" using assms(1) by (rule bit_lt_32)
  let ?h = "b AND NOT (mask (Suc l))"
  have "bit b i \<longleftrightarrow> bit (?h OR push_bit l 1) i" for i
    using assms l by (auto simp: bit_simps less_Suc_eq dest: bit_lt_32)
  then have eq: "b = ?h OR push_bit l 1" by (intro bit_eqI)
  have "?h OR push_bit l 1 = ?h + push_bit l 1" by (rule disjunctive_add [symmetric]) (auto simp: bit_simps)
  then have s: "b = ?h + push_bit l 1" using eq by simp
  have "push_bit l 1 - 1 = (mask l :: u32)" by (simp add: mask_eq_exp_minus_1 push_bit_eq_mult)
  then have "b - 1 = ?h + mask l" using s by (metis add_diff_eq)
  also have "\<dots> = ?h OR mask l" by (rule disjunctive_add) (auto simp: bit_simps)
  finally have d: "b - 1 = ?h OR mask l" .
  have "bit (b - 1) i \<longleftrightarrow> i < 32 \<and> ((bit b i \<and> Suc l \<le> i) \<or> i < l)" unfolding d by (auto simp: bit_simps)
  then show ?thesis using assms by (auto simp: bit_simps not_less_eq_eq dest: le_neq_implies_less bit_lt_32)
qed

lemma leaf_count_card: "leaf_count b k = k + card {j. bit b j}"
proof (induction b k rule: leaf_count.induct)
  case (1 b k)
  show ?case
  proof (cases "b = 0")
    case True
    then show ?thesis using leaf_count.simps [of 0 k] by simp
  next
    case False
    then obtain i where i: "bit b i" by (rule nonzero_bit)
    define l where "l = (LEAST i. bit b i)"
    have l: "bit b l" "\<forall>i < l. \<not> bit b i" using i unfolding l_def by (auto intro: LeastI dest: not_less_Least)
    have "{j. bit (b AND (b - 1)) j} = {j. bit b j} - {l}" using and_minus_one_bits [OF l] by auto
    then have "card {j. bit b j} = Suc (card {j. bit (b AND (b - 1)) j})"
      using l(1) card_Suc_Diff1 [of "{j. bit b j}" l] by simp
    then show ?thesis using 1 False by (subst leaf_count.simps) simp
  qed
qed

end
