(* ===== verification/Blist_Tree.thy ===== *)
theory Blist_Tree
  imports Blist_Leaf
begin

text \<open>
  The radix tree inside the array: where the children of a node lie, which blocks are free below a
  node, and the invariant.  A node of level \<open>k\<close> covers \<open>32 * 16^k\<close> blocks, of which the first \<open>n\<close> exist.
\<close>

section \<open>Layout\<close>

definition rdx :: "nat \<Rightarrow> nat" where
  "rdx k = 32 * 16 ^ k"

fun skp :: "nat \<Rightarrow> nat" where
  "skp 0 = 0"
| "skp (Suc k) = (skp k + 1) * 16"

text \<open>\<open>sz\<close> is the distance between siblings.\<close>

definition sz :: "nat \<Rightarrow> nat" where
  "sz k = skp k + 1"

lemma rdx_simps: "rdx 0 = 32" "rdx (Suc k) = 16 * rdx k" "0 < rdx k" "rdx k \<noteq> 0" "rdx (Suc k) div 16 = rdx k" "32 \<le> rdx k"
  by (simp_all add: rdx_def)

lemma rdx_mono: "j \<le> k \<Longrightarrow> rdx j \<le> rdx k"
  by (simp add: rdx_def)

lemma sz_simps: "sz 0 = 1" "sz (Suc k) = 16 * sz k + 1" "0 < sz k" "skp (Suc k) div 16 = sz k" "sz k - 1 = skp k" "skp (Suc k) = 16 * sz k"
  by (simp_all add: sz_def skp.simps)

declare skp.simps(2) [simp del]

lemma sz_one_iff: "sz k = 1 \<longleftrightarrow> k = 0"
  by (cases k) (auto simp: sz_def skp.simps)

lemma child_index: "1 + c * sz k \<le> skp (Suc k) \<longleftrightarrow> c < 16"
proof
  assume "1 + c * sz k \<le> skp (Suc k)"
  then have "c * sz k < 16 * sz k" unfolding sz_simps(6) by linarith
  then show "c < 16" using mult_less_cancel2 by blast
next
  assume "c < 16"
  then have "Suc c * sz k \<le> 16 * sz k" by (intro mult_right_mono) simp_all
  then show "1 + c * sz k \<le> skp (Suc k)" using sz_simps(3) [of k] unfolding sz_simps(6) mult_Suc by linarith
qed

definition child :: "nat \<Rightarrow> nat \<Rightarrow> nat \<Rightarrow> nat" where
  "child k b c = b + (1 + c * sz k)"

text \<open>The number of children of a node over \<open>n\<close> blocks, and the blocks of each.\<close>

definition nch :: "nat \<Rightarrow> nat \<Rightarrow> nat" where
  "nch k n = (n + rdx k - 1) div rdx k"

definition cb :: "nat \<Rightarrow> nat \<Rightarrow> nat \<Rightarrow> nat" where
  "cb k n c = min (rdx k) (n - c * rdx k)"

lemma less_nch_iff: "c < nch k n \<longleftrightarrow> c * rdx k < n"
proof -
  have "c < nch k n \<longleftrightarrow> Suc c \<le> (n + rdx k - 1) div rdx k" by (simp add: nch_def Suc_le_eq)
  also have "\<dots> \<longleftrightarrow> Suc c * rdx k \<le> n + rdx k - 1" using rdx_simps(3) by (rule less_eq_div_iff_mult_less_eq)
  also have "\<dots> \<longleftrightarrow> c * rdx k < n" using rdx_simps(3) [of k] by auto
  finally show ?thesis .
qed

lemma nch_le: "n \<le> rdx (Suc k) \<Longrightarrow> nch k n \<le> 16"
proof (rule ccontr)
  assume n: "n \<le> rdx (Suc k)" and "\<not> nch k n \<le> 16"
  then have "16 * rdx k < n" by (simp add: less_nch_iff [symmetric])
  then show False using n by (simp add: rdx_simps)
qed

lemma cb_pos: "c < nch k n \<Longrightarrow> 0 < cb k n c \<and> cb k n c \<le> rdx k"
  by (auto simp: less_nch_iff cb_def rdx_simps)

lemma child_block: "j < n \<longleftrightarrow> j div rdx k < nch k n \<and> j mod rdx k < cb k n (j div rdx k)"
proof -
  have "j = j div rdx k * rdx k + j mod rdx k" "j mod rdx k < rdx k" using rdx_simps(3) by (auto simp: mod_less_divisor)
  then show ?thesis unfolding less_nch_iff cb_def by linarith
qed

section \<open>Free blocks\<close>

fun isfree :: "nat \<Rightarrow> blmeta list \<Rightarrow> nat \<Rightarrow> nat \<Rightarrow> nat \<Rightarrow> bool" where
  "isfree 0 a b n j = bit (bmu (a ! b)) j"
| "isfree (Suc k) a b n j =
     (if bmu_avail (a ! b) = 0 then False
      else if bmu_avail (a ! b) = rdx (Suc k) then j < rdx (Suc k)
      else j div rdx k < nch k n \<and> isfree k a (child k b (j div rdx k)) (cb k n (j div rdx k)) (j mod rdx k))"

text \<open>The blocks free below the children, whatever the node itself says.\<close>

definition kfree :: "nat \<Rightarrow> blmeta list \<Rightarrow> nat \<Rightarrow> nat \<Rightarrow> nat \<Rightarrow> bool" where
  "kfree k a b n j \<longleftrightarrow> j div rdx k < nch k n \<and> isfree k a (child k b (j div rdx k)) (cb k n (j div rdx k)) (j mod rdx k)"

definition nfree :: "nat \<Rightarrow> blmeta list \<Rightarrow> nat \<Rightarrow> nat" where
  "nfree k a b = (if k = 0 then card {j. bit (bmu (a ! b)) j} else bmu_avail (a ! b))"

section \<open>The invariant\<close>

text \<open>The nodes and the end marks are where they should be, also below a node that is all free or all allocated.\<close>

fun shape :: "nat \<Rightarrow> blmeta list \<Rightarrow> nat \<Rightarrow> nat \<Rightarrow> bool" where
  "shape 0 a b n \<longleftrightarrow> b < length a \<and> bm_bighint (a ! b) \<noteq> BL_END \<and> 0 < n \<and> n \<le> rdx 0"
| "shape (Suc k) a b n \<longleftrightarrow> b < length a \<and> bm_bighint (a ! b) \<noteq> BL_END \<and> 0 < n \<and> n \<le> rdx (Suc k) \<and>
     (\<forall>c < nch k n. shape k a (child k b c) (cb k n c)) \<and>
     (nch k n < 16 \<longrightarrow> child k b (nch k n) < length a \<and> bm_bighint (a ! child k b (nch k n)) = BL_END)"

text \<open>The counts are right and no block past the end is free.\<close>

fun counts :: "nat \<Rightarrow> blmeta list \<Rightarrow> nat \<Rightarrow> nat \<Rightarrow> bool" where
  "counts 0 a b n \<longleftrightarrow> (\<forall>j. bit (bmu (a ! b)) j \<longrightarrow> j < n)"
| "counts (Suc k) a b n \<longleftrightarrow> bmu_avail (a ! b) = 0 \<or> bmu_avail (a ! b) = rdx (Suc k) \<and> n = rdx (Suc k) \<or>
     bmu_avail (a ! b) < rdx (Suc k) \<and> (\<forall>c < nch k n. counts k a (child k b c) (cb k n c)) \<and>
     bmu_avail (a ! b) = (\<Sum>c < nch k n. nfree k a (child k b c))"

definition kids :: "nat \<Rightarrow> blmeta list \<Rightarrow> nat \<Rightarrow> nat \<Rightarrow> bool" where
  "kids k a b n \<longleftrightarrow> (\<forall>c < nch k n. counts k a (child k b c) (cb k n c))"

definition ksum :: "nat \<Rightarrow> blmeta list \<Rightarrow> nat \<Rightarrow> nat \<Rightarrow> nat" where
  "ksum k a b n = (\<Sum>c < nch k n. nfree k a (child k b c))"

text \<open>A run of \<open>count\<close> free blocks inside one bitmap, and the hints: never too low.\<close>

definition hasrun :: "nat \<Rightarrow> blmeta list \<Rightarrow> nat \<Rightarrow> nat \<Rightarrow> nat \<Rightarrow> bool" where
  "hasrun k a b n count \<longleftrightarrow> (\<exists>j. j mod 32 + count \<le> 32 \<and> (\<forall>i < count. isfree k a b n (j + i)))"

fun hints :: "nat \<Rightarrow> blmeta list \<Rightarrow> nat \<Rightarrow> nat \<Rightarrow> bool" where
  "hints 0 a b n \<longleftrightarrow> (\<forall>count > 0. hasrun 0 a b n count \<longrightarrow> count \<le> bm_bighint (a ! b))"
| "hints (Suc k) a b n \<longleftrightarrow> (\<forall>count > 0. hasrun (Suc k) a b n count \<longrightarrow> count \<le> bm_bighint (a ! b)) \<and>
     (bmu_avail (a ! b) = 0 \<or> bmu_avail (a ! b) = rdx (Suc k) \<or> (\<forall>c < nch k n. hints k a (child k b c) (cb k n c)))"

section \<open>Frames\<close>

definition same :: "nat \<Rightarrow> blmeta list \<Rightarrow> blmeta list \<Rightarrow> nat \<Rightarrow> bool" where
  "same k a a' b \<longleftrightarrow> length a' = length a \<and> (\<forall>i. b \<le> i \<and> i < b + sz k \<longrightarrow> a' ! i = a ! i)"

definition outside :: "nat \<Rightarrow> blmeta list \<Rightarrow> blmeta list \<Rightarrow> nat \<Rightarrow> bool" where
  "outside k a a' b \<longleftrightarrow> length a' = length a \<and> (\<forall>i. i < b \<or> b + sz k \<le> i \<longrightarrow> a' ! i = a ! i)"

lemma same_root: "same k a a' b \<Longrightarrow> a' ! b = a ! b"
  using sz_simps(3) [of k] by (simp add: same_def)

lemma child_seg:
  assumes "c < 16"
  shows "b < child k b c" "child k b c + sz k \<le> b + sz (Suc k)"
proof -
  have "Suc c * sz k \<le> 16 * sz k" using assms by (intro mult_right_mono) simp_all
  then show "b < child k b c" "child k b c + sz k \<le> b + sz (Suc k)" by (simp_all add: child_def sz_simps)
qed

lemma child_apart: "c < c' \<Longrightarrow> child k b c + sz k \<le> child k b c'"
proof -
  assume "c < c'"
  then have "Suc c * sz k \<le> c' * sz k" by (intro mult_right_mono) simp_all
  then show ?thesis by (simp add: child_def)
qed

lemma same_child: "same (Suc k) a a' b \<Longrightarrow> c < 16 \<Longrightarrow> same k a a' (child k b c)"
  unfolding same_def using child_seg [where c = c and b = b and k = k] by auto

lemma outside_root: "outside k a a' (child k b c) \<Longrightarrow> a' ! b = a ! b"
  by (simp add: outside_def child_def)

lemma outside_sibling: "outside k a a' (child k b c) \<Longrightarrow> c' \<noteq> c \<Longrightarrow> same k a a' (child k b c')"
  unfolding outside_def same_def using child_apart [of c c' k b] child_apart [of c' c k b] by (metis le_trans linorder_neq_iff order_less_le_trans)

lemma outside_up: "outside k a a' (child k b c) \<Longrightarrow> c < 16 \<Longrightarrow> outside (Suc k) a a' b"
  unfolding outside_def using child_seg [where c = c and b = b and k = k] by auto

lemma outside_refl: "outside k a a b"
  by (simp add: outside_def)

lemma outside_trans: "outside k a a' b \<Longrightarrow> outside k a' a'' b \<Longrightarrow> outside k a a'' b"
  by (simp add: outside_def)

lemma outside_upd: "outside k a (a[b := m]) b"
  using sz_simps(3) [of k] by (auto simp: outside_def nth_list_update)

lemma same_sym: "same k a a' b \<Longrightarrow> same k a' a b"
  by (simp add: same_def)

lemma isfree_same: "same k a a' b \<Longrightarrow> n \<le> rdx k \<Longrightarrow> isfree k a' b n j = isfree k a b n j"
proof (induction k arbitrary: b n j)
  case 0
  then show ?case using same_root [of 0] by simp
next
  case (Suc k)
  have "isfree k a' (child k b c) (cb k n c) j = isfree k a (child k b c) (cb k n c) j" if "c < nch k n" for c j
    using Suc.IH [OF same_child [OF Suc.prems(1)]] that nch_le [OF Suc.prems(2)] cb_pos [OF that] by simp
  then show ?case using same_root [OF Suc.prems(1)] by auto
qed

lemma shape_same: "same k a a' b \<Longrightarrow> shape k a b n \<Longrightarrow> shape k a' b n"
proof (induction k arbitrary: b n)
  case 0
  then show ?case using same_root [of 0 a a' b] by (auto simp: same_def)
next
  case (Suc k)
  have l: "length a' = length a" using Suc.prems(1) by (simp add: same_def)
  have n: "n \<le> rdx (Suc k)" using Suc.prems(2) by simp
  have "shape k a' (child k b c) (cb k n c)" if "c < nch k n" for c
    using Suc.IH [OF same_child [OF Suc.prems(1)]] that nch_le [OF n] Suc.prems(2) by simp
  moreover have "a' ! child k b (nch k n) = a ! child k b (nch k n)" if "nch k n < 16"
    using same_root [OF same_child [OF Suc.prems(1) that]] .
  ultimately show ?case using Suc.prems(2) l same_root [OF Suc.prems(1)] by auto
qed

lemma nfree_same: "same k a a' b \<Longrightarrow> nfree k a' b = nfree k a b"
  using same_root [of k a a' b] by (simp add: nfree_def)

lemma counts_same: "same k a a' b \<Longrightarrow> n \<le> rdx k \<Longrightarrow> counts k a b n \<Longrightarrow> counts k a' b n"
proof (induction k arbitrary: b n)
  case 0
  then show ?case using same_root [of 0 a a' b] by simp
next
  case (Suc k)
  have c: "c < 16" if "c < nch k n" for c using that nch_le [OF Suc.prems(2)] by simp
  have "counts k a' (child k b c) (cb k n c)" if "c < nch k n" "counts k a (child k b c) (cb k n c)" for c
    using Suc.IH [OF same_child [OF Suc.prems(1) c [OF that(1)]]] that(2) cb_pos [OF that(1)] by simp
  moreover have "nfree k a' (child k b c) = nfree k a (child k b c)" if "c < nch k n" for c
    using nfree_same [OF same_child [OF Suc.prems(1) c [OF that]]] .
  ultimately show ?case using Suc.prems(3) same_root [OF Suc.prems(1)] by auto
qed

lemma hasrun_same: "same k a a' b \<Longrightarrow> n \<le> rdx k \<Longrightarrow> hasrun k a' b n count = hasrun k a b n count"
  by (simp add: hasrun_def isfree_same)

lemma hints_same: "same k a a' b \<Longrightarrow> n \<le> rdx k \<Longrightarrow> hints k a b n \<Longrightarrow> hints k a' b n"
proof (induction k arbitrary: b n)
  case 0
  then show ?case using same_root [of 0 a a' b] by (simp add: hasrun_same)
next
  case (Suc k)
  have "hints k a' (child k b c) (cb k n c)" if "c < nch k n" "hints k a (child k b c) (cb k n c)" for c
    using Suc.IH [OF same_child [OF Suc.prems(1)]] that cb_pos [OF that(1)] nch_le [OF Suc.prems(2)] by simp
  then show ?case using Suc.prems(2,3) same_root [OF Suc.prems(1)] hasrun_same [OF Suc.prems(1)] by auto
qed

section \<open>Counting\<close>

lemma kfree_card:
  assumes "\<forall>c < nch k n. (\<forall>j. isfree k a (child k b c) (cb k n c) j \<longrightarrow> j < cb k n c) \<and>
      card {j. isfree k a (child k b c) (cb k n c) j} = nfree k a (child k b c)"
  shows "card {j. kfree k a b n j} = ksum k a b n" "kfree k a b n j \<Longrightarrow> j < n"
proof -
  let ?F = "\<lambda>c. {j. isfree k a (child k b c) (cb k n c) j}"
  let ?S = "\<lambda>c. (\<lambda>i. c * rdx k + i) ` ?F c"
  have lt: "j < rdx k" if "c < nch k n" "j \<in> ?F c" for c j
  proof -
    have "j < cb k n c" using assms that by blast
    then show ?thesis using cb_pos [OF that(1)] by simp
  qed
  have fin: "finite (?F c)" if "c < nch k n" for c
    using assms that by (intro finite_subset [of "?F c" "{..<cb k n c}"]) (blast, simp)
  have S: "?S c = {j. j div rdx k = c \<and> isfree k a (child k b c) (cb k n c) (j mod rdx k)}" if "c < nch k n" for c
  proof (intro set_eqI iffI)
    fix j assume "j \<in> ?S c"
    then obtain i where i: "j = c * rdx k + i" "i \<in> ?F c" by auto
    then have "j div rdx k = c \<and> j mod rdx k = i" using lt [OF that i(2)] rdx_simps(4) [of k] by simp
    then show "j \<in> {j. j div rdx k = c \<and> isfree k a (child k b c) (cb k n c) (j mod rdx k)}" using i(2) by simp
  next
    fix j assume j: "j \<in> {j. j div rdx k = c \<and> isfree k a (child k b c) (cb k n c) (j mod rdx k)}"
    then have "j = c * rdx k + j mod rdx k" by (metis (mono_tags, lifting) div_mult_mod_eq mem_Collect_eq)
    then show "j \<in> ?S c" using j by blast
  qed
  have eq: "{j. kfree k a b n j} = (\<Union>c < nch k n. ?S c)" using S by (auto simp: kfree_def)
  have "?S c \<inter> ?S c' = {}" if "c < nch k n" "c' < nch k n" "c \<noteq> c'" for c c' unfolding S [OF that(1)] S [OF that(2)] using that(3) by blast
  then have "card {j. kfree k a b n j} = (\<Sum>c < nch k n. card (?S c))"
    unfolding eq using fin by (intro card_UN_disjoint) blast+
  also have "\<dots> = ksum k a b n"
    unfolding ksum_def using assms by (intro sum.cong) (auto simp: card_image)
  finally show "card {j. kfree k a b n j} = ksum k a b n" .
  show "j < n" if "kfree k a b n j"
  proof -
    have "j mod rdx k < cb k n (j div rdx k)" using assms that by (auto simp: kfree_def)
    then show ?thesis using that child_block [of j n k] by (auto simp: kfree_def)
  qed
qed

lemma counts_card:
  "n \<le> rdx k \<Longrightarrow> counts k a b n \<Longrightarrow> (\<forall>j. isfree k a b n j \<longrightarrow> j < n) \<and> card {j. isfree k a b n j} = nfree k a b"
proof (induction k arbitrary: b n)
  case 0
  then show ?case by (simp add: nfree_def)
next
  case (Suc k)
  consider "bmu_avail (a ! b) = 0" | "bmu_avail (a ! b) = rdx (Suc k)" "n = rdx (Suc k)"
    | "bmu_avail (a ! b) \<noteq> 0" "bmu_avail (a ! b) < rdx (Suc k)" "kids k a b n" "bmu_avail (a ! b) = ksum k a b n"
    using Suc.prems(2) unfolding counts.simps kids_def ksum_def [symmetric] by (cases "bmu_avail (a ! b) = 0") (simp, metis)
  then show ?case
  proof cases
    case 1
    then show ?thesis by (simp add: nfree_def)
  next
    case 2
    then show ?thesis by (simp add: nfree_def rdx_simps(4))
  next
    case 3
    have c: "\<forall>c < nch k n. (\<forall>j. isfree k a (child k b c) (cb k n c) j \<longrightarrow> j < cb k n c) \<and>
      card {j. isfree k a (child k b c) (cb k n c) j} = nfree k a (child k b c)"
    proof (intro allI impI)
      fix c assume "c < nch k n"
      with 3(3) cb_pos [OF this] show "(\<forall>j. isfree k a (child k b c) (cb k n c) j \<longrightarrow> j < cb k n c) \<and>
        card {j. isfree k a (child k b c) (cb k n c) j} = nfree k a (child k b c)"
        by (intro Suc.IH) (simp_all add: kids_def)
    qed
    have "isfree (Suc k) a b n j \<longleftrightarrow> kfree k a b n j" for j using 3(1,2) by (simp add: kfree_def)
    then show ?thesis using kfree_card [OF c] 3(4) by (simp add: nfree_def)
  qed
qed

lemma kids_card:
  assumes "kids k a b n"
  shows "card {j. kfree k a b n j} = ksum k a b n" "kfree k a b n j \<Longrightarrow> j < n" "finite {j. kfree k a b n j}"
proof -
  have c: "\<forall>c < nch k n. (\<forall>j. isfree k a (child k b c) (cb k n c) j \<longrightarrow> j < cb k n c) \<and>
      card {j. isfree k a (child k b c) (cb k n c) j} = nfree k a (child k b c)"
  proof (intro allI impI)
    fix c assume "c < nch k n"
    with assms cb_pos [OF this] show "(\<forall>j. isfree k a (child k b c) (cb k n c) j \<longrightarrow> j < cb k n c) \<and>
      card {j. isfree k a (child k b c) (cb k n c) j} = nfree k a (child k b c)"
      by (intro counts_card) (simp_all add: kids_def)
  qed
  show "card {j. kfree k a b n j} = ksum k a b n" "kfree k a b n j \<Longrightarrow> j < n" using kfree_card [OF c] by auto
  show "finite {j. kfree k a b n j}" using kfree_card(2) [OF c] by (intro finite_subset [of "{j. kfree k a b n j}" "{..<n}"]) (blast, simp)
qed

text \<open>A node whose children are in order and whose count is their sum is in order.\<close>

lemma node_close:
  assumes n: "n \<le> rdx (Suc k)" and kd: "kids k a b n" and v: "bmu_avail (a ! b) = ksum k a b n"
  shows "counts (Suc k) a b n" "isfree (Suc k) a b n j \<longleftrightarrow> kfree k a b n j"
proof -
  note K = kids_card [OF kd]
  have sub: "{j. kfree k a b n j} \<subseteq> {..<n}" using K(2) by auto
  have le: "ksum k a b n \<le> n" using card_mono [OF _ sub] K(1) by simp
  have full: "n = rdx (Suc k) \<and> {j. kfree k a b n j} = {..<rdx (Suc k)}" if "ksum k a b n = rdx (Suc k)"
  proof -
    have "n = rdx (Suc k)" using le n that by simp
    moreover have "{j. kfree k a b n j} = {..<n}" using sub K(1) that \<open>n = _\<close> by (intro card_subset_eq) simp_all
    ultimately show ?thesis by simp
  qed
  show "counts (Suc k) a b n" 
    using full v kd le n unfolding counts.simps kids_def ksum_def [symmetric] by (cases "ksum k a b n = rdx (Suc k)") auto
  have "\<not> kfree k a b n j" if "ksum k a b n = 0" using that K(1,3) by auto
  moreover have "kfree k a b n j \<longleftrightarrow> j < rdx (Suc k)" if "ksum k a b n = rdx (Suc k)" using full [OF that] by blast
  ultimately show "isfree (Suc k) a b n j \<longleftrightarrow> kfree k a b n j" using v by (auto simp: kfree_def)
qed

lemma node_open:
  assumes "counts (Suc k) a b n" and "bmu_avail (a ! b) \<noteq> 0" and "bmu_avail (a ! b) \<noteq> rdx (Suc k)"
  shows "kids k a b n" "bmu_avail (a ! b) = ksum k a b n" "isfree (Suc k) a b n j \<longleftrightarrow> kfree k a b n j"
  using assms by (auto simp: kids_def ksum_def kfree_def)

section \<open>A change below one child\<close>

lemma child_change:
  assumes o: "outside k a a' (child k b c)" and n: "n \<le> rdx (Suc k)" and c: "c < nch k n"
  shows "shape (Suc k) a b n \<Longrightarrow> shape k a' (child k b c) (cb k n c) \<Longrightarrow> shape (Suc k) a' b n"
    and "kids k a b n \<Longrightarrow> counts k a' (child k b c) (cb k n c) \<Longrightarrow> kids k a' b n"
    and "ksum k a' b n + nfree k a (child k b c) = ksum k a b n + nfree k a' (child k b c)"
    and "kfree k a' b n j \<longleftrightarrow> (if j div rdx k = c then isfree k a' (child k b c) (cb k n c) (j mod rdx k) else kfree k a b n j)"
proof -
  note sib = outside_sibling [OF o]
  have l: "length a' = length a" "a' ! b = a ! b" using o outside_root [OF o] by (auto simp: outside_def)
  show "shape (Suc k) a' b n" if s: "shape (Suc k) a b n" and sc: "shape k a' (child k b c) (cb k n c)"
  proof -
    have "shape k a' (child k b c') (cb k n c')" if "c' < nch k n" for c'
      using s sc shape_same [OF sib] that by (cases "c' = c") auto
    moreover have "a' ! child k b (nch k n) = a ! child k b (nch k n)"
      using same_root [OF sib [of "nch k n"]] c by simp
    ultimately show ?thesis using s l by simp
  qed
  show "kids k a' b n" if kd: "kids k a b n" and cc: "counts k a' (child k b c) (cb k n c)"
    unfolding kids_def
  proof (intro allI impI)
    fix c' assume "c' < nch k n"
    then show "counts k a' (child k b c') (cb k n c')"
      using kd cc counts_same [OF sib] cb_pos by (cases "c' = c") (auto simp: kids_def)
  qed
  have "(\<Sum>c' \<in> {..<nch k n} - {c}. nfree k a' (child k b c')) = (\<Sum>c' \<in> {..<nch k n} - {c}. nfree k a (child k b c'))"
    using nfree_same [OF sib] by (intro sum.cong) auto
  then show "ksum k a' b n + nfree k a (child k b c) = ksum k a b n + nfree k a' (child k b c)"
    using c unfolding ksum_def by (simp add: sum.remove [of "{..<nch k n}" c])
  show "kfree k a' b n j \<longleftrightarrow> (if j div rdx k = c then isfree k a' (child k b c) (cb k n c) (j mod rdx k) else kfree k a b n j)"
    using c isfree_same [OF sib] cb_pos by (auto simp: kfree_def)
qed

text \<open>A change of the node alone.\<close>

lemma same_children: "c < 16 \<Longrightarrow> same k a (a[b := m]) (child k b c)"
  by (auto simp: same_def child_def nth_list_update)

lemma root_change:
  assumes n: "n \<le> rdx (Suc k)" and b: "b < length a"
  shows "shape (Suc k) a b n \<Longrightarrow> bm_bighint m \<noteq> BL_END \<Longrightarrow> shape (Suc k) (a[b := m]) b n"
    and "kids k a b n \<Longrightarrow> kids k (a[b := m]) b n"
    and "ksum k (a[b := m]) b n = ksum k a b n"
    and "kfree k (a[b := m]) b n j \<longleftrightarrow> kfree k a b n j"
proof -
  have c: "c < 16" if "c < nch k n" for c using that nch_le [OF n] by simp
  note sm = same_children [where m = m, where b = b]
  show "shape (Suc k) (a[b := m]) b n" if s: "shape (Suc k) a b n" and h: "bm_bighint m \<noteq> BL_END"
  proof -
    have "shape k (a[b := m]) (child k b c') (cb k n c')" if "c' < nch k n" for c'
      using s shape_same [OF sm] c that by simp
    then show ?thesis using s h b by (auto simp: child_def)
  qed
  show "kids k (a[b := m]) b n" if "kids k a b n"
    using that counts_same [OF sm] c cb_pos by (auto simp: kids_def)
  show "ksum k (a[b := m]) b n = ksum k a b n"
    unfolding ksum_def using nfree_same [OF sm] c by (intro sum.cong) auto
  show "kfree k (a[b := m]) b n j \<longleftrightarrow> kfree k a b n j"
    using isfree_same [OF sm] c cb_pos by (auto simp: kfree_def)
qed

end
