(* ===== verification/Blist_Alloc.thy ===== *)
theory Blist_Alloc
  imports Blist_Tree
begin

text \<open>Opening a collapsed node, and the allocator.\<close>

section \<open>Wrapping arithmetic that does not wrap\<close>

lemma arith32: "a + b < 2 ^ 32 \<Longrightarrow> add32 a b = a + b" "b \<le> a \<Longrightarrow> a < 2 ^ 32 \<Longrightarrow> sub32 a b = a - b" "a * b < 2 ^ 32 \<Longrightarrow> mul32 a b = a * b"
proof -
  show "add32 a b = a + b" if "a + b < 2 ^ 32" using that by (simp add: add32_def)
  show "mul32 a b = a * b" if "a * b < 2 ^ 32" using that by (simp add: mul32_def)
  show "sub32 a b = a - b" if "b \<le> a" "a < 2 ^ 32"
  proof -
    have "a + (2 ^ 32 - b) = a - b + 2 ^ 32" using that by simp
    then have "sub32 a b = (a - b) mod 2 ^ 32" unfolding sub32_def by (simp only: mod_add_self2)
    then show ?thesis using that by simp
  qed
qed

lemma avail_set: "v < 2 ^ 32 \<Longrightarrow> bmu_avail (set_avail v m) = v" "bm_bighint (set_avail v m) = bm_bighint m"
  by (simp_all add: bmu_avail_def set_avail_def unat_of_nat take_bit_nat_eq_self)

lemma avail_hint [simp]: "bmu_avail (m\<lparr>bm_bighint := h\<rparr>) = bmu_avail m"
  by (simp add: bmu_avail_def)

lemma avail_less: "bmu_avail m < 2 ^ 32"
  using unsigned_less [of "bmu m"] by (simp add: bmu_avail_def)

lemma meta_radix [simp]: "BLIST_META_RADIX = 16" "BLIST_BMAP_RADIX = 32"
  by (simp_all add: BLIST_META_RADIX_def BLIST_BMAP_RADIX_def)

section \<open>Bringing the children up to date\<close>

definition reset :: "nat \<Rightarrow> (blmeta \<Rightarrow> blmeta) \<Rightarrow> blmeta list \<Rightarrow> nat \<Rightarrow> nat \<Rightarrow> nat \<Rightarrow> blmeta list \<Rightarrow> bool" where
  "reset k f a b c d a' \<longleftrightarrow> length a' = length a \<and> (\<forall>e. c \<le> e \<and> e < d \<longrightarrow> a' ! child k b e = f (a ! child k b e)) \<and>
     (\<forall>i. (\<forall>e. c \<le> e \<and> e < d \<longrightarrow> i \<noteq> child k b e) \<longrightarrow> a' ! i = a ! i)"

lemma child_inj: "child k b c = child k b d \<longleftrightarrow> c = d"
  using sz_simps(3) [of k] by (simp add: child_def)

lemma child_Suc: "b + (1 + c * sz k + sz k) = child k b (Suc c)"
  by (simp add: child_def algebra_simps)

lemma reset_step:
  assumes "reset k f (a[child k b c := f (a ! child k b c)]) b (Suc c) d a'" and "c < d" and "child k b c < length a"
  shows "reset k f a b c d a'"
proof -
  let ?a = "a[child k b c := f (a ! child k b c)]"
  have R: "length a' = length a" "\<And>e. Suc c \<le> e \<Longrightarrow> e < d \<Longrightarrow> a' ! child k b e = f (?a ! child k b e)"
    "\<And>i. (\<forall>e. Suc c \<le> e \<and> e < d \<longrightarrow> i \<noteq> child k b e) \<Longrightarrow> a' ! i = ?a ! i"
    using assms(1) by (auto simp: reset_def)
  have "a' ! child k b c = f (a ! child k b c)" using R(3) [of "child k b c"] assms(3) by (auto simp: child_inj)
  moreover have "a' ! child k b e = f (a ! child k b e)" if "Suc c \<le> e" "e < d" for e
    using R(2) [OF that] that child_inj [of k b c e] by simp
  ultimately have "a' ! child k b e = f (a ! child k b e)" if "c \<le> e" "e < d" for e
    using that by (cases "e = c") auto
  moreover have "a' ! i = a ! i" if "\<forall>e. c \<le> e \<and> e < d \<longrightarrow> i \<noteq> child k b e" for i
    using R(3) [of i] that assms(2) by auto
  ultimately show ?thesis using R(1) by (simp add: reset_def)
qed

lemma reset_nil: "reset k f a b d d a"
  by (auto simp: reset_def)

definition free_node :: "nat \<Rightarrow> blmeta \<Rightarrow> blmeta" where
  "free_node k c = (if k = 0 then c\<lparr>bmu := - 1, bm_bighint := 32\<rparr> else (set_avail (rdx k) c)\<lparr>bm_bighint := rdx k\<rparr>)"

definition alloc_node :: "blmeta \<Rightarrow> blmeta" where
  "alloc_node c = c\<lparr>bmu := 0, bm_bighint := 0\<rparr>"

lemma shape_child:
  assumes "shape (Suc k) a b n" and "c < nch k n"
  shows "child k b c < length a" "bm_bighint (a ! child k b c) \<noteq> BL_END" "c < 16"
proof -
  have s: "shape k a (child k b c) (cb k n c)" "n \<le> rdx (Suc k)" using assms by simp_all
  show "child k b c < length a" "bm_bighint (a ! child k b c) \<noteq> BL_END" using s(1) by (cases k; simp)+
  show "c < 16" using nch_le [OF s(2)] assms(2) by simp
qed

lemma shape_end: "shape (Suc k) a b n \<Longrightarrow> nch k n < 16 \<Longrightarrow> child k b (nch k n) < length a \<and> bm_bighint (a ! child k b (nch k n)) = BL_END"
  by simp

lemma expand_free_reset:
  assumes "\<forall>e. c \<le> e \<and> e < d \<longrightarrow> child k b e < length a \<and> bm_bighint (a ! child k b e) \<noteq> BL_END"
    and "d < 16 \<longrightarrow> child k b d < length a \<and> bm_bighint (a ! child k b d) = BL_END" and "c \<le> d" and "d \<le> 16"
  shows "\<exists>a'. expand_free a b (rdx k) (skp (Suc k)) (1 + c * sz k) = Ret a' \<and> reset k (free_node k) a b c d a'"
  using assms
proof (induction "d - c" arbitrary: a c)
  case 0
  then have "c = d" by simp
  then show ?case
    using 0 child_index [of c k] reset_nil [of k _ a b d]
    by (subst expand_free.simps) (auto simp: Let_def sz_simps rd_def child_def)
next
  case (Suc x)
  then have c: "c < d" "c < 16" by auto
  let ?m = "a ! child k b c" and ?a = "a[child k b c := free_node k (a ! child k b c)]"
  have m: "child k b c < length a" "bm_bighint ?m \<noteq> BL_END" using Suc.prems c by auto
  have "expand_free a b (rdx k) (skp (Suc k)) (1 + c * sz k) = expand_free ?a b (rdx k) (skp (Suc k)) (1 + Suc c * sz k)"
    using m c child_index [of c k] sz_one_iff [of k] sz_simps(3) [of k]
    by (subst expand_free.simps) (simp add: Let_def sz_simps rd_def child_def free_node_def algebra_simps)
  moreover have "\<exists>a'. expand_free ?a b (rdx k) (skp (Suc k)) (1 + Suc c * sz k) = Ret a' \<and> reset k (free_node k) ?a b (Suc c) d a'"
    using Suc.hyps(2) Suc.prems c by (intro Suc.hyps(1)) (auto simp: child_inj)
  ultimately show ?case using reset_step [OF _ c(1) m(1)] by auto
qed

lemma expand_alloc_reset:
  assumes "\<forall>e. c \<le> e \<and> e < d \<longrightarrow> child k b e < length a \<and> bm_bighint (a ! child k b e) \<noteq> BL_END"
    and "d < 16 \<longrightarrow> child k b d < length a \<and> bm_bighint (a ! child k b d) = BL_END" and "c \<le> d" and "d \<le> 16"
  shows "\<exists>a'. expand_alloc a b (skp (Suc k)) (1 + c * sz k) = Ret a' \<and> reset k alloc_node a b c d a'"
  using assms
proof (induction "d - c" arbitrary: a c)
  case 0
  then have "c = d" by simp
  then show ?case
    using 0 child_index [of c k] reset_nil [of k _ a b d]
    by (subst expand_alloc.simps) (auto simp: Let_def sz_simps rd_def child_def)
next
  case (Suc x)
  then have c: "c < d" "c < 16" by auto
  let ?m = "a ! child k b c" and ?a = "a[child k b c := alloc_node (a ! child k b c)]"
  have m: "child k b c < length a" "bm_bighint ?m \<noteq> BL_END" using Suc.prems c by auto
  have "expand_alloc a b (skp (Suc k)) (1 + c * sz k) = expand_alloc ?a b (skp (Suc k)) (1 + Suc c * sz k)"
    using m c child_index [of c k] sz_simps(3) [of k]
    by (subst expand_alloc.simps) (simp add: Let_def sz_simps rd_def child_def alloc_node_def algebra_simps)
  moreover have "\<exists>a'. expand_alloc ?a b (skp (Suc k)) (1 + Suc c * sz k) = Ret a' \<and> reset k alloc_node ?a b (Suc c) d a'"
    using Suc.hyps(2) Suc.prems c by (intro Suc.hyps(1)) (auto simp: child_inj)
  ultimately show ?case using reset_step [OF _ c(1) m(1)] by auto
qed

lemma shape_root:
  assumes "shape k a b n" and "length a' = length a" and "\<forall>i. b < i \<and> i < b + sz k \<longrightarrow> a' ! i = a ! i" and "bm_bighint (a' ! b) \<noteq> BL_END"
  shows "shape k a' b n"
proof -
  have b: "b < length a" "n \<le> rdx k" using assms(1) by (cases k; simp)+
  have "same k (a[b := a' ! b]) a' b" using assms(2,3) b by (auto simp: same_def nth_list_update)
  moreover have "shape k (a[b := a' ! b]) b n"
    using assms(1,4) b root_change(1) [of n _ b a "a' ! b"] by (cases k) auto
  ultimately show ?thesis by (rule shape_same)
qed

lemma reset_shape:
  assumes r: "reset k f a b 0 (nch k n) a'" and s: "shape (Suc k) a b n" and f: "\<And>m. bm_bighint (f m) \<noteq> BL_END"
  shows "shape (Suc k) a' b n" "outside (Suc k) a a' b" "a' ! b = a ! b"
proof -
  have n: "n \<le> rdx (Suc k)" using s by simp
  have R: "length a' = length a" "\<And>e. e < nch k n \<Longrightarrow> a' ! child k b e = f (a ! child k b e)"
    "\<And>i. (\<forall>e < nch k n. i \<noteq> child k b e) \<Longrightarrow> a' ! i = a ! i" using r by (auto simp: reset_def)
  have ne: "b \<noteq> child k b e" for e by (simp add: child_def)
  then show root: "a' ! b = a ! b" using R(3) by blast
  show "outside (Suc k) a a' b"
    unfolding outside_def
  proof (intro conjI allI impI)
    fix i assume i: "i < b \<or> b + sz (Suc k) \<le> i"
    have "i \<noteq> child k b e" if "e < nch k n" for e
      using child_seg [where c = e and b = b and k = k] shape_child(3) [OF s that] i sz_simps(3) [of k] by auto
    then show "a' ! i = a ! i" using R(3) by blast
  qed (rule R(1))
  have kid: "shape k a' (child k b c) (cb k n c)" if c: "c < nch k n" for c
  proof (rule shape_root)
    show "shape k a (child k b c) (cb k n c)" using s c by simp
    show "length a' = length a" by (rule R(1))
    show "\<forall>i. child k b c < i \<and> i < child k b c + sz k \<longrightarrow> a' ! i = a ! i"
    proof (intro allI impI)
      fix i assume i: "child k b c < i \<and> i < child k b c + sz k"
      have "i \<noteq> child k b e" for e
        using i child_apart [of c e k b] child_apart [of e c k b] sz_simps(3) [of k] by (cases c e rule: linorder_cases) auto
      then show "a' ! i = a ! i" using R(3) by blast
    qed
    show "bm_bighint (a' ! child k b c) \<noteq> BL_END" using R(2) [OF c] f by simp
  qed
  have "a' ! child k b (nch k n) = a ! child k b (nch k n)" using R(3) by (auto simp: child_inj)
  then show "shape (Suc k) a' b n" using s kid root R(1) by simp
qed

text \<open>A node that has just been made all free, or all allocated.\<close>

lemma run_le_32: "hasrun k a b n count \<Longrightarrow> count \<le> 32"
  by (auto simp: hasrun_def)

lemma free_node_facts:
  assumes m: "a ! b = free_node k m" and k: "rdx k < 2 ^ 32"
  shows "counts k a b (rdx k)" "isfree k a b (rdx k) j \<longleftrightarrow> j < rdx k" "nfree k a b = rdx k" "hints k a b (rdx k)"
proof -
  have v: "bmu_avail (a ! b) = rdx k" if "k \<noteq> 0" using m k that by (simp add: free_node_def avail_set)
  have u: "bmu (a ! b) = - 1" if "k = 0" using m that by (simp add: free_node_def)
  have h: "bm_bighint (a ! b) \<ge> 32" using m rdx_simps(6) [of k] by (simp add: free_node_def)
  have "{j. bit (- 1 :: u32) j} = {..<32}" by (auto simp: bit_simps)
  then show "nfree k a b = rdx k" using v u by (simp add: nfree_def rdx_simps)
  show "counts k a b (rdx k)" using v u by (cases k) (auto simp: rdx_simps(1) bit_simps)
  show "isfree k a b (rdx k) j \<longleftrightarrow> j < rdx k" using v u rdx_simps(4) by (cases k) (auto simp: rdx_simps(1) bit_simps)
  show "hints k a b (rdx k)" using v h run_le_32 by (cases k) (fastforce dest: run_le_32)+
qed

lemma zero_bits: "{j. bit (0 :: u32) j} = {}"
  by simp

lemma alloc_node_facts:
  assumes m: "a ! b = alloc_node m"
  shows "counts k a b n" "\<not> isfree k a b n j" "nfree k a b = 0" "hints k a b n"
proof -
  have v: "bmu (a ! b) = 0" "bmu_avail (a ! b) = 0" using m by (simp_all add: alloc_node_def bmu_avail_def)
  show f: "\<not> isfree k a b n j" for j using v by (cases k) auto
  show "counts k a b n" using v by (cases k) simp_all
  show "nfree k a b = 0" using v by (simp add: nfree_def zero_bits)
  have "\<not> hasrun k a b n count" if "0 < count" for count using f that by (auto simp: hasrun_def)
  then show "hints k a b n" using v by (cases k) simp_all
qed

lemma nch_full: "nch k (rdx (Suc k)) = 16" "c < 16 \<Longrightarrow> cb k (rdx (Suc k)) c = rdx k"
proof -
  have "nch k (rdx (Suc k)) \<le> 16" by (rule nch_le) simp
  moreover have "15 < nch k (rdx (Suc k))" by (simp add: less_nch_iff rdx_simps)
  ultimately show "nch k (rdx (Suc k)) = 16" by simp
  assume "c < 16"
  then have "Suc c * rdx k \<le> 16 * rdx k" by (intro mult_right_mono) simp_all
  then have "rdx k \<le> 16 * rdx k - c * rdx k" unfolding mult_Suc by linarith
  then show "cb k (rdx (Suc k)) c = rdx k" by (simp add: cb_def rdx_simps)
qed

definition khints :: "nat \<Rightarrow> blmeta list \<Rightarrow> nat \<Rightarrow> nat \<Rightarrow> bool" where
  "khints k a b n \<longleftrightarrow> (\<forall>c < nch k n. hints k a (child k b c) (cb k n c))"

lemma expand_free_ok:
  assumes s: "shape (Suc k) a b n" and n: "n = rdx (Suc k)" and k: "rdx (Suc k) < 2 ^ 32"
  shows "\<exists>a'. expand_free a b (rdx k) (skp (Suc k)) 1 = Ret a' \<and> outside (Suc k) a a' b \<and> a' ! b = a ! b \<and>
    shape (Suc k) a' b n \<and> kids k a' b n \<and> ksum k a' b n = rdx (Suc k) \<and> (\<forall>j. kfree k a' b n j \<longleftrightarrow> j < rdx (Suc k)) \<and> khints k a' b n"
proof -
  have k': "rdx k < 2 ^ 32" using k by (simp add: rdx_simps)
  note N = nch_full [where k = k, folded n]
  obtain a' where a': "expand_free a b (rdx k) (skp (Suc k)) (1 + 0 * sz k) = Ret a'" "reset k (free_node k) a b 0 (nch k n) a'"
    using expand_free_reset [of 0 "nch k n" k b a] shape_child [OF s] shape_end [OF s] N(1) by auto
  have "rdx k \<noteq> BL_END" using k by (simp add: BL_END_def rdx_simps)
  then have "bm_bighint (free_node k m) \<noteq> BL_END" for m by (simp add: free_node_def BL_END_def)
  note R = reset_shape [OF a'(2) s this]
  have F: "a' ! child k b c = free_node k (a ! child k b c)" if "c < 16" for c using a'(2) that N(1) by (simp add: reset_def)
  note C = free_node_facts [OF F k']
  have "kids k a' b n" using C N by (simp add: kids_def)
  moreover have "ksum k a' b n = rdx (Suc k)" using C N by (simp add: ksum_def rdx_simps)
  moreover have "kfree k a' b n j \<longleftrightarrow> j < rdx (Suc k)" for j
  proof -
    have "j div rdx k < 16 \<longleftrightarrow> j < rdx (Suc k)" using rdx_simps(3) [of k] by (simp add: rdx_simps less_mult_imp_div_less div_less_iff_less_mult)
    then show ?thesis using C N rdx_simps(3) [of k] by (auto simp: kfree_def)
  qed
  moreover have "khints k a' b n" using C N by (simp add: khints_def)
  ultimately show ?thesis using a'(1) R by auto
qed

lemma expand_alloc_ok:
  assumes s: "shape (Suc k) a b n"
  shows "\<exists>a'. expand_alloc a b (skp (Suc k)) 1 = Ret a' \<and> outside (Suc k) a a' b \<and> a' ! b = a ! b \<and>
    shape (Suc k) a' b n \<and> kids k a' b n \<and> ksum k a' b n = 0 \<and> (\<forall>j. \<not> kfree k a' b n j) \<and> khints k a' b n"
proof -
  have n: "nch k n \<le> 16" using s nch_le by simp
  obtain a' where a': "expand_alloc a b (skp (Suc k)) (1 + 0 * sz k) = Ret a'" "reset k alloc_node a b 0 (nch k n) a'"
    using expand_alloc_reset [of 0 "nch k n" k b a] shape_child [OF s] shape_end [OF s] n by auto
  have "bm_bighint (alloc_node m) \<noteq> BL_END" for m by (simp add: alloc_node_def BL_END_def)
  note R = reset_shape [OF a'(2) s this]
  have F: "a' ! child k b c = alloc_node (a ! child k b c)" if "c < nch k n" for c using a'(2) that by (simp add: reset_def)
  note C = alloc_node_facts [OF F]
  have "kids k a' b n" "ksum k a' b n = 0" "\<forall>j. \<not> kfree k a' b n j" "khints k a' b n"
    using C by (auto simp: kids_def ksum_def kfree_def khints_def)
  then show ?thesis using a'(1) R by auto
qed

lemma open_node:
  assumes s: "shape (Suc k) a b n" and c: "counts (Suc k) a b n" and v: "bmu_avail (a ! b) \<noteq> 0" and k: "rdx (Suc k) < 2 ^ 32"
  shows "\<exists>a'. (if bmu_avail (a ! b) = rdx (Suc k) then expand_free a b (rdx k) (skp (Suc k)) 1 else Ret a) = Ret a' \<and>
    outside (Suc k) a a' b \<and> a' ! b = a ! b \<and> shape (Suc k) a' b n \<and> kids k a' b n \<and> bmu_avail (a' ! b) = ksum k a' b n \<and>
    (\<forall>j. kfree k a' b n j \<longleftrightarrow> isfree (Suc k) a b n j) \<and> (hints (Suc k) a b n \<longrightarrow> khints k a' b n)"
proof (cases "bmu_avail (a ! b) = rdx (Suc k)")
  case True
  then have "n = rdx (Suc k)" using c v by auto
  then show ?thesis using expand_free_ok [OF s _ k] True v by auto
next
  case False
  then show ?thesis using node_open [OF c v False] s outside_refl v by (auto simp: khints_def)
qed

section \<open>Runs inside one bitmap\<close>

lemma run_split:
  assumes "j mod 32 + count \<le> 32" and "i < count"
  shows "(j + i) div rdx k = j div rdx k" "(j + i) mod rdx k = j mod rdx k + i" "j mod rdx k mod 32 = j mod 32"
proof -
  have r: "rdx k = 32 * 16 ^ k" by (simp add: rdx_def)
  show m: "j mod rdx k mod 32 = j mod 32" by (simp add: r mod_mod_cancel)
  have "j mod rdx k = 32 * (j mod rdx k div 32) + j mod 32" using m by (metis mult.commute div_mult_mod_eq)
  moreover have "j mod rdx k div 32 < 16 ^ k"
    using mod_less_divisor [of "rdx k" j] by (simp add: r div_less_iff_less_mult mult.commute)
  then have "32 * (j mod rdx k div 32) + 32 \<le> rdx k" unfolding r by simp
  ultimately have lt: "j mod rdx k + i < rdx k" using assms by linarith
  have e: "j + i = j div rdx k * rdx k + (j mod rdx k + i)" by simp
  have aux: "(q * R + r) div R = q" "(q * R + r) mod R = r" if "r < R" for q r R :: nat using that by simp_all
  show "(j + i) div rdx k = j div rdx k" using aux(1) [OF lt, of "j div rdx k"] e by metis
  show "(j + i) mod rdx k = j mod rdx k + i" using aux(2) [OF lt, of "j div rdx k"] e by metis
qed

lemma hasrun_child:
  assumes "\<forall>j. isfree (Suc k) a b n j \<longrightarrow> kfree k a b n j" and "0 < count" and "hasrun (Suc k) a b n count"
  shows "\<exists>c < nch k n. hasrun k a (child k b c) (cb k n c) count"
proof -
  obtain j where j: "j mod 32 + count \<le> 32" "\<forall>i < count. isfree (Suc k) a b n (j + i)" using assms(3) by (auto simp: hasrun_def)
  let ?c = "j div rdx k"
  have K: "kfree k a b n (j + i)" if "i < count" for i using assms(1) j(2) that by blast
  have "isfree k a (child k b ?c) (cb k n ?c) (j mod rdx k + i)" if "i < count" for i
    using K [OF that] run_split(1,2) [OF j(1) that, of k] by (simp add: kfree_def)
  moreover have "?c < nch k n" using K [OF assms(2)] by (simp add: kfree_def)
  moreover have "j mod rdx k mod 32 + count \<le> 32" using run_split(3) [OF j(1) assms(2), of k] j(1) by simp
  ultimately show ?thesis unfolding hasrun_def by blast
qed

lemma hasrun_mono: "hasrun k a b n count \<Longrightarrow> c \<le> count \<Longrightarrow> hasrun k a b n c"
proof -
  assume r: "hasrun k a b n count" and c: "c \<le> count"
  obtain j where "j mod 32 + count \<le> 32" "\<forall>i < count. isfree k a b n (j + i)" using r by (auto simp: hasrun_def)
  then have "j mod 32 + c \<le> 32" "\<forall>i < c. isfree k a b n (j + i)" using c by auto
  then show ?thesis unfolding hasrun_def by blast
qed

lemma hasrun_subset: "\<forall>j. isfree k a' b n j \<longrightarrow> isfree k a b n j \<Longrightarrow> hasrun k a' b n count \<Longrightarrow> hasrun k a b n count"
  by (auto simp: hasrun_def)

lemma hasrun_card:
  assumes "n \<le> rdx k" and "counts k a b n" and "hasrun k a b n count"
  shows "count \<le> nfree k a b"
proof -
  obtain j where "\<forall>i < count. isfree k a b n (j + i)" using assms(3) by (auto simp: hasrun_def)
  then have "(\<lambda>i. j + i) ` {..<count} \<subseteq> {j. isfree k a b n j}" by auto
  moreover have f: "\<forall>j. isfree k a b n j \<longrightarrow> j < n" "card {j. isfree k a b n j} = nfree k a b"
    using counts_card [OF assms(1,2)] by auto
  then have "finite {j. isfree k a b n j}" by (intro finite_subset [of "{j. isfree k a b n j}" "{..<n}"]) (blast, simp)
  ultimately have "card ((\<lambda>i. j + i) ` {..<count}) \<le> card {j. isfree k a b n j}" by (intro card_mono)
  then show ?thesis using f(2) by (simp add: card_image)
qed

section \<open>Allocation\<close>

text \<open>The routine for a node of level \<open>k\<close>, and its contract.\<close>

definition node_alloc :: "nat \<Rightarrow> blmeta list \<Rightarrow> nat \<Rightarrow> nat \<Rightarrow> nat \<Rightarrow> (nat \<times> blmeta list) bl" where
  "node_alloc k a b blk count = (if k = 0 then blst_leaf_alloc a b blk count else blst_meta_alloc a b blk count (rdx k) (skp k))"

definition taken :: "nat \<Rightarrow> blmeta list \<Rightarrow> blmeta list \<Rightarrow> nat \<Rightarrow> nat \<Rightarrow> nat \<Rightarrow> nat \<Rightarrow> bool" where
  "taken k a a' b n j count \<longleftrightarrow> j mod 32 + count \<le> 32 \<and> (\<forall>i < count. isfree k a b n (j + i)) \<and>
     (\<forall>i. isfree k a' b n i \<longleftrightarrow> isfree k a b n i \<and> \<not> (j \<le> i \<and> i < j + count))"

definition alloc_post :: "nat \<Rightarrow> blmeta list \<Rightarrow> nat \<Rightarrow> nat \<Rightarrow> nat \<Rightarrow> nat \<Rightarrow> nat \<Rightarrow> blmeta list \<Rightarrow> bool" where
  "alloc_post k a b n blk count r a' \<longleftrightarrow> outside k a a' b \<and> shape k a' b n \<and> counts k a' b n \<and>
     (hints k a b n \<longrightarrow> hints k a' b n \<and> (r = BLIST_NONE \<longrightarrow> \<not> hasrun k a b n count)) \<and>
     (if r = BLIST_NONE then \<forall>j. isfree k a' b n j \<longleftrightarrow> isfree k a b n j else \<exists>j. r = blk + j \<and> taken k a a' b n j count)"

lemma taken_nfree:
  assumes "taken k a a' b n j count" and "n \<le> rdx k" and "counts k a b n" and "counts k a' b n"
  shows "nfree k a' b + count = nfree k a b" "0 < count \<Longrightarrow> j + count \<le> n"
proof -
  note C = counts_card [OF assms(2,3)] and C' = counts_card [OF assms(2,4)]
  have T: "\<forall>i < count. isfree k a b n (j + i)" "{i. isfree k a' b n i} = {i. isfree k a b n i} - {j..<j + count}"
    using assms(1) by (auto simp: taken_def)
  have fin: "finite {i. isfree k a b n i}" using C by (intro finite_subset [of "{i. isfree k a b n i}" "{..<n}"]) (blast, simp)
  have sub: "{j..<j + count} \<subseteq> {i. isfree k a b n i}" using T(1) by (auto simp: le_iff_add)
  have "card {i. isfree k a' b n i} = card {i. isfree k a b n i} - count" unfolding T(2) using sub by (subst card_Diff_subset) auto
  moreover have "count \<le> card {i. isfree k a b n i}" using card_mono [OF fin sub] by simp
  ultimately show "nfree k a' b + count = nfree k a b" using C C' by simp
  show "j + count \<le> n" if "0 < count"
  proof -
    have "isfree k a b n (j + (count - 1))" using T(1) [rule_format, of "count - 1"] that by simp
    then have "j + (count - 1) < n" using C by blast
    then show ?thesis using that by simp
  qed
qed

lemma leaf_alloc_ok:
  assumes s: "shape 0 a b n" and c: "counts 0 a b n" and count: "0 < count" "count \<le> 32" and blk: "blk + 32 \<le> 2 ^ 31"
  shows "\<exists>r a'. blst_leaf_alloc a b blk count = Ret (r, a') \<and> alloc_post 0 a b n blk count r a'"
proof -
  let ?m = "a ! b"
  have b: "b < length a" "rd a b = Ret ?m" "bm_bighint ?m \<noteq> BL_END" using s by (auto simp: rd_def)
  have post: "alloc_post 0 a b n blk count (blk + j) (a[b := ?m\<lparr>bmu := v\<rparr>])"
    if "j + count \<le> 32" "run_at (bmu ?m) count j" "\<And>i. bit v i \<longleftrightarrow> bit (bmu ?m) i \<and> \<not> (j \<le> i \<and> i < j + count)" for j v
  proof -
    let ?a = "a[b := ?m\<lparr>bmu := v\<rparr>]"
    have a: "?a ! b = ?m\<lparr>bmu := v\<rparr>" using b by simp
    have "j < 32" using that(1) count by simp
    then have tk: "taken 0 a ?a b n j count" unfolding taken_def using that a by (simp add: run_at_def)
    moreover have "counts 0 ?a b n" using c a that(3) by simp
    moreover have "hints 0 ?a b n" if "hints 0 a b n"
      using that a hasrun_subset [of 0 ?a b n a] tk by (auto simp: taken_def)
    moreover have "blk + j \<noteq> BLIST_NONE" using blk \<open>j < 32\<close> by (simp add: BLIST_NONE_def)
    ultimately show ?thesis using s a outside_upd [of 0 a b] by (auto simp: alloc_post_def)
  qed
  have fail: "alloc_post 0 a b n blk count BLIST_NONE (a[b := ?m\<lparr>bm_bighint := h\<rparr>])"
    if "h \<noteq> BL_END" "\<not> hasrun 0 a b n count" "count = Suc h \<or> bmu ?m = 0" for h
  proof -
    let ?a = "a[b := ?m\<lparr>bm_bighint := h\<rparr>]"
    have a: "?a ! b = ?m\<lparr>bm_bighint := h\<rparr>" using b by simp
    then have f: "isfree 0 ?a b n j \<longleftrightarrow> isfree 0 a b n j" for j by simp
    then have hr: "hasrun 0 ?a b n c' \<longleftrightarrow> hasrun 0 a b n c'" for c' unfolding hasrun_def by simp
    have "c' \<le> h" if "0 < c'" "hasrun 0 a b n c'" for c'
    proof (rule ccontr)
      assume "\<not> c' \<le> h"
      then have "count = Suc h \<Longrightarrow> hasrun 0 a b n count" using hasrun_mono [OF that(2), of count] by simp
      moreover have "bmu ?m \<noteq> 0" using that by (auto simp: hasrun_def)
      ultimately show False using \<open>\<not> hasrun 0 a b n count\<close> \<open>count = Suc h \<or> bmu ?m = 0\<close> by blast
    qed
    then have "hints 0 ?a b n" using a hr by simp
    then show ?thesis using s c a that(1,2) f outside_upd [of 0 a b] by (simp add: alloc_post_def)
  qed
  consider "bmu ?m = 0" | "bmu ?m \<noteq> 0" "count = 1" | "bmu ?m \<noteq> 0" "count \<noteq> 1" by blast
  then show ?thesis
  proof cases
    case 1
    have "\<not> hasrun 0 a b n count" using 1 count by (auto simp: hasrun_def)
    then show ?thesis using 1 b fail [of 0] by (simp add: blst_leaf_alloc_def Let_def BL_END_def)
  next
    case 2
    let ?r = "leaf_one 16 0 (bmu ?m) (drop_bit 16 (- 1))"
    have r: "bit (bmu ?m) ?r" by (rule leaf_one_bit [OF 2(1)])
    then have "?r < 32" by (rule bit_lt_32)
    then have "add32 blk ?r = blk + ?r" using blk by (intro arith32) simp
    moreover have "alloc_post 0 a b n blk count (blk + ?r) (a[b := ?m\<lparr>bmu := bmu ?m AND NOT (push_bit ?r 1)\<rparr>])"
    proof (rule post)
      show "?r + count \<le> 32" using 2(2) \<open>?r < 32\<close> by simp
      show "run_at (bmu ?m) count ?r" using 2(2) r by (simp add: run_at_def)
      have eq: "?r \<le> i \<and> i < ?r + count \<longleftrightarrow> i = ?r" for i using 2(2) by (auto simp: le_less)
      show "bit (bmu ?m AND NOT (push_bit ?r 1)) i \<longleftrightarrow> bit (bmu ?m) i \<and> \<not> (?r \<le> i \<and> i < ?r + count)" for i
        unfolding eq by (auto simp: bit_simps dest: bit_lt_32)
    qed
    ultimately show ?thesis using 2 b by (simp add: blst_leaf_alloc_def Let_def)
  next
    case 3
    let ?n = "32 - count"
    have msk: "drop_bit ?n (- 1) = push_bit 0 (mask count :: u32)" using count all_ones_drop [of ?n] by simp
    have R: "case leaf_run ?n 0 (bmu ?m) (push_bit 0 (mask count)) of
        Some (j', m) \<Rightarrow> 0 \<le> j' \<and> j' \<le> ?n \<and> m = push_bit j' (mask count) \<and> run_at (bmu ?m) count j'
      | None \<Rightarrow> \<forall>j'. 0 \<le> j' \<and> j' \<le> ?n \<longrightarrow> \<not> run_at (bmu ?m) count j'"
      using count by (intro leaf_run_correct) simp
    show ?thesis
    proof (cases "leaf_run ?n 0 (bmu ?m) (push_bit 0 (mask count))")
      case None
      have "\<not> hasrun 0 a b n count"
      proof
        assume "hasrun 0 a b n count"
        then obtain j where j: "\<forall>i < count. bit (bmu ?m) (j + i)" by (auto simp: hasrun_def)
        then have "bit (bmu ?m) (j + (count - 1))" using j [rule_format, of "count - 1"] count by simp
        then have "j + (count - 1) < 32" by (rule bit_lt_32)
        then have "j \<le> ?n" using count by simp
        then show False using j R None by (auto simp: run_at_def)
      qed
      then have "alloc_post 0 a b n blk count BLIST_NONE (a[b := ?m\<lparr>bm_bighint := count - 1\<rparr>])"
        using count by (intro fail) (auto simp: BL_END_def)
      moreover have "sub32 count 1 = count - 1" using count by (intro arith32) simp_all
      ultimately show ?thesis using 3 b count None msk by (simp add: blst_leaf_alloc_def Let_def)
    next
      case (Some p)
      then obtain j where j: "leaf_run ?n 0 (bmu ?m) (push_bit 0 (mask count)) = Some (j, push_bit j (mask count))" "j \<le> ?n"
        "run_at (bmu ?m) count j" using R by (cases p) auto
      have "bit (bmu ?m AND NOT (push_bit j (mask count))) i \<longleftrightarrow> bit (bmu ?m) i \<and> \<not> (j \<le> i \<and> i < j + count)" for i
        by (auto simp: bit_simps dest: bit_lt_32)
      then have "alloc_post 0 a b n blk count (blk + j) (a[b := ?m\<lparr>bmu := bmu ?m AND NOT (push_bit j (mask count))\<rparr>])"
        using j count by (intro post) simp_all
      moreover have "add32 blk j = blk + j" using blk j(2) count by (intro arith32) simp
      ultimately show ?thesis using 3 b count j(1) msk by (simp add: blst_leaf_alloc_def Let_def)
    qed
  qed
qed

text \<open>What a meta node does once its children have answered.\<close>

lemma alloc_post_same:
  "alloc_post k a b n blk count r a' \<Longrightarrow> outside k a0 a b \<Longrightarrow> \<forall>j. isfree k a b n j \<longleftrightarrow> isfree k a0 b n j \<Longrightarrow>
    (hints k a0 b n \<longrightarrow> hints k a b n) \<Longrightarrow> alloc_post k a0 b n blk count r a'"
proof -
  assume p: "alloc_post k a b n blk count r a'" and o: "outside k a0 a b" and f: "\<forall>j. isfree k a b n j \<longleftrightarrow> isfree k a0 b n j"
    and h: "hints k a0 b n \<longrightarrow> hints k a b n"
  have "hasrun k a b n c \<longleftrightarrow> hasrun k a0 b n c" for c using f by (simp add: hasrun_def)
  moreover have "taken k a a' b n j count \<longleftrightarrow> taken k a0 a' b n j count" for j using f by (simp add: taken_def)
  moreover have "outside k a0 a' b" using p outside_trans [OF o] by (simp add: alloc_post_def)
  ultimately show ?thesis using p f h by (cases "r = BLIST_NONE") (simp_all add: alloc_post_def)
qed

lemma range_child:
  assumes "j + count \<le> rdx k"
  shows "c * rdx k + j \<le> i \<and> i < c * rdx k + j + count \<longleftrightarrow> i div rdx k = c \<and> j \<le> i mod rdx k \<and> i mod rdx k < j + count"
proof -
  have i: "i = i div rdx k * rdx k + i mod rdx k" by simp
  have "i div rdx k = c" if "c * rdx k + j \<le> i" "i < c * rdx k + j + count"
    using that assms by (intro div_nat_eqI) (simp_all add: mult.commute)
  moreover have "i = c * rdx k + i mod rdx k" if "i div rdx k = c" using i that by simp
  ultimately show ?thesis by (metis add.assoc nat_add_left_cancel_le nat_add_left_cancel_less)
qed

lemma meta_done:
  assumes s: "shape (Suc k) a b n" and kd: "kids k a b n" and v: "bmu_avail (a ! b) = ksum k a b n"
    and p: "alloc_post k a (child k b c) (cb k n c) (blk + c * rdx k) count r a1" and c: "c < nch k n"
    and r: "r \<noteq> BLIST_NONE" and count: "0 < count"
  shows "\<exists>a'. meta_alloc_done a1 b count r = Ret (r, a') \<and> outside (Suc k) a a' b \<and> shape (Suc k) a' b n \<and> counts (Suc k) a' b n \<and>
    (\<exists>j. r = blk + j \<and> taken (Suc k) a a' b n j count) \<and>
    (khints k a b n \<and> (\<forall>count > 0. hasrun (Suc k) a b n count \<longrightarrow> count \<le> bm_bighint (a ! b)) \<longrightarrow> hints (Suc k) a' b n)"
proof -
  let ?b = "child k b c" and ?n = "cb k n c"
  have n: "n \<le> rdx (Suc k)" and b: "b < length a" using s by simp_all
  have cn: "?n \<le> rdx k" "c < 16" using cb_pos [OF c] nch_le [OF n] c by auto
  obtain j where P: "outside k a a1 ?b" "shape k a1 ?b ?n" "counts k a1 ?b ?n" "r = blk + c * rdx k + j" "taken k a a1 ?b ?n j count"
    and H: "hints k a ?b ?n \<longrightarrow> hints k a1 ?b ?n" using p r by (auto simp: alloc_post_def)
  note CC = child_change [OF P(1) n c]
  have kd1: "kids k a1 b n" and s1: "shape (Suc k) a1 b n" using CC(1,2) s kd P by auto
  have l1: "length a1 = length a" "a1 ! b = a ! b" using P(1) outside_root [OF P(1)] by (auto simp: outside_def)
  have ck: "counts k a ?b ?n" using kd c by (simp add: kids_def)
  note tn = taken_nfree [OF P(5) cn(1) ck P(3)]
  have ks: "ksum k a1 b n + count = ksum k a b n" using CC(3) tn(1) by simp
  define m where "m = (let m = set_avail (sub32 (bmu_avail (a ! b)) count) (a ! b) in if bm_bighint m > bmu_avail m then m\<lparr>bm_bighint := bmu_avail m\<rparr> else m)"
  have "sub32 (bmu_avail (a ! b)) count = ksum k a1 b n" using ks v avail_less [of "a ! b"] by (subst arith32) auto
  moreover have "ksum k a1 b n < 2 ^ 32" using ks v avail_less [of "a ! b"] by simp
  ultimately have m: "bmu_avail m = ksum k a1 b n" "bm_bighint m = min (bm_bighint (a ! b)) (ksum k a1 b n)" by (auto simp: m_def Let_def avail_set)
  have mh: "bm_bighint m \<noteq> BL_END" using m s \<open>ksum k a1 b n < 2 ^ 32\<close> ks avail_less [of "a ! b"] v count by (auto simp: min_def BL_END_def)
  let ?a = "a1[b := m]"
  have am: "?a ! b = m" using b l1 by simp
  note RC = root_change [OF n, of b a1]
  have eq: "meta_alloc_done a1 b count r = Ret (r, ?a)" using b l1 by (simp add: meta_alloc_done_def wr_def m_def)
  have o: "outside (Suc k) a ?a b" using outside_trans [OF outside_up [OF P(1) cn(2)] outside_upd] .
  have sh: "shape (Suc k) ?a b n" using RC(1) s1 mh b l1 by simp
  have kd2: "kids k ?a b n" "ksum k ?a b n = ksum k a1 b n" using RC b l1 kd1 by auto
  note NC = node_close [OF n kd2(1)] and NO = node_close [OF n kd v]
  have cnt: "counts (Suc k) ?a b n" using NC(1) am m(1) kd2(2) by simp
  have fr: "isfree (Suc k) ?a b n i \<longleftrightarrow> (if i div rdx k = c then isfree k a1 ?b ?n (i mod rdx k) else isfree (Suc k) a b n i)" for i
    using NC(2) am m(1) kd2(2) RC(4) b l1 CC(4) NO(2) by simp
  have "j + count \<le> rdx k" using tn(2) [OF count] cn(1) by simp
  note range = range_child [OF this]
  have J: "j mod 32 + count \<le> 32" "\<forall>i < count. isfree k a ?b ?n (j + i)"
    "\<forall>i. isfree k a1 ?b ?n i \<longleftrightarrow> isfree k a ?b ?n i \<and> \<not> (j \<le> i \<and> i < j + count)" using P(5) by (auto simp: taken_def)
  have sub: "(c * rdx k + j + i) div rdx k = c" "(c * rdx k + j + i) mod rdx k = j + i" if "i < count" for i
  proof -
    have "j + i < rdx k" using tn(2) [OF count] cn(1) that by simp
    then show "(c * rdx k + j + i) div rdx k = c" "(c * rdx k + j + i) mod rdx k = j + i" by (simp_all add: add.assoc)
  qed
  have old: "isfree (Suc k) a b n i \<longleftrightarrow> isfree k a ?b ?n (i mod rdx k)" if "i div rdx k = c" for i
    using NO(2) c that by (auto simp: kfree_def)
  have tk: "taken (Suc k) a ?a b n (c * rdx k + j) count"
    unfolding taken_def
  proof (intro conjI allI impI)
    have "c * rdx k + j = j + 32 * (c * 16 ^ k)" by (simp add: rdx_def)
    then have "(c * rdx k + j) mod 32 = j mod 32" by (simp only: mod_mult_self2)
    then show "(c * rdx k + j) mod 32 + count \<le> 32" using J(1) by simp
    show "isfree (Suc k) a b n (c * rdx k + j + i)" if "i < count" for i using old [OF sub(1) [OF that]] sub(2) [OF that] J(2) that by simp
    show "isfree (Suc k) ?a b n i \<longleftrightarrow> isfree (Suc k) a b n i \<and> \<not> (c * rdx k + j \<le> i \<and> i < c * rdx k + j + count)" for i
      unfolding range fr using old J(3) by auto
  qed
  have hn: "hints (Suc k) ?a b n" if K: "khints k a b n" and R: "\<forall>count > 0. hasrun (Suc k) a b n count \<longrightarrow> count \<le> bm_bighint (a ! b)"
  proof -
    have "hints k ?a (child k b c') (cb k n c')" if c': "c' < nch k n" for c'
    proof -
      have "hints k a1 (child k b c') (cb k n c')"
        using K H hints_same [OF outside_sibling [OF P(1)]] cb_pos [OF c'] c' by (cases "c' = c") (auto simp: khints_def)
      then show ?thesis using hints_same [OF same_children] cb_pos [OF c'] nch_le [OF n] c' by simp
    qed
    moreover have "c' \<le> bm_bighint m" if "0 < c'" "hasrun (Suc k) ?a b n c'" for c'
    proof -
      have "c' \<le> bm_bighint (a ! b)" using R that hasrun_subset [of "Suc k" ?a b n a c'] tk unfolding taken_def by blast
      moreover have "c' \<le> ksum k a1 b n" using hasrun_card [OF n cnt that(2)] am m(1) by (simp add: nfree_def)
      ultimately show ?thesis using m(2) by simp
    qed
    ultimately show ?thesis using am by simp
  qed
  show ?thesis using eq o sh cnt tk hn P(4) by (intro exI [of _ ?a]) (auto simp: add.assoc)
qed

definition roothint :: "nat \<Rightarrow> blmeta list \<Rightarrow> nat \<Rightarrow> nat \<Rightarrow> bool" where
  "roothint k a b n \<longleftrightarrow> (\<forall>count > 0. hasrun k a b n count \<longrightarrow> count \<le> bm_bighint (a ! b))"

lemma hints_rootD: "hints k a b n \<Longrightarrow> roothint k a b n"
  by (cases k) (simp_all add: roothint_def)

lemma meta_failed:
  assumes s: "shape (Suc k) a b n" and kd: "kids k a b n" and v: "bmu_avail (a ! b) = ksum k a b n" and count: "0 < count" "count \<le> 32"
    and no: "H \<longrightarrow> khints k a b n \<and> roothint (Suc k) a b n \<and> (\<forall>c < nch k n. \<not> hasrun k a (child k b c) (cb k n c) count)"
  shows "\<exists>a'. meta_alloc_failed a b count = Ret (BLIST_NONE, a') \<and> outside (Suc k) a a' b \<and> shape (Suc k) a' b n \<and> counts (Suc k) a' b n \<and>
    (\<forall>j. isfree (Suc k) a' b n j \<longleftrightarrow> isfree (Suc k) a b n j) \<and>
    (H \<longrightarrow> hints (Suc k) a' b n \<and> \<not> hasrun (Suc k) a b n count)"
proof -
  have n: "n \<le> rdx (Suc k)" and b: "b < length a" using s by simp_all
  define m where "m = (if bm_bighint (a ! b) \<ge> count then (a ! b)\<lparr>bm_bighint := count - 1\<rparr> else a ! b)"
  have m: "bmu_avail m = bmu_avail (a ! b)" "bm_bighint m = (if bm_bighint (a ! b) \<ge> count then count - 1 else bm_bighint (a ! b))"
    by (auto simp: m_def)
  let ?a = "a[b := m]"
  have am: "?a ! b = m" using b by simp
  have "sub32 count 1 = count - 1" using count by (intro arith32) simp_all
  then have eq: "meta_alloc_failed a b count = Ret (BLIST_NONE, ?a)" using b by (simp add: meta_alloc_failed_def wr_def m_def)
  have mh: "bm_bighint m \<noteq> BL_END" using m s count by (auto simp: BL_END_def)
  note RC = root_change [OF n b, of m]
  have kd2: "kids k ?a b n" "ksum k ?a b n = ksum k a b n" using RC kd by auto
  note NC = node_close [OF n kd2(1)] and NO = node_close [OF n kd v]
  have v2: "bmu_avail (?a ! b) = ksum k ?a b n" using am m v kd2 by simp
  have f: "isfree (Suc k) ?a b n j \<longleftrightarrow> isfree (Suc k) a b n j" for j using NC(2) [OF v2] NO(2) RC(4) by simp
  then have hr: "hasrun (Suc k) ?a b n c \<longleftrightarrow> hasrun (Suc k) a b n c" for c unfolding hasrun_def by simp
  have "hints (Suc k) ?a b n \<and> \<not> hasrun (Suc k) a b n count" if H
  proof
    have K: "khints k a b n" and R: "roothint (Suc k) a b n" using no that by auto
    show nr: "\<not> hasrun (Suc k) a b n count" using hasrun_child [of k a b n count] NO(2) count(1) no that by blast
    have "c \<le> bm_bighint m" if "0 < c" "hasrun (Suc k) a b n c" for c
    proof -
      have "c < count" using nr hasrun_mono [OF that(2), of count] by (meson not_le)
      moreover have "c \<le> bm_bighint (a ! b)" using R that by (simp add: roothint_def)
      ultimately show ?thesis using m(2) by (auto split: if_splits)
    qed
    moreover have "hints k ?a (child k b c) (cb k n c)" if "c < nch k n" for c
      using K that hints_same [OF same_children] cb_pos [OF that] nch_le [OF n] by (simp add: khints_def)
    ultimately show "hints (Suc k) ?a b n" using am hr by simp
  qed
  then show ?thesis using eq outside_upd RC(1) [OF s mh] NC(1) [OF v2] f by blast
qed

lemma alloc_scan_ok:
  assumes IH: "\<And>a b n blk. shape k a b n \<Longrightarrow> counts k a b n \<Longrightarrow> blk + rdx k \<le> 2 ^ 31 \<Longrightarrow>
      \<exists>r a'. node_alloc k a b blk count = Ret (r, a') \<and> alloc_post k a b n blk count r a'"
    and count: "0 < count" "count \<le> 32"
    and s: "shape (Suc k) a b n" and kd: "kids k a b n" and v: "bmu_avail (a ! b) = ksum k a b n"
    and c: "c \<le> nch k n" and blk: "blk + rdx (Suc k) \<le> 2 ^ 31"
    and no: "H \<longrightarrow> khints k a b n \<and> roothint (Suc k) a b n \<and> (\<forall>c' < c. \<not> hasrun k a (child k b c') (cb k n c') count)"
  shows "\<exists>r a'. meta_alloc_scan a b (blk + c * rdx k) count (rdx k) (skp (Suc k)) (1 + c * sz k) = Ret (r, a') \<and>
    outside (Suc k) a a' b \<and> shape (Suc k) a' b n \<and> counts (Suc k) a' b n \<and>
    (H \<longrightarrow> hints (Suc k) a' b n \<and> (r = BLIST_NONE \<longrightarrow> \<not> hasrun (Suc k) a b n count)) \<and>
    (if r = BLIST_NONE then \<forall>j. isfree (Suc k) a' b n j \<longleftrightarrow> isfree (Suc k) a b n j else \<exists>j. r = blk + j \<and> taken (Suc k) a a' b n j count)"
  using s kd v c no
proof (induction "nch k n - c" arbitrary: a c)
  case 0
  then have cn: "c = nch k n" by simp
  have "meta_alloc_scan a b (blk + c * rdx k) count (rdx k) (skp (Suc k)) (1 + c * sz k) = meta_alloc_failed a b count"
  proof (cases "c < 16")
    case True
    then show ?thesis using shape_end [OF 0(2)] cn child_index [of c k]
      by (subst meta_alloc_scan.simps) (simp add: Let_def rd_def child_def)
  next
    case False
    then show ?thesis using child_index [of c k] by (subst meta_alloc_scan.simps) (simp add: Let_def)
  qed
  moreover have "H \<longrightarrow> khints k a b n \<and> roothint (Suc k) a b n \<and> (\<forall>c < nch k n. \<not> hasrun k a (child k b c) (cb k n c) count)"
    using 0(6) cn by simp
  note meta_failed [OF 0(2,3,4) count this]
  ultimately show ?case by (metis (no_types, lifting))
next
  case (Suc x)
  then have c: "c < nch k n" by simp
  let ?b = "child k b c" and ?n = "cb k n c"
  have n: "n \<le> rdx (Suc k)" using Suc.prems(1) by simp
  have C: "?b < length a" "bm_bighint (a ! ?b) \<noteq> BL_END" "c < 16" by (rule shape_child [OF Suc.prems(1) c])+
  have "Suc c * rdx k \<le> 16 * rdx k" using C(3) by (intro mult_right_mono) simp_all
  then have bk: "blk + c * rdx k + rdx k \<le> 2 ^ 31" using blk unfolding rdx_simps(2) mult_Suc by linarith
  then have nxt: "add32 (blk + c * rdx k) (rdx k) = blk + Suc c * rdx k" by (subst arith32) (simp_all add: algebra_simps)
  have idx: "1 + c * sz k + sz k = 1 + Suc c * sz k" by simp
  have sc: "shape k a ?b ?n" "counts k a ?b ?n" using Suc.prems(1,2) c by (simp_all add: kids_def)
  have call: "(if sz k = 1 then blst_leaf_alloc a ?b blk' count else blst_meta_alloc a ?b blk' count (rdx k) (sz k - 1)) = node_alloc k a ?b blk' count" for blk'
    using sz_one_iff [of k] by (simp add: node_alloc_def sz_def)
  have unf: "meta_alloc_scan a b (blk + c * rdx k) count (rdx k) (skp (Suc k)) (1 + c * sz k) =
      (if count \<le> bm_bighint (a ! ?b) then
         bl_bind (node_alloc k a ?b (blk + c * rdx k) count) (\<lambda>(r, a).
           if r \<noteq> BLIST_NONE then meta_alloc_done a b count r
           else meta_alloc_scan a b (blk + Suc c * rdx k) count (rdx k) (skp (Suc k)) (1 + Suc c * sz k))
       else if count > rdx k then Panic
       else meta_alloc_scan a b (blk + Suc c * rdx k) count (rdx k) (skp (Suc k)) (1 + Suc c * sz k))"
    using C child_index [of c k] sz_simps(3) [of k]
    by (subst meta_alloc_scan.simps) (simp only: Let_def meta_radix sz_simps(4) nxt idx call [symmetric], simp add: rd_def child_def)
  have later: "x = nch k n - Suc c" "Suc c \<le> nch k n" using Suc.hyps(2) c by simp_all
  show ?case
  proof (cases "count \<le> bm_bighint (a ! ?b)")
    case False
    have nr: "\<not> hasrun k a ?b ?n count" if "khints k a b n"
    proof -
      have "roothint k a ?b ?n" using that c by (intro hints_rootD) (simp add: khints_def)
      then show ?thesis using False count(1) unfolding roothint_def by blast
    qed
    then have no': "H \<longrightarrow> khints k a b n \<and> roothint (Suc k) a b n \<and> (\<forall>c' < Suc c. \<not> hasrun k a (child k b c') (cb k n c') count)"
      using Suc.prems(5) by (auto simp: less_Suc_eq)
    have "\<not> count > rdx k" using count rdx_simps(6) [of k] by simp
    then have "meta_alloc_scan a b (blk + c * rdx k) count (rdx k) (skp (Suc k)) (1 + c * sz k) =
        meta_alloc_scan a b (blk + Suc c * rdx k) count (rdx k) (skp (Suc k)) (1 + Suc c * sz k)" using unf False by simp
    then show ?thesis using Suc.hyps(1) [OF later(1) Suc.prems(1,2,3) later(2) no'] by (simp only:)
  next
    case True
    obtain r a1 where r: "node_alloc k a ?b (blk + c * rdx k) count = Ret (r, a1)" "alloc_post k a ?b ?n (blk + c * rdx k) count r a1"
      using IH [OF sc bk] by blast
    show ?thesis
    proof (cases "r = BLIST_NONE")
      case False
      obtain a' where D: "meta_alloc_done a1 b count r = Ret (r, a')" "outside (Suc k) a a' b" "shape (Suc k) a' b n" "counts (Suc k) a' b n"
        "\<exists>j. r = blk + j \<and> taken (Suc k) a a' b n j count" "khints k a b n \<and> roothint (Suc k) a b n \<longrightarrow> hints (Suc k) a' b n"
        using meta_done [OF Suc.prems(1,2,3) r(2) c False count(1)] unfolding roothint_def by blast
      have "meta_alloc_scan a b (blk + c * rdx k) count (rdx k) (skp (Suc k)) (1 + c * sz k) = Ret (r, a')"
        using unf True r(1) False D(1) by simp
      then show ?thesis using D False Suc.prems(5) by (intro exI [of _ r] exI [of _ a']) simp
    next
      case True
      have P: "outside k a a1 ?b" "shape k a1 ?b ?n" "counts k a1 ?b ?n" "\<And>j. isfree k a1 ?b ?n j \<longleftrightarrow> isfree k a ?b ?n j"
        and H: "hints k a ?b ?n \<longrightarrow> hints k a1 ?b ?n \<and> \<not> hasrun k a ?b ?n count" using r(2) True by (auto simp: alloc_post_def)
      note CC = child_change [OF P(1) n c]
      have s1: "shape (Suc k) a1 b n" and k1: "kids k a1 b n" using CC(1,2) Suc.prems(1,2) P by auto
      have "?n \<le> rdx k" using cb_pos [OF c] by simp
      then have "nfree k a1 ?b = nfree k a ?b" using counts_card [OF _ sc(2)] counts_card [OF _ P(3)] P(4) by simp
      then have ks: "ksum k a1 b n = ksum k a b n" using CC(3) by simp
      have root: "a1 ! b = a ! b" by (rule outside_root [OF P(1)])
      have v1: "bmu_avail (a1 ! b) = ksum k a1 b n" using ks root Suc.prems(3) by simp
      have kf: "kfree k a1 b n j \<longleftrightarrow> kfree k a b n j" for j using CC(4) P(4) c by (auto simp: kfree_def)
      have fr: "isfree (Suc k) a1 b n j \<longleftrightarrow> isfree (Suc k) a b n j" for j
        using node_close(2) [OF n k1 v1] node_close(2) [OF n Suc.prems(2,3)] kf by simp
      have hr: "hasrun k a1 (child k b c') (cb k n c') count \<longleftrightarrow> hasrun k a (child k b c') (cb k n c') count" if "c' < nch k n" for c'
        using P(4) hasrun_same [OF outside_sibling [OF P(1)]] cb_pos [OF that] by (cases "c' = c") (auto simp: hasrun_def)
      have kh: "khints k a1 b n" if K: "khints k a b n"
        unfolding khints_def
      proof (intro allI impI)
        fix c' assume c': "c' < nch k n"
        then show "hints k a1 (child k b c') (cb k n c')"
          using H K hints_same [OF outside_sibling [OF P(1)]] cb_pos [OF c'] by (cases "c' = c") (auto simp: khints_def)
      qed
      have hr1: "hasrun (Suc k) a1 b n c' \<longleftrightarrow> hasrun (Suc k) a b n c'" for c' using fr unfolding hasrun_def by simp
      have nr: "\<not> hasrun k a ?b ?n count" if "khints k a b n" using H that c by (simp add: khints_def)
      have no': "H \<longrightarrow> khints k a1 b n \<and> roothint (Suc k) a1 b n \<and> (\<forall>c' < Suc c. \<not> hasrun k a1 (child k b c') (cb k n c') count)"
      proof
        assume H
        then have K: "khints k a b n" "roothint (Suc k) a b n" "\<forall>c' < c. \<not> hasrun k a (child k b c') (cb k n c') count" using Suc.prems(5) by auto
        then have "\<not> hasrun k a1 (child k b c') (cb k n c') count" if "c' < Suc c" for c'
          using hr [of c'] nr c that by (cases "c' = c") auto
        then show "khints k a1 b n \<and> roothint (Suc k) a1 b n \<and> (\<forall>c' < Suc c. \<not> hasrun k a1 (child k b c') (cb k n c') count)"
          using kh K hr1 root by (simp add: roothint_def)
      qed
      obtain r' a' where D: "meta_alloc_scan a1 b (blk + Suc c * rdx k) count (rdx k) (skp (Suc k)) (1 + Suc c * sz k) = Ret (r', a')"
        "outside (Suc k) a1 a' b" "shape (Suc k) a' b n" "counts (Suc k) a' b n"
        "H \<longrightarrow> hints (Suc k) a' b n \<and> (r' = BLIST_NONE \<longrightarrow> \<not> hasrun (Suc k) a1 b n count)"
        "if r' = BLIST_NONE then \<forall>j. isfree (Suc k) a' b n j \<longleftrightarrow> isfree (Suc k) a1 b n j else \<exists>j. r' = blk + j \<and> taken (Suc k) a1 a' b n j count"
        using Suc.hyps(1) [OF later(1) s1 k1 v1 later(2) no'] by blast
      have "meta_alloc_scan a b (blk + c * rdx k) count (rdx k) (skp (Suc k)) (1 + c * sz k) = Ret (r', a')"
        using unf \<open>count \<le> bm_bighint (a ! ?b)\<close> r(1) True D(1) by simp
      moreover have "outside (Suc k) a a' b" using outside_trans [OF outside_up [OF P(1) C(3)] D(2)] .
      moreover have "taken (Suc k) a1 a' b n j count \<longleftrightarrow> taken (Suc k) a a' b n j count" for j using fr by (simp add: taken_def)
      ultimately show ?thesis using D(3-6) fr hr1 by (intro exI [of _ r'] exI [of _ a']) (cases "r' = BLIST_NONE"; simp)
    qed
  qed
qed

theorem node_alloc_ok:
  assumes "shape k a b n" and "counts k a b n" and "0 < count" and "count \<le> 32" and "blk + rdx k \<le> 2 ^ 31"
  shows "\<exists>r a'. node_alloc k a b blk count = Ret (r, a') \<and> alloc_post k a b n blk count r a'"
  using assms(1,2,5)
proof (induction k arbitrary: a b n blk)
  case 0
  then show ?case using leaf_alloc_ok [OF 0(1,2) assms(3,4)] by (simp add: node_alloc_def rdx_simps)
next
  case (Suc k)
  have n: "n \<le> rdx (Suc k)" and b: "b < length a" using Suc.prems(1) by simp_all
  have k: "rdx (Suc k) < 2 ^ 32" using Suc.prems(3) by simp
  show ?case
  proof (cases "bmu_avail (a ! b) = 0")
    case True
    let ?a = "a[b := (a ! b)\<lparr>bm_bighint := count\<rparr>]"
    have a: "?a ! b = (a ! b)\<lparr>bm_bighint := count\<rparr>" using b by simp
    then have v: "bmu_avail (?a ! b) = 0" using True by simp
    have nf: "\<not> isfree (Suc k) ?a b n j" "\<not> isfree (Suc k) a b n j" for j using v True by simp_all
    have nr: "\<not> hasrun (Suc k) ?a b n c" "\<not> hasrun (Suc k) a b n c" if "0 < c" for c using nf that unfolding hasrun_def by blast+
    have "alloc_post (Suc k) a b n blk count BLIST_NONE ?a"
      using outside_upd root_change(1) [OF n b Suc.prems(1), of "(a ! b)\<lparr>bm_bighint := count\<rparr>"] v nf nr assms(3,4)
      by (simp add: alloc_post_def BL_END_def)
    moreover have "node_alloc (Suc k) a b blk count = Ret (BLIST_NONE, ?a)"
      using True b by (simp add: node_alloc_def blst_meta_alloc.simps rd_def)
    ultimately show ?thesis by blast
  next
    case False
    obtain a0 where O: "(if bmu_avail (a ! b) = rdx (Suc k) then expand_free a b (rdx k) (skp (Suc k)) 1 else Ret a) = Ret a0"
      "outside (Suc k) a a0 b" "a0 ! b = a ! b" "shape (Suc k) a0 b n" "kids k a0 b n" "bmu_avail (a0 ! b) = ksum k a0 b n"
      "\<forall>j. kfree k a0 b n j \<longleftrightarrow> isfree (Suc k) a b n j" "hints (Suc k) a b n \<longrightarrow> khints k a0 b n"
      using open_node [OF Suc.prems(1,2) False k] by blast
    have fr: "\<forall>j. isfree (Suc k) a0 b n j \<longleftrightarrow> isfree (Suc k) a b n j" using node_close(2) [OF n O(5,6)] O(7) by simp
    then have hr: "hasrun (Suc k) a0 b n c \<longleftrightarrow> hasrun (Suc k) a b n c" for c by (simp add: hasrun_def)
    have no: "hints (Suc k) a b n \<longrightarrow> khints k a0 b n \<and> roothint (Suc k) a0 b n \<and> (\<forall>c' < 0. \<not> hasrun k a0 (child k b c') (cb k n c') count)"
      using O(3,8) hr by (simp add: roothint_def)
    obtain r a' where D: "meta_alloc_scan a0 b (blk + 0 * rdx k) count (rdx k) (skp (Suc k)) (1 + 0 * sz k) = Ret (r, a')"
      "outside (Suc k) a0 a' b" "shape (Suc k) a' b n" "counts (Suc k) a' b n"
      "hints (Suc k) a b n \<longrightarrow> hints (Suc k) a' b n \<and> (r = BLIST_NONE \<longrightarrow> \<not> hasrun (Suc k) a0 b n count)"
      "if r = BLIST_NONE then \<forall>j. isfree (Suc k) a' b n j \<longleftrightarrow> isfree (Suc k) a0 b n j else \<exists>j. r = blk + j \<and> taken (Suc k) a0 a' b n j count"
      using alloc_scan_ok [where H = "hints (Suc k) a b n", OF Suc.IH assms(3,4) O(4-6) le0 Suc.prems(3) no] by blast
    have "node_alloc (Suc k) a b blk count = Ret (r, a')"
      using b False O(1) D(1) rdx_simps(5) [of k]
      by (cases "bmu_avail (a ! b) = rdx (Suc k)") (simp_all add: node_alloc_def blst_meta_alloc.simps rd_def)
    moreover have "outside (Suc k) a a' b" by (rule outside_trans [OF O(2) D(2)])
    moreover have "taken (Suc k) a0 a' b n j count \<longleftrightarrow> taken (Suc k) a a' b n j count" for j using fr by (simp add: taken_def)
    ultimately show ?thesis using D(3-6) fr hr
      by (intro exI [of _ r] exI [of _ a']) (cases "r = BLIST_NONE"; simp add: alloc_post_def)
  qed
qed

end
