(* ===== verification/Blist_Free.thy ===== *)
theory Blist_Free
  imports Blist_Alloc
begin

text \<open>Freeing and filling ranges.\<close>

definition inrange :: "nat \<Rightarrow> nat \<Rightarrow> nat \<Rightarrow> bool" where
  "inrange F count i \<longleftrightarrow> F \<le> i \<and> i < F + count"

text \<open>The part of a range that falls to the child where it starts, as the loops compute it.\<close>

definition part :: "nat \<Rightarrow> nat \<Rightarrow> nat \<Rightarrow> nat \<Rightarrow> nat" where
  "part k c F count = min (Suc c * rdx k - F) count"

lemma part_facts:
  assumes F: "c * rdx k \<le> F" "F < Suc c * rdx k" and count: "0 < count" and n: "F + count \<le> n"
  shows "0 < part k c F count" "part k c F count \<le> count" "F - c * rdx k + part k c F count \<le> cb k n c" "c < nch k n"
    "inrange F (part k c F count) i \<longleftrightarrow> i div rdx k = c \<and> inrange (F - c * rdx k) (part k c F count) (i mod rdx k)"
    "inrange F count i \<longleftrightarrow> inrange F (part k c F count) i \<or> inrange (F + part k c F count) (count - part k c F count) i"
    "part k c F count = count \<and> F + count \<le> Suc c * rdx k \<or> part k c F count < count \<and> F + part k c F count = Suc c * rdx k"
proof -
  let ?v = "part k c F count"
  show v: "0 < ?v" "?v \<le> count" using F count by (auto simp: part_def)
  have e: "F + ?v \<le> Suc c * rdx k" using F by (auto simp: part_def)
  show "c < nch k n" using F n count by (simp add: less_nch_iff)
  show "F - c * rdx k + ?v \<le> cb k n c" 
    using F e n v unfolding cb_def min.bounded_iff mult_Suc by (intro conjI) linarith+
  have "F - c * rdx k + ?v \<le> rdx k" using F e by simp
  from range_child [OF this, of c i] show "inrange F ?v i \<longleftrightarrow> i div rdx k = c \<and> inrange (F - c * rdx k) ?v (i mod rdx k)"
    using F by (simp add: inrange_def)
  show "inrange F count i \<longleftrightarrow> inrange F ?v i \<or> inrange (F + ?v) (count - ?v) i" using v by (auto simp: inrange_def)
  show "?v = count \<and> F + count \<le> Suc c * rdx k \<or> ?v < count \<and> F + ?v = Suc c * rdx k" using F by (auto simp: part_def)
qed

lemma part_code:
  assumes F: "c * rdx k \<le> F" "F < Suc c * rdx k" and b: "blk + Suc c * rdx k < 2 ^ 32"
  shows "(let v = sub32 (add32 (blk + c * rdx k) (rdx k)) (blk + F) in if v > count then count else v) = part k c F count"
proof -
  have a: "add32 (blk + c * rdx k) (rdx k) = blk + Suc c * rdx k" using b by (subst arith32) (simp_all add: algebra_simps)
  have "sub32 (blk + Suc c * rdx k) (blk + F) = blk + Suc c * rdx k - (blk + F)" using F b by (intro arith32) simp_all
  then show ?thesis unfolding a by (auto simp: part_def min_def)
qed

lemma sz_less_rdx: "sz k + 1 \<le> rdx k"
  by (induction k) (simp_all add: sz_simps rdx_simps)

text \<open>The child where a range starts.\<close>

lemma first_child:
  assumes "0 < count" and "F + count \<le> n" and "n \<le> rdx (Suc k)" and "blk + rdx (Suc k) \<le> 2 ^ 31"
  shows "sub32 (blk + F) blk div rdx k = F div rdx k" "add32 blk (mul32 (F div rdx k) (rdx k)) = blk + F div rdx k * rdx k"
    "add32 (mul32 (F div rdx k) (sz k)) 1 = 1 + F div rdx k * sz k"
proof -
  have F: "F < rdx (Suc k)" using assms by simp
  have le: "F div rdx k * rdx k \<le> F" by simp
  have "F div rdx k * sz k \<le> F div rdx k * rdx k" using sz_less_rdx [of k] by simp
  then have ls: "F div rdx k * sz k \<le> F" using le by (rule le_trans)
  have m: "mul32 (F div rdx k) (rdx k) = F div rdx k * rdx k" "mul32 (F div rdx k) (sz k) = F div rdx k * sz k"
    by (rule arith32(3), rule le_less_trans [OF le], use F assms(4) in simp)
      (rule arith32(3), rule le_less_trans [OF ls], use F assms(4) in simp)
  have "blk + F div rdx k * rdx k < 2 ^ 32" by (rule le_less_trans [of _ "blk + F"]) (use F assms(4) le in simp_all)
  then show "sub32 (blk + F) blk div rdx k = F div rdx k" "add32 blk (mul32 (F div rdx k) (rdx k)) = blk + F div rdx k * rdx k"
    "add32 (mul32 (F div rdx k) (sz k)) 1 = 1 + F div rdx k * sz k"
    using F assms(4) ls by (simp_all add: arith32 m)
qed

section \<open>Freeing\<close>

definition node_free :: "nat \<Rightarrow> blmeta list \<Rightarrow> nat \<Rightarrow> nat \<Rightarrow> nat \<Rightarrow> nat \<Rightarrow> blmeta list bl" where
  "node_free k a b f count blk = (if k = 0 then blst_leaf_free a b f count else blst_meta_free a b f count (rdx k) (skp k) blk)"

definition free_post :: "nat \<Rightarrow> blmeta list \<Rightarrow> nat \<Rightarrow> nat \<Rightarrow> nat \<Rightarrow> nat \<Rightarrow> blmeta list \<Rightarrow> bool" where
  "free_post k a b n F count a' \<longleftrightarrow> outside k a a' b \<and> shape k a' b n \<and> counts k a' b n \<and>
     (\<forall>i. isfree k a' b n i \<longleftrightarrow> isfree k a b n i \<or> inrange F count i)"

lemma leaf_free_ok:
  assumes s: "shape 0 a b n" and c: "counts 0 a b n" and count: "0 < count" "F + count \<le> n" and blk: "blk mod 32 = 0"
    and no: "\<forall>i. inrange F count i \<longrightarrow> \<not> isfree 0 a b n i"
  shows "\<exists>a'. blst_leaf_free a b (blk + F) count = Ret a' \<and> free_post 0 a b n F count a'"
proof -
  let ?m = "a ! b"
  have b: "b < length a" "n \<le> 32" using s by (simp_all add: rdx_simps)
  have F: "(blk + F) mod 32 = F" using blk count b(2) by (simp add: mod_add_eq [symmetric, of blk])
  obtain msk where msk: "leaf_mask F count = Ret msk" "\<And>i. bit msk i \<longleftrightarrow> F \<le> i \<and> i < F + count"
    using leaf_mask_bits [of F count] count b(2) by auto
  have z: "bmu ?m AND msk = 0" using no msk(2) by (intro bit_word_eqI) (auto simp: bit_simps inrange_def)
  let ?a = "a[b := ?m\<lparr>bmu := bmu ?m OR msk, bm_bighint := 32\<rparr>]"
  have a: "?a ! b = ?m\<lparr>bmu := bmu ?m OR msk, bm_bighint := 32\<rparr>" using b by simp
  have "blst_leaf_free a b (blk + F) count = Ret ?a" using F msk(1) z b by (simp add: blst_leaf_free_def rd_def)
  moreover have "free_post 0 a b n F count ?a"
    using s c a msk(2) count(2) outside_upd [of 0 a b] by (auto simp: free_post_def inrange_def bit_simps BL_END_def)
  ultimately show ?thesis by blast
qed

lemma free_nfree:
  assumes "counts k a b n" and "n \<le> rdx k" and "\<forall>i. inrange F count i \<longrightarrow> \<not> isfree k a b n i" and "F + count \<le> n"
  shows "nfree k a b + count \<le> n" "nfree k a b + count = n \<longrightarrow> (\<forall>i. isfree k a b n i \<or> inrange F count i \<longleftrightarrow> i < n)"
proof -
  let ?S = "{i. isfree k a b n i}" and ?R = "{F..<F + count}"
  note C = counts_card [OF assms(2,1)]
  have fin: "finite ?S" using C by (intro finite_subset [of ?S "{..<n}"]) (blast, simp)
  have dis: "?S \<inter> ?R = {}" using assms(3) by (auto simp: inrange_def)
  have card: "card (?S \<union> ?R) = nfree k a b + count" using card_Un_disjoint [OF fin _ dis] C by simp
  have sub: "?S \<union> ?R \<subseteq> {..<n}" using C assms(4) by auto
  show "nfree k a b + count \<le> n" using card_mono [OF _ sub] card by simp
  show "nfree k a b + count = n \<longrightarrow> (\<forall>i. isfree k a b n i \<or> inrange F count i \<longleftrightarrow> i < n)"
  proof
    assume "nfree k a b + count = n"
    then have "card (?S \<union> ?R) = card {..<n}" using card by simp
    from card_subset_eq [OF finite_lessThan sub this] have "i \<in> ?S \<union> ?R \<longleftrightarrow> i \<in> {..<n}" for i by (rule arg_cong)
    then show "\<forall>i. isfree k a b n i \<or> inrange F count i \<longleftrightarrow> i < n" by (simp add: inrange_def)
  qed
qed

lemma free_post_nfree:
  assumes "free_post k a b n F count a'" and "counts k a b n" and "n \<le> rdx k" and "\<forall>i. inrange F count i \<longrightarrow> \<not> isfree k a b n i"
  shows "nfree k a' b = nfree k a b + count"
proof -
  let ?S = "{i. isfree k a b n i}" and ?R = "{F..<F + count}"
  note C = counts_card [OF assms(3,2)]
  have fin: "finite ?S" using C by (intro finite_subset [of ?S "{..<n}"]) (blast, simp)
  have dis: "?S \<inter> ?R = {}" using assms(4) by (auto simp: inrange_def)
  have "\<forall>i. isfree k a' b n i \<longleftrightarrow> isfree k a b n i \<or> inrange F count i" using assms(1) unfolding free_post_def by blast
  then have "i \<in> {i. isfree k a' b n i} \<longleftrightarrow> i \<in> ?S \<union> ?R" for i by (simp add: inrange_def)
  then have "{i. isfree k a' b n i} = ?S \<union> ?R" by (rule set_eqI)
  then have "card {i. isfree k a' b n i} = nfree k a b + count" using card_Un_disjoint [OF fin _ dis] C by simp
  moreover have "counts k a' b n" using assms(1) unfolding free_post_def by blast
  ultimately show ?thesis using counts_card [OF assms(3), of a' b] by simp
qed

lemma free_scan_ok:
  assumes IH: "\<And>a b n F count blk. shape k a b n \<Longrightarrow> counts k a b n \<Longrightarrow> 0 < count \<Longrightarrow> F + count \<le> n \<Longrightarrow> blk mod 32 = 0 \<Longrightarrow>
      blk + rdx k \<le> 2 ^ 31 \<Longrightarrow> \<forall>i. inrange F count i \<longrightarrow> \<not> isfree k a b n i \<Longrightarrow>
      \<exists>a'. node_free k a b (blk + F) count blk = Ret a' \<and> free_post k a b n F count a'"
    and blk: "blk mod 32 = 0" "blk + rdx (Suc k) \<le> 2 ^ 31"
    and s: "shape (Suc k) a b n" and kd: "kids k a b n" and v: "bmu_avail (a ! b) = ksum k a b n + count"
    and no: "\<forall>i. inrange F count i \<longrightarrow> \<not> kfree k a b n i"
    and pos: "count = 0 \<and> F \<le> c * rdx k \<or> 0 < count \<and> c * rdx k \<le> F \<and> F < Suc c * rdx k" and n: "F + count \<le> n"
  shows "\<exists>a'. meta_free_scan a b (blk + F) count (rdx k) (skp (Suc k)) (blk + c * rdx k) (1 + c * sz k) = Ret a' \<and>
    outside (Suc k) a a' b \<and> shape (Suc k) a' b n \<and> kids k a' b n \<and> bmu_avail (a' ! b) = ksum k a' b n \<and>
    (\<forall>i. kfree k a' b n i \<longleftrightarrow> kfree k a b n i \<or> inrange F count i)"
  using s kd v no pos n
proof (induction "16 - c" arbitrary: a c F count rule: less_induct)
  case less
  have nr: "n \<le> rdx (Suc k)" and b: "b < length a" "bm_bighint (a ! b) \<noteq> BL_END" using less.prems(1) by simp_all
  have bn: "blk + n < 2 ^ 32" using blk(2) nr by simp
  then have en: "add32 (blk + F) count = blk + F + count" using less.prems(6) by (intro arith32) simp
  show ?case
  proof (cases "count = 0")
    case True
    then have "meta_free_scan a b (blk + F) count (rdx k) (skp (Suc k)) (blk + c * rdx k) (1 + c * sz k) = Ret a"
      using less.prems(5) en by (subst meta_free_scan.simps) (simp add: Let_def)
    then show ?thesis using True less.prems outside_refl by (auto simp: inrange_def)
  next
    case False
    then have count: "0 < count" and F: "c * rdx k \<le> F" "F < Suc c * rdx k" using less.prems(5) by auto
    note P = part_facts [OF F count less.prems(6)]
    let ?v = "part k c F count" and ?b = "child k b c" and ?n = "cb k n c"
    have C: "?b < length a" "bm_bighint (a ! ?b) \<noteq> BL_END" "c < 16" by (rule shape_child [OF less.prems(1) P(4)])+
    have "Suc c * rdx k \<le> 16 * rdx k" using C(3) by (intro mult_right_mono) simp_all
    then have bk: "blk + Suc c * rdx k \<le> 2 ^ 31" using blk(2) unfolding rdx_simps(2) by linarith
    have sc: "shape k a ?b ?n" "counts k a ?b ?n" using less.prems(1,2) P(4) by (simp_all add: kids_def)
    have no1: "\<forall>i. inrange (F - c * rdx k) ?v i \<longrightarrow> \<not> isfree k a ?b ?n i"
    proof (intro allI impI)
      fix i assume that: "inrange (F - c * rdx k) ?v i"
      have i: "i < rdx k" using that P(3) cb_pos [OF P(4)] by (auto simp: inrange_def)
      then have d: "(c * rdx k + i) div rdx k = c" "(c * rdx k + i) mod rdx k = i" by simp_all
      then have "\<not> kfree k a b n (c * rdx k + i)" using less.prems(4) P(5,6) [of "c * rdx k + i"] that by simp
      then show "\<not> isfree k a ?b ?n i" using d P(4) by (simp add: kfree_def)
    qed
    have m32: "(blk + c * rdx k) mod 32 = 0"
    proof -
      have "c * rdx k = 32 * (c * 16 ^ k)" by (simp add: rdx_def)
      then show ?thesis using blk(1) by (metis mod_mult_self2)
    qed
    have bk1: "blk + c * rdx k + rdx k \<le> 2 ^ 31" using bk by simp
    obtain a1 where a1: "node_free k a ?b (blk + c * rdx k + (F - c * rdx k)) ?v (blk + c * rdx k) = Ret a1" "free_post k a ?b ?n (F - c * rdx k) ?v a1"
      using IH [OF sc P(1,3) m32 bk1 no1] by blast
    have fe: "blk + c * rdx k + (F - c * rdx k) = blk + F" using F by simp
    have Q: "outside k a a1 ?b" "shape k a1 ?b ?n" "counts k a1 ?b ?n"
      "\<And>i. isfree k a1 ?b ?n i \<longleftrightarrow> isfree k a ?b ?n i \<or> inrange (F - c * rdx k) ?v i" using a1(2) by (auto simp: free_post_def)
    note CC = child_change [OF Q(1) nr P(4)]
    have l1: "length a1 = length a" "a1 ! b = a ! b" using Q(1) outside_root [OF Q(1)] by (auto simp: outside_def)
    have s1: "shape (Suc k) a1 b n" and k1: "kids k a1 b n" using CC(1,2) less.prems(1,2) Q by auto
    define m where "m = (if bm_bighint (a ! b) < bm_bighint (a1 ! ?b) then (a ! b)\<lparr>bm_bighint := bm_bighint (a1 ! ?b)\<rparr> else a ! b)"
    have h1: "bm_bighint (a1 ! ?b) \<noteq> BL_END" "?b < length a1" by (rule shape_child [OF s1 P(4)])+
    have m: "bmu_avail m = bmu_avail (a ! b)" "bm_bighint m \<noteq> BL_END" using h1 b by (auto simp: m_def)
    let ?a = "a1[b := m]"
    have ab: "?a ! b = m" using b l1 by simp
    note RC = root_change [OF nr, of b a1 m]
    have s2: "shape (Suc k) ?a b n" "kids k ?a b n" using RC(1,2) s1 k1 m b l1 by auto
    have "ksum k ?a b n + (count - ?v) = bmu_avail (?a ! b)"
      using RC(3) CC(3) free_post_nfree [OF a1(2) sc(2) _ no1] cb_pos [OF P(4)] less.prems(3) ab m(1) b l1 P(2) by simp
    then have v2: "bmu_avail (?a ! b) = ksum k ?a b n + (count - ?v)" by simp
    have kf: "kfree k ?a b n i \<longleftrightarrow> kfree k a b n i \<or> inrange F ?v i" for i
      using RC(4) CC(4) Q(4) P(4,5) b l1 by (auto simp: kfree_def)
    have no2: "\<forall>i. inrange (F + ?v) (count - ?v) i \<longrightarrow> \<not> kfree k ?a b n i"
      using kf less.prems(4) P(6) by (auto simp: inrange_def)
    have pos2: "count - ?v = 0 \<and> F + ?v \<le> Suc c * rdx k \<or> 0 < count - ?v \<and> Suc c * rdx k \<le> F + ?v \<and> F + ?v < Suc (Suc c) * rdx k"
      using P(7) rdx_simps(3) [of k] by auto
    have n2: "F + ?v + (count - ?v) \<le> n" using P(2) less.prems(6) by simp
    have dec: "16 - Suc c < 16 - c" using C(3) by simp
    obtain a' where A: "meta_free_scan ?a b (blk + (F + ?v)) (count - ?v) (rdx k) (skp (Suc k)) (blk + Suc c * rdx k) (1 + Suc c * sz k) = Ret a'"
      "outside (Suc k) ?a a' b" "shape (Suc k) a' b n" "kids k a' b n" "bmu_avail (a' ! b) = ksum k a' b n"
      "\<forall>i. kfree k a' b n i \<longleftrightarrow> kfree k ?a b n i \<or> inrange (F + ?v) (count - ?v) i"
      using less.hyps [OF dec s2 v2 no2 pos2 n2] by blast
    have sub: "add32 (blk + F) ?v = blk + (F + ?v)" "sub32 count ?v = count - ?v" "add32 (blk + c * rdx k) (rdx k) = blk + Suc c * rdx k"
      using bn less.prems(6) P(2) bk by (simp_all add: arith32)
    have call: "(if sz k = 1 then blst_leaf_free a ?b (blk + F) ?v else blst_meta_free a ?b (blk + F) ?v (rdx k) (sz k - 1) (blk + c * rdx k)) = Ret a1"
      using a1(1) fe sz_one_iff [of k] by (cases "k = 0") (simp_all add: node_free_def sz_def)
    have idx: "1 + c * sz k + sz k = 1 + Suc c * sz k" by simp
    have "meta_free_scan a b (blk + F) count (rdx k) (skp (Suc k)) (blk + c * rdx k) (1 + c * sz k) =
        meta_free_scan ?a b (blk + (F + ?v)) (count - ?v) (rdx k) (skp (Suc k)) (blk + Suc c * rdx k) (1 + Suc c * sz k)"
    proof -
      have cond: "1 + c * sz k \<le> skp (Suc k) \<and> blk + c * rdx k < add32 (blk + F) count" using en F count C(3) child_index [of c k] by simp
      have pc: "(let v = sub32 (add32 (blk + c * rdx k) (rdx k)) (blk + F) in if v > count then count else v) = ?v"
        using bk by (intro part_code [OF F]) simp
      have w: "wr a1 b (\<lambda>m. if bm_bighint m < bm_bighint (a1 ! ?b) then m\<lparr>bm_bighint := bm_bighint (a1 ! ?b)\<rparr> else m) = Ret ?a"
        using b l1 by (simp add: wr_def m_def)
      have r: "rd a b = Ret (a ! b)" "rd a1 ?b = Ret (a1 ! ?b)" using b h1 by (simp_all add: rd_def)
      show ?thesis
        using cond pc b(2) r w sub call sz_simps(3) [of k] unfolding child_def
        by (subst meta_free_scan.simps) (simp only: meta_radix sz_simps(4) Let_def if_True simp_thms bl_bind.simps idx if_False; simp)
    qed
    then have "meta_free_scan a b (blk + F) count (rdx k) (skp (Suc k)) (blk + c * rdx k) (1 + c * sz k) = Ret a'" using A(1) by (rule trans)
    moreover have "outside (Suc k) a a' b"
      using outside_trans [OF outside_trans [OF outside_up [OF Q(1) C(3)] outside_upd] A(2)] .
    moreover have "kfree k a' b n i \<longleftrightarrow> kfree k a b n i \<or> inrange F count i" for i using A(6) kf P(6) by blast
    ultimately show ?thesis using A(3-5) by blast
  qed
qed

theorem node_free_ok:
  assumes "shape k a b n" and "counts k a b n" and "0 < count" and "F + count \<le> n" and "blk mod 32 = 0" and "blk + rdx k \<le> 2 ^ 31"
    and "\<forall>i. inrange F count i \<longrightarrow> \<not> isfree k a b n i"
  shows "\<exists>a'. node_free k a b (blk + F) count blk = Ret a' \<and> free_post k a b n F count a'"
  using assms
proof (induction k arbitrary: a b n F count blk)
  case 0
  then show ?case using leaf_free_ok [OF 0(1-5,7)] by (simp add: node_free_def)
next
  case (Suc k)
  have n: "n \<le> rdx (Suc k)" and b: "b < length a" "bm_bighint (a ! b) \<noteq> BL_END" using Suc.prems(1) by simp_all
  have big: "rdx (Suc k) < 2 ^ 32" "count < BL_END" using Suc.prems(4,6) n by (simp_all add: BL_END_def)
  have nf: "nfree (Suc k) a b = bmu_avail (a ! b)" by (simp add: nfree_def)
  have le: "bmu_avail (a ! b) + count \<le> n" "bmu_avail (a ! b) + count = n \<longrightarrow> (\<forall>i. isfree (Suc k) a b n i \<or> inrange F count i \<longleftrightarrow> i < n)"
    using free_nfree [OF Suc.prems(2) n Suc.prems(7,4)] nf by auto
  define m where "m = (if bmu_avail (a ! b) = 0 then (set_avail count (a ! b))\<lparr>bm_bighint := count\<rparr> else set_avail (add32 (bmu_avail (a ! b)) count) (a ! b))"
  have sum: "add32 (bmu_avail (a ! b)) count = bmu_avail (a ! b) + count" "bmu_avail (a ! b) + count < 2 ^ 32" "count < 2 ^ 32"
    using le(1) n big by (auto intro: arith32)
  have m: "bmu_avail m = bmu_avail (a ! b) + count" "bm_bighint m \<noteq> BL_END" using sum b big(2) by (auto simp: m_def avail_set)
  let ?a = "a[b := m]"
  have am: "?a ! b = m" "b < length ?a" using b by auto
  note RC = root_change [OF n b(1), of m]
  have s1: "shape (Suc k) ?a b n" by (rule RC(1) [OF Suc.prems(1) m(2)])
  show ?case
  proof (cases "bmu_avail (a ! b) + count = rdx (Suc k)")
    case True
    then have full: "n = rdx (Suc k)" using le(1) n by simp
    have "node_free (Suc k) a b (blk + F) count blk = Ret ?a"
    proof (cases "bmu_avail (a ! b) = 0")
      case z: True
      then show ?thesis using True b am m by (simp add: node_free_def blst_meta_free.simps rd_def m_def Let_def)
    next
      case nz: False
      then show ?thesis using True b am m by (simp add: node_free_def blst_meta_free.simps rd_def m_def Let_def)
    qed
    moreover have "free_post (Suc k) a b n F count ?a"
      using outside_upd s1 am m(1) True full le(2) rdx_simps(4) [of "Suc k"] by (simp add: free_post_def)
    ultimately show ?thesis by blast
  next
    case False
    have lt: "bmu_avail (a ! b) + count < rdx (Suc k)" using False le(1) n by simp
    have "\<exists>a0. (if bmu_avail (a ! b) = 0 then if count \<noteq> rdx (Suc k) then expand_alloc ?a b (skp (Suc k)) 1 else Ret ?a else Ret ?a) = Ret a0 \<and>
        outside (Suc k) a a0 b \<and> a0 ! b = m \<and> shape (Suc k) a0 b n \<and> kids k a0 b n \<and> bmu_avail (a0 ! b) = ksum k a0 b n + count \<and>
        (\<forall>i. kfree k a0 b n i \<longleftrightarrow> isfree (Suc k) a b n i)"
    proof (cases "bmu_avail (a ! b) = 0")
      case True
      then have "count \<noteq> rdx (Suc k)" using False by simp
      then show ?thesis using expand_alloc_ok [OF s1] True am m(1) outside_trans [OF outside_upd] by auto
    next
      case nz: False
      have "bmu_avail (a ! b) \<noteq> rdx (Suc k)" using lt by simp
      note O = node_open [OF Suc.prems(2) nz this]
      show ?thesis using nz O RC(2,3,4) s1 am m(1) outside_upd by auto
    qed
    then obtain a0 where A0: "(if bmu_avail (a ! b) = 0 then if count \<noteq> rdx (Suc k) then expand_alloc ?a b (skp (Suc k)) 1 else Ret ?a else Ret ?a) = Ret a0"
      "outside (Suc k) a a0 b" "a0 ! b = m" "shape (Suc k) a0 b n" "kids k a0 b n" "bmu_avail (a0 ! b) = ksum k a0 b n + count"
      "\<forall>i. kfree k a0 b n i \<longleftrightarrow> isfree (Suc k) a b n i" by blast
    let ?c = "F div rdx k"
    have pos: "count = 0 \<and> F \<le> ?c * rdx k \<or> 0 < count \<and> ?c * rdx k \<le> F \<and> F < Suc ?c * rdx k"
      using Suc.prems(3) rdx_simps(3) [of k] dividend_less_div_times [of "rdx k" F] by (simp add: add.commute)
    have no: "\<forall>i. inrange F count i \<longrightarrow> \<not> kfree k a0 b n i" using A0(7) Suc.prems(7) by simp
    obtain a' where A: "meta_free_scan a0 b (blk + F) count (rdx k) (skp (Suc k)) (blk + ?c * rdx k) (1 + ?c * sz k) = Ret a'"
      "outside (Suc k) a0 a' b" "shape (Suc k) a' b n" "kids k a' b n" "bmu_avail (a' ! b) = ksum k a' b n"
      "\<forall>i. kfree k a' b n i \<longleftrightarrow> kfree k a0 b n i \<or> inrange F count i"
      using free_scan_ok [OF Suc.IH Suc.prems(5,6) A0(4,5,6) no pos Suc.prems(4)] by blast
    note NC = node_close [OF n A(4,5)]
    have post: "free_post (Suc k) a b n F count a'"
      using outside_trans [OF A0(2) A(2)] A(3,6) NC A0(7) by (simp add: free_post_def del: shape.simps counts.simps isfree.simps)
    note ar = first_child [OF Suc.prems(3,4) n Suc.prems(6)]
    have b0: "b < length a0" "rd a0 b = Ret m" using A0(2,3) b(1) by (auto simp: outside_def rd_def)
    have e: "(if bmu_avail (a ! b) = 0 then let a = a[b := (set_avail count (a ! b))\<lparr>bm_bighint := count\<rparr>] in
        if count \<noteq> rdx (Suc k) then expand_alloc a b (skp (Suc k)) 1 else Ret a
        else Ret (a[b := set_avail (add32 (bmu_avail (a ! b)) count) (a ! b)])) = Ret a0"
      using A0(1) by (cases "bmu_avail (a ! b) = 0"; cases "count = rdx (Suc k)") (simp_all add: m_def Let_def)
    have "blst_meta_free a b (blk + F) count (rdx (Suc k)) (skp (Suc k)) blk = Ret a'"
      unfolding blst_meta_free.simps
      using b(1) lt b0 m(1) ar A(1) e rdx_simps(4) [of k] by (simp add: rd_def [of a b] Let_def [of "rdx _ div _"] rdx_simps(5) sz_simps(4) del: skp.simps) 
    then have "node_free (Suc k) a b (blk + F) count blk = Ret a'" by (simp add: node_free_def)
    then show ?thesis using post by blast
  qed
qed

section \<open>Filling\<close>

definition node_fill :: "nat \<Rightarrow> blmeta list \<Rightarrow> nat \<Rightarrow> nat \<Rightarrow> nat \<Rightarrow> nat \<Rightarrow> (nat \<times> blmeta list) bl" where
  "node_fill k a b f count blk = (if k = 0 then blst_leaf_fill a b f count else blst_meta_fill a b f count (rdx k) (skp k) blk)"

definition fill_post :: "nat \<Rightarrow> blmeta list \<Rightarrow> nat \<Rightarrow> nat \<Rightarrow> nat \<Rightarrow> nat \<Rightarrow> nat \<Rightarrow> blmeta list \<Rightarrow> bool" where
  "fill_post k a b n F count r a' \<longleftrightarrow> outside k a a' b \<and> shape k a' b n \<and> counts k a' b n \<and> (hints k a b n \<longrightarrow> hints k a' b n) \<and>
     nfree k a' b + r = nfree k a b \<and> (\<forall>i. isfree k a' b n i \<longleftrightarrow> isfree k a b n i \<and> \<not> inrange F count i)"

lemma leaf_fill_ok:
  assumes s: "shape 0 a b n" and c: "counts 0 a b n" and count: "0 < count" "F + count \<le> n" and blk: "blk mod 32 = 0"
  shows "\<exists>r a'. blst_leaf_fill a b (blk + F) count = Ret (r, a') \<and> fill_post 0 a b n F count r a'"
proof -
  let ?m = "a ! b"
  have b: "b < length a" "n \<le> 32" using s by (simp_all add: rdx_simps)
  have F: "(blk + F) mod 32 = F" using blk count b(2) by (simp add: mod_add_eq [symmetric, of blk])
  obtain msk where msk: "leaf_mask F count = Ret msk" "\<And>i. bit msk i \<longleftrightarrow> F \<le> i \<and> i < F + count"
    using leaf_mask_bits [of F count] count b(2) by auto
  let ?a = "a[b := ?m\<lparr>bmu := bmu ?m AND NOT msk\<rparr>]" and ?r = "leaf_count (bmu ?m AND msk) 0"
  have a: "?a ! b = ?m\<lparr>bmu := bmu ?m AND NOT msk\<rparr>" using b by simp
  have bits: "bit (bmu ?m AND NOT msk) i \<longleftrightarrow> bit (bmu ?m) i \<and> \<not> inrange F count i" for i
    using msk(2) by (auto simp: bit_simps inrange_def dest: bit_lt_32)
  have "{i. bit (bmu ?m) i} = {i. bit (bmu ?m AND NOT msk) i} \<union> {i. bit (bmu ?m AND msk) i}"
    using bits msk(2) by (auto simp: bit_simps inrange_def)
  moreover have "{i. bit (bmu ?m AND NOT msk) i} \<inter> {i. bit (bmu ?m AND msk) i} = {}" by (auto simp: bit_simps)
  ultimately have "nfree 0 ?a b + ?r = nfree 0 a b" using a by (simp add: nfree_def leaf_count_card card_Un_disjoint)
  moreover have fr: "isfree 0 ?a b n i \<longleftrightarrow> isfree 0 a b n i \<and> \<not> inrange F count i" for i using a bits by simp
  moreover have "counts 0 ?a b n" using c a bits by simp
  moreover have "hints 0 ?a b n" if "hints 0 a b n" using that a hasrun_subset [of 0 ?a b n a] fr by simp
  ultimately have "fill_post 0 a b n F count ?r ?a" using s a outside_upd [of 0 a b] by (simp add: fill_post_def)
  moreover have "blst_leaf_fill a b (blk + F) count = Ret (?r, ?a)" using F msk(1) b by (simp add: blst_leaf_fill_def rd_def)
  ultimately show ?thesis by blast
qed

lemma fill_scan_ok:
  assumes IH: "\<And>a b n F count blk. shape k a b n \<Longrightarrow> counts k a b n \<Longrightarrow> 0 < count \<Longrightarrow> F + count \<le> n \<Longrightarrow> blk mod 32 = 0 \<Longrightarrow>
      blk + rdx k \<le> 2 ^ 31 \<Longrightarrow> \<exists>r a'. node_fill k a b (blk + F) count blk = Ret (r, a') \<and> fill_post k a b n F count r a'"
    and blk: "blk mod 32 = 0" "blk + rdx (Suc k) \<le> 2 ^ 31"
    and s: "shape (Suc k) a b n" and kd: "kids k a b n" and v: "bmu_avail (a ! b) = ksum k a b n + nblks"
    and pos: "count = 0 \<and> F \<le> c * rdx k \<or> 0 < count \<and> c * rdx k \<le> F \<and> F < Suc c * rdx k" and n: "F + count \<le> n" and kh: "H \<longrightarrow> khints k a b n"
  shows "\<exists>r a'. meta_fill_scan a b (blk + F) count (rdx k) (skp (Suc k)) (blk + c * rdx k) (1 + c * sz k) nblks = Ret (r, a') \<and>
    outside (Suc k) a a' b \<and> shape (Suc k) a' b n \<and> kids k a' b n \<and> bmu_avail (a' ! b) = ksum k a' b n \<and>
    bm_bighint (a' ! b) = bm_bighint (a ! b) \<and> (H \<longrightarrow> khints k a' b n) \<and>
    bmu_avail (a' ! b) + r = bmu_avail (a ! b) \<and> (\<forall>i. kfree k a' b n i \<longleftrightarrow> kfree k a b n i \<and> \<not> inrange F count i)"
  using s kd v pos n kh
proof (induction "16 - c" arbitrary: a c F count nblks rule: less_induct)
  case less
  have nr: "n \<le> rdx (Suc k)" and b: "b < length a" "bm_bighint (a ! b) \<noteq> BL_END" using less.prems(1) by simp_all
  have bn: "blk + n < 2 ^ 32" using blk(2) nr by simp
  then have en: "add32 (blk + F) count = blk + F + count" using less.prems(5) by (intro arith32) simp
  show ?case
  proof (cases "count = 0")
    case True
    let ?m = "set_avail (ksum k a b n) (a ! b)" and ?a = "a[b := set_avail (ksum k a b n) (a ! b)]"
    have sb: "sub32 (bmu_avail (a ! b)) nblks = ksum k a b n" "ksum k a b n < 2 ^ 32"
      using less.prems(3) avail_less [of "a ! b"] by (simp_all add: arith32)
    have "meta_fill_scan a b (blk + F) count (rdx k) (skp (Suc k)) (blk + c * rdx k) (1 + c * sz k) nblks = Ret (nblks, ?a)"
      using less.prems(4) True en sb b by (subst meta_fill_scan.simps) (simp add: Let_def wr_def)
    moreover have ab: "?a ! b = ?m" "bmu_avail ?m = ksum k a b n" "bm_bighint ?m = bm_bighint (a ! b)" using b sb by (simp_all add: avail_set)
    note RC = root_change [OF nr b(1), of ?m]
    moreover have "khints k ?a b n" if "khints k a b n"
      using that hints_same [OF same_children [where m = ?m, where b = b]] cb_pos nch_le [OF nr] by (auto simp: khints_def)
    ultimately show ?thesis using True less.prems ab b(2) outside_upd [of "Suc k" a b ?m] RC(1) [OF less.prems(1)]
      by (intro exI [of _ nblks] exI [of _ ?a]) (simp add: inrange_def del: shape.simps)
  next
    case False
    then have count: "0 < count" and F: "c * rdx k \<le> F" "F < Suc c * rdx k" using less.prems(4) by auto
    note P = part_facts [OF F count less.prems(5)]
    let ?v = "part k c F count" and ?b = "child k b c" and ?n = "cb k n c"
    have C: "?b < length a" "bm_bighint (a ! ?b) \<noteq> BL_END" "c < 16" by (rule shape_child [OF less.prems(1) P(4)])+
    have "Suc c * rdx k \<le> 16 * rdx k" using C(3) by (intro mult_right_mono) simp_all
    then have bk: "blk + Suc c * rdx k \<le> 2 ^ 31" using blk(2) unfolding rdx_simps(2) by linarith
    have sc: "shape k a ?b ?n" "counts k a ?b ?n" using less.prems(1,2) P(4) by (simp_all add: kids_def)
    have m32: "(blk + c * rdx k) mod 32 = 0"
    proof -
      have "c * rdx k = 32 * (c * 16 ^ k)" by (simp add: rdx_def)
      then show ?thesis using blk(1) by (metis mod_mult_self2)
    qed
    have bk1: "blk + c * rdx k + rdx k \<le> 2 ^ 31" using bk by simp
    obtain r1 a1 where a1: "node_fill k a ?b (blk + c * rdx k + (F - c * rdx k)) ?v (blk + c * rdx k) = Ret (r1, a1)" "fill_post k a ?b ?n (F - c * rdx k) ?v r1 a1"
      using IH [OF sc P(1,3) m32 bk1] by blast
    have fe: "blk + c * rdx k + (F - c * rdx k) = blk + F" using F by simp
    have Q: "outside k a a1 ?b" "shape k a1 ?b ?n" "counts k a1 ?b ?n" "nfree k a1 ?b + r1 = nfree k a ?b"
      "\<And>i. isfree k a1 ?b ?n i \<longleftrightarrow> isfree k a ?b ?n i \<and> \<not> inrange (F - c * rdx k) ?v i" "hints k a ?b ?n \<longrightarrow> hints k a1 ?b ?n"
      using a1(2) by (auto simp: fill_post_def)
    note CC = child_change [OF Q(1) nr P(4)]
    have l1: "length a1 = length a" "a1 ! b = a ! b" using Q(1) outside_root [OF Q(1)] by (auto simp: outside_def)
    have s1: "shape (Suc k) a1 b n" and k1: "kids k a1 b n" using CC(1,2) less.prems(1,2) Q by auto
    have "bmu_avail (a1 ! b) = ksum k a1 b n + (nblks + r1)" using CC(3) Q(4) less.prems(3) l1 by simp
    moreover have "add32 nblks r1 = nblks + r1" using calculation avail_less [of "a1 ! b"] by (intro arith32) simp
    ultimately have v1: "bmu_avail (a1 ! b) = ksum k a1 b n + add32 nblks r1" by simp
    have kf: "kfree k a1 b n i \<longleftrightarrow> kfree k a b n i \<and> \<not> inrange F ?v i" for i using CC(4) Q(5) P(4,5) by (auto simp: kfree_def)
    have pos2: "count - ?v = 0 \<and> F + ?v \<le> Suc c * rdx k \<or> 0 < count - ?v \<and> Suc c * rdx k \<le> F + ?v \<and> F + ?v < Suc (Suc c) * rdx k"
      using P(7) rdx_simps(3) [of k] by auto
    have n2: "F + ?v + (count - ?v) \<le> n" using P(2) less.prems(5) by simp
    have dec: "16 - Suc c < 16 - c" using C(3) by simp
    have kh1: "khints k a1 b n" if K: "khints k a b n"
      unfolding khints_def
    proof (intro allI impI)
      fix c' assume c': "c' < nch k n"
      then show "hints k a1 (child k b c') (cb k n c')"
        using Q(6) K hints_same [OF outside_sibling [OF Q(1)]] cb_pos [OF c'] by (cases "c' = c") (auto simp: khints_def)
    qed
    then have kh2: "H \<longrightarrow> khints k a1 b n" using less.prems(6) by simp
    obtain r a' where A: "meta_fill_scan a1 b (blk + (F + ?v)) (count - ?v) (rdx k) (skp (Suc k)) (blk + Suc c * rdx k) (1 + Suc c * sz k) (add32 nblks r1) = Ret (r, a')"
      "outside (Suc k) a1 a' b" "shape (Suc k) a' b n" "kids k a' b n" "bmu_avail (a' ! b) = ksum k a' b n" "bm_bighint (a' ! b) = bm_bighint (a1 ! b)"
      "H \<longrightarrow> khints k a' b n" "bmu_avail (a' ! b) + r = bmu_avail (a1 ! b)"
      "\<forall>i. kfree k a' b n i \<longleftrightarrow> kfree k a1 b n i \<and> \<not> inrange (F + ?v) (count - ?v) i"
      using less.hyps [OF dec s1 k1 v1 pos2 n2 kh2] by blast
    have sub: "add32 (blk + F) ?v = blk + (F + ?v)" "sub32 count ?v = count - ?v" "add32 (blk + c * rdx k) (rdx k) = blk + Suc c * rdx k"
      using bn less.prems(5) P(2) bk by (simp_all add: arith32)
    have call: "(if sz k = 1 then blst_leaf_fill a ?b (blk + F) ?v else blst_meta_fill a ?b (blk + F) ?v (rdx k) (sz k - 1) (blk + c * rdx k)) = Ret (r1, a1)"
      using a1(1) fe sz_one_iff [of k] by (cases "k = 0") (simp_all add: node_fill_def sz_def)
    have idx: "1 + c * sz k + sz k = 1 + Suc c * sz k" by simp
    have "meta_fill_scan a b (blk + F) count (rdx k) (skp (Suc k)) (blk + c * rdx k) (1 + c * sz k) nblks =
        meta_fill_scan a1 b (blk + (F + ?v)) (count - ?v) (rdx k) (skp (Suc k)) (blk + Suc c * rdx k) (1 + Suc c * sz k) (add32 nblks r1)"
    proof -
      have cond: "1 + c * sz k \<le> skp (Suc k) \<and> blk + c * rdx k < add32 (blk + F) count" using en F count C(3) child_index [of c k] by simp
      have pc: "(let v = sub32 (add32 (blk + c * rdx k) (rdx k)) (blk + F) in if v > count then count else v) = ?v"
        using bk by (intro part_code [OF F]) simp
      have r: "rd a b = Ret (a ! b)" using b by (simp add: rd_def)
      show ?thesis
        using cond pc b(2) r sub call sz_simps(3) [of k] unfolding child_def
        by (subst meta_fill_scan.simps) (simp only: meta_radix sz_simps(4) Let_def if_True simp_thms bl_bind.simps idx if_False; simp)
    qed
    then have "meta_fill_scan a b (blk + F) count (rdx k) (skp (Suc k)) (blk + c * rdx k) (1 + c * sz k) nblks = Ret (r, a')" using A(1) by (rule trans)
    moreover have "outside (Suc k) a a' b" using outside_trans [OF outside_up [OF Q(1) C(3)] A(2)] .
    moreover have "kfree k a' b n i \<longleftrightarrow> kfree k a b n i \<and> \<not> inrange F count i" for i using A(9) kf P(6) by blast
    ultimately show ?thesis using A(3-8) l1(2) by (intro exI [of _ r] exI [of _ a']) simp
  qed
qed

theorem node_fill_ok:
  assumes "shape k a b n" and "counts k a b n" and "0 < count" and "F + count \<le> n" and "blk mod 32 = 0" and "blk + rdx k \<le> 2 ^ 31"
  shows "\<exists>r a'. node_fill k a b (blk + F) count blk = Ret (r, a') \<and> fill_post k a b n F count r a'"
  using assms
proof (induction k arbitrary: a b n F count blk)
  case 0
  then show ?case using leaf_fill_ok [OF 0(1-5)] by (simp add: node_fill_def)
next
  case (Suc k)
  have n: "n \<le> rdx (Suc k)" and b: "b < length a" using Suc.prems(1) by simp_all
  have big: "rdx (Suc k) < 2 ^ 32" "count < BL_END" using Suc.prems(4,6) n by (simp_all add: BL_END_def)
  show ?case
  proof (cases "count = rdx (Suc k) \<or> bmu_avail (a ! b) = 0")
    case True
    let ?m = "(set_avail 0 (a ! b))\<lparr>bm_bighint := count\<rparr>" and ?a = "a[b := (set_avail 0 (a ! b))\<lparr>bm_bighint := count\<rparr>]"
    have am: "?a ! b = ?m" "bmu_avail ?m = 0" using b by (simp_all add: avail_set)
    have nf: "\<not> isfree (Suc k) ?a b n i" for i using am by simp
    have "\<not> hasrun (Suc k) ?a b n c" if "0 < c" for c using nf that unfolding hasrun_def by blast
    then have h: "hints (Suc k) ?a b n" using am by simp
    have old: "isfree (Suc k) a b n i \<longrightarrow> inrange F count i" for i
      using True counts_card [OF n Suc.prems(2)] Suc.prems(4) n by (auto simp: inrange_def)
    have "shape (Suc k) ?a b n" using root_change(1) [OF n b Suc.prems(1), of ?m] big(2) by simp
    then have "fill_post (Suc k) a b n F count (bmu_avail (a ! b)) ?a"
      using outside_upd am nf h old by (simp add: fill_post_def nfree_def del: shape.simps isfree.simps hints.simps)
    moreover have "node_fill (Suc k) a b (blk + F) count blk = Ret (bmu_avail (a ! b), ?a)"
      using True b by (simp add: node_fill_def blst_meta_fill.simps rd_def)
    ultimately show ?thesis by blast
  next
    case False
    then have nz: "bmu_avail (a ! b) \<noteq> 0" and lt: "count < rdx (Suc k)" using Suc.prems(4) n by auto
    obtain a0 where O: "(if bmu_avail (a ! b) = rdx (Suc k) then expand_free a b (rdx k) (skp (Suc k)) 1 else Ret a) = Ret a0"
      "outside (Suc k) a a0 b" "a0 ! b = a ! b" "shape (Suc k) a0 b n" "kids k a0 b n" "bmu_avail (a0 ! b) = ksum k a0 b n"
      "\<forall>j. kfree k a0 b n j \<longleftrightarrow> isfree (Suc k) a b n j" "hints (Suc k) a b n \<longrightarrow> khints k a0 b n"
      using open_node [OF Suc.prems(1,2) nz big(1)] by blast
    let ?c = "F div rdx k"
    have pos: "count = 0 \<and> F \<le> ?c * rdx k \<or> 0 < count \<and> ?c * rdx k \<le> F \<and> F < Suc ?c * rdx k"
      using Suc.prems(3) rdx_simps(3) [of k] dividend_less_div_times [of "rdx k" F] by (simp add: add.commute)
    have v0: "bmu_avail (a0 ! b) = ksum k a0 b n + 0" using O(6) by simp
    obtain r a' where A: "meta_fill_scan a0 b (blk + F) count (rdx k) (skp (Suc k)) (blk + ?c * rdx k) (1 + ?c * sz k) 0 = Ret (r, a')"
      "outside (Suc k) a0 a' b" "shape (Suc k) a' b n" "kids k a' b n" "bmu_avail (a' ! b) = ksum k a' b n" "bm_bighint (a' ! b) = bm_bighint (a0 ! b)"
      "hints (Suc k) a b n \<longrightarrow> khints k a' b n" "bmu_avail (a' ! b) + r = bmu_avail (a0 ! b)"
      "\<forall>i. kfree k a' b n i \<longleftrightarrow> kfree k a0 b n i \<and> \<not> inrange F count i"
      using fill_scan_ok [OF Suc.IH Suc.prems(5,6) O(4,5) v0 pos Suc.prems(4) O(8)] by blast
    note NC = node_close [OF n A(4,5)]
    have fr: "isfree (Suc k) a' b n i \<longleftrightarrow> isfree (Suc k) a b n i \<and> \<not> inrange F count i" for i using NC(2) A(9) O(7) by simp
    have "hints (Suc k) a' b n" if h: "hints (Suc k) a b n"
    proof -
      have "roothint (Suc k) a' b n"
        using hints_rootD [OF h] hasrun_subset [of "Suc k" a' b n a] fr A(6) O(3) by (simp add: roothint_def del: isfree.simps)
      then show ?thesis using A(7) h by (simp add: roothint_def khints_def)
    qed
    then have post: "fill_post (Suc k) a b n F count r a'"
      using outside_trans [OF O(2) A(2)] A(3,8) O(3) NC(1) fr by (simp add: fill_post_def nfree_def del: shape.simps counts.simps isfree.simps hints.simps)
    note ar = first_child [OF Suc.prems(3,4) n Suc.prems(6)]
    have "blst_meta_fill a b (blk + F) count (rdx (Suc k)) (skp (Suc k)) blk = Ret (r, a')"
      unfolding blst_meta_fill.simps
      using b lt nz O(1) ar A(1) rdx_simps(4) [of k]
      by (cases "bmu_avail (a ! b) = rdx (Suc k)") (simp_all add: rd_def Let_def rdx_simps(5) sz_simps(4))
    then have "node_fill (Suc k) a b (blk + F) count blk = Ret (r, a')" by (simp add: node_fill_def)
    then show ?thesis using post by blast
  qed
qed

end
