(* ===== verification/Blist_Correct.thy ===== *)
theory Blist_Correct
  imports Blist_Free
begin

text \<open>Creation, the interface, and resizing.\<close>

section \<open>Initialisation\<close>

text \<open>The last index, relative to the node, that a tree over \<open>n\<close> blocks uses.\<close>

fun msz :: "nat \<Rightarrow> nat \<Rightarrow> nat" where
  "msz 0 n = 0"
| "msz (Suc k) n = 1 + nch k n * sz k"

lemma msz_le: "n \<le> rdx k \<Longrightarrow> msz k n \<le> sz k"
proof (cases k)
  case (Suc j)
  assume "n \<le> rdx k"
  then have "nch j n * sz j \<le> 16 * sz j" using nch_le Suc by (intro mult_right_mono) auto
  then show ?thesis using Suc by (simp add: sz_simps)
qed simp

definition init_pre :: "nat \<Rightarrow> nat option \<Rightarrow> nat \<Rightarrow> blmeta list \<Rightarrow> bool" where
  "init_pre k scan n a \<longleftrightarrow> (\<forall>b. scan = Some b \<longrightarrow> b + msz k n < length a)"

definition init_post :: "nat \<Rightarrow> nat option \<Rightarrow> nat \<Rightarrow> blmeta list \<Rightarrow> blmeta list \<Rightarrow> bool" where
  "init_post k scan n a a' \<longleftrightarrow> (scan = None \<longrightarrow> a' = a) \<and>
     (\<forall>b. scan = Some b \<longrightarrow> outside k a a' b \<and> shape k a' b n \<and> bmu (a' ! b) = 0 \<and> bm_bighint (a' ! b) = 0)"

text \<open>The children from \<open>c\<close> on are initialised, the ones before and the node stay as they are.\<close>

definition scan_post :: "nat \<Rightarrow> nat option \<Rightarrow> nat \<Rightarrow> nat \<Rightarrow> blmeta list \<Rightarrow> blmeta list \<Rightarrow> bool" where
  "scan_post k scan n c a a' \<longleftrightarrow> (scan = None \<longrightarrow> a' = a) \<and>
     (\<forall>b. scan = Some b \<longrightarrow> outside (Suc k) a a' b \<and> a' ! b = a ! b \<and> (\<forall>c' < c. same k a a' (child k b c')) \<and>
       (\<forall>c'. c \<le> c' \<and> c' < nch k n \<longrightarrow> shape k a' (child k b c') (cb k n c')) \<and>
       (nch k n < 16 \<longrightarrow> child k b (nch k n) < length a' \<and> bm_bighint (a' ! child k b (nch k n)) = BL_END))"

lemma init_scan_end:
  assumes n: "n \<le> rdx (Suc k)" and mi: "mi \<le> 1 + nch k n * sz k" and pre: "init_pre (Suc k) scan n a"
  shows "\<exists>a'. radix_init_scan a scan (rdx k) (skp (Suc k)) 0 (1 + nch k n * sz k) mi = Ret (msz (Suc k) n, a') \<and> scan_post k scan n (nch k n) a a'"
proof -
  let ?i = "1 + nch k n * sz k"
  have m: "(if mi < ?i then ?i else mi) = ?i" using mi by simp
  show ?thesis
  proof (cases "nch k n < 16")
    case False
    then have "nch k n = 16" using nch_le [OF n] by simp
    then have "radix_init_scan a scan (rdx k) (skp (Suc k)) 0 ?i mi = Ret (?i, a)"
      using child_index [of "nch k n" k] m by (subst radix_init_scan.simps) (simp add: Let_def)
    then show ?thesis using False by (auto simp: scan_post_def outside_refl same_def)
  next
    case True
    then have i: "?i \<le> skp (Suc k)" by (simp only: child_index)
    have unf: "radix_init_scan a scan (rdx k) (skp (Suc k)) 0 ?i mi =
        bl_bind (wr_opt a (map_option (\<lambda>s. s + ?i) scan) (\<lambda>m. m\<lparr>bm_bighint := BL_END\<rparr>)) (\<lambda>a. Ret (?i, a))"
      using i m rdx_simps(3) [of k] sz_simps(3) [of k] by (subst radix_init_scan.simps) (simp add: Let_def sz_simps(4))
    show ?thesis
    proof (cases scan)
      case None
      then show ?thesis using unf by (simp add: wr_opt_def scan_post_def)
    next
      case (Some b)
      let ?e = "child k b (nch k n)"
      have e: "?e < length a" "b + ?i = ?e" using pre Some by (simp_all add: init_pre_def child_def)
      let ?a = "a[?e := (a ! ?e)\<lparr>bm_bighint := BL_END\<rparr>]"
      have o: "outside k a ?a ?e" using outside_upd [of k a ?e] .
      then have "outside (Suc k) a ?a b" "?a ! b = a ! b" using outside_up [OF _ True] outside_root by blast+
      moreover have "\<forall>c' < nch k n. same k a ?a (child k b c')" using outside_sibling [OF o] by auto
      ultimately have "scan_post k scan n (nch k n) a ?a" using Some e by (auto simp: scan_post_def)
      then show ?thesis using unf Some e by (simp add: wr_opt_def wr_def)
    qed
  qed
qed

lemma init_scan_ok:
  assumes IH: "\<And>scan n a. 0 < n \<Longrightarrow> n \<le> rdx k \<Longrightarrow> init_pre k scan n a \<Longrightarrow>
      \<exists>a'. blst_radix_init a scan (rdx k) (skp k) n = Ret (msz k n, a') \<and> init_post k scan n a a'"
    and n: "n \<le> rdx (Suc k)" and c: "c \<le> nch k n" and mi: "mi \<le> 1 + c * sz k" and pre: "init_pre (Suc k) scan n a"
  shows "\<exists>a'. radix_init_scan a scan (rdx k) (skp (Suc k)) (n - c * rdx k) (1 + c * sz k) mi = Ret (msz (Suc k) n, a') \<and> scan_post k scan n c a a'"
  using c mi pre
proof (induction "nch k n - c" arbitrary: c mi a)
  case 0
  then have c: "c = nch k n" by simp
  then have z: "n - c * rdx k = 0" using less_nch_iff [of c k n] by simp
  show ?case using init_scan_end [OF n, of mi scan a] 0 c z by simp
next
  case (Suc x)
  then have c: "c < nch k n" by simp
  have c16: "c < 16" using c nch_le [OF n] by simp
  let ?n = "cb k n c" and ?i = "1 + c * sz k" and ?sub = "map_option (\<lambda>s. s + (1 + c * sz k)) scan"
  have cn: "0 < ?n" "?n \<le> rdx k" using cb_pos [OF c] by auto
  have sub: "?sub = map_option (\<lambda>b. child k b c) scan" by (simp add: child_def)
  have "init_pre k ?sub ?n a"
    unfolding init_pre_def sub
  proof (intro allI impI)
    fix d assume "map_option (\<lambda>b. child k b c) scan = Some d"
    then obtain b where b: "scan = Some b" "d = child k b c" by auto
    have "child k b c + msz k ?n \<le> child k b (nch k n)" using msz_le [OF cn(2)] child_apart [OF c, of k b] by simp
    moreover have "child k b (nch k n) < length a" using Suc.prems(3) b(1) by (simp add: init_pre_def child_def)
    ultimately show "d + msz k ?n < length a" using b(2) by simp
  qed
  from IH [OF cn this] obtain a1 where a1: "blst_radix_init a ?sub (rdx k) (skp k) ?n = Ret (msz k ?n, a1)" "init_post k ?sub ?n a a1" by blast
  have pre1: "init_pre (Suc k) scan n a1" using Suc.prems(3) a1(2) unfolding sub by (auto simp: init_pre_def init_post_def outside_def)
  have mi1: "?i + msz k ?n \<le> 1 + Suc c * sz k" using msz_le [OF cn(2)] by simp
  obtain a' where A: "radix_init_scan a1 scan (rdx k) (skp (Suc k)) (n - Suc c * rdx k) (1 + Suc c * sz k) (?i + msz k ?n) = Ret (msz (Suc k) n, a')"
    "scan_post k scan n (Suc c) a1 a'"
  proof -
    have "x = nch k n - Suc c" "Suc c \<le> nch k n" using Suc.hyps(2) c by simp_all
    from Suc.hyps(1) [OF this mi1 pre1] that show ?thesis by blast
  qed
  have cnt: "c * rdx k < n" using c by (simp add: less_nch_iff)
  have idx: "1 + c * sz k + sz k = 1 + Suc c * sz k" by simp
  have "radix_init_scan a scan (rdx k) (skp (Suc k)) (n - c * rdx k) ?i mi =
      bl_bind (blst_radix_init a ?sub (rdx k) (skp k) ?n) (\<lambda>(j, a). radix_init_scan a scan (rdx k) (skp (Suc k)) (n - Suc c * rdx k) (1 + Suc c * sz k) (?i + j))"
  proof (cases "rdx k \<le> n - c * rdx k")
    case True
    then have "?n = rdx k" "n - c * rdx k - rdx k = n - Suc c * rdx k" by (simp_all add: cb_def)
    then show ?thesis using True c16 child_index [of c k] sz_simps(3) [of k]
      by (subst radix_init_scan.simps) (simp only: Let_def meta_radix sz_simps(4,5) idx, simp)
  next
    case False
    then have "?n = n - c * rdx k" "n - Suc c * rdx k = 0" "0 < n - c * rdx k" using cnt by (simp_all add: cb_def)
    then show ?thesis using False c16 child_index [of c k] sz_simps(3) [of k]
      by (subst radix_init_scan.simps) (simp only: Let_def meta_radix sz_simps(4,5) idx, simp)
  qed
  then have eq: "radix_init_scan a scan (rdx k) (skp (Suc k)) (n - c * rdx k) ?i mi = Ret (msz (Suc k) n, a')" using a1(1) A(1) by simp
  have "scan_post k scan n c a a'"
    unfolding scan_post_def
  proof (intro conjI allI impI)
    show "a' = a" if "scan = None" using A(2) a1(2) that by (simp add: scan_post_def init_post_def)
    fix b assume b: "scan = Some b"
    have Q: "outside k a a1 (child k b c)" "shape k a1 (child k b c) ?n" using a1(2) b unfolding sub by (auto simp: init_post_def)
    have R: "outside (Suc k) a1 a' b" "a' ! b = a1 ! b" "\<And>c'. c' < Suc c \<Longrightarrow> same k a1 a' (child k b c')"
      "\<And>c'. Suc c \<le> c' \<Longrightarrow> c' < nch k n \<Longrightarrow> shape k a' (child k b c') (cb k n c')"
      "nch k n < 16 \<Longrightarrow> child k b (nch k n) < length a' \<and> bm_bighint (a' ! child k b (nch k n)) = BL_END" using A(2) b by (auto simp: scan_post_def)
    show "outside (Suc k) a a' b" using outside_trans [OF outside_up [OF Q(1) c16] R(1)] .
    show "a' ! b = a ! b" using R(2) outside_root [OF Q(1)] by simp
    show "same k a a' (child k b c')" if "c' < c" for c'
      using outside_sibling [OF Q(1), of c'] R(3) [of c'] that by (auto simp: same_def)
    show "shape k a' (child k b c') (cb k n c')" if "c \<le> c' \<and> c' < nch k n" for c'
      using R(4) [of c'] shape_same [OF R(3) [of c] Q(2)] that by (cases "c' = c") auto
    show "child k b (nch k n) < length a'" "bm_bighint (a' ! child k b (nch k n)) = BL_END" if "nch k n < 16" using R(5) [OF that] by auto
  qed
  then show ?case using eq by blast
qed

lemma init_ok:
  assumes "0 < n" and "n \<le> rdx k" and "init_pre k scan n a"
  shows "\<exists>a'. blst_radix_init a scan (rdx k) (skp k) n = Ret (msz k n, a') \<and> init_post k scan n a a'"
  using assms
proof (induction k arbitrary: scan n a)
  case 0
  show ?case
  proof (cases scan)
    case None
    then show ?thesis by (simp add: blst_radix_init.simps wr_opt_def rdx_simps init_post_def)
  next
    case (Some b)
    then have "b < length a" using 0 by (simp add: init_pre_def)
    then show ?thesis using 0 Some outside_upd [of 0 a b] by (simp add: blst_radix_init.simps wr_opt_def wr_def rdx_simps init_post_def BL_END_def)
  qed
next
  case (Suc k)
  define a0 where "a0 = (case scan of None \<Rightarrow> a | Some b \<Rightarrow> a[b := (a ! b)\<lparr>bmu := 0, bm_bighint := 0\<rparr>])"
  have w: "wr_opt a scan (\<lambda>m. m\<lparr>bmu := 0, bm_bighint := 0\<rparr>) = Ret a0"
    using Suc.prems(3) by (auto simp: a0_def wr_opt_def wr_def init_pre_def split: option.splits)
  have pre: "init_pre (Suc k) scan n a0" using Suc.prems(3) by (auto simp: init_pre_def a0_def)
  obtain a' where A: "radix_init_scan a0 scan (rdx k) (skp (Suc k)) (n - 0 * rdx k) (1 + 0 * sz k) 0 = Ret (msz (Suc k) n, a')" "scan_post k scan n 0 a0 a'"
    using init_scan_ok [OF Suc.IH Suc.prems(2) le0 le0 pre] by blast
  have "rdx (Suc k) \<noteq> 32" using rdx_simps(3,6) [of k] by (simp add: rdx_simps(2))
  then have "blst_radix_init a scan (rdx (Suc k)) (skp (Suc k)) n = Ret (msz (Suc k) n, a')"
    using w A(1) by (simp add: blst_radix_init.simps rdx_simps(5))
  moreover have "init_post (Suc k) scan n a a'"
  proof (cases scan)
    case None
    then show ?thesis using A(2) by (simp add: init_post_def scan_post_def a0_def)
  next
    case (Some b)
    have b: "b < length a" using Suc.prems(3) Some by (simp add: init_pre_def)
    have S: "outside (Suc k) a0 a' b" "a' ! b = a0 ! b" "\<forall>c' < nch k n. shape k a' (child k b c') (cb k n c')"
      "nch k n < 16 \<longrightarrow> child k b (nch k n) < length a' \<and> bm_bighint (a' ! child k b (nch k n)) = BL_END" using A(2) Some by (auto simp: scan_post_def)
    have o: "outside (Suc k) a a0 b" using Some outside_upd [of "Suc k" a b] by (simp add: a0_def)
    have r: "a' ! b = (a ! b)\<lparr>bmu := 0, bm_bighint := 0\<rparr>" "b < length a'" using S(1,2) Some b by (auto simp: a0_def outside_def)
    show ?thesis using Some outside_trans [OF o S(1)] S(3,4) r Suc.prems(1,2) by (simp add: init_post_def BL_END_def)
  qed
  ultimately show ?case by blast
qed

section \<open>The radix\<close>

lemma rdx_inj: "rdx j = rdx k \<longleftrightarrow> j = k"
  by (simp add: rdx_def)

lemma rdx_6: "rdx 6 = 2 ^ 29"
  by (simp add: rdx_def)

lemma create_radix_ok:
  assumes "blocks \<le> 2 ^ 29" and "j \<le> 6"
  shows "\<exists>k. create_radix (rdx j) (skp j) blocks = Some (rdx k, skp k) \<and> j \<le> k \<and> k \<le> 6 \<and> blocks \<le> rdx k \<and> (j < k \<longrightarrow> rdx (k - 1) < blocks)"
  using assms(2)
proof (induction "6 - j" arbitrary: j)
  case 0
  then have j: "j = 6" by simp
  have "create_radix (rdx j) (skp j) blocks = Some (rdx j, skp j)" using assms(1) rdx_6 j by (subst create_radix.simps) simp
  then show ?case using j assms(1) rdx_6 by (intro exI [of _ j]) simp
next
  case (Suc x)
  show ?case
  proof (cases "rdx j < blocks")
    case False
    then have "create_radix (rdx j) (skp j) blocks = Some (rdx j, skp j)" by (subst create_radix.simps) simp
    then show ?thesis using False Suc.prems by (intro exI [of _ j]) simp
  next
    case True
    have j: "Suc j \<le> 6" using Suc.hyps(2) by simp
    have "rdx (Suc j) \<le> rdx 6" using j by (rule rdx_mono)
    then have r: "rdx (Suc j) \<le> 2 ^ 29" by (simp only: rdx_6)
    have m: "mul32 (rdx j) 16 = rdx (Suc j)" using r by (subst arith32) (simp_all add: rdx_simps(2))
    have sk: "sz j * 16 \<le> 2 ^ 29" using r sz_less_rdx [of j] unfolding rdx_simps(2) by simp
    have "add32 (skp j) 1 = sz j" using sk by (subst arith32) (simp_all add: sz_def)
    then have n: "mul32 (add32 (skp j) 1) 16 = skp (Suc j)" using sk by (simp add: arith32 sz_simps(6))
    have "create_radix (rdx j) (skp j) blocks = create_radix (rdx (Suc j)) (skp (Suc j)) blocks"
      using True m n by (subst create_radix.simps) simp
    moreover obtain k where k: "create_radix (rdx (Suc j)) (skp (Suc j)) blocks = Some (rdx k, skp k)" "Suc j \<le> k" "k \<le> 6" "blocks \<le> rdx k"
      "Suc j < k \<longrightarrow> rdx (k - 1) < blocks"
    proof -
      have "x = 6 - Suc j" using Suc.hyps(2) by simp
      from Suc.hyps(1) [OF this j] that show ?thesis by blast
    qed
    moreover have "rdx (k - 1) < blocks" using k(2,5) True by (cases "k = Suc j") auto
    ultimately show ?thesis by (intro exI [of _ k]) simp
  qed
qed

text \<open>From the radix 0, where the product has wrapped, the loop never ends.\<close>

lemma create_radix_zero: "0 < blocks \<Longrightarrow> create_radix 0 skip blocks = None"
proof -
  have "\<not> (r = 0 \<and> 0 < blocks)" if "create_radix r skip blocks = Some y" for r skip blocks y
    by (rule create_radix.raw_induct [where P = "\<lambda>r skip blocks y. \<not> (r = 0 \<and> 0 < blocks)", OF _ that])
      (fastforce simp: mul32_def split: if_splits)
  then show "0 < blocks \<Longrightarrow> create_radix 0 skip blocks = None" by (metis not_None_eq)
qed

lemma create_radix_step:
  "rdx j < blocks \<Longrightarrow> create_radix (rdx j) skip blocks = create_radix (mul32 (rdx j) 16) (mul32 (add32 skip 1) 16) blocks"
  by (subst create_radix.simps) simp

lemma create_radix_endless:
  assumes "2 ^ 29 < blocks"
  shows "create_radix BLIST_BMAP_RADIX 0 blocks = None"
proof -
  have lt: "rdx j < blocks" if "j \<le> 6" for j using rdx_mono [OF that] assms rdx_6 by simp
  have m: "mul32 (rdx j) 16 = (if j = 6 then 0 else rdx (Suc j))" if "j \<le> 6" for j
  proof (cases "j = 6")
    case True
    then show ?thesis by (simp add: mul32_def rdx_def)
  next
    case False
    then have "rdx (Suc j) \<le> rdx 6" using that by (intro rdx_mono) simp
    then have "rdx (Suc j) < 2 ^ 32" using rdx_6 by simp
    then show ?thesis using False by (subst arith32) (simp_all add: rdx_simps(2))
  qed
  have "create_radix (rdx j) skip blocks = None" if "j \<le> 6" for j skip
    using that
  proof (induction "6 - j" arbitrary: j skip)
    case 0
    then have "j = 6" by simp
    then show ?case using create_radix_step [OF lt [of j]] m [of j] create_radix_zero assms by simp
  next
    case (Suc x)
    then have "j \<noteq> 6" by simp
    then show ?case using create_radix_step [OF lt [of j]] m [of j] Suc.hyps(1) [of "Suc j"] Suc.hyps(2) Suc.prems by simp
  qed
  from this [of 0 0] show ?thesis by (simp add: rdx_simps(1))
qed

section \<open>The interface\<close>

fun level :: "nat \<Rightarrow> nat" where
  "level r = (if r \<le> 32 then 0 else Suc (level (r div 16)))"

declare level.simps [simp del]

lemma level_rdx [simp]: "level (rdx k) = k"
proof (induction k)
  case 0
  then show ?case by (simp add: level.simps rdx_simps)
next
  case (Suc k)
  have "\<not> rdx (Suc k) \<le> 32" using rdx_simps(6) [of k] by (simp add: rdx_simps(2))
  then show ?case using Suc by (subst level.simps) (simp add: rdx_simps(5))
qed

definition free_blocks :: "blist \<Rightarrow> nat set" where
  "free_blocks bl = {i. isfree (level (bl_radix bl)) (bl_root bl) 0 (bl_blocks bl) i}"

definition blist_ok :: "blist \<Rightarrow> bool" where
  "blist_ok bl \<longleftrightarrow> (let k = level (bl_radix bl) in bl_radix bl = rdx k \<and> bl_skip bl = skp k \<and> k \<le> 6 \<and>
     shape k (bl_root bl) 0 (bl_blocks bl) \<and> counts k (bl_root bl) 0 (bl_blocks bl) \<and> bl_free bl = card (free_blocks bl))"

definition hints_ok :: "blist \<Rightarrow> bool" where
  "hints_ok bl \<longleftrightarrow> hints (level (bl_radix bl)) (bl_root bl) 0 (bl_blocks bl)"

lemma blist_okE:
  assumes "blist_ok bl"
  obtains k where "bl_radix bl = rdx k" "bl_skip bl = skp k" "k \<le> 6" "shape k (bl_root bl) 0 (bl_blocks bl)" "counts k (bl_root bl) 0 (bl_blocks bl)"
    "bl_free bl = card (free_blocks bl)" "free_blocks bl = {i. isfree k (bl_root bl) 0 (bl_blocks bl) i}" "bl_blocks bl \<le> rdx k" "rdx k \<le> 2 ^ 29"
    "card (free_blocks bl) = nfree k (bl_root bl) 0" "free_blocks bl \<subseteq> {..<bl_blocks bl}" "0 < bl_blocks bl"
proof -
  let ?k = "level (bl_radix bl)"
  have r: "bl_radix bl = rdx ?k" "bl_skip bl = skp ?k" "?k \<le> 6" "shape ?k (bl_root bl) 0 (bl_blocks bl)" "counts ?k (bl_root bl) 0 (bl_blocks bl)"
    "bl_free bl = card (free_blocks bl)" using assms unfolding blist_ok_def Let_def by blast+
  have n: "bl_blocks bl \<le> rdx ?k" "0 < bl_blocks bl" using r(4) by (cases ?k; simp)+
  have "rdx ?k \<le> rdx 6" using r(3) by (rule rdx_mono)
  then have "rdx ?k \<le> 2 ^ 29" by (simp only: rdx_6)
  moreover have "card (free_blocks bl) = nfree ?k (bl_root bl) 0" "free_blocks bl \<subseteq> {..<bl_blocks bl}"
    using counts_card [OF n(1) r(5)] by (auto simp: free_blocks_def)
  ultimately show ?thesis using that [of ?k] r n by (simp add: free_blocks_def)
qed

lemma blist_okI:
  "bl_radix bl = rdx k \<Longrightarrow> bl_skip bl = skp k \<Longrightarrow> k \<le> 6 \<Longrightarrow> shape k (bl_root bl) 0 (bl_blocks bl) \<Longrightarrow> counts k (bl_root bl) 0 (bl_blocks bl) \<Longrightarrow>
    bl_free bl = nfree k (bl_root bl) 0 \<Longrightarrow> blist_ok bl"
proof -
  assume a: "bl_radix bl = rdx k" "bl_skip bl = skp k" "k \<le> 6" "shape k (bl_root bl) 0 (bl_blocks bl)" "counts k (bl_root bl) 0 (bl_blocks bl)"
    "bl_free bl = nfree k (bl_root bl) 0"
  have "bl_blocks bl \<le> rdx k" using a(4) by (cases k; simp)
  then show ?thesis using a counts_card [OF _ a(5)] by (simp add: blist_ok_def free_blocks_def)
qed

lemma blist_create_ok:
  assumes "0 < blocks" and "blocks \<le> 2 ^ 29"
  shows "\<exists>bl. blist_create mem blocks = Ret bl \<and> blist_ok bl \<and> hints_ok bl \<and> bl_blocks bl = blocks \<and> free_blocks bl = {}"
proof -
  obtain k where k: "create_radix 32 0 blocks = Some (rdx k, skp k)" "k \<le> 6" "blocks \<le> rdx k"
    using create_radix_ok [OF assms(2), of 0] by (auto simp: rdx_simps(1))
  have "rdx k \<le> rdx 6" using k(2) by (rule rdx_mono)
  then have "msz k blocks < 2 ^ 29" using msz_le [OF k(3)] sz_less_rdx [of k] by (simp add: rdx_6)
  then have r: "add32 1 (msz k blocks) = 1 + msz k blocks" by (intro arith32) simp
  let ?m = "map mem [0..<1 + msz k blocks]"
  obtain a where a: "blst_radix_init ?m (Some 0) (rdx k) (skp k) blocks = Ret (msz k blocks, a)" "init_post k (Some 0) blocks ?m a"
    using init_ok [OF assms(1) k(3), of "Some 0" ?m] by (auto simp: init_pre_def)
  obtain a0 where "blst_radix_init [] None (rdx k) (skp k) blocks = Ret (msz k blocks, a0)"
    using init_ok [OF assms(1) k(3), of None "[]"] by (auto simp: init_pre_def)
  then have c: "blist_create mem blocks = Ret \<lparr>bl_blocks = blocks, bl_radix = rdx k, bl_skip = skp k, bl_free = 0, bl_root = a, bl_rootblks = 1 + msz k blocks\<rparr>"
    (is "_ = Ret ?bl") using k(1) a(1) r by (simp add: blist_create_def)
  have z: "shape k a 0 blocks" "a ! 0 = alloc_node (a ! 0)" using a(2) by (auto simp: init_post_def alloc_node_def)
  note N = alloc_node_facts [OF z(2)]
  have "blist_ok ?bl" using z N k(2) by (intro blist_okI [of _ k]) simp_all
  moreover have "hints_ok ?bl" "free_blocks ?bl = {}" using N by (simp_all add: hints_ok_def free_blocks_def)
  ultimately show ?thesis using c by auto
qed

lemma blist_alloc_post:
  assumes "blist_ok bl" and "0 < count" and "count \<le> 32"
  shows "\<exists>r bl'. blist_alloc bl count = Ret (r, bl') \<and> blist_ok bl' \<and> bl_blocks bl' = bl_blocks bl \<and>
    (hints_ok bl \<longrightarrow> hints_ok bl' \<and> (r = BLIST_NONE \<longrightarrow> \<not> (\<exists>j. j mod 32 + count \<le> 32 \<and> {j..<j + count} \<subseteq> free_blocks bl))) \<and>
    (if r = BLIST_NONE then free_blocks bl' = free_blocks bl
     else r mod 32 + count \<le> 32 \<and> {r..<r + count} \<subseteq> free_blocks bl \<and> free_blocks bl' = free_blocks bl - {r..<r + count})"
proof -
  obtain k where K: "bl_radix bl = rdx k" "bl_skip bl = skp k" "k \<le> 6" "shape k (bl_root bl) 0 (bl_blocks bl)" "counts k (bl_root bl) 0 (bl_blocks bl)"
    "bl_free bl = card (free_blocks bl)" "free_blocks bl = {i. isfree k (bl_root bl) 0 (bl_blocks bl) i}" "bl_blocks bl \<le> rdx k" "rdx k \<le> 2 ^ 29"
    "card (free_blocks bl) = nfree k (bl_root bl) 0"
    using assms(1) by (rule blist_okE)
  have "0 + rdx k \<le> 2 ^ 31" using K(9) by simp
  from node_alloc_ok [OF K(4,5) assms(2,3) this]
  obtain r a where A: "node_alloc k (bl_root bl) 0 0 count = Ret (r, a)" "alloc_post k (bl_root bl) 0 (bl_blocks bl) 0 count r a" by blast
  let ?bl = "bl\<lparr>bl_root := a, bl_free := if r \<noteq> BLIST_NONE then sub32 (bl_free bl) count else bl_free bl\<rparr>"
  have k0: "rdx k = 32 \<longleftrightarrow> k = 0" using rdx_inj [of k 0] by (simp add: rdx_simps(1))
  have eq: "blist_alloc bl count = Ret (r, ?bl)" using A(1) K(1,2) k0 by (auto simp: blist_alloc_def node_alloc_def)
  have P: "shape k a 0 (bl_blocks bl)" "counts k a 0 (bl_blocks bl)" using A(2) by (auto simp: alloc_post_def)
  have F: "free_blocks ?bl = {i. isfree k a 0 (bl_blocks bl) i}" using K(1) by (simp add: free_blocks_def)
  have run: "hasrun k (bl_root bl) 0 (bl_blocks bl) count \<longleftrightarrow> (\<exists>j. j mod 32 + count \<le> 32 \<and> {j..<j + count} \<subseteq> free_blocks bl)"
    unfolding hasrun_def K(7) by (auto simp: subset_iff le_iff_add)
  have H: "hints_ok bl \<longrightarrow> hints_ok ?bl \<and> (r = BLIST_NONE \<longrightarrow> \<not> (\<exists>j. j mod 32 + count \<le> 32 \<and> {j..<j + count} \<subseteq> free_blocks bl))"
    using A(2) K(1) run by (simp add: alloc_post_def hints_ok_def)
  show ?thesis
  proof (cases "r = BLIST_NONE")
    case True
    then have "\<forall>i. isfree k a 0 (bl_blocks bl) i \<longleftrightarrow> isfree k (bl_root bl) 0 (bl_blocks bl) i" using A(2) by (simp add: alloc_post_def)
    then have "free_blocks ?bl = free_blocks bl" "nfree k a 0 = nfree k (bl_root bl) 0"
      using F K(7) counts_card [OF K(8,5)] counts_card [OF K(8) P(2)] by simp_all
    moreover have "blist_ok ?bl" using K P True calculation by (intro blist_okI [of _ k]) simp_all
    ultimately show ?thesis using eq H True by (intro exI [of _ r] exI [of _ ?bl]) simp
  next
    case False
    then obtain j where j: "r = j" "taken k (bl_root bl) a 0 (bl_blocks bl) j count" using A(2) by (auto simp: alloc_post_def)
    note T = taken_nfree(1) [OF j(2) K(8,5) P(2)]
    have "free_blocks ?bl = free_blocks bl - {r..<r + count}" unfolding F K(7) using j by (auto simp: taken_def)
    moreover have "{r..<r + count} \<subseteq> free_blocks bl" "r mod 32 + count \<le> 32" unfolding K(7) using j by (auto simp: taken_def le_iff_add)
    moreover have "sub32 (bl_free bl) count = nfree k a 0"
    proof -
      have "bl_free bl \<le> bl_blocks bl" using assms(1) by (elim blist_okE) (metis card_lessThan card_mono finite_lessThan)
      then have "bl_free bl < 2 ^ 32" using K(8,9) by simp
      then show ?thesis using T K(6,10) by (subst arith32) simp_all
    qed
    then have "blist_ok ?bl" using K P False by (intro blist_okI [of _ k]) simp_all
    ultimately show ?thesis using eq H False by (intro exI [of _ r] exI [of _ ?bl]) simp
  qed
qed

lemma blist_free_post:
  assumes "blist_ok bl" and "0 < count" and "blkno + count \<le> bl_blocks bl" and "{blkno..<blkno + count} \<inter> free_blocks bl = {}"
  shows "\<exists>bl'. blist_free bl blkno count = Ret bl' \<and> blist_ok bl' \<and> bl_blocks bl' = bl_blocks bl \<and> free_blocks bl' = free_blocks bl \<union> {blkno..<blkno + count}"
proof -
  obtain k where K: "bl_radix bl = rdx k" "bl_skip bl = skp k" "k \<le> 6" "shape k (bl_root bl) 0 (bl_blocks bl)" "counts k (bl_root bl) 0 (bl_blocks bl)"
    "bl_free bl = card (free_blocks bl)" "free_blocks bl = {i. isfree k (bl_root bl) 0 (bl_blocks bl) i}" "bl_blocks bl \<le> rdx k" "rdx k \<le> 2 ^ 29"
    "card (free_blocks bl) = nfree k (bl_root bl) 0"
    using assms(1) by (rule blist_okE)
  have k: "0 + rdx k \<le> 2 ^ 31" "0 mod 32 = (0 :: nat)" using K(9) by simp_all
  have no: "\<forall>i. inrange blkno count i \<longrightarrow> \<not> isfree k (bl_root bl) 0 (bl_blocks bl) i" using assms(4) K(7) by (auto simp: inrange_def)
  from node_free_ok [OF K(4,5) assms(2,3) k(2,1) no]
  obtain a where A: "node_free k (bl_root bl) 0 blkno count 0 = Ret a" "free_post k (bl_root bl) 0 (bl_blocks bl) blkno count a" by auto
  let ?bl = "bl\<lparr>bl_root := a, bl_free := add32 (bl_free bl) count\<rparr>"
  have k0: "rdx k = 32 \<longleftrightarrow> k = 0" using rdx_inj [of k 0] by (simp add: rdx_simps(1))
  have eq: "blist_free bl blkno count = Ret ?bl" using A(1) K(1,2) k0 by (auto simp: blist_free_def node_free_def)
  have P: "shape k a 0 (bl_blocks bl)" "counts k a 0 (bl_blocks bl)" "\<forall>i. isfree k a 0 (bl_blocks bl) i \<longleftrightarrow> isfree k (bl_root bl) 0 (bl_blocks bl) i \<or> inrange blkno count i"
    using A(2) unfolding free_post_def by blast+
  have F: "free_blocks ?bl = free_blocks bl \<union> {blkno..<blkno + count}"
    using K(1) P(3) by (intro set_eqI) (simp add: free_blocks_def inrange_def)
  have nf: "nfree k a 0 = nfree k (bl_root bl) 0 + count" by (rule free_post_nfree [OF A(2) K(5,8) no])
  moreover have "nfree k (bl_root bl) 0 + count \<le> bl_blocks bl" using free_nfree(1) [OF K(5,8) no assms(3)] .
  then have "add32 (bl_free bl) count = nfree k (bl_root bl) 0 + count" using K(6,8,9,10) by (subst arith32) simp_all
  ultimately have "blist_ok ?bl" using K P by (intro blist_okI [of _ k]) simp_all
  then show ?thesis using eq F by (intro exI [of _ ?bl]) simp
qed

lemma blist_fill_post:
  assumes "blist_ok bl" and "0 < count" and "blkno + count \<le> bl_blocks bl"
  shows "\<exists>bl'. blist_fill bl blkno count = Ret (card (free_blocks bl \<inter> {blkno..<blkno + count}), bl') \<and> blist_ok bl' \<and> bl_blocks bl' = bl_blocks bl \<and>
    (hints_ok bl \<longrightarrow> hints_ok bl') \<and> free_blocks bl' = free_blocks bl - {blkno..<blkno + count}"
proof -
  obtain k where K: "bl_radix bl = rdx k" "bl_skip bl = skp k" "k \<le> 6" "shape k (bl_root bl) 0 (bl_blocks bl)" "counts k (bl_root bl) 0 (bl_blocks bl)"
    "bl_free bl = card (free_blocks bl)" "free_blocks bl = {i. isfree k (bl_root bl) 0 (bl_blocks bl) i}" "bl_blocks bl \<le> rdx k" "rdx k \<le> 2 ^ 29"
    "card (free_blocks bl) = nfree k (bl_root bl) 0" "free_blocks bl \<subseteq> {..<bl_blocks bl}"
    using assms(1) by (rule blist_okE)
  have k: "0 + rdx k \<le> 2 ^ 31" "0 mod 32 = (0 :: nat)" using K(9) by simp_all
  from node_fill_ok [OF K(4,5) assms(2,3) k(2,1)]
  obtain r a where A: "node_fill k (bl_root bl) 0 blkno count 0 = Ret (r, a)" "fill_post k (bl_root bl) 0 (bl_blocks bl) blkno count r a" by auto
  let ?bl = "bl\<lparr>bl_root := a, bl_free := sub32 (bl_free bl) r\<rparr>"
  have k0: "rdx k = 32 \<longleftrightarrow> k = 0" using rdx_inj [of k 0] by (simp add: rdx_simps(1))
  have eq: "blist_fill bl blkno count = Ret (r, ?bl)" using A(1) K(1,2) k0 by (auto simp: blist_fill_def node_fill_def)
  have P: "shape k a 0 (bl_blocks bl)" "counts k a 0 (bl_blocks bl)" "nfree k a 0 + r = nfree k (bl_root bl) 0"
    "\<forall>i. isfree k a 0 (bl_blocks bl) i \<longleftrightarrow> isfree k (bl_root bl) 0 (bl_blocks bl) i \<and> \<not> inrange blkno count i"
    "hints k (bl_root bl) 0 (bl_blocks bl) \<longrightarrow> hints k a 0 (bl_blocks bl)"
    using A(2) unfolding fill_post_def by blast+
  have F: "free_blocks ?bl = free_blocks bl - {blkno..<blkno + count}"
    using K(1) P(4) by (intro set_eqI) (simp add: free_blocks_def inrange_def)
  have le: "card (free_blocks bl) \<le> bl_blocks bl" using K(11) by (metis card_lessThan card_mono finite_lessThan)
  then have "sub32 (bl_free bl) r = nfree k a 0" using K(6,8,9,10) P(3) by (subst arith32) simp_all
  then have ok: "blist_ok ?bl" using K P by (intro blist_okI [of _ k]) simp_all
  have fin: "finite (free_blocks bl)" using K(11) finite_subset by blast
  have "card (free_blocks ?bl) = nfree k a 0" using counts_card [OF K(8) P(2)] K(1) by (simp add: free_blocks_def)
  moreover have "card (free_blocks bl) = card (free_blocks bl - {blkno..<blkno + count}) + card (free_blocks bl \<inter> {blkno..<blkno + count})"
    using card_Int_Diff [OF fin, of "{blkno..<blkno + count}"] by linarith
  ultimately have "r = card (free_blocks bl \<inter> {blkno..<blkno + count})" using F P(3) K(10) by simp
  then show ?thesis using eq ok F P(5) K(1) by (intro exI [of _ ?bl]) (simp add: hints_ok_def)
qed

section \<open>Resizing\<close>

text \<open>\<open>dest'\<close> is \<open>dest\<close> with the blocks in \<open>S\<close> freed.\<close>

definition freed :: "blist \<Rightarrow> nat set \<Rightarrow> blist \<Rightarrow> bool" where
  "freed dest S dest' \<longleftrightarrow> blist_ok dest' \<and> bl_blocks dest' = bl_blocks dest \<and> free_blocks dest' = free_blocks dest \<union> S"

definition shifted :: "nat \<Rightarrow> nat \<Rightarrow> nat \<Rightarrow> (nat \<Rightarrow> bool) \<Rightarrow> nat set" where
  "shifted blk j count P = {b. blk + j \<le> b \<and> b < blk + count \<and> P (b - blk)}"

definition roomy :: "blist \<Rightarrow> nat \<Rightarrow> nat \<Rightarrow> nat \<Rightarrow> bool" where
  "roomy dest blk j count \<longleftrightarrow> blist_ok dest \<and> blk + count \<le> bl_blocks dest \<and> (\<forall>x \<in> free_blocks dest. x < blk + j \<or> blk + count \<le> x)"

lemma roomy_free:
  assumes "roomy dest blk 0 count" and "0 < count"
  shows "\<exists>dest'. blist_free dest blk count = Ret dest' \<and> freed dest {blk..<blk + count} dest'"
proof -
  have "{blk..<blk + count} \<inter> free_blocks dest = {}" using assms(1) by (fastforce simp: roomy_def)
  then show ?thesis using assms blist_free_post [of dest count blk] by (auto simp: roomy_def freed_def)
qed

lemma blocks_bound: "blist_ok bl \<Longrightarrow> bl_blocks bl \<le> 2 ^ 29"
  by (elim blist_okE) (rule le_trans)

lemma copy_bits_ok:
  assumes "roomy dest blk j count" and "count \<le> 32" and "j \<le> count"
  shows "\<exists>dest'. copy_bits v blk count j dest = Ret dest' \<and> freed dest (shifted blk j count (bit v)) dest'"
  using assms
proof (induction "count - j" arbitrary: j dest)
  case 0
  then have "copy_bits v blk count j dest = Ret dest" by (subst copy_bits.simps) simp
  then show ?case using 0 by (auto simp: freed_def shifted_def roomy_def)
next
  case (Suc x)
  then have j: "j < count" "j < 32" by auto
  have ok: "blist_ok dest" "blk + count \<le> bl_blocks dest" using Suc.prems(1) by (simp_all add: roomy_def)
  then have bj: "add32 blk j = blk + j" using j blocks_bound [OF ok(1)] by (intro arith32) simp
  obtain d where d: "(if bit v j then blist_free dest (add32 blk j) 1 else Ret dest) = Ret d" "freed dest (if bit v j then {blk + j} else {}) d"
  proof (cases "bit v j")
    case True
    have "{blk + j..<blk + j + 1} \<inter> free_blocks dest = {}" using Suc.prems(1) j by (fastforce simp: roomy_def)
    then obtain d where "blist_free dest (blk + j) 1 = Ret d" "blist_ok d" "bl_blocks d = bl_blocks dest" "free_blocks d = free_blocks dest \<union> {blk + j..<blk + j + 1}"
      using blist_free_post [OF ok(1), of 1 "blk + j"] ok(2) j by auto
    moreover have "{blk + j..<blk + j + 1} = {blk + j}" by auto
    ultimately show ?thesis using that [of d] True bj by (simp add: freed_def)
  next
    case False
    then show ?thesis using that [of dest] ok(1) by (simp add: freed_def)
  qed
  have "roomy d blk (Suc j) count" using d(2) Suc.prems(1) by (fastforce simp: roomy_def freed_def split: if_splits)
  obtain d' where d': "copy_bits v blk count (Suc j) d = Ret d'" "freed d (shifted blk (Suc j) count (bit v)) d'"
  proof -
    have "x = count - Suc j" "Suc j \<le> count" using Suc.hyps(2) j by simp_all
    from Suc.hyps(1) [OF this(1) \<open>roomy d blk (Suc j) count\<close> Suc.prems(2) this(2)] that show ?thesis by blast
  qed
  have "copy_bits v blk count j dest = Ret d'" using j d(1) d'(1) by (subst copy_bits.simps) simp
  moreover have "shifted blk j count (bit v) = (if bit v j then {blk + j} else {}) \<union> shifted blk (Suc j) count (bit v)"
  proof (intro set_eqI)
    fix b
    show "b \<in> shifted blk j count (bit v) \<longleftrightarrow> b \<in> (if bit v j then {blk + j} else {}) \<union> shifted blk (Suc j) count (bit v)"
      using j by (cases "b = blk + j") (auto simp: shifted_def)
  qed
  ultimately show ?case using d(2) d'(2) by (auto simp: freed_def)
qed

definition copy_post :: "nat \<Rightarrow> blmeta list \<Rightarrow> nat \<Rightarrow> nat \<Rightarrow> nat \<Rightarrow> blist \<Rightarrow> nat \<Rightarrow> blist bl \<Rightarrow> bool" where
  "copy_post k a b n blk dest count res \<longleftrightarrow> (\<exists>dest'. res = Ret dest' \<and> freed dest (shifted blk 0 count (isfree k a b n)) dest')"

lemma copy_scan_ok:
  assumes IH: "\<And>a b n blk dest count. shape k a b n \<Longrightarrow> counts k a b n \<Longrightarrow> 0 < count \<Longrightarrow> count \<le> n \<Longrightarrow> blk + rdx k \<le> 2 ^ 31 \<Longrightarrow>
      roomy dest blk 0 count \<Longrightarrow> copy_post k a b n blk dest count (blst_copy a b blk (rdx k) (skp k) dest count)"
    and s: "shape (Suc k) a b n" and kd: "kids k a b n" and count: "count \<le> n" and blk: "blk + rdx (Suc k) \<le> 2 ^ 31"
    and dest: "roomy dest blk (min (c * rdx k) count) count" and c: "c \<le> 16"
  shows "\<exists>dest'. copy_scan a b (blk + c * rdx k) (rdx k) (skp (Suc k)) dest (count - c * rdx k) (1 + c * sz k) = Ret dest' \<and>
    freed dest (shifted blk (min (c * rdx k) count) count (kfree k a b n)) dest'"
  using dest c
proof (induction "16 - c" arbitrary: c dest)
  case 0
  then have c: "c = 16" by simp
  have "n \<le> 16 * rdx k" using s by (simp add: rdx_simps(2))
  then have z: "count - c * rdx k = 0" "min (c * rdx k) count = count" using c count by simp_all
  have "copy_scan a b (blk + c * rdx k) (rdx k) (skp (Suc k)) dest 0 (1 + c * sz k) = Ret dest" by (subst copy_scan.simps) (simp add: Let_def)
  then show ?case unfolding z using 0 by (auto simp: freed_def shifted_def roomy_def)
next
  case (Suc x)
  then have c16: "c < 16" by simp
  have n: "n \<le> rdx (Suc k)" using s by simp
  show ?case
  proof (cases "count - c * rdx k = 0")
    case True
    then have "min (c * rdx k) count = count" by simp
    moreover have "copy_scan a b (blk + c * rdx k) (rdx k) (skp (Suc k)) dest 0 (1 + c * sz k) = Ret dest" by (subst copy_scan.simps) (simp add: Let_def)
    ultimately show ?thesis unfolding True using Suc.prems(1) by (auto simp: freed_def shifted_def roomy_def)
  next
    case False
    then have lt: "c * rdx k < count" by simp
    then have c: "c < nch k n" using count by (simp add: less_nch_iff)
    let ?b = "child k b c" and ?n = "cb k n c" and ?cc = "min (rdx k) (count - c * rdx k)"
    have C: "?b < length a" "bm_bighint (a ! ?b) \<noteq> BL_END" by (rule shape_child [OF s c])+
    have sc: "shape k a ?b ?n" "counts k a ?b ?n" using s kd c by (simp_all add: kids_def)
    have cc: "0 < ?cc" "?cc \<le> ?n" using False rdx_simps(3) [of k] count by (auto simp: cb_def)
    have "Suc c * rdx k \<le> 16 * rdx k" using c16 by (intro mult_right_mono) simp_all
    then have bk: "blk + Suc c * rdx k \<le> 2 ^ 31" using blk unfolding rdx_simps(2) by linarith
    then have bk1: "blk + c * rdx k + rdx k \<le> 2 ^ 31" by simp
    have e: "c * rdx k + ?cc = min (Suc c * rdx k) count" using lt unfolding min_def mult_Suc by auto
    have room: "roomy dest (blk + c * rdx k) 0 ?cc" 
      using Suc.prems(1) lt e by (auto simp: roomy_def)
    obtain d where d: "blst_copy a ?b (blk + c * rdx k) (rdx k) (skp k) dest ?cc = Ret d" "freed dest (shifted (blk + c * rdx k) 0 ?cc (isfree k a ?b ?n)) d"
      using IH [OF sc cc bk1 room] by (auto simp: copy_post_def)
    have part: "shifted blk (c * rdx k) count (kfree k a b n) =
        shifted (blk + c * rdx k) 0 ?cc (isfree k a ?b ?n) \<union> shifted blk (min (Suc c * rdx k) count) count (kfree k a b n)" (is "?A = ?B \<union> ?C")
    proof (intro set_eqI)
      fix i
      have "i \<in> ?A \<longleftrightarrow> i \<in> ?B" if i: "blk + c * rdx k \<le> i" "i < blk + min (Suc c * rdx k) count"
      proof -
        have j: "(i - blk) div rdx k = c" using i by (intro div_nat_eqI) (auto simp: mult.commute)
        then have "(i - blk) mod rdx k = i - blk - c * rdx k" using i by (metis minus_div_mult_eq_mod)
        moreover have "i < blk + count" "i < blk + c * rdx k + ?cc" using i(2) e by simp_all
        ultimately show ?thesis using i(1) j c by (simp add: shifted_def kfree_def)
      qed
      moreover have "i \<in> ?A \<longleftrightarrow> i \<in> ?C" if "blk + min (Suc c * rdx k) count \<le> i" using that lt by (auto simp: shifted_def)
      ultimately show "i \<in> ?A \<longleftrightarrow> i \<in> ?B \<union> ?C" using e by (auto simp: shifted_def)
    qed
    have room2: "roomy d blk (min (Suc c * rdx k) count) count"
    proof -
      have "shifted (blk + c * rdx k) 0 ?cc (isfree k a ?b ?n) \<subseteq> {..<blk + min (Suc c * rdx k) count}" using e by (auto simp: shifted_def)
      then show ?thesis using Suc.prems(1) d(2) lt unfolding roomy_def freed_def by fastforce
    qed
    obtain d' where d': "copy_scan a b (blk + Suc c * rdx k) (rdx k) (skp (Suc k)) d (count - Suc c * rdx k) (1 + Suc c * sz k) = Ret d'"
      "freed d (shifted blk (min (Suc c * rdx k) count) count (kfree k a b n)) d'"
    proof -
      have "x = 16 - Suc c" "Suc c \<le> 16" using Suc.hyps(2) c16 by simp_all
      from Suc.hyps(1) [OF this(1) room2 this(2)] that show ?thesis by blast
    qed
    have idx: "1 + c * sz k + sz k = 1 + Suc c * sz k" by simp
    have nxt: "add32 (blk + c * rdx k) (rdx k) = blk + Suc c * rdx k" using bk by (subst arith32) (simp_all add: algebra_simps)
    have "copy_scan a b (blk + c * rdx k) (rdx k) (skp (Suc k)) dest (count - c * rdx k) (1 + c * sz k) =
        bl_bind (blst_copy a ?b (blk + c * rdx k) (rdx k) (skp k) dest ?cc) (\<lambda>dest.
          copy_scan a b (blk + Suc c * rdx k) (rdx k) (skp (Suc k)) dest (count - Suc c * rdx k) (1 + Suc c * sz k))"
    proof (cases "rdx k \<le> count - c * rdx k")
      case True
      then have "?cc = rdx k" "count - c * rdx k - rdx k = count - Suc c * rdx k" by simp_all
      then show ?thesis using True False C c16 child_index [of c k] sz_simps(3) [of k]
        by (subst copy_scan.simps) (simp only: Let_def meta_radix sz_simps(4,5) idx nxt, simp add: rd_def child_def)
    next
      case f: False
      then have "?cc = count - c * rdx k" "count - Suc c * rdx k = 0" by simp_all
      then show ?thesis using f False C c16 child_index [of c k] sz_simps(3) [of k]
        by (subst copy_scan.simps) (simp only: Let_def meta_radix sz_simps(4,5) idx nxt, simp add: rd_def child_def)
    qed
    then have "copy_scan a b (blk + c * rdx k) (rdx k) (skp (Suc k)) dest (count - c * rdx k) (1 + c * sz k) = Ret d'" using d(1) d'(1) by simp
    moreover have "min (c * rdx k) count = c * rdx k" using lt by simp
    ultimately show ?thesis using d(2) d'(2) part by (auto simp: freed_def)
  qed
qed

lemma copy_ok:
  assumes "shape k a b n" and "counts k a b n" and "0 < count" and "count \<le> n" and "blk + rdx k \<le> 2 ^ 31" and "roomy dest blk 0 count"
  shows "copy_post k a b n blk dest count (blst_copy a b blk (rdx k) (skp k) dest count)"
  using assms
proof (induction k arbitrary: a b n blk dest count)
  case 0
  let ?v = "bmu (a ! b)"
  have b: "b < length a" "n \<le> 32" using 0(1) by (simp_all add: rdx_simps(1))
  have r: "blst_copy a b blk (rdx 0) (skp 0) dest count =
      (if ?v = - 1 then blist_free dest blk count else if ?v \<noteq> 0 then copy_bits ?v blk count 0 dest else Ret dest)"
    using b by (subst blst_copy.simps) (simp add: rd_def rdx_simps(1))
  have all: "shifted blk 0 count (isfree 0 a b n) = {blk..<blk + count}" if "?v = - 1"
    using that 0(4) b(2) by (auto simp: shifted_def bit_simps)
  have none: "shifted blk 0 count (isfree 0 a b n) = {}" if "?v = 0" using that by (simp add: shifted_def)
  have some: "shifted blk 0 count (isfree 0 a b n) = shifted blk 0 count (bit ?v)" by (simp add: shifted_def)
  consider "?v = - 1" | "?v = 0" "?v \<noteq> - 1" | "?v \<noteq> - 1" "?v \<noteq> 0" by blast
  then show ?case
  proof cases
    case 1
    then show ?thesis unfolding copy_post_def r using roomy_free [OF 0(6,3)] all by simp
  next
    case 2
    have "blist_ok dest" using 0(6) by (simp add: roomy_def)
    then show ?thesis unfolding copy_post_def r using 2 none by (simp add: freed_def)
  next
    case 3
    then show ?thesis unfolding copy_post_def r some using copy_bits_ok [OF 0(6), of ?v] 0(4) b(2) by simp
  qed
next
  case (Suc k)
  have n: "n \<le> rdx (Suc k)" and b: "b < length a" using Suc.prems(1) by simp_all
  have "rdx (Suc k) \<noteq> 32" using rdx_simps(3,6) [of k] by (simp add: rdx_simps(2))
  then have r: "blst_copy a b blk (rdx (Suc k)) (skp (Suc k)) dest count =
      (if bmu_avail (a ! b) = 0 then Ret dest else if bmu_avail (a ! b) = rdx (Suc k) then
         if count < rdx (Suc k) then blist_free dest blk count else blist_free dest blk (rdx (Suc k))
       else copy_scan a b blk (rdx k) (skp (Suc k)) dest count 1)"
    using b by (subst blst_copy.simps) (simp add: rd_def rdx_simps(5))
  have "blist_ok dest" using Suc.prems(6) by (simp add: roomy_def)
  consider "bmu_avail (a ! b) = 0" | "bmu_avail (a ! b) \<noteq> 0" "bmu_avail (a ! b) = rdx (Suc k)" | "bmu_avail (a ! b) \<noteq> 0" "bmu_avail (a ! b) \<noteq> rdx (Suc k)" by blast
  then show ?case
  proof cases
    case 1
    then have "shifted blk 0 count (isfree (Suc k) a b n) = {}" by (simp add: shifted_def)
    then show ?thesis unfolding copy_post_def r using 1 \<open>blist_ok dest\<close> by (simp add: freed_def)
  next
    case 2
    then have "shifted blk 0 count (isfree (Suc k) a b n) = {blk..<blk + count}" using Suc.prems(4) n by (auto simp: shifted_def)
    moreover have "(if count < rdx (Suc k) then blist_free dest blk count else blist_free dest blk (rdx (Suc k))) = blist_free dest blk count"
      using Suc.prems(4) n by (cases "count = rdx (Suc k)") auto
    ultimately show ?thesis unfolding copy_post_def r using 2 roomy_free [OF Suc.prems(6,3)] by simp
  next
    case 3
    note O = node_open [OF Suc.prems(2) 3]
    have "roomy dest blk (min (0 * rdx k) count) count" using Suc.prems(6) by simp
    from copy_scan_ok [OF Suc.IH Suc.prems(1) O(1) Suc.prems(4,5) this]
    obtain d where "copy_scan a b blk (rdx k) (skp (Suc k)) dest count 1 = Ret d" "freed dest (shifted blk 0 count (kfree k a b n)) d" by auto
    moreover have "shifted blk 0 count (kfree k a b n) = shifted blk 0 count (isfree (Suc k) a b n)" using O(3) by (simp add: shifted_def del: isfree.simps)
    ultimately show ?thesis unfolding copy_post_def r using 3 by simp
  qed
qed

lemma blist_resize_post:
  assumes "blist_ok bl" and "0 < count" and "count \<le> 2 ^ 29"
  shows "\<exists>bl'. blist_resize mem bl count freenew = Ret bl' \<and> blist_ok bl' \<and> bl_blocks bl' = count \<and>
    free_blocks bl' = {i \<in> free_blocks bl. i < count} \<union> (if freenew then {bl_blocks bl..<count} else {})"
proof -
  obtain k where K: "bl_radix bl = rdx k" "bl_skip bl = skp k" "shape k (bl_root bl) 0 (bl_blocks bl)" "counts k (bl_root bl) 0 (bl_blocks bl)"
    "free_blocks bl = {i. isfree k (bl_root bl) 0 (bl_blocks bl) i}" "rdx k \<le> 2 ^ 29" "free_blocks bl \<subseteq> {..<bl_blocks bl}" "0 < bl_blocks bl"
    using assms(1) by (rule blist_okE)
  obtain nb where N: "blist_create mem count = Ret nb" "blist_ok nb" "bl_blocks nb = count" "free_blocks nb = {}"
    using blist_create_ok [OF assms(2,3)] by blast
  let ?c = "min (bl_blocks bl) count"
  have room: "roomy nb 0 0 ?c" using N by (simp add: roomy_def)
  have "0 + rdx k \<le> 2 ^ 31" using K(6) by simp
  from copy_ok [OF K(3,4) _ _ this room] assms(2) K(8)
  obtain d where D: "blst_copy (bl_root bl) 0 0 (rdx k) (skp k) nb ?c = Ret d" "freed nb (shifted 0 0 ?c (isfree k (bl_root bl) 0 (bl_blocks bl))) d"
    by (auto simp: copy_post_def)
  have S: "shifted 0 0 ?c (isfree k (bl_root bl) 0 (bl_blocks bl)) = {i \<in> free_blocks bl. i < count}" using K(5,7) by (auto simp: shifted_def)
  have d: "blist_ok d" "bl_blocks d = count" "free_blocks d = {i \<in> free_blocks bl. i < count}" using D(2) N S by (simp_all add: freed_def)
  have eq: "blist_resize mem bl count freenew = (if freenew \<and> ?c < count then blist_free d ?c (sub32 count ?c) else Ret d)"
  proof -
    have "(if count > bl_blocks bl then bl_blocks bl else count) = ?c" by auto
    then show ?thesis using N(1) D(1) K(1,2) d(2) by (simp only: blist_resize_def Let_def bl_bind.simps)
  qed
  show ?thesis
  proof (cases "freenew \<and> ?c < count")
    case False
    then show ?thesis using eq d by (auto simp: min_def split: if_splits)
  next
    case True
    then have c: "?c = bl_blocks bl" by (simp add: min_def split: if_splits)
    have "sub32 count ?c = count - bl_blocks bl" using True assms(3) by (subst arith32) simp_all
    then have "blist_resize mem bl count freenew = blist_free d (bl_blocks bl) (count - bl_blocks bl)" using eq True c by simp
    moreover have "{bl_blocks bl..<bl_blocks bl + (count - bl_blocks bl)} \<inter> free_blocks d = {}" using d(3) K(7) by auto
    then obtain d' where "blist_free d (bl_blocks bl) (count - bl_blocks bl) = Ret d'" "blist_ok d'" "bl_blocks d' = bl_blocks d"
      "free_blocks d' = free_blocks d \<union> {bl_blocks bl..<bl_blocks bl + (count - bl_blocks bl)}"
      using blist_free_post [OF d(1), of "count - bl_blocks bl" "bl_blocks bl"] True c d(2) by auto
    ultimately show ?thesis using d True c by auto
  qed
qed

end
