(* ===== verification/Blist_Pool.thy ===== *)
theory Blist_Pool
  imports Blist_Correct "HOL-Library.Code_Target_Nat"
begin

text \<open>
  What a client of the swap block allocator relies on, as a locale; the allocator as an instance of
  it; and the properties of the interface.
\<close>

section \<open>Clients\<close>

text \<open>A client takes runs of blocks and gives back a run it holds.\<close>

datatype pool_op = Take nat | Give nat

fun region :: "nat \<times> nat \<Rightarrow> nat set" where
  "region (r, c) = {r..<r + c}"

fun pool_run :: "('s \<Rightarrow> nat \<Rightarrow> (nat option \<times> 's) option) \<Rightarrow> ('s \<Rightarrow> nat \<Rightarrow> nat \<Rightarrow> 's option) \<Rightarrow>
    pool_op list \<Rightarrow> 's \<Rightarrow> (nat \<times> nat) list \<Rightarrow> ('s \<times> (nat \<times> nat) list) option" where
  "pool_run tk gv [] s L = Some (s, L)"
| "pool_run tk gv (Take c # ops) s L =
     (case tk s c of
        None \<Rightarrow> None
      | Some (None, s) \<Rightarrow> pool_run tk gv ops s L
      | Some (Some r, s) \<Rightarrow> pool_run tk gv ops s ((r, c) # L))"
| "pool_run tk gv (Give i # ops) s L =
     (if i < length L then
        case gv s (fst (L ! i)) (snd (L ! i)) of
          None \<Rightarrow> None
        | Some s \<Rightarrow> pool_run tk gv ops s (take i L @ drop (Suc i) L)
      else pool_run tk gv ops s L)"

text \<open>The regions held are not empty, lie in the pool, and are disjoint from each other and from the free blocks.\<close>

definition regions :: "(nat \<times> nat) list \<Rightarrow> nat set" where
  "regions L = (\<Union>p \<in> set L. region p)"

fun owned :: "nat \<Rightarrow> nat set \<Rightarrow> (nat \<times> nat) list \<Rightarrow> bool" where
  "owned n A [] \<longleftrightarrow> True"
| "owned n A (p # L) \<longleftrightarrow>
     0 < snd p \<and> fst p + snd p \<le> n \<and> region p \<inter> A = {} \<and> region p \<inter> regions L = {} \<and> owned n A L"

lemma regions_simps [simp]: "regions [] = {}" "regions (p # L) = region p \<union> regions L" "regions (K @ L) = regions K \<union> regions L"
  by (auto simp: regions_def)

lemma Un_Int_empty: "(A \<union> B) \<inter> C = {} \<longleftrightarrow> A \<inter> C = {} \<and> B \<inter> C = {}" "C \<inter> (A \<union> B) = {} \<longleftrightarrow> C \<inter> A = {} \<and> C \<inter> B = {}"
  by blast+

lemma owned_append: "owned n A (K @ p # L) \<longleftrightarrow> owned n A (p # K @ L)"
proof (induction K)
  case (Cons q K)
  then show ?case by (simp only: append_Cons owned.simps regions_simps Un_Int_empty Int_commute [of "region q" "region p"]) argo
qed simp

lemma owned_antimono: "owned n A L \<Longrightarrow> B \<subseteq> A \<Longrightarrow> owned n B L"
  by (induction L) (auto dest: subsetD)

lemma owned_insert: "owned n A L \<Longrightarrow> R \<inter> regions L = {} \<Longrightarrow> owned n (A \<union> R) L"
  by (induction L) (simp_all only: owned.simps regions_simps Un_Int_empty Int_commute [of R])

lemma owned_disjoint: "owned n A L \<Longrightarrow> regions L \<inter> A = {}"
  by (induction L) (simp_all add: Un_Int_empty)

locale block_pool =
  fixes ok :: "'s \<Rightarrow> bool" and blocks :: "'s \<Rightarrow> nat" and avail :: "'s \<Rightarrow> nat set"
    and tk :: "'s \<Rightarrow> nat \<Rightarrow> (nat option \<times> 's) option" and gv :: "'s \<Rightarrow> nat \<Rightarrow> nat \<Rightarrow> 's option"
  assumes avail_sub: "ok s \<Longrightarrow> avail s \<subseteq> {..<blocks s}"
    and tk_ok: "ok s \<Longrightarrow> 0 < c \<Longrightarrow> c \<le> 32 \<Longrightarrow> \<exists>r s'. tk s c = Some (r, s') \<and> ok s' \<and> blocks s' = blocks s \<and>
      (case r of None \<Rightarrow> avail s' = avail s | Some r \<Rightarrow> {r..<r + c} \<subseteq> avail s \<and> avail s' = avail s - {r..<r + c})"
    and gv_ok: "ok s \<Longrightarrow> 0 < c \<Longrightarrow> r + c \<le> blocks s \<Longrightarrow> {r..<r + c} \<inter> avail s = {} \<Longrightarrow>
      \<exists>s'. gv s r c = Some s' \<and> ok s' \<and> blocks s' = blocks s \<and> avail s' = avail s \<union> {r..<r + c}"
begin

lemma take_owned:
  assumes "ok s" and "owned (blocks s) (avail s) L" and "0 < c" and "{r..<r + c} \<subseteq> avail s" and "A = avail s - {r..<r + c}"
  shows "owned (blocks s) A ((r, c) # L)" "A \<union> regions ((r, c) # L) = avail s \<union> regions L"
proof -
  have "{r..<r + c} \<subseteq> {..<blocks s}" using assms(4) avail_sub [OF assms(1)] by blast
  moreover have "r + (c - 1) \<in> {r..<r + c}" using assms(3) by simp
  ultimately have "r + (c - 1) < blocks s" by blast
  then have "r + c \<le> blocks s" using assms(3) by simp
  moreover have "regions L \<inter> avail s = {}" using owned_disjoint [OF assms(2)] .
  ultimately show "owned (blocks s) A ((r, c) # L)"
    using assms owned_antimono [OF assms(2), of A] by auto
  show "A \<union> regions ((r, c) # L) = avail s \<union> regions L" using assms(4,5) by auto
qed

lemma run_ok:
  assumes "ok s" and "owned (blocks s) (avail s) L" and "\<forall>c. Take c \<in> set ops \<longrightarrow> 0 < c \<and> c \<le> 32"
  shows "\<exists>s' L'. pool_run tk gv ops s L = Some (s', L') \<and> ok s' \<and> blocks s' = blocks s \<and> owned (blocks s') (avail s') L' \<and>
    avail s' \<union> regions L' = avail s \<union> regions L"
  using assms
proof (induction ops arbitrary: s L)
  case Nil
  then show ?case by simp
next
  case (Cons op ops)
  have ops: "\<forall>c. Take c \<in> set ops \<longrightarrow> 0 < c \<and> c \<le> 32" using Cons.prems(3) by simp
  show ?case
  proof (cases op)
    case (Take c)
    then have c: "0 < c" "c \<le> 32" using Cons.prems(3) by auto
    obtain r s' where t: "tk s c = Some (r, s')" "ok s'" "blocks s' = blocks s"
      "case r of None \<Rightarrow> avail s' = avail s | Some r \<Rightarrow> {r..<r + c} \<subseteq> avail s \<and> avail s' = avail s - {r..<r + c}"
      using tk_ok [OF Cons.prems(1) c] by blast
    show ?thesis
    proof (cases r)
      case None
      then show ?thesis using Take t Cons.IH [OF t(2) _ ops] Cons.prems(2) by simp
    next
      case (Some q)
      then have q: "{q..<q + c} \<subseteq> avail s" "avail s' = avail s - {q..<q + c}" using t(4) by simp_all
      note T = take_owned [OF Cons.prems(1,2) c(1) q]
      show ?thesis using Take t(1,3) Some T Cons.IH [OF t(2) _ ops, of "(q, c) # L"] by simp
    qed
  next
    case (Give i)
    show ?thesis
    proof (cases "i < length L")
      case False
      then show ?thesis using Give Cons.IH [OF Cons.prems(1,2) ops] by simp
    next
      case True
      obtain r c where p: "L ! i = (r, c)" by fastforce
      let ?L = "take i L @ drop (Suc i) L"
      have "L = take i L @ (r, c) # drop (Suc i) L" using True p by (metis id_take_nth_drop)
      then have o: "owned (blocks s) (avail s) ((r, c) # ?L)" "regions L = region (r, c) \<union> regions ?L"
        using Cons.prems(2) owned_append [of "blocks s" "avail s"] by (metis, metis Un_left_commute regions_simps(2,3))
      then have g: "0 < c" "r + c \<le> blocks s" "{r..<r + c} \<inter> avail s = {}" "{r..<r + c} \<inter> regions ?L = {}" "owned (blocks s) (avail s) ?L"
        by simp_all
      obtain s' where s': "gv s r c = Some s'" "ok s'" "blocks s' = blocks s" "avail s' = avail s \<union> {r..<r + c}"
        using gv_ok [OF Cons.prems(1) g(1-3)] by blast
      have "owned (blocks s') (avail s') ?L" using owned_insert [OF g(5,4)] s' by simp
      then show ?thesis using Give True p s' Cons.IH [OF s'(2) _ ops, of ?L] o(2) by auto
    qed
  qed
qed

end

definition bl_take :: "blist \<Rightarrow> nat \<Rightarrow> (nat option \<times> blist) option" where
  "bl_take bl c = (case blist_alloc bl c of Ret (r, bl') \<Rightarrow> Some (if r = BLIST_NONE then None else Some r, bl') | _ \<Rightarrow> None)"

definition bl_give :: "blist \<Rightarrow> nat \<Rightarrow> nat \<Rightarrow> blist option" where
  "bl_give bl r c = (case blist_free bl r c of Ret bl' \<Rightarrow> Some bl' | _ \<Rightarrow> None)"

interpretation swap: block_pool blist_ok bl_blocks free_blocks bl_take bl_give
proof
  show "free_blocks s \<subseteq> {..<bl_blocks s}" if "blist_ok s" for s using that by (rule blist_okE)
  show "\<exists>r s'. bl_take s c = Some (r, s') \<and> blist_ok s' \<and> bl_blocks s' = bl_blocks s \<and>
      (case r of None \<Rightarrow> free_blocks s' = free_blocks s | Some r \<Rightarrow> {r..<r + c} \<subseteq> free_blocks s \<and> free_blocks s' = free_blocks s - {r..<r + c})"
    if a: "blist_ok s" "0 < c" "c \<le> 32" for s c
  proof -
    obtain r bl' where A: "blist_alloc s c = Ret (r, bl')" "blist_ok bl'" "bl_blocks bl' = bl_blocks s"
      "if r = BLIST_NONE then free_blocks bl' = free_blocks s
       else r mod 32 + c \<le> 32 \<and> {r..<r + c} \<subseteq> free_blocks s \<and> free_blocks bl' = free_blocks s - {r..<r + c}"
      using blist_alloc_post [OF a] by blast
    then show ?thesis by (cases "r = BLIST_NONE") (simp_all add: bl_take_def)
  qed
  show "\<exists>s'. bl_give s r c = Some s' \<and> blist_ok s' \<and> bl_blocks s' = bl_blocks s \<and> free_blocks s' = free_blocks s \<union> {r..<r + c}"
    if "blist_ok s" "0 < c" "r + c \<le> bl_blocks s" "{r..<r + c} \<inter> free_blocks s = {}" for s c r
    using blist_free_post [OF that] by (auto simp: bl_give_def)
qed

section \<open>Evaluation\<close>

text \<open>Executable forms of the invariant, and trees to evaluate it on.\<close>

lemma drop_bit_zero_iff: "drop_bit n w = 0 \<longleftrightarrow> (\<forall>j. bit w j \<longrightarrow> j < n)" for w :: u32
proof
  assume z: "drop_bit n w = 0"
  show "\<forall>j. bit w j \<longrightarrow> j < n"
  proof (intro allI impI, rule ccontr)
    fix j assume "bit w j" "\<not> j < n"
    then have "bit (drop_bit n w) (j - n)" by (simp add: bit_simps)
    then show False using z by simp
  qed
next
  assume "\<forall>j. bit w j \<longrightarrow> j < n"
  then show "drop_bit n w = 0" by (intro bit_word_eqI) (auto simp: bit_simps)
qed

lemma counts_code [code]:
  "counts 0 a b n \<longleftrightarrow> drop_bit n (bmu (a ! b)) = 0"
  "counts (Suc k) a b n \<longleftrightarrow> bmu_avail (a ! b) = 0 \<or> bmu_avail (a ! b) = rdx (Suc k) \<and> n = rdx (Suc k) \<or>
     bmu_avail (a ! b) < rdx (Suc k) \<and> (\<forall>c < nch k n. counts k a (child k b c) (cb k n c)) \<and>
     bmu_avail (a ! b) = (\<Sum>c < nch k n. nfree k a (child k b c))"
  by (simp_all add: drop_bit_zero_iff)

lemma nfree_code [code]: "nfree k a b = (if k = 0 then leaf_count (bmu (a ! b)) 0 else bmu_avail (a ! b))"
  by (simp add: nfree_def leaf_count_card)

declare create_radix.simps [code]

definition bl_node :: "u32 \<Rightarrow> nat \<Rightarrow> blmeta" where
  "bl_node v h = \<lparr>bmu = v, bm_bighint = h\<rparr>"

text \<open>Forty blocks, the first eight allocated.\<close>

definition bl40 :: blist where
  "bl40 = \<lparr>bl_blocks = 40, bl_radix = 512, bl_skip = 16, bl_free = 32,
     bl_root = [bl_node 32 32, bl_node 0xffffff00 32, bl_node 0xff 32, bl_node 0 BL_END], bl_rootblks = 4\<rparr>"

lemma bl40_ok: "blist_ok bl40"
proof (rule blist_okI [of _ 1])
  show "bl_radix bl40 = rdx 1" "bl_skip bl40 = skp 1" "(1::nat) \<le> 6" by code_simp+
  show "shape 1 (bl_root bl40) 0 (bl_blocks bl40)" by code_simp
  show "counts 1 (bl_root bl40) 0 (bl_blocks bl40)" by code_simp
  show "bl_free bl40 = nfree 1 (bl_root bl40) 0" by code_simp
qed

lemma bl40_free: "free_blocks bl40 = {8..<40}"
proof -
  have "{i \<in> {..<40}. isfree (level (bl_radix bl40)) (bl_root bl40) 0 (bl_blocks bl40) i} = {8..<40}" by code_simp
  moreover have "free_blocks bl40 \<subseteq> {..<40}" using bl40_ok by (rule blist_okE) (simp add: bl40_def)
  ultimately show ?thesis unfolding free_blocks_def by blast
qed

lemma hasrun_le: "0 < count \<Longrightarrow> hasrun k a b n count \<Longrightarrow> count \<le> 32"
  by (auto simp: hasrun_def)

lemma bl40_hints: "hints_ok bl40"
proof -
  have l: "level (bl_radix bl40) = Suc 0" and "\<forall>c < nch 0 40. bm_bighint (bl_root bl40 ! child 0 0 c) = 32"
    and "bm_bighint (bl_root bl40 ! 0) = 32" "bl_blocks bl40 = 40" by code_simp+
  then show ?thesis by (auto simp: hints_ok_def dest: hasrun_le)
qed

section \<open>Properties\<close>

text \<open>C14: Whatever sequence of allocations of at most 32 blocks and of releases of allocated runs a client
  makes, no call panics, accesses the tree outside the array or fails to return; the runs held are never empty,
  lie inside the device, are disjoint from each other and from the free blocks; and no block is lost: what is
  free or held at the end is what was free at the start.\<close>
theorem blist_runs_disjoint:
  assumes "blist_ok bl" and "\<forall>c. Take c \<in> set ops \<longrightarrow> 0 < c \<and> c \<le> 32"
  shows "\<exists>bl' L. pool_run bl_take bl_give ops bl [] = Some (bl', L) \<and> blist_ok bl' \<and> bl_blocks bl' = bl_blocks bl \<and>
    owned (bl_blocks bl') (free_blocks bl') L \<and> free_blocks bl' \<union> regions L = free_blocks bl"
  using swap.run_ok [OF assms(1) _ assms(2), of "[]"] by simp

theorem blist_runs_disjoint_witness:
  "\<exists>bl' L. pool_run bl_take bl_give [Take 20, Take 3, Give 1, Take 32] bl40 [] = Some (bl', L) \<and> blist_ok bl' \<and>
    owned (bl_blocks bl') (free_blocks bl') L \<and> free_blocks bl' \<union> regions L = {8..<40}"
  using blist_runs_disjoint [OF bl40_ok, of "[Take 20, Take 3, Give 1, Take 32]"] by (auto simp: bl40_free)

text \<open>C24: \<open>blist_alloc\<close> of 1 to 32 blocks returns the first block of a run that was free and lies in one bitmap,
  and takes exactly that run out of the free blocks; or it returns \<open>BLIST_NONE\<close> and leaves them as they are.
  The counts and the layout of the tree stay right.  While the hints are not too low they stay so, and then the call
  fails only if no bitmap has such a run.\<close>
theorem blist_alloc_correct:
  assumes "blist_ok bl" and "0 < count" and "count \<le> 32"
  shows "\<exists>r bl'. blist_alloc bl count = Ret (r, bl') \<and> blist_ok bl' \<and> bl_blocks bl' = bl_blocks bl \<and>
    (hints_ok bl \<longrightarrow> hints_ok bl' \<and> (r = BLIST_NONE \<longrightarrow> \<not> (\<exists>j. j mod 32 + count \<le> 32 \<and> {j..<j + count} \<subseteq> free_blocks bl))) \<and>
    (if r = BLIST_NONE then free_blocks bl' = free_blocks bl
     else r mod 32 + count \<le> 32 \<and> {r..<r + count} \<subseteq> free_blocks bl \<and> free_blocks bl' = free_blocks bl - {r..<r + count})"
  using assms by (rule blist_alloc_post)

theorem blist_alloc_correct_witness:
  "\<exists>r bl'. blist_alloc bl40 20 = Ret (r, bl') \<and> blist_ok bl' \<and> hints_ok bl' \<and> r \<noteq> BLIST_NONE \<and> free_blocks bl' = {8..<40} - {r..<r + 20}"
proof -
  obtain r bl' where A: "blist_alloc bl40 20 = Ret (r, bl')" "blist_ok bl'"
    "hints_ok bl40 \<longrightarrow> hints_ok bl' \<and> (r = BLIST_NONE \<longrightarrow> \<not> (\<exists>j. j mod 32 + 20 \<le> 32 \<and> {j..<j + 20} \<subseteq> free_blocks bl40))"
    "if r = BLIST_NONE then free_blocks bl' = free_blocks bl40
     else r mod 32 + 20 \<le> 32 \<and> {r..<r + 20} \<subseteq> free_blocks bl40 \<and> free_blocks bl' = free_blocks bl40 - {r..<r + 20}"
    using blist_alloc_correct [OF bl40_ok, of 20] by auto
  have "(8::nat) mod 32 + 20 \<le> 32" "{8..<8 + 20} \<subseteq> free_blocks bl40" by (auto simp: bl40_free)
  then have "r \<noteq> BLIST_NONE" using A(3) bl40_hints by blast
  then show ?thesis using A bl40_hints by (intro exI [of _ r] exI [of _ bl']) (simp add: bl40_free)
qed

text \<open>C25: \<open>blist_free\<close> of a range inside the device of which no block is free never panics and adds exactly
  that range to the free blocks; the counts and the layout of the tree stay right.\<close>
theorem blist_free_correct:
  assumes "blist_ok bl" and "0 < count" and "blkno + count \<le> bl_blocks bl" and "{blkno..<blkno + count} \<inter> free_blocks bl = {}"
  shows "\<exists>bl'. blist_free bl blkno count = Ret bl' \<and> blist_ok bl' \<and> bl_blocks bl' = bl_blocks bl \<and>
    free_blocks bl' = free_blocks bl \<union> {blkno..<blkno + count}"
  using assms by (rule blist_free_post)

theorem blist_free_correct_witness:
  "\<exists>bl'. blist_free bl40 3 5 = Ret bl' \<and> blist_ok bl' \<and> free_blocks bl' = {8..<40} \<union> {3..<8}"
proof -
  have "bl_blocks bl40 = 40" by (simp add: bl40_def)
  then show ?thesis using blist_free_correct [OF bl40_ok, of 5 3] by (auto simp: bl40_free)
qed

text \<open>\<open>blist_fill\<close> allocates every free block of the range, whatever the rest of it, and returns how many
  those were; the counts, the layout and the hints stay right.\<close>
theorem blist_fill_correct:
  assumes "blist_ok bl" and "0 < count" and "blkno + count \<le> bl_blocks bl"
  shows "\<exists>bl'. blist_fill bl blkno count = Ret (card (free_blocks bl \<inter> {blkno..<blkno + count}), bl') \<and> blist_ok bl' \<and>
    bl_blocks bl' = bl_blocks bl \<and> (hints_ok bl \<longrightarrow> hints_ok bl') \<and> free_blocks bl' = free_blocks bl - {blkno..<blkno + count}"
  using assms by (rule blist_fill_post)

theorem blist_fill_correct_witness:
  "\<exists>bl'. blist_fill bl40 4 30 = Ret (26, bl') \<and> blist_ok bl' \<and> hints_ok bl' \<and> free_blocks bl' = {8..<40} - {4..<34}"
proof -
  have n: "bl_blocks bl40 = 40" by (simp add: bl40_def)
  have "{8..<40} \<inter> {4..<34} = {8..<34::nat}" by auto
  then have "card ({8..<40} \<inter> {4..<34::nat}) = 26" by simp
  then show ?thesis using blist_fill_correct [OF bl40_ok, of 30 4] bl40_hints n by (auto simp: bl40_free)
qed

text \<open>C15: \<open>blist_resize\<close> gives an allocator of the new size in which the blocks below both sizes are free exactly
  if they were before, and the blocks added are all free or all allocated, as \<open>freenew\<close> says.\<close>
theorem blist_resize_correct:
  assumes "blist_ok bl" and "0 < count" and "count \<le> 2 ^ 29"
  shows "\<exists>bl'. blist_resize mem bl count freenew = Ret bl' \<and> blist_ok bl' \<and> bl_blocks bl' = count \<and>
    free_blocks bl' = {i \<in> free_blocks bl. i < count} \<union> (if freenew then {bl_blocks bl..<count} else {})"
  using assms by (rule blist_resize_post)

theorem blist_resize_correct_witness:
  "\<exists>bl'. blist_resize (\<lambda>i. bl_node 7 5) bl40 100 True = Ret bl' \<and> blist_ok bl' \<and> bl_blocks bl' = 100 \<and> free_blocks bl' = {8..<100}"
proof -
  have n: "bl_blocks bl40 = 40" by (simp add: bl40_def)
  have "{i \<in> {8..<40}. i < 100} \<union> {40..<100::nat} = {8..<100}" by auto
  then show ?thesis using blist_resize_correct [OF bl40_ok, of 100 "\<lambda>i. bl_node 7 5" True] n by (simp add: bl40_free)
qed

text \<open>C16: \<open>blist_create\<close> returns for every size up to \<open>2^29\<close> blocks, whatever the memory holds: every block is
  allocated, the counts, the layout and the hints are right.  For a larger size the radix wraps to 0 and the loop
  that computes it never ends.\<close>
theorem blist_create_terminates:
  assumes "0 < blocks"
  shows "if blocks \<le> 2 ^ 29
    then \<exists>bl. blist_create mem blocks = Ret bl \<and> blist_ok bl \<and> hints_ok bl \<and> bl_blocks bl = blocks \<and> free_blocks bl = {}
    else create_radix BLIST_BMAP_RADIX 0 blocks = None \<and> blist_create mem blocks = Undef"
  using blist_create_ok [OF assms, of mem] create_radix_endless [of blocks] by (simp add: blist_create_def)

theorem blist_create_terminates_witness:
  "(\<exists>bl. blist_create (\<lambda>i. bl_node 7 5) 513 = Ret bl \<and> blist_ok bl \<and> hints_ok bl \<and> bl_blocks bl = 513 \<and> free_blocks bl = {}) \<and>
   create_radix BLIST_BMAP_RADIX 0 (2 ^ 29 + 1) = None"
  using blist_create_terminates [of 513 "\<lambda>i. bl_node 7 5"] blist_create_terminates [of "2 ^ 29 + 1" "\<lambda>i. bl_node 7 5"] by simp

text \<open>The states of a device of 513 blocks in the next property: the whole tree is given by the root, its first child and
  that child's first leaf.\<close>

definition bl513 :: "nat \<Rightarrow> blmeta \<Rightarrow> blmeta \<Rightarrow> blmeta \<Rightarrow> blist" where
  "bl513 free r m l = \<lparr>bl_blocks = 513, bl_radix = 8192, bl_skip = 272, bl_free = free,
     bl_root = [r, m, l] @ replicate 17 (bl_node 0 0) @ [bl_node 0 BL_END] @ replicate 14 (bl_node 0 0) @ [bl_node 0 BL_END],
     bl_rootblks = 36\<rparr>"

lemma bl513_radix: "create_radix 32 0 513 = Some (8192, 272)"
  by code_simp

lemma bl513_size: "blst_radix_init [] None 8192 272 513 = Ret (35, [])"
  by code_simp

lemma bl513_init: "blst_radix_init (replicate 36 (bl_node 0 0)) (Some 0) 8192 272 513 = Ret (35, bl_root (bl513 0 (bl_node 0 0) (bl_node 0 0) (bl_node 0 0)))"
  by code_simp

lemma bl513_create: "blist_create (\<lambda>i. bl_node 0 0) 513 = Ret (bl513 0 (bl_node 0 0) (bl_node 0 0) (bl_node 0 0))"
  using bl513_init by (simp add: blist_create_def bl513_radix bl513_size add32_def map_replicate_const) (simp add: bl513_def)

lemma bl513_free_low:
  "blist_free (bl513 0 (bl_node 0 0) (bl_node 0 0) (bl_node 0 0)) 0 19 = Ret (bl513 19 (bl_node 19 32) (bl_node 19 32) (bl_node 0x7ffff 32))"
  by code_simp

lemma bl513_alloc_fails:
  "blist_alloc (bl513 19 (bl_node 19 32) (bl_node 19 32) (bl_node 0x7ffff 32)) 20 =
     Ret (BLIST_NONE, bl513 19 (bl_node 19 19) (bl_node 19 19) (bl_node 0x7ffff 19))"
  by code_simp

lemma bl513_free_high:
  "blist_free (bl513 19 (bl_node 19 19) (bl_node 19 19) (bl_node 0x7ffff 19)) 19 493 =
     Ret (bl513 512 (bl_node 512 19) (bl_node 512 19) (bl_node 0x7ffff 19))"
  by code_simp

lemma bl513_alloc_fails_again:
  "blist_alloc (bl513 512 (bl_node 512 19) (bl_node 512 19) (bl_node 0x7ffff 19)) 20 =
     Ret (BLIST_NONE, bl513 512 (bl_node 512 19) (bl_node 512 19) (bl_node 0x7ffff 19))"
  by code_simp

lemmas bl513_steps = bl513_create bl513_free_low bl513_alloc_fails bl513_free_high bl513_alloc_fails_again


text \<open>A release of free blocks that brings the count of a node up to its radix is not noticed.\<close>

definition bl512 :: "nat \<Rightarrow> blmeta \<Rightarrow> blmeta \<Rightarrow> u32 \<Rightarrow> nat \<Rightarrow> blist" where
  "bl512 free r l v h = \<lparr>bl_blocks = 512, bl_radix = 512, bl_skip = 16, bl_free = free, bl_root = [r, l] @ replicate 15 (bl_node v h), bl_rootblks = 17\<rparr>"

lemma blist_double_free_unnoticed:
  "blist_free (bl512 502 (bl_node 502 32) (bl_node 0xfffffc00 32) (-1) 32) 100 10 = Ret (bl512 512 (bl_node 512 32) (bl_node 0xfffffc00 32) (-1) 32)"
  by code_simp

end
