(* ===== verification/Callout.thy ===== *)
theory Callout
  imports Kern_Prelude
begin

text \<open>
  Timeouts, \<open>sys/kern/kern_timeout.c\<close>: the timing wheel of each CPU as circular queues of pointers, the
  callouts, and every function of the file.  A callout, a CPU and a thread are numbers; the
  \<open>callout_cpu\<close> of the CPU \<open>p\<close> has the number \<open>p\<close>, and \<open>callout_cpu0\<close> is number 0.  A critical section of
  \<open>cc_lock\<close> is one operation; where the code drops the lock an operation ends and another begins.
  An \<open>int\<close> is a 32-bit word read with a sign, and its arithmetic wraps.  The result \<open>None\<close> stands for a
  failed assertion, a null pointer or a loop that never ends.
\<close>

section \<open>Circular queues\<close>

type_synonym cid = nat
type_synonym cpu = nat
type_synonym lwp = nat

text \<open>The addresses of a \<open>struct callout_circq\<close>: a worklist, a bucket, or the \<open>c_list\<close> of a callout.\<close>

datatype head = Todo cpu | Wheel cpu nat
datatype circq = Head head | Elem cid

record links =
  cq_next :: "circq \<Rightarrow> circq"
  cq_prev :: "circq \<Rightarrow> circq"

definition set_next :: "circq \<Rightarrow> circq \<Rightarrow> links \<Rightarrow> links" where
  "set_next a b q = q\<lparr>cq_next := (cq_next q)(a := b)\<rparr>"

definition set_prev :: "circq \<Rightarrow> circq \<Rightarrow> links \<Rightarrow> links" where
  "set_prev a b q = q\<lparr>cq_prev := (cq_prev q)(a := b)\<rparr>"

definition CIRCQ_INIT :: "circq \<Rightarrow> links \<Rightarrow> links" where
  "CIRCQ_INIT l q = set_prev l l (set_next l l q)"

definition CIRCQ_INSERT :: "circq \<Rightarrow> circq \<Rightarrow> links \<Rightarrow> links" where
  "CIRCQ_INSERT elem l q =
     (let q = set_prev elem (cq_prev q l) q;
          q = set_next elem l q;
          q = set_next (cq_prev q l) elem q
      in set_prev l elem q)"

definition CIRCQ_EMPTY :: "circq \<Rightarrow> links \<Rightarrow> bool" where
  "CIRCQ_EMPTY l q \<longleftrightarrow> cq_next q l = l"

definition CIRCQ_APPEND :: "circq \<Rightarrow> circq \<Rightarrow> links \<Rightarrow> links" where
  "CIRCQ_APPEND f s q =
     (if \<not> CIRCQ_EMPTY s q then
        let q = set_next (cq_prev q f) (cq_next q s) q;
            q = set_prev (cq_next q s) (cq_prev q f) q;
            q = set_next (cq_prev q s) f q;
            q = set_prev f (cq_prev q s) q
        in CIRCQ_INIT s q
      else q)"

definition CIRCQ_REMOVE :: "circq \<Rightarrow> links \<Rightarrow> links" where
  "CIRCQ_REMOVE elem q =
     (let q = set_prev (cq_next q elem) (cq_prev q elem) q
      in set_next (cq_prev q elem) (cq_next q elem) q)"

definition CIRCQ_FIRST :: "circq \<Rightarrow> links \<Rightarrow> circq" where
  "CIRCQ_FIRST l q = cq_next q l"

section \<open>Data\<close>

definition CALLOUT_BOUND :: u32 where "CALLOUT_BOUND = 0x0001"
definition CALLOUT_PENDING :: u32 where "CALLOUT_PENDING = 0x0002"
definition CALLOUT_FIRED :: u32 where "CALLOUT_FIRED = 0x0004"
definition CALLOUT_INVOKING :: u32 where "CALLOUT_INVOKING = 0x0008"
definition CALLOUT_MPSAFE :: u32 where "CALLOUT_MPSAFE = 0x0100"
definition CALLOUT_FLAGMASK :: u32 where "CALLOUT_FLAGMASK = 0xff00"
definition CALLOUT_MAGIC :: u32 where "CALLOUT_MAGIC = 0x11deeba1"

text \<open>A function is a number, \<open>None\<close> for \<open>NULL\<close>.\<close>

record callout_impl =
  c_func :: "nat option"
  c_arg :: nat
  c_cpu :: cpu
  c_time :: u32
  c_flags :: u32
  c_magic :: u32

record callout_cpu =
  cc_sleepq :: "lwp list"
  cc_nwait :: nat
  cc_ticks :: u32
  cc_lwp :: "lwp option"
  cc_active :: "cid option"
  cc_cancel :: "cid option"
  cc_ev_late :: nat
  cc_ev_block :: nat

text \<open>\<open>cpu_callout p\<close> says that \<open>ci_data.cpu_callout\<close> of the CPU \<open>p\<close> is set.\<close>

record callouts =
  links :: links
  co :: "cid \<Rightarrow> callout_impl"
  cc :: "cpu \<Rightarrow> callout_cpu"
  cpu_callout :: "cpu \<Rightarrow> bool"

definition lk :: "(links \<Rightarrow> links) \<Rightarrow> callouts \<Rightarrow> callouts" where
  "lk f w = w\<lparr>links := f (links w)\<rparr>"

definition upd_co :: "cid \<Rightarrow> (callout_impl \<Rightarrow> callout_impl) \<Rightarrow> callouts \<Rightarrow> callouts" where
  "upd_co c f w = w\<lparr>co := (co w)(c := f (co w c))\<rparr>"

definition upd_cc :: "cpu \<Rightarrow> (callout_cpu \<Rightarrow> callout_cpu) \<Rightarrow> callouts \<Rightarrow> callouts" where
  "upd_cc p f w = w\<lparr>cc := (cc w)(p := f (cc w p))\<rparr>"

section \<open>The wheel\<close>

definition BUCKETS :: nat where "BUCKETS = 1024"
definition WHEELSIZE :: nat where "WHEELSIZE = 256"
definition WHEELMASK :: u32 where "WHEELMASK = 255"
definition WHEELBITS :: nat where "WHEELBITS = 8"

text \<open>The shift is that of an \<open>int\<close>, which the mask does not tell from that of a \<open>u_int\<close>.\<close>

definition MASKWHEEL :: "nat \<Rightarrow> u32 \<Rightarrow> nat" where
  "MASKWHEEL wheel time = unat (signed_drop_bit (wheel * WHEELBITS) time AND WHEELMASK)"

definition BUCKET :: "cpu \<Rightarrow> u32 \<Rightarrow> u32 \<Rightarrow> circq" where
  "BUCKET p rel abstime =
     Head (Wheel p
       (if sint rel \<le> 2 ^ (2 * WHEELBITS)
        then if sint rel \<le> 2 ^ WHEELBITS then MASKWHEEL 0 abstime else MASKWHEEL 1 abstime + WHEELSIZE
        else if sint rel \<le> 2 ^ (3 * WHEELBITS) then MASKWHEEL 2 abstime + 2 * WHEELSIZE
        else MASKWHEEL 3 abstime + 3 * WHEELSIZE))"

definition MOVEBUCKET :: "cpu \<Rightarrow> nat \<Rightarrow> u32 \<Rightarrow> links \<Rightarrow> links" where
  "MOVEBUCKET p wheel time = CIRCQ_APPEND (Head (Todo p)) (Head (Wheel p (MASKWHEEL wheel time + wheel * WHEELSIZE)))"

section \<open>Startup\<close>

fun init_wheel :: "cpu \<Rightarrow> nat \<Rightarrow> links \<Rightarrow> links" where
  "init_wheel p 0 q = q"
| "init_wheel p (Suc b) q = CIRCQ_INIT (Head (Wheel p b)) (init_wheel p b q)"

definition callout_startup :: "callouts \<Rightarrow> callouts option" where
  "callout_startup w =
     (if cpu_callout w 0 then None
      else Some ((lk (init_wheel 0 BUCKETS) (lk (CIRCQ_INIT (Head (Todo 0))) w))\<lparr>cpu_callout := (cpu_callout w)(0 := True)\<rparr>))"

definition zero_cc :: callout_cpu where
  "zero_cc = \<lparr>cc_sleepq = [], cc_nwait = 0, cc_ticks = 0, cc_lwp = None, cc_active = None, cc_cancel = None, cc_ev_late = 0, cc_ev_block = 0\<rparr>"

text \<open>\<open>sih\<close> says that \<open>softint_establish\<close> succeeds.\<close>

definition callout_init_cpu :: "bool \<Rightarrow> cpu \<Rightarrow> callouts \<Rightarrow> callouts option" where
  "callout_init_cpu sih ci w =
     (let w' = (if \<not> cpu_callout w ci
                then Some (lk (init_wheel ci BUCKETS) (lk (CIRCQ_INIT (Head (Todo ci))) (upd_cc ci (\<lambda>_. zero_cc) w)))
                else if \<not> sih then None else Some w)
      in map_option (\<lambda>w. (upd_cc ci (\<lambda>x. x\<lparr>cc_sleepq := []\<rparr>) w)\<lparr>cpu_callout := (cpu_callout w)(ci := True)\<rparr>) w')"

section \<open>Callouts\<close>

definition callout_init :: "cpu \<Rightarrow> cid \<Rightarrow> u32 \<Rightarrow> callouts \<Rightarrow> callouts option" where
  "callout_init curcpu c flags w =
     (if flags AND NOT CALLOUT_FLAGMASK \<noteq> 0 then None
      else Some (upd_co c (\<lambda>x. let x = x\<lparr>c_func := None, c_magic := CALLOUT_MAGIC\<rparr> in
        if flags AND CALLOUT_MPSAFE \<noteq> 0 \<and> cpu_callout w curcpu then x\<lparr>c_flags := flags, c_cpu := curcpu\<rparr>
        else x\<lparr>c_flags := flags OR CALLOUT_BOUND, c_cpu := 0\<rparr>) w))"

definition callout_destroy :: "lwp \<Rightarrow> cid \<Rightarrow> callouts \<Rightarrow> callouts option" where
  "callout_destroy curlwp c w =
     (let x = co w c; p = cc w (c_cpu x) in
      if c_magic x \<noteq> CALLOUT_MAGIC \<or> c_flags x AND CALLOUT_PENDING \<noteq> 0 \<or> \<not> (cc_lwp p = Some curlwp \<or> cc_active p \<noteq> Some c) then None
      else Some (upd_co c (\<lambda>x. x\<lparr>c_magic := 0\<rparr>) w))"

text \<open>\<open>tryenter\<close> is what \<open>mutex_tryenter\<close> returns.\<close>

definition callout_schedule_locked :: "cpu \<Rightarrow> bool \<Rightarrow> cid \<Rightarrow> u32 \<Rightarrow> callouts \<Rightarrow> callouts option" where
  "callout_schedule_locked curcpu tryenter c to_ticks w =
     (if \<not> 0 \<le> sint to_ticks \<or> c_func (co w c) = None then None
      else
        let occ = c_cpu (co w c);
            w = upd_co c (\<lambda>x. x\<lparr>c_flags := c_flags x AND NOT (CALLOUT_FIRED OR CALLOUT_INVOKING)\<rparr>) w
        in if c_flags (co w c) AND CALLOUT_PENDING \<noteq> 0 then
             let old_time = c_time (co w c);
                 w = upd_co c (\<lambda>x. x\<lparr>c_time := to_ticks + cc_ticks (cc w occ)\<rparr>) w
             in Some (if sint (c_time (co w c) - old_time) < 0
                      then lk (CIRCQ_INSERT (Elem c) (Head (Todo occ))) (lk (CIRCQ_REMOVE (Elem c)) w) else w)
           else if c_flags (co w c) AND CALLOUT_BOUND \<noteq> 0 \<or> curcpu = occ then
             Some (lk (CIRCQ_INSERT (Elem c) (Head (Todo occ)))
               (upd_co c (\<lambda>x. x\<lparr>c_time := to_ticks + cc_ticks (cc w occ), c_flags := c_flags x OR CALLOUT_PENDING\<rparr>) w))
           else if \<not> cpu_callout w curcpu then None
           else if \<not> tryenter then
             Some (lk (CIRCQ_INSERT (Elem c) (Head (Todo occ)))
               (upd_co c (\<lambda>x. x\<lparr>c_time := to_ticks + cc_ticks (cc w occ), c_flags := c_flags x OR CALLOUT_PENDING\<rparr>) w))
           else
             Some (lk (CIRCQ_INSERT (Elem c) (Head (Todo curcpu)))
               (upd_co c (\<lambda>x. x\<lparr>c_cpu := curcpu, c_time := to_ticks + cc_ticks (cc w curcpu), c_flags := c_flags x OR CALLOUT_PENDING\<rparr>) w)))"

definition callout_reset :: "cpu \<Rightarrow> bool \<Rightarrow> cid \<Rightarrow> u32 \<Rightarrow> nat option \<Rightarrow> nat \<Rightarrow> callouts \<Rightarrow> callouts option" where
  "callout_reset curcpu tryenter c to_ticks func arg w =
     (if c_magic (co w c) \<noteq> CALLOUT_MAGIC \<or> func = None then None
      else callout_schedule_locked curcpu tryenter c to_ticks (upd_co c (\<lambda>x. x\<lparr>c_func := func, c_arg := arg\<rparr>) w))"

definition callout_schedule :: "cpu \<Rightarrow> bool \<Rightarrow> cid \<Rightarrow> u32 \<Rightarrow> callouts \<Rightarrow> callouts option" where
  "callout_schedule curcpu tryenter c to_ticks w =
     (if c_magic (co w c) \<noteq> CALLOUT_MAGIC then None else callout_schedule_locked curcpu tryenter c to_ticks w)"

text \<open>What \<open>callout_stop\<close> and \<open>callout_halt\<close> do first.\<close>

definition callout_cancel :: "cid \<Rightarrow> callouts \<Rightarrow> callouts" where
  "callout_cancel c w =
     upd_co c (\<lambda>x. x\<lparr>c_flags := c_flags x AND NOT (CALLOUT_PENDING OR CALLOUT_FIRED)\<rparr>)
       (if c_flags (co w c) AND CALLOUT_PENDING \<noteq> 0 then lk (CIRCQ_REMOVE (Elem c)) w else w)"

definition callout_stop :: "cid \<Rightarrow> callouts \<Rightarrow> (bool \<times> callouts) option" where
  "callout_stop c w =
     (if c_magic (co w c) \<noteq> CALLOUT_MAGIC then None
      else let expired = (c_flags (co w c) AND CALLOUT_FIRED \<noteq> 0);
               w = callout_cancel c w;
               p = c_cpu (co w c)
           in Some (expired, if cc_active (cc w p) = Some c then upd_cc p (\<lambda>x. x\<lparr>cc_cancel := Some c\<rparr>) w else w))"

text \<open>A pass of the loop of \<open>callout_halt\<close>: it returns, drops the interlock and comes back, or sleeps on a CPU.\<close>

datatype halt_result = Halted bool | Again bool | Sleep cpu bool

definition halt_pass :: "lwp \<Rightarrow> cid \<Rightarrow> bool \<Rightarrow> bool \<Rightarrow> callouts \<Rightarrow> halt_result \<times> callouts" where
  "halt_pass l c interlock expired w =
     (let p = c_cpu (co w c) in
      if cc_active (cc w p) \<noteq> Some c \<or> cc_lwp (cc w p) = Some l then (Halted expired, w)
      else if interlock then (Again expired, w)
      else (Sleep p expired, upd_cc p (\<lambda>x. x\<lparr>cc_nwait := cc_nwait x + 1, cc_ev_block := cc_ev_block x + 1, cc_sleepq := cc_sleepq x @ [l]\<rparr>) w))"

definition callout_halt :: "lwp \<Rightarrow> cid \<Rightarrow> bool \<Rightarrow> callouts \<Rightarrow> (halt_result \<times> callouts) option" where
  "callout_halt l c interlock w =
     (if c_magic (co w c) \<noteq> CALLOUT_MAGIC then None
      else Some (halt_pass l c interlock (c_flags (co w c) AND CALLOUT_FIRED \<noteq> 0) (callout_cancel c w)))"

definition callout_setfunc :: "cid \<Rightarrow> nat option \<Rightarrow> nat \<Rightarrow> callouts \<Rightarrow> callouts option" where
  "callout_setfunc c func arg w =
     (if c_magic (co w c) \<noteq> CALLOUT_MAGIC \<or> func = None then None
      else Some (upd_co c (\<lambda>x. x\<lparr>c_func := func, c_arg := arg\<rparr>) w))"

definition callout_expired :: "cid \<Rightarrow> callouts \<Rightarrow> bool option" where
  "callout_expired c w = (if c_magic (co w c) \<noteq> CALLOUT_MAGIC then None else Some (c_flags (co w c) AND CALLOUT_FIRED \<noteq> 0))"

definition callout_active :: "cid \<Rightarrow> callouts \<Rightarrow> bool option" where
  "callout_active c w =
     (if c_magic (co w c) \<noteq> CALLOUT_MAGIC then None else Some (c_flags (co w c) AND (CALLOUT_PENDING OR CALLOUT_FIRED) \<noteq> 0))"

definition callout_pending :: "cid \<Rightarrow> callouts \<Rightarrow> bool option" where
  "callout_pending c w = (if c_magic (co w c) \<noteq> CALLOUT_MAGIC then None else Some (c_flags (co w c) AND CALLOUT_PENDING \<noteq> 0))"

definition callout_invoking :: "cid \<Rightarrow> callouts \<Rightarrow> bool option" where
  "callout_invoking c w = (if c_magic (co w c) \<noteq> CALLOUT_MAGIC then None else Some (c_flags (co w c) AND CALLOUT_INVOKING \<noteq> 0))"

definition callout_ack :: "cid \<Rightarrow> callouts \<Rightarrow> callouts option" where
  "callout_ack c w =
     (if c_magic (co w c) \<noteq> CALLOUT_MAGIC then None
      else Some (upd_co c (\<lambda>x. x\<lparr>c_flags := c_flags x AND NOT CALLOUT_INVOKING\<rparr>) w))"

section \<open>The clock\<close>

text \<open>The first result says whether the soft interrupt is scheduled.\<close>

definition callout_hardclock :: "cpu \<Rightarrow> callouts \<Rightarrow> bool \<times> callouts" where
  "callout_hardclock p w =
     (let w = upd_cc p (\<lambda>x. x\<lparr>cc_ticks := cc_ticks x + 1\<rparr>) w;
          ticks = cc_ticks (cc w p);
          w = lk (MOVEBUCKET p 0 ticks) w;
          w = (if MASKWHEEL 0 ticks = 0 then
                 let w = lk (MOVEBUCKET p 1 ticks) w
                 in if MASKWHEEL 1 ticks = 0 then
                      let w = lk (MOVEBUCKET p 2 ticks) w
                      in if MASKWHEEL 2 ticks = 0 then lk (MOVEBUCKET p 3 ticks) w else w
                    else w
               else w)
      in (\<not> CIRCQ_EMPTY (Head (Todo p)) (links w), w))"

text \<open>A function call of the soft interrupt: the callout, the function, its argument, and whether it runs without the kernel lock.\<close>

type_synonym call = "cid \<times> nat option \<times> nat \<times> bool"

definition soft_fire :: "cpu \<Rightarrow> cid \<Rightarrow> callouts \<Rightarrow> call \<times> callouts" where
  "soft_fire p c w =
     (let w = (if sint (c_time (co w c)) < sint (cc_ticks (cc w p)) then upd_cc p (\<lambda>x. x\<lparr>cc_ev_late := cc_ev_late x + 1\<rparr>) w else w);
          w = upd_co c (\<lambda>x. x\<lparr>c_flags := c_flags x AND NOT CALLOUT_PENDING OR (CALLOUT_FIRED OR CALLOUT_INVOKING)\<rparr>) w;
          x = co w c
      in ((c, c_func x, c_arg x, c_flags x AND CALLOUT_MPSAFE \<noteq> 0), upd_cc p (\<lambda>y. y\<lparr>cc_active := Some c\<rparr>) w))"

text \<open>The loop up to the next call of a function or to its end.\<close>

partial_function (option) soft_loop :: "cpu \<Rightarrow> callouts \<Rightarrow> (call option \<times> callouts) option" where
  "soft_loop p w =
     (if CIRCQ_EMPTY (Head (Todo p)) (links w) then Some (None, upd_cc p (\<lambda>x. x\<lparr>cc_lwp := None\<rparr>) w)
      else case CIRCQ_FIRST (Head (Todo p)) (links w) of
        Head _ \<Rightarrow> None
      | Elem c \<Rightarrow>
          let x = co w c in
          if c_magic x \<noteq> CALLOUT_MAGIC \<or> c_func x = None \<or> c_cpu x \<noteq> p \<or> c_flags x AND CALLOUT_PENDING = 0 \<or> c_flags x AND CALLOUT_FIRED \<noteq> 0
          then None
          else
            let w = lk (CIRCQ_REMOVE (Elem c)) w; ticks = cc_ticks (cc w p) in
            if sint (c_time x) > sint ticks
            then soft_loop p (lk (CIRCQ_INSERT (Elem c) (BUCKET p (c_time x - ticks) (c_time x))) w)
            else let (f, w) = soft_fire p c w in Some (Some f, w))"

definition softclock_enter :: "lwp \<Rightarrow> cpu \<Rightarrow> callouts \<Rightarrow> (call option \<times> callouts) option" where
  "softclock_enter l p w = soft_loop p (upd_cc p (\<lambda>x. x\<lparr>cc_lwp := Some l\<rparr>) w)"

text \<open>After the call: threads that wait are awakened, which drops the lock.  The first result says which threads.\<close>

definition softclock_return :: "cpu \<Rightarrow> callouts \<Rightarrow> lwp list \<times> callouts" where
  "softclock_return p w =
     (let count = cc_nwait (cc w p); w = upd_cc p (\<lambda>x. x\<lparr>cc_active := None\<rparr>) w in
      if count \<noteq> 0 then
        (take count (cc_sleepq (cc w p)), upd_cc p (\<lambda>x. x\<lparr>cc_nwait := 0, cc_sleepq := drop count (cc_sleepq x)\<rparr>) w)
      else ([], w))"

end
