(* ===== verification/Callout_Queue.thy ===== *)
theory Callout_Queue
  imports Callout
begin

text \<open>
  The circular queues of pointers as lists: what the macros of \<open>kern_timeout.c\<close> do to the queues, and the
  contract that the rest of the file relies on.
\<close>

section \<open>Chains of pointers\<close>

text \<open>\<open>chain q a xs b\<close>: from \<open>a\<close> the next pointers lead through \<open>xs\<close> to \<open>b\<close>, and the previous pointers back.\<close>

fun chain :: "links \<Rightarrow> circq \<Rightarrow> circq list \<Rightarrow> circq \<Rightarrow> bool" where
  "chain q a [] b \<longleftrightarrow> cq_next q a = b \<and> cq_prev q b = a"
| "chain q a (x # xs) b \<longleftrightarrow> cq_next q a = x \<and> cq_prev q x = a \<and> chain q x xs b"

definition circ :: "links \<Rightarrow> circq \<Rightarrow> circq list \<Rightarrow> bool" where
  "circ q h xs \<longleftrightarrow> chain q h xs h \<and> distinct (h # xs)"

named_theorems circq_simps

lemma links_simps [circq_simps]:
  "cq_next (set_next a b q) = (cq_next q)(a := b)" "cq_prev (set_next a b q) = cq_prev q"
  "cq_next (set_prev a b q) = cq_next q" "cq_prev (set_prev a b q) = (cq_prev q)(a := b)"
  by (simp_all add: set_next_def set_prev_def)

lemma chain_append: "chain q a (xs @ x # ys) b \<longleftrightarrow> chain q a xs x \<and> chain q x ys b"
  by (induction xs arbitrary: a) auto

lemma chain_prev: "chain q a xs b \<Longrightarrow> cq_prev q b = (if xs = [] then a else last xs)"
  by (induction xs arbitrary: a) auto

lemma chain_next: "chain q a xs b \<Longrightarrow> cq_next q a = (if xs = [] then b else hd xs)"
  by (cases xs) auto

lemma chain_cong:
  assumes "chain q a xs b" and "\<forall>y \<in> set (a # xs). cq_next q' y = cq_next q y" and "\<forall>y \<in> set (b # xs). cq_prev q' y = cq_prev q y"
  shows "chain q' a xs b"
  using assms by (induction xs arbitrary: a) auto

lemma circ_cong: "circ q h xs \<Longrightarrow> \<forall>y \<in> set (h # xs). cq_next q' y = cq_next q y \<and> cq_prev q' y = cq_prev q y \<Longrightarrow> circ q' h xs"
  unfolding circ_def by (blast intro: chain_cong)

section \<open>The macros\<close>

lemma circ_init: "circ (CIRCQ_INIT h q) h []"
  by (simp add: CIRCQ_INIT_def circ_def circq_simps)

lemma init_other: "y \<noteq> h \<Longrightarrow> cq_next (CIRCQ_INIT h q) y = cq_next q y \<and> cq_prev (CIRCQ_INIT h q) y = cq_prev q y"
  by (simp add: CIRCQ_INIT_def circq_simps)

lemma circ_empty: "circ q h xs \<Longrightarrow> CIRCQ_EMPTY h q \<longleftrightarrow> xs = []"
  using chain_next [of q h xs h] by (cases xs) (auto simp: circ_def CIRCQ_EMPTY_def)

lemma circ_first: "circ q h (x # xs) \<Longrightarrow> CIRCQ_FIRST h q = x"
  by (simp add: circ_def CIRCQ_FIRST_def)

lemma insert_links:
  assumes "circ q h xs" and "e \<notin> set (h # xs)"
  defines "z \<equiv> if xs = [] then h else last xs"
  shows "cq_next (CIRCQ_INSERT e h q) = (cq_next q)(e := h, z := e)" "cq_prev (CIRCQ_INSERT e h q) = (cq_prev q)(e := z, h := e)"
proof -
  have "cq_prev q h = z" using assms chain_prev [of q h xs h] by (simp add: circ_def)
  moreover have "e \<noteq> h" using assms by simp
  ultimately show "cq_next (CIRCQ_INSERT e h q) = (cq_next q)(e := h, z := e)" "cq_prev (CIRCQ_INSERT e h q) = (cq_prev q)(e := z, h := e)"
    by (simp_all add: CIRCQ_INSERT_def Let_def circq_simps)
qed

lemma circ_insert:
  assumes "circ q h xs" and "e \<notin> set (h # xs)"
  shows "circ (CIRCQ_INSERT e h q) h (xs @ [e])"
proof (cases xs rule: rev_cases)
  case Nil
  then show ?thesis using assms insert_links [OF assms] by (simp add: circ_def)
next
  case (snoc ys z)
  let ?q = "CIRCQ_INSERT e h q"
  note I = insert_links [OF assms]
  have c: "chain q h ys z" "distinct (h # ys @ [z])" "e \<notin> set (h # ys @ [z])" using assms snoc by (simp_all add: circ_def chain_append)
  have "chain ?q h ys z" using c(2,3) snoc by (intro chain_cong [OF c(1)]) (auto simp: I)
  moreover have "chain ?q z [e] h" using c(2,3) snoc by (auto simp: I)
  ultimately have "chain ?q h (ys @ z # [e]) h" by (simp only: chain_append)
  then show ?thesis using c(2,3) snoc by (auto simp: circ_def)
qed

lemma insert_other:
  assumes "circ q h xs" and "e \<notin> set (h # xs)" and "y \<notin> set (e # h # xs)"
  shows "cq_next (CIRCQ_INSERT e h q) y = cq_next q y \<and> cq_prev (CIRCQ_INSERT e h q) y = cq_prev q y"
proof -
  have "y \<noteq> e" "y \<noteq> h" "xs \<noteq> [] \<Longrightarrow> y \<noteq> last xs" using assms(3) by (auto dest: last_in_set)
  then show ?thesis using insert_links [OF assms(1,2)] by auto
qed

lemma remove_links:
  assumes "chain q a [x] b" and "x \<noteq> a" and "x \<noteq> b"
  shows "cq_next (CIRCQ_REMOVE x q) = (cq_next q)(a := b)" "cq_prev (CIRCQ_REMOVE x q) = (cq_prev q)(b := a)"
  using assms by (simp_all add: CIRCQ_REMOVE_def Let_def circq_simps)

text \<open>The neighbours of an element.\<close>

definition before :: "circq \<Rightarrow> circq list \<Rightarrow> circq" where "before h ys = (if ys = [] then h else last ys)"
definition after :: "circq list \<Rightarrow> circq \<Rightarrow> circq" where "after zs h = (if zs = [] then h else hd zs)"

lemma circ_around:
  assumes "circ q h (ys @ x # zs)"
  shows "chain q (before h ys) [x] (after zs h)" "x \<noteq> before h ys" "x \<noteq> after zs h"
proof -
  have c: "chain q h ys x" "chain q x zs h" "distinct (h # ys @ x # zs)" using assms by (simp_all add: circ_def chain_append)
  have "cq_next q (before h ys) = x"
  proof (cases ys rule: rev_cases)
    case Nil
    then show ?thesis using c by (simp add: before_def)
  next
    case (snoc vs v)
    then show ?thesis using c by (simp add: before_def chain_append)
  qed
  moreover have "cq_prev q (after zs h) = x"
  proof (cases zs)
    case Nil
    then show ?thesis using c by (simp add: after_def)
  next
    case (Cons v vs)
    then show ?thesis using c by (simp add: after_def)
  qed
  ultimately show "chain q (before h ys) [x] (after zs h)"
    using chain_prev [OF c(1)] chain_next [OF c(2)] by (simp add: before_def after_def)
  show "x \<noteq> before h ys" "x \<noteq> after zs h" using c(3) by (auto simp: before_def after_def dest: last_in_set hd_in_set)
qed

lemma circ_remove:
  assumes "circ q h (ys @ x # zs)"
  shows "circ (CIRCQ_REMOVE x q) h (ys @ zs)"
proof -
  let ?q = "CIRCQ_REMOVE x q"
  note R = remove_links [OF circ_around [OF assms]]
  have c: "chain q h ys x" "chain q x zs h" "distinct (h # ys @ x # zs)" using assms by (simp_all add: circ_def chain_append)
  have "chain ?q h (ys @ zs) h"
  proof (cases ys rule: rev_cases)
    case Nil
    then have e: "cq_next ?q = (cq_next q)(h := after zs h)" "cq_prev ?q = (cq_prev q)(after zs h := h)" using R by (simp_all add: before_def)
    show ?thesis
    proof (cases zs)
      case Nil
      then show ?thesis using \<open>ys = []\<close> e by (simp add: after_def)
    next
      case (Cons v vs)
      have "chain ?q v vs h" by (rule chain_cong [of q]) (use c Cons \<open>ys = []\<close> in \<open>auto simp: e after_def\<close>)
      then show ?thesis using Cons \<open>ys = []\<close> e by (simp add: after_def)
    qed
  next
    case (snoc us u)
    then have e: "cq_next ?q = (cq_next q)(u := after zs h)" "cq_prev ?q = (cq_prev q)(after zs h := u)" using R by (simp_all add: before_def)
    have "chain q h us u" using c snoc by (simp add: chain_append)
    moreover have "u \<notin> set (h # us)" "set (h # zs) \<inter> set (u # us) = {}" using c(3) snoc by auto
    moreover have "after zs h \<in> set (h # zs)" by (simp add: after_def)
    ultimately have u: "chain q h us u" "u \<notin> set (h # us)" "after zs h \<notin> set (u # us)" by blast+
    have A: "chain ?q h us u" by (rule chain_cong [OF u(1)]) (use u(2,3) in \<open>auto simp: e\<close>)
    have B: "chain ?q u zs h"
    proof (cases zs)
      case Nil
      then show ?thesis using e by (simp add: after_def)
    next
      case (Cons v vs)
      have "chain ?q v vs h" by (rule chain_cong [of q]) (use c Cons snoc in \<open>auto simp: e after_def\<close>)
      then show ?thesis using Cons e by (simp add: after_def)
    qed
    show ?thesis using A B snoc chain_append [of ?q h us u zs h] by simp
  qed
  then show ?thesis using c(3) by (simp add: circ_def)
qed

lemma remove_other:
  assumes "circ q h (ys @ x # zs)" and "y \<notin> set (h # ys @ x # zs)"
  shows "cq_next (CIRCQ_REMOVE x q) y = cq_next q y \<and> cq_prev (CIRCQ_REMOVE x q) y = cq_prev q y"
proof -
  have "y \<noteq> before h ys" "y \<noteq> after zs h" using assms(2) by (auto simp: before_def after_def dest: last_in_set hd_in_set)
  then show ?thesis using remove_links [OF circ_around [OF assms(1)]] by simp
qed

lemma append_links:
  assumes "circ q f xs" and "circ q s ys" and "ys \<noteq> []" and "set (f # xs) \<inter> set (s # ys) = {}"
  shows "cq_next (CIRCQ_APPEND f s q) = (cq_next q)(before f xs := hd ys, last ys := f, s := s)"
    "cq_prev (CIRCQ_APPEND f s q) = (cq_prev q)(hd ys := before f xs, f := last ys, s := s)"
proof -
  have p: "cq_prev q f = before f xs" "cq_prev q s = last ys" "cq_next q s = hd ys"
    using assms chain_prev [of q f xs f] chain_prev [of q s ys s] chain_next [of q s ys s] by (simp_all add: circ_def before_def)
  have "before f xs \<noteq> s" "hd ys \<noteq> f" "hd ys \<noteq> s" "f \<noteq> s" "last ys \<noteq> s"
    using assms by (auto simp: before_def circ_def dest: last_in_set hd_in_set)
  moreover have "\<not> CIRCQ_EMPTY s q" using assms circ_empty by blast
  ultimately show "cq_next (CIRCQ_APPEND f s q) = (cq_next q)(before f xs := hd ys, last ys := f, s := s)"
    "cq_prev (CIRCQ_APPEND f s q) = (cq_prev q)(hd ys := before f xs, f := last ys, s := s)"
    using p by (auto simp: CIRCQ_APPEND_def CIRCQ_INIT_def Let_def circq_simps fun_upd_twist)
qed

lemma chain_redirect:
  assumes "chain q a xs b" and "distinct (a # xs)" and "\<forall>y \<in> set (a # xs). y \<noteq> last (a # xs) \<longrightarrow> cq_next q' y = cq_next q y"
    and "\<forall>y \<in> set xs. cq_prev q' y = cq_prev q y" and "cq_next q' (last (a # xs)) = b'" and "cq_prev q' b' = last (a # xs)"
  shows "chain q' a xs b'"
  using assms
proof (induction xs arbitrary: a)
  case (Cons x xs)
  have "a \<noteq> last (x # xs)" using Cons.prems(2) by (metis distinct.simps(2) last_in_set list.discI)
  then have "cq_next q' a = x" "cq_prev q' x = a" using Cons.prems by auto
  moreover have "chain q' x xs b'" by (rule Cons.IH) (use Cons.prems in auto)
  ultimately show ?case by simp
qed simp

lemma chain_join: "chain q a xs x \<Longrightarrow> chain q x ys b \<Longrightarrow> chain q a (xs @ x # ys) b"
  by (simp add: chain_append)

lemma circ_append:
  assumes "circ q f xs" and "circ q s ys" and "set (f # xs) \<inter> set (s # ys) = {}"
  shows "circ (CIRCQ_APPEND f s q) f (xs @ ys)" "circ (CIRCQ_APPEND f s q) s []"
proof -
  let ?q = "CIRCQ_APPEND f s q"
  have "circ ?q f (xs @ ys) \<and> circ ?q s []"
  proof (cases ys)
    case Nil
    then show ?thesis using assms circ_empty [OF assms(2)] by (simp add: CIRCQ_APPEND_def)
  next
    case (Cons y vs)
    have ne: "ys \<noteq> []" using Cons by simp
    note A = append_links [OF assms(1,2) ne assms(3)]
    have d: "distinct (f # xs)" "distinct (s # ys)" "chain q f xs f" "chain q s ys s" using assms by (simp_all add: circ_def)
    have l: "last ys \<in> set ys" "hd ys \<in> set ys" "before f xs \<in> set (f # xs)" using ne by (simp_all add: before_def)
    have 1: "cq_next ?q (before f xs) = y" using l d assms(3) Cons unfolding A by auto
    have 2: "cq_prev ?q y = before f xs" using l d assms(3) Cons unfolding A by auto
    have "chain q f xs f" by (rule d)
    then have xs: "chain ?q f xs y"
      by (rule chain_redirect) (use d l assms(3) 1 2 in \<open>auto simp: A before_def split: if_splits\<close>)
    have "chain q y vs s" using d(4) Cons by simp
    moreover have "before f xs \<notin> set (s # ys)" using l(3) assms(3) by blast
    ultimately have "chain ?q y vs f"
      by (elim chain_redirect) (use d l assms(3) Cons in \<open>auto simp: A split: if_splits\<close>)
    with xs have "chain ?q f (xs @ ys) f" unfolding Cons by (rule chain_join)
    moreover have "distinct (f # xs @ ys)" using d assms(3) by auto
    ultimately show ?thesis using l by (auto simp: circ_def A)
  qed
  then show "circ ?q f (xs @ ys)" "circ ?q s []" by simp_all
qed

lemma append_other:
  assumes "circ q f xs" and "circ q s ys" and "set (f # xs) \<inter> set (s # ys) = {}" and "y \<notin> set (f # s # xs @ ys)"
  shows "cq_next (CIRCQ_APPEND f s q) y = cq_next q y \<and> cq_prev (CIRCQ_APPEND f s q) y = cq_prev q y"
proof (cases "ys = []")
  case True
  then show ?thesis using circ_empty [OF assms(2)] by (simp add: CIRCQ_APPEND_def)
next
  case False
  then have "last ys \<in> set ys" "hd ys \<in> set ys" "before f xs \<in> set (f # xs)" by (simp_all add: before_def)
  then have "y \<noteq> last ys" "y \<noteq> hd ys" "y \<noteq> before f xs" "y \<noteq> f" "y \<noteq> s" using assms(4) by auto
  then show ?thesis using append_links [OF assms(1,2) False assms(3)] by simp
qed

section \<open>The contract of the queues\<close>

text \<open>
  \<open>rep R q Q\<close>: the pointers \<open>q\<close> hold the queues \<open>Q\<close>, of which those in \<open>R\<close> are initialised; no callout is on two queues
  or twice on one.
\<close>

type_synonym queues = "head \<Rightarrow> cid list"

definition queued :: "queues \<Rightarrow> cid \<Rightarrow> bool" where
  "queued Q c \<longleftrightarrow> (\<exists>h. c \<in> set (Q h))"

definition rep :: "head set \<Rightarrow> links \<Rightarrow> queues \<Rightarrow> bool" where
  "rep R q Q \<longleftrightarrow> (\<forall>h \<in> R. circ q (Head h) (map Elem (Q h))) \<and> (\<forall>h. h \<notin> R \<longrightarrow> Q h = []) \<and>
     (\<forall>h h'. h \<noteq> h' \<longrightarrow> set (Q h) \<inter> set (Q h') = {})"

locale timer_queues =
  fixes rp :: "head set \<Rightarrow> 'q \<Rightarrow> queues \<Rightarrow> bool" and ini :: "head \<Rightarrow> 'q \<Rightarrow> 'q" and ins :: "cid \<Rightarrow> head \<Rightarrow> 'q \<Rightarrow> 'q"
    and rem :: "cid \<Rightarrow> 'q \<Rightarrow> 'q" and app :: "head \<Rightarrow> head \<Rightarrow> 'q \<Rightarrow> 'q" and emp :: "head \<Rightarrow> 'q \<Rightarrow> bool" and fst_of :: "head \<Rightarrow> 'q \<Rightarrow> circq"
  assumes rp_distinct: "rp R q Q \<Longrightarrow> distinct (Q h)" and rp_disjoint: "rp R q Q \<Longrightarrow> h \<noteq> h' \<Longrightarrow> set (Q h) \<inter> set (Q h') = {}"
    and rp_dom: "rp R q Q \<Longrightarrow> h \<notin> R \<Longrightarrow> Q h = []"
    and ini_rp: "rp R q Q \<Longrightarrow> h \<notin> R \<Longrightarrow> rp (insert h R) (ini h q) Q"
    and ins_rp: "rp R q Q \<Longrightarrow> h \<in> R \<Longrightarrow> \<not> queued Q c \<Longrightarrow> rp R (ins c h q) (Q(h := Q h @ [c]))"
    and rem_rp: "rp R q Q \<Longrightarrow> c \<in> set (Q h) \<Longrightarrow> rp R (rem c q) (Q(h := remove1 c (Q h)))"
    and app_rp: "rp R q Q \<Longrightarrow> f \<in> R \<Longrightarrow> s \<in> R \<Longrightarrow> f \<noteq> s \<Longrightarrow> rp R (app f s q) (Q(f := Q f @ Q s, s := []))"
    and emp_rp: "rp R q Q \<Longrightarrow> h \<in> R \<Longrightarrow> emp h q \<longleftrightarrow> Q h = []"
    and fst_rp: "rp R q Q \<Longrightarrow> h \<in> R \<Longrightarrow> Q h \<noteq> [] \<Longrightarrow> fst_of h q = Elem (hd (Q h))"
begin

lemma queued_once: "rp R q Q \<Longrightarrow> c \<in> set (Q h) \<Longrightarrow> c \<in> set (Q h') \<Longrightarrow> h' = h"
  using rp_disjoint [of R q Q h h'] by blast

lemma queued_in: "rp R q Q \<Longrightarrow> c \<in> set (Q h) \<Longrightarrow> h \<in> R"
  using rp_dom by (metis empty_iff list.set(1))

text \<open>A callout leaves its queue.\<close>

lemma rem_queued: "rp R q Q \<Longrightarrow> c \<in> set (Q h) \<Longrightarrow> queued (Q(h := remove1 c (Q h))) d \<longleftrightarrow> queued Q d \<and> d \<noteq> c"
proof -
  assume q: "rp R q Q" "c \<in> set (Q h)"
  have s: "set (remove1 c (Q h)) = set (Q h) - {c}" using rp_distinct [OF q(1)] by (rule set_remove1_eq)
  show ?thesis
  proof
    assume "queued (Q(h := remove1 c (Q h))) d"
    then obtain h' where h': "d \<in> set ((Q(h := remove1 c (Q h))) h')" by (auto simp: queued_def)
    then have "d \<noteq> c" using s queued_once [OF q] by (cases "h' = h") auto
    moreover have "queued Q d" using h' s by (cases "h' = h") (auto simp: queued_def)
    ultimately show "queued Q d \<and> d \<noteq> c" by blast
  next
    assume "queued Q d \<and> d \<noteq> c"
    then obtain h' where "d \<in> set (Q h')" "d \<noteq> c" by (auto simp: queued_def)
    then show "queued (Q(h := remove1 c (Q h))) d" unfolding queued_def using s by (intro exI [of _ h']) auto
  qed
qed

text \<open>A callout goes from one queue to another.\<close>

lemma move_rp:
  assumes "rp R q Q" and "c \<in> set (Q h)" and "g \<in> R"
  shows "rp R (ins c g (rem c q)) ((Q(h := remove1 c (Q h)))(g := (Q(h := remove1 c (Q h))) g @ [c]))"
proof (rule ins_rp)
  show "rp R (rem c q) (Q(h := remove1 c (Q h)))" using assms(1,2) by (rule rem_rp)
  show "\<not> queued (Q(h := remove1 c (Q h))) c" using rem_queued [OF assms(1,2), of c] by blast
qed (rule assms)

lemma head_rem: "rp R q Q \<Longrightarrow> Q h \<noteq> [] \<Longrightarrow> rp R (rem (hd (Q h)) q) (Q(h := tl (Q h)))"
  using rem_rp [of R q Q "hd (Q h)" h] by (cases "Q h") auto

end

definition cq_ini :: "head \<Rightarrow> links \<Rightarrow> links" where "cq_ini h = CIRCQ_INIT (Head h)"
definition cq_ins :: "cid \<Rightarrow> head \<Rightarrow> links \<Rightarrow> links" where "cq_ins c h = CIRCQ_INSERT (Elem c) (Head h)"
definition cq_rem :: "cid \<Rightarrow> links \<Rightarrow> links" where "cq_rem c = CIRCQ_REMOVE (Elem c)"
definition cq_app :: "head \<Rightarrow> head \<Rightarrow> links \<Rightarrow> links" where "cq_app f s = CIRCQ_APPEND (Head f) (Head s)"
definition cq_emp :: "head \<Rightarrow> links \<Rightarrow> bool" where "cq_emp h = CIRCQ_EMPTY (Head h)"
definition cq_fst :: "head \<Rightarrow> links \<Rightarrow> circq" where "cq_fst h = CIRCQ_FIRST (Head h)"

lemmas cq_defs = cq_ini_def cq_ins_def cq_rem_def cq_app_def cq_emp_def cq_fst_def

lemma rep_circ: "rep R q Q \<Longrightarrow> h \<in> R \<Longrightarrow> circ q (Head h) (map Elem (Q h))"
  by (simp add: rep_def)

interpretation cq: timer_queues rep cq_ini cq_ins cq_rem cq_app cq_emp cq_fst
proof
  fix R q Q h h' c f s
  assume r: "rep R q Q"
  show "distinct (Q h)" using r rep_circ [OF r, of h] by (cases "h \<in> R") (auto simp: circ_def rep_def distinct_map)
  show "h \<noteq> h' \<Longrightarrow> set (Q h) \<inter> set (Q h') = {}" "h \<notin> R \<Longrightarrow> Q h = []" using r by (auto simp: rep_def)
  show "rep (insert h R) (cq_ini h q) Q" if "h \<notin> R"
  proof -
    have "circ (cq_ini h q) (Head g) (map Elem (Q g))" if "g \<in> R" for g
    proof -
      have "g \<noteq> h" using that \<open>h \<notin> R\<close> by blast
      with rep_circ [OF r that] show ?thesis by (elim circ_cong) (auto simp: cq_defs init_other)
    qed
    moreover have "Q h = []" using r that by (simp add: rep_def)
    ultimately show ?thesis using r circ_init by (auto simp: rep_def cq_ini_def)
  qed
  show "rep R (cq_ins c h q) (Q(h := Q h @ [c]))" if h: "h \<in> R" "\<not> queued Q c"
  proof -
    have c: "Elem c \<notin> set (Head h # map Elem (Q h))" using h by (auto simp: queued_def)
    have "circ (cq_ins c h q) (Head g) (map Elem (Q g))" if "g \<in> R" "g \<noteq> h" for g
    proof (rule circ_cong [OF rep_circ [OF r that(1)]], rule ballI)
      fix y assume y: "y \<in> set (Head g # map Elem (Q g))"
      have "set (Q g) \<inter> set (Q h) = {}" "c \<notin> set (Q g)" using r h that by (auto simp: rep_def queued_def)
      then have "y \<notin> set (Elem c # Head h # map Elem (Q h))" using y that by auto
      then show "cq_next (cq_ins c h q) y = cq_next q y \<and> cq_prev (cq_ins c h q) y = cq_prev q y"
        unfolding cq_ins_def by (rule insert_other [OF rep_circ [OF r h(1)] c])
    qed
    moreover have "circ (cq_ins c h q) (Head h) (map Elem (Q h @ [c]))" using circ_insert [OF rep_circ [OF r h(1)] c] by (simp add: cq_ins_def)
    ultimately show ?thesis using r h by (auto simp: rep_def queued_def)
  qed
  show "rep R (cq_rem c q) (Q(h := remove1 c (Q h)))" if c: "c \<in> set (Q h)"
  proof -
    have h: "h \<in> R" using r c by (auto simp: rep_def)
    obtain ys zs where s: "Q h = ys @ c # zs" "c \<notin> set ys" using split_list_first [OF c] by blast
    note C = rep_circ [OF r h, unfolded s(1) map_append list.map]
    have "circ (cq_rem c q) (Head g) (map Elem (Q g))" if "g \<in> R" "g \<noteq> h" for g
    proof (rule circ_cong [OF rep_circ [OF r that(1)]], rule ballI)
      fix y assume y: "y \<in> set (Head g # map Elem (Q g))"
      have "set (Q g) \<inter> set (Q h) = {}" using r that by (auto simp: rep_def)
      then have "y \<notin> set (Head h # map Elem ys @ Elem c # map Elem zs)" using y that s by auto
      then show "cq_next (cq_rem c q) y = cq_next q y \<and> cq_prev (cq_rem c q) y = cq_prev q y"
        unfolding cq_rem_def by (rule remove_other [OF C])
    qed
    moreover have "remove1 c (Q h) = ys @ zs" using s by (simp add: remove1_append)
    moreover have "circ (cq_rem c q) (Head h) (map Elem (ys @ zs))" using circ_remove [OF C] by (simp add: cq_rem_def)
    moreover have "set (Q g) \<inter> set (ys @ zs) = {}" "set (ys @ zs) \<inter> set (Q g) = {}" if "g \<noteq> h" for g
    proof -
      have "set (Q g) \<inter> set (Q h) = {}" using r that by (simp add: rep_def)
      then show "set (Q g) \<inter> set (ys @ zs) = {}" "set (ys @ zs) \<inter> set (Q g) = {}" using s by auto
    qed
    ultimately show ?thesis using r h unfolding rep_def by (simp add: Int_commute)
  qed
  show "rep R (cq_app f s q) (Q(f := Q f @ Q s, s := []))" if f: "f \<in> R" "s \<in> R" "f \<noteq> s"
  proof -
    have d: "set (Head f # map Elem (Q f)) \<inter> set (Head s # map Elem (Q s)) = {}"
    proof -
      have "set (Q f) \<inter> set (Q s) = {}" using r f by (simp add: rep_def)
      then show ?thesis using f(3) by auto
    qed
    have "circ (cq_app f s q) (Head g) (map Elem (Q g))" if "g \<in> R" "g \<noteq> f" "g \<noteq> s" for g
    proof (rule circ_cong [OF rep_circ [OF r that(1)]], rule ballI)
      fix y assume y: "y \<in> set (Head g # map Elem (Q g))"
      have "set (Q g) \<inter> set (Q f) = {}" "set (Q g) \<inter> set (Q s) = {}" using r that by (auto simp: rep_def)
      then have "y \<notin> set (Head f # Head s # map Elem (Q f) @ map Elem (Q s))" using y that by auto
      then show "cq_next (cq_app f s q) y = cq_next q y \<and> cq_prev (cq_app f s q) y = cq_prev q y"
        unfolding cq_app_def by (rule append_other [OF rep_circ [OF r f(1)] rep_circ [OF r f(2)] d])
    qed
    moreover have "circ (cq_app f s q) (Head f) (map Elem (Q f @ Q s))" "circ (cq_app f s q) (Head s) []"
      using circ_append [OF rep_circ [OF r f(1)] rep_circ [OF r f(2)] d] by (simp_all add: cq_app_def)
    ultimately show ?thesis using r f unfolding rep_def by (simp add: Int_Un_distrib Int_Un_distrib2)
  qed
  show "cq_emp h q \<longleftrightarrow> Q h = []" if "h \<in> R" using circ_empty [OF rep_circ [OF r that]] by (simp add: cq_emp_def)
  show "cq_fst h q = Elem (hd (Q h))" if "h \<in> R" "Q h \<noteq> []"
    using rep_circ [OF r that(1)] that(2) circ_first [of q "Head h" "Elem (hd (Q h))" "map Elem (tl (Q h))"]
    by (cases "Q h") (auto simp: cq_fst_def)
qed

end
