(* ===== verification/Callout_Correct.thy ===== *)
theory Callout_Correct
  imports Callout_Queue
begin

text \<open>
  The invariant of the timing wheel and that every operation keeps it: a callout is pending exactly
  when it is on a queue of its CPU, and its bucket is emptied no later than the callout is due.
\<close>

section \<open>Flags\<close>

lemma and_one_bit:
  "x AND CALLOUT_BOUND = 0 \<longleftrightarrow> \<not> bit x 0" "x AND CALLOUT_PENDING = 0 \<longleftrightarrow> \<not> bit x 1"
  "x AND CALLOUT_FIRED = 0 \<longleftrightarrow> \<not> bit x 2" "x AND CALLOUT_INVOKING = 0 \<longleftrightarrow> \<not> bit x 3"
  "x AND CALLOUT_MPSAFE = 0 \<longleftrightarrow> \<not> bit x 8"
  using and_exp_eq_0_iff_not_bit [of x 0] and_exp_eq_0_iff_not_bit [of x 1] and_exp_eq_0_iff_not_bit [of x 2]
    and_exp_eq_0_iff_not_bit [of x 3] and_exp_eq_0_iff_not_bit [of x 8]
  by (simp_all add: CALLOUT_BOUND_def CALLOUT_PENDING_def CALLOUT_FIRED_def CALLOUT_INVOKING_def CALLOUT_MPSAFE_def)

lemma callout_flag_bits:
  "bit CALLOUT_BOUND n \<longleftrightarrow> n = 0" "bit CALLOUT_PENDING n \<longleftrightarrow> n = 1" "bit CALLOUT_FIRED n \<longleftrightarrow> n = 2"
  "bit CALLOUT_INVOKING n \<longleftrightarrow> n = 3" "bit CALLOUT_MPSAFE n \<longleftrightarrow> n = 8"
proof -
  have e: "CALLOUT_BOUND = 2 ^ 0" "CALLOUT_PENDING = 2 ^ 1" "CALLOUT_FIRED = 2 ^ 2" "CALLOUT_INVOKING = 2 ^ 3" "CALLOUT_MPSAFE = 2 ^ 8"
    by (simp_all add: CALLOUT_BOUND_def CALLOUT_PENDING_def CALLOUT_FIRED_def CALLOUT_INVOKING_def CALLOUT_MPSAFE_def)
  show "bit CALLOUT_BOUND n \<longleftrightarrow> n = 0" unfolding e bit_word_exp by simp
  show "bit CALLOUT_PENDING n \<longleftrightarrow> n = 1" unfolding e bit_word_exp by simp
  show "bit CALLOUT_FIRED n \<longleftrightarrow> n = 2" unfolding e bit_word_exp by simp
  show "bit CALLOUT_INVOKING n \<longleftrightarrow> n = 3" unfolding e bit_word_exp by simp
  show "bit CALLOUT_MPSAFE n \<longleftrightarrow> n = 8" unfolding e bit_word_exp by simp
qed

lemmas flags = and_one_bit callout_flag_bits bit_and_iff bit_or_iff bit_not_iff

text \<open>The flags a caller may pass leave the low byte clear.\<close>

lemma user_flags: "x AND NOT CALLOUT_FLAGMASK = 0 \<Longrightarrow> n < 8 \<Longrightarrow> \<not> bit x n"
proof
  assume a: "x AND NOT CALLOUT_FLAGMASK = 0" "n < 8" "bit x n"
  have m: "CALLOUT_FLAGMASK = push_bit 8 255" by (simp add: CALLOUT_FLAGMASK_def)
  have "\<not> bit CALLOUT_FLAGMASK n" unfolding m bit_push_bit_iff using a(2) by simp
  then have "bit (x AND NOT CALLOUT_FLAGMASK) n" using a(2,3) by (simp add: bit_simps)
  then show False using a(1) by simp
qed

abbreviation pend :: "callouts \<Rightarrow> cid \<Rightarrow> bool" where
  "pend w c \<equiv> bit (c_flags (co w c)) 1"

abbreviation bound :: "callouts \<Rightarrow> cid \<Rightarrow> bool" where
  "bound w c \<equiv> bit (c_flags (co w c)) 0"

section \<open>Buckets\<close>

lemma unat_u32_less: "unat (x :: u32) < 2 ^ 32"
  using unsigned_less [where 'a = nat and w = x] by simp

lemma MASKWHEEL_div: "k \<le> 3 \<Longrightarrow> MASKWHEEL k t = (unat t div 2 ^ (8 * k)) mod 256"
proof -
  assume k: "k \<le> 3"
  have m: "WHEELMASK = mask 8" by (simp add: WHEELMASK_def mask_eq_exp_minus_1)
  have "signed_drop_bit (8 * k) t AND WHEELMASK = take_bit 8 (drop_bit (8 * k) t)"
  proof (rule bit_word_eqI)
    fix n assume "n < LENGTH(32)"
    show "bit (signed_drop_bit (8 * k) t AND WHEELMASK) n = bit (take_bit 8 (drop_bit (8 * k) t)) n"
      using k by (auto simp: m bit_simps not_le)
  qed
  then have "MASKWHEEL k t = unat (take_bit 8 (drop_bit (8 * k) t))" by (simp add: MASKWHEEL_def WHEELBITS_def mult.commute)
  also have "\<dots> = take_bit 8 (drop_bit (8 * k) (unat t))" by (simp add: unsigned_take_bit_eq unsigned_drop_bit_eq take_bit_nat_eq_self [OF unat_u32_less])
  also have "\<dots> = (unat t div 2 ^ (8 * k)) mod 256" by (simp add: take_bit_eq_mod drop_bit_eq_div)
  finally show ?thesis .
qed

text \<open>The bucket \<open>i\<close> is emptied at the tick \<open>T\<close>.\<close>

definition moves :: "nat \<Rightarrow> nat \<Rightarrow> bool" where
  "moves i T \<longleftrightarrow> (let k = i div 256 in k \<le> 3 \<and> T mod 2 ^ (8 * k) = 0 \<and> (T div 2 ^ (8 * k)) mod 256 = i mod 256)"

text \<open>The bucket of a time is emptied after now and not after that time.\<close>

definition in_time :: "nat \<Rightarrow> nat \<Rightarrow> nat \<Rightarrow> bool" where
  "in_time t i d \<longleftrightarrow> (\<exists>T. t < T \<and> T \<le> d \<and> moves i T)"

lemma bucket_in_time:
  assumes "k \<le> 3" and "t < d" and "k = 0 \<or> t + 2 ^ (8 * k) < d"
  shows "in_time t ((d div 2 ^ (8 * k)) mod 256 + 256 * k) d"
proof -
  let ?n = "2 ^ (8 * k) :: nat"
  let ?T = "d div ?n * ?n"
  have "d = ?T + d mod ?n" "d mod ?n < ?n" by (simp_all only: div_mult_mod_eq mod_less_divisor zero_less_power zero_less_numeral)
  then have "?T \<le> d" "d < ?T + ?n" by linarith+
  then have "t < ?T" using assms(2,3) by (cases "k = 0") auto
  moreover have "moves ((d div ?n) mod 256 + 256 * k) ?T" using assms(1) by (simp add: moves_def Let_def)
  ultimately show ?thesis using \<open>?T \<le> d\<close> by (auto simp: in_time_def)
qed

lemma sint_small: "unat x < 2 ^ 31 \<Longrightarrow> sint (x :: u32) = int (unat x)"
proof -
  assume x: "unat x < 2 ^ 31"
  have "signed_take_bit 31 (int n) = int n" if "n < 2 ^ 31" for n using that by (intro signed_take_bit_int_eq_self) simp_all
  from this [OF x] show ?thesis by (simp add: sint_uint)
qed

lemma BUCKET_in_time:
  assumes "unat t < unat d" and "unat d < 2 ^ 31"
  obtains i where "BUCKET p (d - t) d = Head (Wheel p i)" "i < BUCKETS" "in_time (unat t) i (unat d)"
proof -
  define n where "n = unat d - unat t"
  have "unat (d - t) = n" unfolding n_def using assms(1) by (intro unat_sub) (simp add: word_le_nat_alt)
  then have r: "sint (d - t) = int n" using assms n_def by (subst sint_small) simp_all
  define k where "k = (if n \<le> 2 ^ 8 then 0 else if n \<le> 2 ^ 16 then 1 else if n \<le> 2 ^ 24 then 2 else 3 :: nat)"
  let ?i = "(unat d div 2 ^ (8 * k)) mod 256 + 256 * k"
  have B: "BUCKET p (d - t) d = Head (Wheel p ?i)"
    unfolding BUCKET_def r by (simp add: k_def MASKWHEEL_div WHEELBITS_def WHEELSIZE_def)
  have "k \<le> 3" by (simp add: k_def)
  moreover have "(unat d div 2 ^ (8 * k)) mod 256 < 256" by simp
  ultimately have "?i < BUCKETS" unfolding BUCKETS_def by linarith
  moreover have "in_time (unat t) ?i (unat d)"
    using assms(1) \<open>k \<le> 3\<close> by (intro bucket_in_time) (auto simp: k_def n_def)
  ultimately show ?thesis using that B by blast
qed

section \<open>The invariant\<close>

fun head_cpu :: "head \<Rightarrow> cpu" where
  "head_cpu (Todo p) = p"
| "head_cpu (Wheel p i) = p"

definition heads :: "callouts \<Rightarrow> head set" where
  "heads w = {h. cpu_callout w (head_cpu h) \<and> (case h of Todo _ \<Rightarrow> True | Wheel _ i \<Rightarrow> i < BUCKETS)}"

lemma heads_iff [simp]:
  "Todo p \<in> heads w \<longleftrightarrow> cpu_callout w p" "Wheel p i \<in> heads w \<longleftrightarrow> cpu_callout w p \<and> i < BUCKETS"
  by (simp_all add: heads_def)

lemma upd_simps [simp]:
  "links (lk f w) = f (links w)" "co (lk f w) = co w" "cc (lk f w) = cc w" "cpu_callout (lk f w) = cpu_callout w" "heads (lk f w) = heads w"
  "links (upd_co c g w) = links w" "co (upd_co c g w) = (co w)(c := g (co w c))" "cc (upd_co c g w) = cc w"
  "cpu_callout (upd_co c g w) = cpu_callout w" "heads (upd_co c g w) = heads w"
  "links (upd_cc p k w) = links w" "co (upd_cc p k w) = co w" "cc (upd_cc p k w) = (cc w)(p := k (cc w p))"
  "cpu_callout (upd_cc p k w) = cpu_callout w" "heads (upd_cc p k w) = heads w"
  by (simp_all add: lk_def upd_co_def upd_cc_def heads_def)

text \<open>
  \<open>A\<close> is the set of callouts in use.  A queued callout is one of them, on a queue of its CPU, with a function and not
  fired; a callout in use is pending exactly if it is queued.
\<close>

definition ready_co :: "callouts \<Rightarrow> cid \<Rightarrow> bool" where
  "ready_co w c \<longleftrightarrow> c_func (co w c) \<noteq> None \<and> \<not> bit (c_flags (co w c)) 2"

definition co_wf :: "cid set \<Rightarrow> queues \<Rightarrow> callouts \<Rightarrow> bool" where
  "co_wf A Q w \<longleftrightarrow> rep (heads w) (links w) Q \<and>
     (\<forall>c h. c \<in> set (Q h) \<longrightarrow> c \<in> A \<and> ready_co w c \<and> c_cpu (co w c) = head_cpu h) \<and>
     (\<forall>c \<in> A. c_magic (co w c) = CALLOUT_MAGIC \<and> cpu_callout w (c_cpu (co w c)) \<and> (pend w c \<longleftrightarrow> queued Q c))"

text \<open>Before the clock wraps: every bucket with a callout is emptied in time for it.\<close>

definition timed :: "queues \<Rightarrow> callouts \<Rightarrow> bool" where
  "timed Q w \<longleftrightarrow> (\<forall>p. cpu_callout w p \<longrightarrow> unat (cc_ticks (cc w p)) < 2 ^ 31) \<and>
     (\<forall>c h. c \<in> set (Q h) \<longrightarrow> unat (c_time (co w c)) < 2 ^ 31) \<and>
     (\<forall>p i c. c \<in> set (Q (Wheel p i)) \<longrightarrow> in_time (unat (cc_ticks (cc w p))) i (unat (c_time (co w c))))"

definition co_inv :: "bool \<Rightarrow> cid set \<Rightarrow> queues \<Rightarrow> callouts \<Rightarrow> bool" where
  "co_inv b A Q w \<longleftrightarrow> co_wf A Q w \<and> (b \<longrightarrow> timed Q w)"

lemma inv_rep: "co_inv b A Q w \<Longrightarrow> rep (heads w) (links w) Q"
  by (simp add: co_inv_def co_wf_def)

lemma inv_queued: "co_inv b A Q w \<Longrightarrow> c \<in> set (Q h) \<Longrightarrow> c \<in> A \<and> ready_co w c \<and> c_cpu (co w c) = head_cpu h"
  by (simp add: co_inv_def co_wf_def)

lemma inv_live: "co_inv b A Q w \<Longrightarrow> c \<in> A \<Longrightarrow> c_magic (co w c) = CALLOUT_MAGIC \<and> cpu_callout w (c_cpu (co w c)) \<and> (pend w c \<longleftrightarrow> queued Q c)"
  by (simp add: co_inv_def co_wf_def)

lemma inv_head: "co_inv b A Q w \<Longrightarrow> c \<in> set (Q h) \<Longrightarrow> h \<in> heads w"
  using cq.queued_in [OF inv_rep] .

lemma inv_queued_live: "co_inv b A Q w \<Longrightarrow> queued Q c \<Longrightarrow> c \<in> A"
  unfolding queued_def using inv_queued by blast

text \<open>Taking a callout off its queue, changing it, and putting it back.\<close>

lemma inv_take:
  assumes "co_inv b A Q w" and "c \<in> set (Q h)"
  shows "co_inv b (A - {c}) (Q(h := remove1 c (Q h))) (lk (CIRCQ_REMOVE (Elem c)) w)"
proof -
  let ?Q = "Q(h := remove1 c (Q h))"
  have r: "rep (heads w) (CIRCQ_REMOVE (Elem c) (links w)) ?Q" using cq.rem_rp [OF inv_rep [OF assms(1)] assms(2)] by (simp add: cq_rem_def)
  have s: "queued ?Q d \<longleftrightarrow> queued Q d \<and> d \<noteq> c" for d using cq.rem_queued [OF inv_rep [OF assms(1)] assms(2)] .
  have m: "d \<in> set (Q g) \<and> d \<noteq> c" if "d \<in> set (?Q g)" for d g
  proof -
    have "queued ?Q d" using that unfolding queued_def by blast
    then show ?thesis using that s by (auto split: if_splits dest: notin_set_remove1)
  qed
  have "co_wf (A - {c}) ?Q (lk (CIRCQ_REMOVE (Elem c)) w)" unfolding co_wf_def
  proof (intro conjI allI ballI impI)
    fix d g assume "d \<in> set (?Q g)"
    from m [OF this] show "d \<in> A - {c}" "ready_co (lk (CIRCQ_REMOVE (Elem c)) w) d" "c_cpu (co (lk (CIRCQ_REMOVE (Elem c)) w) d) = head_cpu g"
      using inv_queued [OF assms(1)] by (auto simp: ready_co_def)
  next
    fix d assume d: "d \<in> A - {c}"
    then show "c_magic (co (lk (CIRCQ_REMOVE (Elem c)) w) d) = CALLOUT_MAGIC" "cpu_callout (lk (CIRCQ_REMOVE (Elem c)) w) (c_cpu (co (lk (CIRCQ_REMOVE (Elem c)) w) d))"
      "pend (lk (CIRCQ_REMOVE (Elem c)) w) d = queued ?Q d" using inv_live [OF assms(1), of d] s by auto
  qed (use r in simp)
  moreover have "timed ?Q (lk (CIRCQ_REMOVE (Elem c)) w)" if b
  proof -
    have t: "timed Q w" using assms(1) that by (simp add: co_inv_def)
    show ?thesis unfolding timed_def upd_simps using t m unfolding timed_def by meson
  qed
  ultimately show ?thesis by (simp add: co_inv_def)
qed

lemma inv_drop: "co_inv b A Q w \<Longrightarrow> \<not> queued Q c \<Longrightarrow> co_inv b (A - {c}) Q w"
  by (auto simp: co_inv_def co_wf_def queued_def)

lemma inv_change:
  assumes "co_inv b A Q w" and "c \<notin> A"
  shows "co_inv b A Q (upd_co c f w)"
proof -
  have q: "c \<notin> set (Q h)" for h using inv_queued [OF assms(1)] assms(2) by blast
  then have "d \<noteq> c" if "d \<in> set (Q h)" for d h using that by blast
  moreover have "d \<noteq> c" if "d \<in> A" for d using that assms(2) by blast
  ultimately show ?thesis using assms(1) unfolding co_inv_def co_wf_def timed_def by (auto simp: ready_co_def)
qed

lemma inv_add:
  assumes "co_inv b (A - {c}) Q w" and "c_magic (co w c) = CALLOUT_MAGIC" and "cpu_callout w (c_cpu (co w c))" and "\<not> pend w c"
  shows "co_inv b (insert c A) Q w"
proof -
  have "\<not> queued Q c" using inv_queued_live [OF assms(1)] by blast
  then show ?thesis using assms by (auto simp: co_inv_def co_wf_def)
qed

lemma inv_put:
  assumes "co_inv b (A - {c}) Q w" and "c_magic (co w c) = CALLOUT_MAGIC" and "ready_co w c" and "pend w c" and "h \<in> heads w" and "c_cpu (co w c) = head_cpu h"
    and "b \<Longrightarrow> unat (c_time (co w c)) < 2 ^ 31" and "\<And>p i. b \<Longrightarrow> h = Wheel p i \<Longrightarrow> in_time (unat (cc_ticks (cc w p))) i (unat (c_time (co w c)))"
  shows "co_inv b (insert c A) (Q(h := Q h @ [c])) (lk (CIRCQ_INSERT (Elem c) (Head h)) w)"
proof -
  let ?Q = "Q(h := Q h @ [c])" and ?w = "lk (CIRCQ_INSERT (Elem c) (Head h)) w"
  have nq: "\<not> queued Q c" using inv_queued_live [OF assms(1)] by blast
  have r: "rep (heads w) (CIRCQ_INSERT (Elem c) (Head h) (links w)) ?Q" using cq.ins_rp [OF inv_rep [OF assms(1)] assms(5) nq] by (simp add: cq_ins_def)
  have m: "d \<in> set (?Q g) \<longleftrightarrow> d \<in> set (Q g) \<or> d = c \<and> g = h" for d g by auto
  have s: "queued ?Q d \<longleftrightarrow> queued Q d \<or> d = c" for d unfolding queued_def m by blast
  have p: "cpu_callout w (head_cpu h)" using assms(5) by (simp add: heads_def)
  have l: "c_magic (co w d) = CALLOUT_MAGIC \<and> cpu_callout w (c_cpu (co w d)) \<and> (pend w d \<longleftrightarrow> queued Q d \<or> d = c)" if "d \<in> insert c A" for d
    using that assms(2,4,6) p inv_live [OF assms(1), of d] by (cases "d = c") auto
  have "ready_co ?w d \<longleftrightarrow> ready_co w d" for d by (simp add: ready_co_def)
  then have "co_wf (insert c A) ?Q ?w" unfolding co_wf_def m s upd_simps
    using r l assms(3,6) inv_queued [OF assms(1)] by blast
  moreover have "timed ?Q ?w" if b: b
  proof -
    have t: "timed Q w" using assms(1) b by (simp add: co_inv_def)
    show ?thesis unfolding timed_def m upd_simps using t assms(7,8) [OF b] unfolding timed_def by blast
  qed
  ultimately show ?thesis by (simp add: co_inv_def)
qed

lemma inv_cc:
  assumes "co_inv b A Q w" and "cc_ticks (f (cc w p)) = cc_ticks (cc w p)"
  shows "co_inv b A Q (upd_cc p f w)"
  using assms unfolding co_inv_def co_wf_def timed_def ready_co_def by auto

end
