(* ===== verification/Callout_Ops.thy ===== *)
theory Callout_Ops
  imports Callout_Correct
begin

text \<open>Every operation keeps the invariant.\<close>

section \<open>Changes in place\<close>

lemma in_time_mono: "in_time t i d \<Longrightarrow> d \<le> d' \<Longrightarrow> in_time t i d'"
  unfolding in_time_def using le_trans by blast

lemma inv_same:
  assumes "co_inv b A Q w" and "c_magic (f (co w c)) = c_magic (co w c)" and "c_cpu (f (co w c)) = c_cpu (co w c)"
    and "bit (c_flags (f (co w c))) 1 = pend w c" and "queued Q c \<Longrightarrow> ready_co (upd_co c f w) c"
    and "b \<Longrightarrow> queued Q c \<Longrightarrow> unat (c_time (f (co w c))) < 2 ^ 31 \<and> unat (c_time (co w c)) \<le> unat (c_time (f (co w c)))"
  shows "co_inv b A Q (upd_co c f w)"
proof -
  let ?w = "upd_co c f w"
  have r: "ready_co ?w d" if "d \<in> set (Q h)" for d h
    using that assms(5) inv_queued [OF assms(1) that] by (cases "d = c") (auto simp: ready_co_def queued_def)
  have "c_cpu (co ?w d) = c_cpu (co w d)" "c_magic (co ?w d) = c_magic (co w d)" "pend ?w d = pend w d" for d
    using assms(2-4) by (cases "d = c"; simp)+
  then have "co_wf A Q ?w" using assms(1) r unfolding co_inv_def co_wf_def by simp
  moreover have "timed Q ?w" if b: b
  proof -
    have t: "timed Q w" using assms(1) b by (simp add: co_inv_def)
    have u: "unat (c_time (co ?w d)) < 2 ^ 31 \<and> unat (c_time (co w d)) \<le> unat (c_time (co ?w d))" if "d \<in> set (Q h)" for d h
    proof (cases "d = c")
      case True
      then show ?thesis using assms(6) [OF b] that by (auto simp: queued_def)
    next
      case False
      then show ?thesis using t that unfolding timed_def by auto
    qed
    show ?thesis unfolding timed_def
    proof (intro conjI allI impI)
      show "unat (cc_ticks (cc ?w p)) < 2 ^ 31" if "cpu_callout ?w p" for p using t that by (simp add: timed_def)
      show "unat (c_time (co ?w d)) < 2 ^ 31" if "d \<in> set (Q h)" for d h using u [OF that] by blast
      show "in_time (unat (cc_ticks (cc ?w p))) i (unat (c_time (co ?w d)))" if "d \<in> set (Q (Wheel p i))" for p i d
      proof (rule in_time_mono)
        show "in_time (unat (cc_ticks (cc ?w p))) i (unat (c_time (co w d)))" using t that by (simp add: timed_def)
      qed (use u [OF that] in blast)
    qed
  qed
  ultimately show ?thesis by (simp add: co_inv_def)
qed

section \<open>Cancelling\<close>

text \<open>What an operation on a callout leaves alone.\<close>

definition other_same :: "cid \<Rightarrow> callouts \<Rightarrow> callouts \<Rightarrow> bool" where
  "other_same c w w' \<longleftrightarrow> cc w' = cc w \<and> cpu_callout w' = cpu_callout w \<and> (\<forall>d. d \<noteq> c \<longrightarrow> co w' d = co w d) \<and>
     (bound w' c \<longleftrightarrow> bound w c) \<and> (bound w c \<longrightarrow> c_cpu (co w' c) = c_cpu (co w c))"

lemma cancel_inv:
  assumes "co_inv b A Q w" and "c \<in> A"
  shows "\<exists>Q'. co_inv b A Q' (callout_cancel c w)" "other_same c w (callout_cancel c w)" "\<not> pend (callout_cancel c w) c"
    "c_cpu (co (callout_cancel c w) c) = c_cpu (co w c)" "c_magic (co (callout_cancel c w) c) = c_magic (co w c)"
proof -
  let ?f = "\<lambda>x :: callout_impl. x\<lparr>c_flags := c_flags x AND NOT (CALLOUT_PENDING OR CALLOUT_FIRED)\<rparr>"
  note L = inv_live [OF assms]
  have "\<exists>Q'. co_inv b (A - {c}) Q' (if pend w c then lk (CIRCQ_REMOVE (Elem c)) w else w)"
  proof (cases "pend w c")
    case True
    then obtain h where "c \<in> set (Q h)" using L by (auto simp: queued_def)
    then show ?thesis using inv_take [OF assms(1)] True by auto
  next
    case False
    then show ?thesis using inv_drop [OF assms(1)] L by auto
  qed
  then obtain Q' where Q: "co_inv b (A - {c}) Q' (if pend w c then lk (CIRCQ_REMOVE (Elem c)) w else w)" by blast
  have e: "callout_cancel c w = upd_co c ?f (if pend w c then lk (CIRCQ_REMOVE (Elem c)) w else w)" by (simp add: callout_cancel_def flags)
  show "other_same c w (callout_cancel c w)" "\<not> pend (callout_cancel c w) c" "c_cpu (co (callout_cancel c w) c) = c_cpu (co w c)"
    "c_magic (co (callout_cancel c w) c) = c_magic (co w c)" unfolding e other_same_def by (auto simp: flags)
  have "co_inv b (A - {c}) Q' (callout_cancel c w)" unfolding e using Q by (rule inv_change) simp
  then have "co_inv b (insert c A) Q' (callout_cancel c w)" by (rule inv_add) (use L in \<open>auto simp: e flags\<close>)
  then show "\<exists>Q'. co_inv b A Q' (callout_cancel c w)" using assms(2) by (auto simp: insert_absorb)
qed

section \<open>Scheduling\<close>

lemma sint_diff: "unat a < 2 ^ 31 \<Longrightarrow> unat b < 2 ^ 31 \<Longrightarrow> sint (a - b :: u32) = int (unat a) - int (unat b)"
proof -
  assume "unat a < 2 ^ 31" "unat b < 2 ^ 31"
  moreover have "signed_take_bit 31 (int m - int n) = int m - int n" if "m < 2 ^ 31" "n < 2 ^ 31" for m n :: nat
    using that by (intro signed_take_bit_int_eq_self) simp_all
  ultimately have "signed_take_bit 31 (int (unat a) - int (unat b)) = int (unat a) - int (unat b)" by blast
  moreover have "a - b = word_of_int (int (unat a) - int (unat b))" by simp
  moreover have "sint (word_of_int k :: u32) = signed_take_bit 31 k" for k by (simp add: signed_of_int)
  ultimately show ?thesis by metis
qed

lemma unat_add_31: "unat a + unat b < 2 ^ 31 \<Longrightarrow> unat (a + b :: u32) = unat a + unat b"
  by (rule unat_add_lem [THEN iffD1]) simp

definition sched_post :: "bool \<Rightarrow> cid set \<Rightarrow> cid \<Rightarrow> u32 \<Rightarrow> callouts \<Rightarrow> callouts \<Rightarrow> bool" where
  "sched_post b A c to_ticks w w' \<longleftrightarrow> (\<exists>Q. co_inv b A Q w') \<and> other_same c w w' \<and> pend w' c \<and>
     c_time (co w' c) = to_ticks + cc_ticks (cc w (c_cpu (co w' c))) \<and> c_func (co w' c) = c_func (co w c) \<and> c_arg (co w' c) = c_arg (co w c)"

lemma sched_enqueue:
  assumes i: "co_inv b A Q w" and c: "c \<in> A" "\<not> pend w c" "c_func (co w c) \<noteq> None" and p: "cpu_callout w p" "bound w c \<Longrightarrow> p = c_cpu (co w c)"
    and t: "b \<Longrightarrow> unat to_ticks + unat (cc_ticks (cc w p)) < 2 ^ 31"
    and f: "f = (\<lambda>x. x\<lparr>c_flags := c_flags x AND NOT (CALLOUT_FIRED OR CALLOUT_INVOKING) OR CALLOUT_PENDING, c_cpu := p, c_time := to_ticks + cc_ticks (cc w p)\<rparr>)"
  shows "sched_post b A c to_ticks w (lk (CIRCQ_INSERT (Elem c) (Head (Todo p))) (upd_co c f w))"
proof -
  have "\<not> queued Q c" using inv_live [OF i c(1)] c(2) by simp
  then have "co_inv b (A - {c}) Q (upd_co c f w)" using inv_change [OF inv_drop [OF i]] by simp
  then have "co_inv b (insert c A) (Q(Todo p := Q (Todo p) @ [c])) (lk (CIRCQ_INSERT (Elem c) (Head (Todo p))) (upd_co c f w))"
    by (rule inv_put) (use inv_live [OF i c(1)] c(3) p(1) t unat_add_31 [of to_ticks "cc_ticks (cc w p)"] in \<open>auto simp: f ready_co_def flags\<close>)
  then have "\<exists>Q. co_inv b A Q (lk (CIRCQ_INSERT (Elem c) (Head (Todo p))) (upd_co c f w))" using c(1) by (auto simp: insert_absorb)
  then show ?thesis using p(2) unfolding sched_post_def other_same_def by (auto simp: f flags)
qed

lemma schedule_inv:
  assumes i: "co_inv b A Q w" and c: "c \<in> A" "c_func (co w c) \<noteq> None" and t: "0 \<le> sint to_ticks" and p: "cpu_callout w curcpu"
    and bd: "b \<Longrightarrow> \<forall>p. cpu_callout w p \<longrightarrow> unat to_ticks + unat (cc_ticks (cc w p)) < 2 ^ 31"
  shows "\<exists>w'. callout_schedule_locked curcpu te c to_ticks w = Some w' \<and> sched_post b A c to_ticks w w'"
proof -
  note L = inv_live [OF i c(1)]
  let ?occ = "c_cpu (co w c)"
  let ?g = "\<lambda>x :: callout_impl. x\<lparr>c_flags := c_flags x AND NOT (CALLOUT_FIRED OR CALLOUT_INVOKING)\<rparr>"
  let ?new = "to_ticks + cc_ticks (cc w ?occ)"
  show ?thesis
  proof (cases "pend w c")
    case False
    let ?q = "if bound w c \<or> curcpu = ?occ \<or> \<not> te then ?occ else curcpu"
    let ?f = "\<lambda>x :: callout_impl. x\<lparr>c_flags := c_flags x AND NOT (CALLOUT_FIRED OR CALLOUT_INVOKING) OR CALLOUT_PENDING, c_cpu := ?q, c_time := to_ticks + cc_ticks (cc w ?q)\<rparr>"
    have e: "callout_schedule_locked curcpu te c to_ticks w = Some (lk (CIRCQ_INSERT (Elem c) (Head (Todo ?q))) (upd_co c ?f w))"
      using c t p False by (auto simp: callout_schedule_locked_def Let_def flags upd_co_def lk_def fun_upd_def fun_eq_iff)
    have "sched_post b A c to_ticks w (lk (CIRCQ_INSERT (Elem c) (Head (Todo ?q))) (upd_co c ?f w))"
      by (rule sched_enqueue [OF i c(1) False c(2)]) (use L p bd in auto)
    then show ?thesis using e by blast
  next
    case True
    let ?f = "\<lambda>x :: callout_impl. x\<lparr>c_flags := c_flags x AND NOT (CALLOUT_FIRED OR CALLOUT_INVOKING), c_time := ?new\<rparr>"
    let ?w = "upd_co c ?f w"
    obtain h where h: "c \<in> set (Q h)" using L True by (auto simp: queued_def)
    have hc: "ready_co w c" "?occ = head_cpu h" using inv_queued [OF i h] by auto
    have u: "unat ?new < 2 ^ 31" "unat (c_time (co w c)) < 2 ^ 31" if b
      using that bd L unat_add_31 [of to_ticks "cc_ticks (cc w ?occ)"] i h by (auto simp: co_inv_def timed_def)
    have e: "callout_schedule_locked curcpu te c to_ticks w = Some (if sint (?new - c_time (co w c)) < 0
        then lk (CIRCQ_INSERT (Elem c) (Head (Todo ?occ))) (lk (CIRCQ_REMOVE (Elem c)) ?w) else ?w)"
      using c t True by (simp add: callout_schedule_locked_def Let_def flags upd_co_def lk_def)
    have cm: "lk (CIRCQ_REMOVE (Elem c)) ?w = upd_co c ?f (lk (CIRCQ_REMOVE (Elem c)) w)" by (simp add: lk_def upd_co_def)
    have o: "other_same c w ?w" "pend ?w c" "c_time (co ?w c) = ?new" "c_cpu (co ?w c) = ?occ" using True by (auto simp: other_same_def flags)
    show ?thesis
    proof (cases "sint (?new - c_time (co w c)) < 0")
      case earlier: True
      have "co_inv b (A - {c}) (Q(h := remove1 c (Q h))) (lk (CIRCQ_REMOVE (Elem c)) ?w)"
        unfolding cm using inv_take [OF i h] by (rule inv_change) simp
      then have "co_inv b (insert c A) ((Q(h := remove1 c (Q h)))(Todo ?occ := (Q(h := remove1 c (Q h))) (Todo ?occ) @ [c]))
          (lk (CIRCQ_INSERT (Elem c) (Head (Todo ?occ))) (lk (CIRCQ_REMOVE (Elem c)) ?w))"
        by (rule inv_put) (use L True hc(1) u in \<open>auto simp: ready_co_def flags\<close>)
      then show ?thesis using e earlier o c(1) by (auto simp: sched_post_def other_same_def insert_absorb)
    next
      case False
      have "co_inv b A Q ?w"
      proof (rule inv_same [OF i])
        show "ready_co ?w c" using hc(1) by (simp add: ready_co_def flags)
        show "unat (c_time (?f (co w c))) < 2 ^ 31 \<and> unat (c_time (co w c)) \<le> unat (c_time (?f (co w c)))" if b
        proof -
          have "\<not> int (unat ?new) - int (unat (c_time (co w c))) < 0" using sint_diff [OF u [OF that]] False by argo
          then have "unat (c_time (co w c)) \<le> unat ?new" by linarith
          then show ?thesis using u [OF that] by simp
        qed
      qed (use True in \<open>simp_all add: flags\<close>)
      then show ?thesis using e False o by (auto simp: sched_post_def)
    qed
  qed
qed

section \<open>The hard clock\<close>

text \<open>Emptying a bucket onto the worklist.\<close>

lemma inv_move:
  assumes "co_inv b A Q w" and "cpu_callout w p" and "i < BUCKETS"
  shows "co_inv b A (Q(Todo p := Q (Todo p) @ Q (Wheel p i), Wheel p i := [])) (lk (CIRCQ_APPEND (Head (Todo p)) (Head (Wheel p i))) w)"
proof -
  let ?Q = "Q(Todo p := Q (Todo p) @ Q (Wheel p i), Wheel p i := [])" and ?w = "lk (CIRCQ_APPEND (Head (Todo p)) (Head (Wheel p i))) w"
  have r: "rep (heads ?w) (links ?w) ?Q" using cq.app_rp [OF inv_rep [OF assms(1)], of "Todo p" "Wheel p i"] assms by (simp add: cq_app_def)
  have m: "\<exists>h. d \<in> set (Q h) \<and> head_cpu h = head_cpu g \<and> (\<forall>p i. g = Wheel p i \<longrightarrow> h = g)" if "d \<in> set (?Q g)" for d g
  proof (cases "g = Todo p")
    case True
    then have "d \<in> set (Q (Todo p)) \<or> d \<in> set (Q (Wheel p i))" using that by simp
    then show ?thesis using True by fastforce
  next
    case False
    then show ?thesis using that by (auto split: if_splits)
  qed
  have q: "queued ?Q d \<longleftrightarrow> queued Q d" for d
  proof
    show "queued ?Q d \<Longrightarrow> queued Q d" using m unfolding queued_def by blast
    assume "queued Q d"
    then obtain h where h: "d \<in> set (Q h)" by (auto simp: queued_def)
    then have "d \<in> set (?Q (if h = Wheel p i then Todo p else h))" by auto
    then show "queued ?Q d" unfolding queued_def by blast
  qed
  have k: "d \<in> A \<and> ready_co w d \<and> c_cpu (co w d) = head_cpu g" if "d \<in> set (?Q g)" for d g
    using m [OF that] inv_queued [OF assms(1), of d] by metis
  have "ready_co ?w d = ready_co w d" for d by (simp add: ready_co_def)
  then have "co_wf A ?Q ?w" using r k q inv_live [OF assms(1)] unfolding co_wf_def upd_simps by blast
  moreover have "timed ?Q ?w" if b
  proof -
    have "timed Q w" using assms(1) that by (simp add: co_inv_def)
    then show ?thesis unfolding timed_def upd_simps using m by blast
  qed
  ultimately show ?thesis by (simp add: co_inv_def)
qed

lemma MASKWHEEL_less: "k \<le> 3 \<Longrightarrow> MASKWHEEL k t + k * WHEELSIZE < BUCKETS"
proof -
  assume k: "k \<le> 3"
  have "MASKWHEEL k t < 256" using MASKWHEEL_div [OF k, of t] by simp
  then show ?thesis using k unfolding BUCKETS_def WHEELSIZE_def by linarith
qed

text \<open>The queues after one bucket, and after all that a tick empties.\<close>

definition moved :: "cpu \<Rightarrow> nat \<Rightarrow> u32 \<Rightarrow> queues \<Rightarrow> queues" where
  "moved p k t Q = (let i = MASKWHEEL k t + k * WHEELSIZE in Q(Todo p := Q (Todo p) @ Q (Wheel p i), Wheel p i := []))"

lemma inv_moved: "co_inv b A Q w \<Longrightarrow> cpu_callout w p \<Longrightarrow> k \<le> 3 \<Longrightarrow> co_inv b A (moved p k t Q) (lk (MOVEBUCKET p k t) w)"
  unfolding moved_def MOVEBUCKET_def Let_def by (rule inv_move) (auto intro: MASKWHEEL_less)

lemma moved_empty: "k \<le> 3 \<Longrightarrow> moved p k t Q (Wheel p (MASKWHEEL k t + k * WHEELSIZE)) = []"
  by (simp add: moved_def Let_def)

lemma moved_wheel: "set (moved p k t Q (Wheel p' i)) \<subseteq> set (Q (Wheel p' i))"
  by (auto simp: moved_def Let_def)

text \<open>Advancing the clock while each bucket whose turn it is at the new tick is empty.\<close>

lemma inv_tick:
  assumes i: "co_inv b A Q w" and t: "b \<Longrightarrow> unat (cc_ticks (cc w p)) + 1 < 2 ^ 31"
    and e: "\<And>i. b \<Longrightarrow> moves i (unat (cc_ticks (cc w p)) + 1) \<Longrightarrow> Q (Wheel p i) = []"
  shows "co_inv b A Q (upd_cc p (\<lambda>x. x\<lparr>cc_ticks := cc_ticks x + 1\<rparr>) w)" (is "co_inv b A Q ?w")
proof -
  have "co_wf A Q w" using i by (simp add: co_inv_def)
  then have "co_wf A Q ?w" by (simp add: co_wf_def ready_co_def)
  moreover have "timed Q ?w" if b: b
  proof -
    have u: "unat (cc_ticks (cc w p) + 1) = unat (cc_ticks (cc w p)) + 1" using t [OF b] unat_add_31 [of "cc_ticks (cc w p)" 1] by simp
    have T: "timed Q w" using i b by (simp add: co_inv_def)
    show ?thesis unfolding timed_def
    proof (intro conjI allI impI)
      fix q assume "cpu_callout ?w q"
      then show "unat (cc_ticks (cc ?w q)) < 2 ^ 31" using T t [OF b] u by (auto simp: timed_def)
    next
      fix c h assume "c \<in> set (Q h)"
      then show "unat (c_time (co ?w c)) < 2 ^ 31" using T unfolding timed_def upd_simps by blast
    next
      fix q j c assume c: "c \<in> set (Q (Wheel q j))"
      have I: "in_time (unat (cc_ticks (cc w q))) j (unat (c_time (co w c)))" using T c by (simp add: timed_def)
      show "in_time (unat (cc_ticks (cc ?w q))) j (unat (c_time (co ?w c)))"
      proof (cases "q = p")
        case False
        then show ?thesis using I by simp
      next
        case True
        obtain T' where T': "unat (cc_ticks (cc w p)) < T'" "T' \<le> unat (c_time (co w c))" "moves j T'" using I True by (auto simp: in_time_def)
        have "T' \<noteq> unat (cc_ticks (cc w p)) + 1" using e [OF b, of j] T'(3) c True by auto
        then have "unat (cc_ticks (cc w p)) + 1 < T'" using T'(1) by simp
        then show ?thesis using True T' u by (auto simp: in_time_def)
      qed
    qed
  qed
  ultimately show ?thesis by (simp add: co_inv_def)
qed

definition tick_queues :: "cpu \<Rightarrow> u32 \<Rightarrow> queues \<Rightarrow> queues" where
  "tick_queues p t Q =
     (let Q = moved p 0 t Q in if MASKWHEEL 0 t = 0 then
        let Q = moved p 1 t Q in if MASKWHEEL 1 t = 0 then
          let Q = moved p 2 t Q in if MASKWHEEL 2 t = 0 then moved p 3 t Q else Q
        else Q else Q)"

lemma zero_digit: "T mod 2 ^ (8 * k) = 0 \<Longrightarrow> j < k \<Longrightarrow> (T div 2 ^ (8 * j)) mod 256 = (0::nat)"
proof -
  assume T: "T mod 2 ^ (8 * k) = 0" and "j < k"
  then obtain n where n: "k = j + Suc n" using less_iff_Suc_add by auto
  obtain m where m: "T = 2 ^ (8 * k) * m" using T by (auto simp: mod_eq_0_iff_dvd)
  have "2 ^ (8 * k) = 2 ^ (8 * j) * (256 * 2 ^ (8 * n) :: nat)" by (simp add: n power_add)
  then have "T div 2 ^ (8 * j) = 256 * (2 ^ (8 * n) * m)" using m by (simp add: mult.assoc)
  then show ?thesis by simp
qed

lemma tick_queues_empty:
  assumes "moves i (unat t)"
  shows "tick_queues p t Q (Wheel p i) = []"
proof -
  let ?k = "i div 256"
  have k: "?k \<le> 3" "unat t mod 2 ^ (8 * ?k) = 0" "(unat t div 2 ^ (8 * ?k)) mod 256 = i mod 256" using assms by (auto simp: moves_def Let_def)
  have i: "i = MASKWHEEL ?k t + ?k * WHEELSIZE" using k(3) MASKWHEEL_div [OF k(1), of t] by (simp add: WHEELSIZE_def)
  have z: "MASKWHEEL j t = 0" if "j < ?k" for j using zero_digit [OF k(2) that] MASKWHEEL_div [of j t] that k(1) by simp
  have e: "moved p ?k t Q' (Wheel p i) = []" for Q' using moved_empty [OF k(1), of p t Q'] i by simp
  have s: "moved p k t Q' (Wheel p i) = []" if "Q' (Wheel p i) = []" for k Q' using moved_wheel [of p k t Q' p i] that by simp
  consider "?k = 0" | "?k = 1" | "?k = 2" | "?k = 3" using k(1) by linarith
  then show ?thesis by cases (use e s z [of 0] z [of 1] z [of 2] in \<open>auto simp: tick_queues_def Let_def\<close>)
qed

lemma hardclock_inv:
  assumes i: "co_inv b A Q w" and p: "cpu_callout w p" and t: "b \<Longrightarrow> unat (cc_ticks (cc w p)) + 1 < 2 ^ 31"
  shows "\<exists>Q'. co_inv b A Q' (snd (callout_hardclock p w)) \<and> (fst (callout_hardclock p w) \<longleftrightarrow> Q' (Todo p) \<noteq> [])"
    "co (snd (callout_hardclock p w)) = co w" "cpu_callout (snd (callout_hardclock p w)) = cpu_callout w"
    "cc (snd (callout_hardclock p w)) = (cc w)(p := (cc w p)\<lparr>cc_ticks := cc_ticks (cc w p) + 1\<rparr>)"
proof -
  let ?t = "cc_ticks (cc w p) + 1"
  define g where "g = (\<lambda>q. let q = MOVEBUCKET p 0 ?t q in if MASKWHEEL 0 ?t = 0 then
        let q = MOVEBUCKET p 1 ?t q in if MASKWHEEL 1 ?t = 0 then
          let q = MOVEBUCKET p 2 ?t q in if MASKWHEEL 2 ?t = 0 then MOVEBUCKET p 3 ?t q else q
        else q else q)"
  let ?w = "upd_cc p (\<lambda>x. x\<lparr>cc_ticks := cc_ticks x + 1\<rparr>) (lk g w)"
  have w: "callout_hardclock p w = (\<not> CIRCQ_EMPTY (Head (Todo p)) (links ?w), ?w)"
    by (simp add: callout_hardclock_def Let_def g_def lk_def upd_cc_def)
  have c: "lk f (lk f' v) = lk (\<lambda>q. f (f' q)) v" for f f' v by (simp add: lk_def)
  have I: "co_inv b A (tick_queues p ?t Q) (lk g w)"
  proof -
    have 0: "co_inv b A (moved p 0 ?t Q) (lk (MOVEBUCKET p 0 ?t) w)" (is "co_inv b A ?Q0 ?w0") using i p by (rule inv_moved) simp
    have 1: "co_inv b A (moved p 1 ?t ?Q0) (lk (MOVEBUCKET p 1 ?t) ?w0)" (is "co_inv b A ?Q1 ?w1") using 0 by (rule inv_moved) (simp_all add: p)
    have 2: "co_inv b A (moved p 2 ?t ?Q1) (lk (MOVEBUCKET p 2 ?t) ?w1)" (is "co_inv b A ?Q2 ?w2") using 1 by (rule inv_moved) (simp_all add: p)
    have 3: "co_inv b A (moved p 3 ?t ?Q2) (lk (MOVEBUCKET p 3 ?t) ?w2)" using 2 by (rule inv_moved) (simp_all add: p)
    show ?thesis unfolding tick_queues_def g_def Let_def
      by (cases "MASKWHEEL 0 ?t = 0"; cases "MASKWHEEL 1 ?t = 0"; cases "MASKWHEEL 2 ?t = 0") (use 0 1 2 3 in \<open>simp_all add: c\<close>)
  qed
  have T: "co_inv b A (tick_queues p ?t Q) ?w"
  proof (rule inv_tick [OF I])
    show "unat (cc_ticks (cc (lk g w) p)) + 1 < 2 ^ 31" if b using t [OF that] by simp
    fix j assume b: b and "moves j (unat (cc_ticks (cc (lk g w) p)) + 1)"
    then have "moves j (unat ?t)" using t [OF b] unat_add_31 [of "cc_ticks (cc w p)" 1] by simp
    then show "tick_queues p ?t Q (Wheel p j) = []" by (rule tick_queues_empty)
  qed
  have "CIRCQ_EMPTY (Head (Todo p)) (links ?w) \<longleftrightarrow> tick_queues p ?t Q (Todo p) = []"
    using cq.emp_rp [OF inv_rep [OF T], of "Todo p"] p by (simp add: cq_emp_def)
  then show "\<exists>Q'. co_inv b A Q' (snd (callout_hardclock p w)) \<and> (fst (callout_hardclock p w) \<longleftrightarrow> Q' (Todo p) \<noteq> [])"
    using T w by auto
  show "co (snd (callout_hardclock p w)) = co w" "cpu_callout (snd (callout_hardclock p w)) = cpu_callout w"
    "cc (snd (callout_hardclock p w)) = (cc w)(p := (cc w p)\<lparr>cc_ticks := cc_ticks (cc w p) + 1\<rparr>)" unfolding w by simp_all
qed

section \<open>The soft interrupt\<close>

lemma BUCKET_head: "\<exists>i < BUCKETS. BUCKET p rel t = Head (Wheel p i)"
  using MASKWHEEL_less [of 0 t] MASKWHEEL_less [of 1 t] MASKWHEEL_less [of 2 t] MASKWHEEL_less [of 3 t] by (simp add: BUCKET_def)

definition soft_frame :: "cpu \<Rightarrow> callouts \<Rightarrow> callouts \<Rightarrow> bool" where
  "soft_frame p w w' \<longleftrightarrow> cpu_callout w' = cpu_callout w \<and> (\<forall>q. q \<noteq> p \<longrightarrow> cc w' q = cc w q) \<and>
     cc_ticks (cc w' p) = cc_ticks (cc w p) \<and> cc_nwait (cc w' p) = cc_nwait (cc w p) \<and> cc_sleepq (cc w' p) = cc_sleepq (cc w p)"

text \<open>The loop ends with no work left, or calls the function of a callout that is due.\<close>

fun soft_post :: "cpu \<Rightarrow> callouts \<Rightarrow> call option \<Rightarrow> callouts \<Rightarrow> queues \<Rightarrow> bool" where
  "soft_post p w None w' Q' \<longleftrightarrow> Q' (Todo p) = [] \<and> co w' = co w \<and> cc_lwp (cc w' p) = None \<and> cc_active (cc w' p) = cc_active (cc w p)"
| "soft_post p w (Some (c, f, a, m)) w' Q' \<longleftrightarrow> pend w c \<and> c_cpu (co w c) = p \<and> sint (c_time (co w c)) \<le> sint (cc_ticks (cc w p)) \<and>
     f = c_func (co w c) \<and> f \<noteq> None \<and> a = c_arg (co w c) \<and> (m \<longleftrightarrow> bit (c_flags (co w c)) 8) \<and>
     co w' = (co w)(c := (co w c)\<lparr>c_flags := c_flags (co w c) AND NOT CALLOUT_PENDING OR (CALLOUT_FIRED OR CALLOUT_INVOKING)\<rparr>) \<and>
     cc_lwp (cc w' p) = cc_lwp (cc w p) \<and> cc_active (cc w' p) = Some c"

lemma soft_loop_inv:
  assumes "co_inv b A Q w" and "cpu_callout w p"
  shows "\<exists>r w' Q'. soft_loop p w = Some (r, w') \<and> co_inv b A Q' w' \<and> soft_frame p w w' \<and> soft_post p w r w' Q' \<and>
    (\<forall>f. r = Some f \<longrightarrow> fst f \<in> A)"
  using assms
proof (induction "length (Q (Todo p))" arbitrary: Q w)
  case 0
  then have e: "Q (Todo p) = []" by simp
  then have "CIRCQ_EMPTY (Head (Todo p)) (links w)" using cq.emp_rp [OF inv_rep [OF 0(2)], of "Todo p"] 0(3) by (simp add: cq_emp_def)
  then have "soft_loop p w = Some (None, upd_cc p (\<lambda>x. x\<lparr>cc_lwp := None\<rparr>) w)" by (subst soft_loop.simps) simp
  moreover have "co_inv b A Q (upd_cc p (\<lambda>x. x\<lparr>cc_lwp := None\<rparr>) w)" using 0(2) by (rule inv_cc) simp
  ultimately show ?case using e by (auto simp: soft_frame_def)
next
  case (Suc n)
  then have ne: "Q (Todo p) \<noteq> []" by auto
  let ?c = "hd (Q (Todo p))"
  let ?x = "co w ?c" and ?t = "cc_ticks (cc w p)"
  let ?w = "lk (CIRCQ_REMOVE (Elem ?c)) w"
  let ?Q = "Q(Todo p := remove1 ?c (Q (Todo p)))"
  have m: "?c \<in> set (Q (Todo p))" using ne by simp
  have c: "?c \<in> A" "ready_co w ?c" "c_cpu ?x = p" using inv_queued [OF Suc.prems(1) m] by auto
  have q: "queued Q ?c" using m by (auto simp: queued_def)
  have L: "c_magic ?x = CALLOUT_MAGIC" "pend w ?c" using inv_live [OF Suc.prems(1) c(1)] q by auto
  have "\<not> CIRCQ_EMPTY (Head (Todo p)) (links w)" "CIRCQ_FIRST (Head (Todo p)) (links w) = Elem ?c"
    using cq.emp_rp [OF inv_rep [OF Suc.prems(1)], of "Todo p"] cq.fst_rp [OF inv_rep [OF Suc.prems(1)], of "Todo p"] Suc.prems(2) ne
    by (simp_all add: cq_emp_def cq_fst_def)
  then have e: "soft_loop p w = (if sint (c_time ?x) > sint ?t then soft_loop p (lk (CIRCQ_INSERT (Elem ?c) (BUCKET p (c_time ?x - ?t) (c_time ?x))) ?w)
      else let (f, w) = soft_fire p ?c ?w in Some (Some f, w))"
    using L c by (subst soft_loop.simps) (auto simp: ready_co_def flags Let_def)
  have T: "co_inv b (A - {?c}) ?Q ?w" by (rule inv_take [OF Suc.prems(1) m])
  show ?case
  proof (cases "sint (c_time ?x) > sint ?t")
    case True
    obtain i where i: "BUCKET p (c_time ?x - ?t) (c_time ?x) = Head (Wheel p i)" "i < BUCKETS" using BUCKET_head by blast
    let ?w2 = "lk (CIRCQ_INSERT (Elem ?c) (Head (Wheel p i))) ?w" and ?Q2 = "?Q(Wheel p i := ?Q (Wheel p i) @ [?c])"
    have u: "unat (c_time ?x) < 2 ^ 31" "in_time (unat ?t) i (unat (c_time ?x))" if b: b
    proof -
      have s: "unat (c_time ?x) < 2 ^ 31" "unat ?t < 2 ^ 31" using Suc.prems b m by (auto simp: co_inv_def timed_def)
      then have "unat ?t < unat (c_time ?x)" using True sint_small by (metis of_nat_less_iff)
      then show "in_time (unat ?t) i (unat (c_time ?x))" using BUCKET_in_time [OF _ s(1), of ?t p] i(1) by (metis circq.inject(1) head.inject(2))
      show "unat (c_time ?x) < 2 ^ 31" by (rule s)
    qed
    have "co_inv b (insert ?c A) ?Q2 ?w2"
      by (rule inv_put [OF T]) (use L c i Suc.prems(2) u in \<open>auto simp: ready_co_def\<close>)
    then have I: "co_inv b A ?Q2 ?w2" using c(1) by (simp add: insert_absorb)
    have "n = length (?Q2 (Todo p))" using Suc.hyps(2) m by (simp add: length_remove1)
    from Suc.hyps(1) [OF this I] Suc.prems(2) obtain r w' Q' where
      R: "soft_loop p ?w2 = Some (r, w')" "co_inv b A Q' w'" "soft_frame p ?w2 w'" "soft_post p ?w2 r w' Q'"
      "\<forall>f. r = Some f \<longrightarrow> fst f \<in> A" by auto
    have "soft_frame p w w'" using R(3) by (simp add: soft_frame_def)
    moreover have "soft_post p w r w' Q'" using R(4) by (cases r) auto
    ultimately show ?thesis using R(1,2,5) e True i(1) by auto
  next
    case False
    let ?f = "\<lambda>x :: callout_impl. x\<lparr>c_flags := c_flags x AND NOT CALLOUT_PENDING OR (CALLOUT_FIRED OR CALLOUT_INVOKING)\<rparr>"
    let ?l = "if sint (c_time ?x) < sint ?t then upd_cc p (\<lambda>x. x\<lparr>cc_ev_late := cc_ev_late x + 1\<rparr>) ?w else ?w"
    let ?w2 = "upd_cc p (\<lambda>y. y\<lparr>cc_active := Some ?c\<rparr>) (upd_co ?c ?f ?l)"
    let ?r = "(?c, c_func ?x, c_arg ?x, bit (c_flags ?x) 8)"
    have "soft_fire p ?c ?w = (?r, ?w2)" by (auto simp: soft_fire_def Let_def flags)
    then have s: "soft_loop p w = Some (Some ?r, ?w2)" using e False by simp
    have "co_inv b (A - {?c}) ?Q ?l" using T inv_cc [OF T] by simp
    then have "co_inv b (A - {?c}) ?Q (upd_co ?c ?f ?l)" by (rule inv_change) simp
    then have "co_inv b (insert ?c A) ?Q (upd_co ?c ?f ?l)" by (rule inv_add) (use L c Suc.prems(2) in \<open>auto simp: flags\<close>)
    then have "co_inv b (insert ?c A) ?Q ?w2" by (rule inv_cc) simp
    then have "co_inv b A ?Q ?w2" using c(1) by (simp add: insert_absorb)
    moreover have "soft_frame p w ?w2" by (simp add: soft_frame_def)
    moreover have "soft_post p w (Some ?r) ?w2 ?Q" using L c False by (simp add: ready_co_def)
    ultimately show ?thesis using s c(1) by auto
  qed
qed

end
