(* ===== verification/Callout_World.thy ===== *)
theory Callout_World
  imports Callout_Ops
begin

text \<open>
  The callouts of any number of CPUs as a system of interleaved steps: calls of the interface, clock ticks, the soft
  interrupt of each CPU, and threads that wait in \<open>callout_halt\<close>.
\<close>

section \<open>The system\<close>

text \<open>
  Where the soft interrupt of a CPU is: not running, in the function of a callout, or between the wake-up of waiting
  threads and its next turn with the lock.  Where a thread is in \<open>callout_halt\<close>: not in it, about to look again, or asleep.
  \<open>sih p\<close> says that the soft interrupt has been scheduled on \<open>p\<close>, and \<open>live\<close> which callouts are initialised.
\<close>

datatype softst = SIdle | SCall call | SWake
datatype hst = HNone | HAgain cid bool | HSleep cid cpu bool

record csys =
  wd :: callouts
  soft :: "cpu \<Rightarrow> softst"
  sih :: "cpu \<Rightarrow> bool"
  halting :: "lwp \<Rightarrow> hst"
  live :: "cid set"

fun halt_next :: "cid \<Rightarrow> halt_result \<Rightarrow> hst" where
  "halt_next c (Halted e) = HNone"
| "halt_next c (Again e) = HAgain c e"
| "halt_next c (Sleep p e) = HSleep c p e"

fun woken :: "hst \<Rightarrow> hst" where
  "woken (HSleep c p e) = HAgain c e"
| "woken h = h"

fun halts_on :: "hst \<Rightarrow> cid option" where
  "halts_on HNone = None"
| "halts_on (HAgain c e) = Some c"
| "halts_on (HSleep c p e) = Some c"

fun soft_next :: "call option \<Rightarrow> softst" where
  "soft_next None = SIdle"
| "soft_next (Some f) = SCall f"

definition soft_done :: "cpu \<Rightarrow> csys \<Rightarrow> call option \<times> callouts \<Rightarrow> csys" where
  "soft_done p s r = s\<lparr>wd := snd r, soft := (soft s)(p := soft_next (fst r))\<rparr>"

text \<open>
  The delays callers may ask for.  With \<open>b\<close> they ask for times before the clock of a CPU has counted \<open>2^31\<close> ticks, and the
  clock does not get there.
\<close>

definition delay_ok :: "bool \<Rightarrow> callouts \<Rightarrow> u32 \<Rightarrow> bool" where
  "delay_ok b w to_ticks \<longleftrightarrow> 0 \<le> sint to_ticks \<and> (b \<longrightarrow> (\<forall>p. cpu_callout w p \<longrightarrow> unat to_ticks + unat (cc_ticks (cc w p)) < 2 ^ 31))"

text \<open>
  The steps.  Callers keep to this: a callout is initialised once, and not while a function called from its memory still
  runs; it is destroyed when it is neither pending nor running elsewhere nor being halted; it has a function when it is
  scheduled.  A step to \<open>None\<close> is a failed assertion.
\<close>

inductive co_step :: "bool \<Rightarrow> csys \<Rightarrow> csys option \<Rightarrow> bool" for b where
  Cpu_up: "\<not> cpu_callout (wd s) p \<Longrightarrow> co_step b s (map_option (\<lambda>w. s\<lparr>wd := w\<rparr>) (callout_init_cpu si p (wd s)))"
| Init: "c \<notin> live s \<Longrightarrow> \<forall>p. cpu_callout (wd s) p \<longrightarrow> cc_active (cc (wd s) p) \<noteq> Some c \<Longrightarrow> flags AND NOT CALLOUT_FLAGMASK = 0 \<Longrightarrow>
    co_step b s (map_option (\<lambda>w. s\<lparr>wd := w, live := insert c (live s)\<rparr>) (callout_init p c flags (wd s)))"
| Destroy: "c \<in> live s \<Longrightarrow> callout_pending c (wd s) = Some False \<Longrightarrow>
    cc_lwp (cc (wd s) (c_cpu (co (wd s) c))) = Some l \<or> cc_active (cc (wd s) (c_cpu (co (wd s) c))) \<noteq> Some c \<Longrightarrow> \<forall>k. halts_on (halting s k) \<noteq> Some c \<Longrightarrow>
    co_step b s (map_option (\<lambda>w. s\<lparr>wd := w, live := live s - {c}\<rparr>) (callout_destroy l c (wd s)))"
| Reset: "c \<in> live s \<Longrightarrow> cpu_callout (wd s) p \<Longrightarrow> delay_ok b (wd s) t \<Longrightarrow>
    co_step b s (map_option (\<lambda>w. s\<lparr>wd := w\<rparr>) (callout_reset p te c t (Some f) a (wd s)))"
| Schedule: "c \<in> live s \<Longrightarrow> c_func (co (wd s) c) \<noteq> None \<Longrightarrow> cpu_callout (wd s) p \<Longrightarrow> delay_ok b (wd s) t \<Longrightarrow>
    co_step b s (map_option (\<lambda>w. s\<lparr>wd := w\<rparr>) (callout_schedule p te c t (wd s)))"
| Stop: "c \<in> live s \<Longrightarrow> co_step b s (map_option (\<lambda>(e, w). s\<lparr>wd := w\<rparr>) (callout_stop c (wd s)))"
| Halt: "c \<in> live s \<Longrightarrow> halting s l = HNone \<Longrightarrow>
    co_step b s (map_option (\<lambda>(r, w). s\<lparr>wd := w, halting := (halting s)(l := halt_next c r)\<rparr>) (callout_halt l c il (wd s)))"
| Halt_again: "halting s l = HAgain c e \<Longrightarrow> halt_pass l c False e (wd s) = (r, w) \<Longrightarrow>
    co_step b s (Some (s\<lparr>wd := w, halting := (halting s)(l := halt_next c r)\<rparr>))"
| Setfunc: "c \<in> live s \<Longrightarrow> co_step b s (map_option (\<lambda>w. s\<lparr>wd := w\<rparr>) (callout_setfunc c (Some f) a (wd s)))"
| Ack: "c \<in> live s \<Longrightarrow> co_step b s (map_option (\<lambda>w. s\<lparr>wd := w\<rparr>) (callout_ack c (wd s)))"
| Hardclock: "cpu_callout (wd s) p \<Longrightarrow> b \<longrightarrow> unat (cc_ticks (cc (wd s) p)) + 1 < 2 ^ 31 \<Longrightarrow> callout_hardclock p (wd s) = (need, w) \<Longrightarrow>
    co_step b s (Some (s\<lparr>wd := w, sih := (sih s)(p := need \<or> sih s p)\<rparr>))"
| Softclock: "cpu_callout (wd s) p \<Longrightarrow> sih s p \<Longrightarrow> soft s p = SIdle \<Longrightarrow>
    co_step b s (map_option (\<lambda>r. (soft_done p s r)\<lparr>sih := (sih s)(p := False)\<rparr>) (softclock_enter l p (wd s)))"
| Return: "soft s p = SCall f \<Longrightarrow> softclock_return p (wd s) = ([], w) \<Longrightarrow> co_step b s (map_option (soft_done p s) (soft_loop p w))"
| Return_wake: "soft s p = SCall f \<Longrightarrow> softclock_return p (wd s) = (ls, w) \<Longrightarrow> ls \<noteq> [] \<Longrightarrow>
    co_step b s (Some (s\<lparr>wd := w, soft := (soft s)(p := SWake), halting := (\<lambda>l. if l \<in> set ls then woken (halting s l) else halting s l)\<rparr>))"
| Relock: "soft s p = SWake \<Longrightarrow> co_step b s (map_option (soft_done p s) (soft_loop p (wd s)))"

text \<open>The system starts with the boot CPU, after \<open>callout_startup\<close> and \<open>callout_init_cpu\<close>, and no callout.\<close>

definition co_init :: "links \<Rightarrow> (cid \<Rightarrow> callout_impl) \<Rightarrow> (cpu \<Rightarrow> callout_cpu) \<Rightarrow> csys option" where
  "co_init q x y =
     map_option (\<lambda>w. \<lparr>wd = w, soft = (\<lambda>_. SIdle), sih = (\<lambda>_. False), halting = (\<lambda>_. HNone), live = {}\<rparr>)
       (Option.bind (callout_startup \<lparr>links = q, co = x, cc = y(0 := zero_cc), cpu_callout = (\<lambda>_. False)\<rparr>) (callout_init_cpu True 0))"

inductive co_reach :: "bool \<Rightarrow> csys \<Rightarrow> bool" for b where
  Start: "co_init q x y = Some s \<Longrightarrow> co_reach b s"
| Step: "co_reach b s \<Longrightarrow> co_step b s (Some s') \<Longrightarrow> co_reach b s'"

section \<open>The invariant of the system\<close>

fun runs :: "softst \<Rightarrow> cid option" where
  "runs (SCall f) = Some (fst f)"
| "runs st = None"

definition cpu_inv :: "bool \<Rightarrow> csys \<Rightarrow> cpu \<Rightarrow> bool" where
  "cpu_inv b s p \<longleftrightarrow> (let x = cc (wd s) p in
     (soft s p = SIdle \<longleftrightarrow> cc_lwp x = None) \<and> cc_active x = runs (soft s p) \<and> cc_nwait x = length (cc_sleepq x) \<and>
     (cc_sleepq x \<noteq> [] \<longrightarrow> runs (soft s p) \<noteq> None) \<and> (\<forall>l. l \<in> set (cc_sleepq x) \<longleftrightarrow> (\<exists>c e. halting s l = HSleep c p e)) \<and>
     (\<forall>c \<in> live s. runs (soft s p) = Some c \<and> bound (wd s) c \<longrightarrow> p = 0) \<and>
     (b \<longrightarrow> soft s p = SIdle \<longrightarrow> \<not> sih s p \<longrightarrow>
       (\<forall>c \<in> live s. pend (wd s) c \<and> c_cpu (co (wd s) c) = p \<longrightarrow> unat (cc_ticks x) \<le> unat (c_time (co (wd s) c)))))"

definition sys_inv :: "bool \<Rightarrow> csys \<Rightarrow> bool" where
  "sys_inv b s \<longleftrightarrow> (\<exists>Q. co_inv b (live s) Q (wd s)) \<and> cpu_callout (wd s) 0 \<and> (\<forall>p. cpu_callout (wd s) p \<longrightarrow> cpu_inv b s p) \<and>
     (\<forall>p. \<not> cpu_callout (wd s) p \<longrightarrow> soft s p = SIdle \<and> \<not> sih s p \<and> (\<forall>l c e. halting s l \<noteq> HSleep c p e)) \<and>
     (\<forall>c \<in> live s. bound (wd s) c \<longrightarrow> c_cpu (co (wd s) c) = 0) \<and> (\<forall>l c. halts_on (halting s l) = Some c \<longrightarrow> c \<in> live s)"

lemma sys_inv_cpu: "sys_inv b s \<Longrightarrow> cpu_callout (wd s) p \<Longrightarrow> cpu_inv b s p"
  by (simp add: sys_inv_def)

text \<open>What the invariant reads of a CPU.\<close>

definition cc_core :: "callout_cpu \<Rightarrow> lwp list \<times> nat \<times> u32 \<times> lwp option \<times> cid option" where
  "cc_core x = (cc_sleepq x, cc_nwait x, cc_ticks x, cc_lwp x, cc_active x)"

text \<open>An operation on one callout.\<close>

lemma sys_co:
  assumes s: "sys_inv b s" and c: "c \<in> live s" and i: "co_inv b (live s) Q w'"
    and cc: "\<forall>p. cc_core (cc w' p) = cc_core (cc (wd s) p)" "cpu_callout w' = cpu_callout (wd s)" "\<forall>d. d \<noteq> c \<longrightarrow> co w' d = co (wd s) d"
    and bd: "bound w' c \<longleftrightarrow> bound (wd s) c" "bound (wd s) c \<longrightarrow> c_cpu (co w' c) = c_cpu (co (wd s) c)"
    and t: "b \<Longrightarrow> pend w' c \<Longrightarrow> unat (cc_ticks (cc (wd s) (c_cpu (co w' c)))) \<le> unat (c_time (co w' c)) \<or>
      pend (wd s) c \<and> c_cpu (co w' c) = c_cpu (co (wd s) c) \<and> unat (c_time (co (wd s) c)) \<le> unat (c_time (co w' c))"
  shows "sys_inv b (s\<lparr>wd := w'\<rparr>)"
proof -
  have B: "bound w' d \<longleftrightarrow> bound (wd s) d" for d using bd(1) cc(3) by (cases "d = c") auto
  have C: "bound w' d \<longrightarrow> c_cpu (co w' d) = 0" if "d \<in> live s" for d
    using that s B bd(2) cc(3) by (cases "d = c") (auto simp: sys_inv_def)
  have "cpu_inv b (s\<lparr>wd := w'\<rparr>) p" if p: "cpu_callout (wd s) p" for p
  proof -
    have e: "cc_sleepq (cc w' p) = cc_sleepq (cc (wd s) p)" "cc_nwait (cc w' p) = cc_nwait (cc (wd s) p)" "cc_ticks (cc w' p) = cc_ticks (cc (wd s) p)"
      "cc_lwp (cc w' p) = cc_lwp (cc (wd s) p)" "cc_active (cc w' p) = cc_active (cc (wd s) p)" using cc(1) by (simp_all add: cc_core_def)
    note I = sys_inv_cpu [OF s p, unfolded cpu_inv_def Let_def]
    have "unat (cc_ticks (cc (wd s) p)) \<le> unat (c_time (co w' d))"
      if h: "b" "soft s p = SIdle" "\<not> sih s p" "d \<in> live s" "pend w' d" "c_cpu (co w' d) = p" for d
    proof (cases "d = c")
      case True
      then show ?thesis using t h I c by (metis le_trans)
    next
      case False
      then show ?thesis using h I cc(3) by auto
    qed
    then show ?thesis unfolding cpu_inv_def Let_def using I e B by simp
  qed
  then show ?thesis using s i C cc(2) unfolding sys_inv_def by auto
qed

lemma core_refl: "cc w' = cc w \<Longrightarrow> \<forall>p. cc_core (cc w' p) = cc_core (cc w p)"
  by simp

lemma sys_cancel: "sys_inv b s \<Longrightarrow> c \<in> live s \<Longrightarrow> sys_inv b (s\<lparr>wd := callout_cancel c (wd s)\<rparr>)"
proof -
  assume s: "sys_inv b s" "c \<in> live s"
  then obtain Q where Q: "co_inv b (live s) Q (wd s)" by (auto simp: sys_inv_def)
  note C = cancel_inv [OF Q s(2)]
  obtain Q' where "co_inv b (live s) Q' (callout_cancel c (wd s))" using C(1) by blast
  then show ?thesis by (rule sys_co [OF s]) (use C(2,3) in \<open>auto simp: other_same_def\<close>)
qed

lemma sys_sched:
  assumes s: "sys_inv b s" "c \<in> live s" and w: "cc w = cc (wd s)" "cpu_callout w = cpu_callout (wd s)" "\<forall>d. d \<noteq> c \<longrightarrow> co w d = co (wd s) d"
      "bound w c \<longleftrightarrow> bound (wd s) c" "c_cpu (co w c) = c_cpu (co (wd s) c)"
    and t: "delay_ok b (wd s) t" and p: "sched_post b (live s) c t w w'"
  shows "sys_inv b (s\<lparr>wd := w'\<rparr>)"
proof -
  obtain Q where Q: "co_inv b (live s) Q w'" using p by (auto simp: sched_post_def)
  have o: "other_same c w w'" "c_time (co w' c) = t + cc_ticks (cc (wd s) (c_cpu (co w' c)))" using p w(1) by (auto simp: sched_post_def)
  have "cpu_callout (wd s) (c_cpu (co w' c))" using inv_live [OF Q s(2)] o(1) w(2) by (simp add: other_same_def)
  then have "unat (cc_ticks (cc (wd s) (c_cpu (co w' c)))) \<le> unat (c_time (co w' c))" if b
    using t that o(2) unat_add_31 [of t "cc_ticks (cc (wd s) (c_cpu (co w' c)))"] by (simp add: delay_ok_def)
  then show ?thesis using o(1) w by (intro sys_co [OF s Q]) (auto simp: other_same_def)
qed

lemma sys_halt_pass:
  assumes s: "sys_inv b s" "c \<in> live s" and l: "\<And>d p e. halting s l \<noteq> HSleep d p e" and r: "halt_pass l c il e (wd s) = (r, w)"
  shows "sys_inv b (s\<lparr>wd := w, halting := (halting s)(l := halt_next c r)\<rparr>)"
proof -
  let ?p = "c_cpu (co (wd s) c)"
  obtain Q where Q: "co_inv b (live s) Q (wd s)" using s by (auto simp: sys_inv_def)
  have p: "cpu_callout (wd s) ?p" using inv_live [OF Q s(2)] by blast
  have h: "\<forall>k d. halts_on (((halting s)(l := halt_next c r)) k) = Some d \<longrightarrow> d \<in> live s"
    using s by (cases r) (auto simp: sys_inv_def)
  show ?thesis
  proof (cases "cc_active (cc (wd s) ?p) \<noteq> Some c \<or> cc_lwp (cc (wd s) ?p) = Some l \<or> il")
    case True
    then have w: "w = wd s" "\<forall>d p e. halt_next c r \<noteq> HSleep d p e" using r by (auto simp: halt_pass_def Let_def split: if_splits)
    then have "(\<exists>d e. ((halting s)(l := halt_next c r)) k = HSleep d q e) \<longleftrightarrow> (\<exists>d e. halting s k = HSleep d q e)" for k q using l by auto
    then show ?thesis using s(1) h w unfolding sys_inv_def cpu_inv_def Let_def by auto
  next
    case False
    let ?f = "\<lambda>x. x\<lparr>cc_nwait := cc_nwait x + 1, cc_ev_block := cc_ev_block x + 1, cc_sleepq := cc_sleepq x @ [l]\<rparr>"
    have w: "w = upd_cc ?p ?f (wd s)" "halt_next c r = HSleep c ?p e" using r False by (auto simp: halt_pass_def Let_def)
    let ?s = "s\<lparr>wd := w, halting := (halting s)(l := halt_next c r)\<rparr>"
    have "cpu_inv b ?s q" if q: "cpu_callout (wd s) q" for q
    proof -
      note I = sys_inv_cpu [OF s(1) q, unfolded cpu_inv_def Let_def]
      show ?thesis
      proof (cases "q = ?p")
        case True
        have "cc_active (cc (wd s) ?p) = Some c" using False by simp
        then show ?thesis using I True l unfolding cpu_inv_def Let_def w by auto
      next
        case False
        then show ?thesis using I l unfolding cpu_inv_def Let_def w by auto
      qed
    qed
    moreover have "co_inv b (live s) Q w" unfolding w using Q by (rule inv_cc) simp
    moreover have "soft s q = SIdle \<and> \<not> sih s q \<and> (\<forall>k d e. halting ?s k \<noteq> HSleep d q e)" if q: "\<not> cpu_callout (wd s) q" for q
    proof -
      have "q \<noteq> ?p" using p q by blast
      moreover have "soft s q = SIdle \<and> \<not> sih s q \<and> (\<forall>k d e. halting s k \<noteq> HSleep d q e)" using s(1) q by (simp add: sys_inv_def)
      ultimately show ?thesis using w(2) by simp
    qed
    moreover have "\<forall>d \<in> live s. bound (wd s) d \<longrightarrow> c_cpu (co (wd s) d) = 0" "cpu_callout (wd s) 0" using s(1) by (simp_all add: sys_inv_def)
    moreover have "co w = co (wd s)" "cpu_callout w = cpu_callout (wd s)" by (simp_all add: w(1))
    ultimately show ?thesis unfolding sys_inv_def using h by (simp, blast)
  qed
qed

text \<open>With an empty worklist, every callout pending on the CPU is due later.\<close>

lemma drained_later:
  assumes "co_inv True A Q w" and "Q (Todo p) = []" and "c \<in> A" and "pend w c" and "c_cpu (co w c) = p"
  shows "unat (cc_ticks (cc w p)) < unat (c_time (co w c))"
proof -
  obtain h where h: "c \<in> set (Q h)" using inv_live [OF assms(1,3)] assms(4) by (auto simp: queued_def)
  then have "head_cpu h = p" using inv_queued [OF assms(1)] assms(5) by simp
  then obtain i where "h = Wheel p i" using h assms(2) by (cases h) auto
  then show ?thesis using assms(1) h by (fastforce simp: co_inv_def timed_def in_time_def)
qed

text \<open>The soft interrupt with the lock, after it has started or after a function has returned.\<close>

lemma sys_relock:
  assumes s: "sys_inv b s" and p: "soft s p = SWake"
  shows "\<exists>r. soft_loop p (wd s) = Some r \<and> sys_inv b (soft_done p s r)"
proof -
  have rp: "cpu_callout (wd s) p" using s p by (force simp: sys_inv_def)
  obtain Q where Q: "co_inv b (live s) Q (wd s)" using s by (auto simp: sys_inv_def)
  obtain r w' Q' where R: "soft_loop p (wd s) = Some (r, w')" "co_inv b (live s) Q' w'" "soft_frame p (wd s) w'" "soft_post p (wd s) r w' Q'"
    using soft_loop_inv [OF Q rp] by blast
  let ?s = "soft_done p s (r, w')"
  have e: "wd ?s = w'" "soft ?s = (soft s)(p := soft_next r)" "sih ?s = sih s" "halting ?s = halting s" "live ?s = live s" by (simp_all add: soft_done_def)
  have B: "(bound w' d \<longleftrightarrow> bound (wd s) d) \<and> c_cpu (co w' d) = c_cpu (co (wd s) d) \<and> (pend w' d \<longrightarrow> pend (wd s) d) \<and> c_time (co w' d) = c_time (co (wd s) d)" for d
  proof (cases r)
    case None
    then show ?thesis using R(4) by simp
  next
    case (Some f')
    obtain c g a m where "f' = (c, g, a, m)" by (cases f') auto
    then show ?thesis using R(4) Some by (cases "d = c") (simp_all add: flags)
  qed
  have C: "\<forall>q. q \<noteq> p \<longrightarrow> cc w' q = cc (wd s) q" "cpu_callout w' = cpu_callout (wd s)" using R(3) by (simp_all add: soft_frame_def)
  have "cpu_inv b ?s q" if q: "cpu_callout (wd s) q" for q
  proof (cases "q = p")
    case False
    then show ?thesis using sys_inv_cpu [OF s q] C(1) B unfolding cpu_inv_def Let_def e by auto
  next
    case True
    note I = sys_inv_cpu [OF s rp, unfolded cpu_inv_def Let_def]
    have f: "cc_nwait (cc w' p) = cc_nwait (cc (wd s) p)" "cc_sleepq (cc w' p) = cc_sleepq (cc (wd s) p)" using R(3) by (simp_all add: soft_frame_def)
    show ?thesis
    proof (cases r)
      case None
      have "unat (cc_ticks (cc w' p)) \<le> unat (c_time (co w' c))" if "b" "c \<in> live s" "pend w' c" "c_cpu (co w' c) = p" for c
        using drained_later [of "live s" Q' w' p c] R(2,4) that None by (simp add: less_imp_le)
      moreover have "cc_sleepq (cc (wd s) p) = []" "\<forall>l c e. halting s l \<noteq> HSleep c p e" using I p by auto
      ultimately show ?thesis using I True None R(4) f p unfolding cpu_inv_def Let_def e by simp
    next
      case (Some f')
      obtain c g a m where "f' = (c, g, a, m)" by (cases f') auto
      then have P: "c_cpu (co (wd s) c) = p" "cc_lwp (cc w' p) = cc_lwp (cc (wd s) p)" "cc_active (cc w' p) = Some c" "fst f' = c" using R(4) Some by auto
      have "bound (wd s) c \<longrightarrow> c \<in> live s \<longrightarrow> p = 0" using s P(1) by (auto simp: sys_inv_def)
      then show ?thesis using I True Some P f p B unfolding cpu_inv_def Let_def e by auto
    qed
  qed
  moreover have "\<forall>d \<in> live s. bound w' d \<longrightarrow> c_cpu (co w' d) = 0" using s B by (simp add: sys_inv_def)
  moreover have "soft ?s q = SIdle" if "\<not> cpu_callout (wd s) q" for q using that rp s e by (auto simp: sys_inv_def)
  ultimately have "sys_inv b ?s" using s R(2) C(2) unfolding sys_inv_def e by (simp, blast)
  then show ?thesis using R(1) by blast
qed

text \<open>The end of a function: the lock is taken, the threads that wait are awakened.\<close>

lemma sys_return:
  assumes s: "sys_inv b s" and p: "soft s p = SCall f" and r: "softclock_return p (wd s) = (ls, w)"
  shows "sys_inv b (s\<lparr>wd := w, soft := (soft s)(p := SWake), halting := (\<lambda>l. if l \<in> set ls then woken (halting s l) else halting s l)\<rparr>)" (is "sys_inv b ?s")
proof -
  have rp: "cpu_callout (wd s) p" using s p by (force simp: sys_inv_def)
  obtain Q where Q: "co_inv b (live s) Q (wd s)" using s by (auto simp: sys_inv_def)
  note I = sys_inv_cpu [OF s rp, unfolded cpu_inv_def Let_def]
  let ?x = "cc (wd s) p"
  have n: "cc_nwait ?x = length (cc_sleepq ?x)" using I by simp
  have ls: "ls = cc_sleepq ?x" and w: "cc_sleepq (cc w p) = []" "cc_nwait (cc w p) = 0" "cc_active (cc w p) = None" "cc_lwp (cc w p) = cc_lwp ?x"
    "cc_ticks (cc w p) = cc_ticks ?x" "\<forall>q. q \<noteq> p \<longrightarrow> cc w q = cc (wd s) q" "co w = co (wd s)" "cpu_callout w = cpu_callout (wd s)" "links w = links (wd s)"
    using r n by (auto simp: softclock_return_def Let_def split: if_splits)
  have "co_inv b (live s) Q w"
  proof -
    have "cc_ticks (cc w q) = cc_ticks (cc (wd s) q)" for q using w(5,6) by (cases "q = p") auto
    moreover have "heads w = heads (wd s)" using w(8) by (simp add: heads_def)
    ultimately show ?thesis using Q w(7-9) unfolding co_inv_def co_wf_def timed_def ready_co_def by simp
  qed
  moreover have sl: "(\<exists>c e. halting ?s l = HSleep c q e) \<longleftrightarrow> q \<noteq> p \<and> (\<exists>c e. halting s l = HSleep c q e)" for l q
  proof -
    have "l \<in> set ls \<longleftrightarrow> (\<exists>c e. halting s l = HSleep c p e)" using I ls by simp
    then show ?thesis by (cases "halting s l") auto
  qed
  have "cpu_inv b ?s q" if q: "cpu_callout (wd s) q" for q
  proof (cases "q = p")
    case True
    then show ?thesis using I w sl [of _ p] p unfolding cpu_inv_def Let_def by simp
  next
    case False
    have sq: "(\<exists>c e. halting ?s l = HSleep c q e) \<longleftrightarrow> (\<exists>c e. halting s l = HSleep c q e)" for l using sl [of l q] False by simp
    have k: "cc (wd ?s) q = cc (wd s) q" "soft ?s q = soft s q" "co (wd ?s) = co (wd s)" "live ?s = live s" "sih ?s = sih s" using False w by simp_all
    show ?thesis using sys_inv_cpu [OF s q] unfolding cpu_inv_def Let_def k sq .
  qed
  moreover have "soft ?s q = SIdle \<and> \<not> sih ?s q \<and> (\<forall>l c e. halting ?s l \<noteq> HSleep c q e)" if "\<not> cpu_callout (wd s) q" for q
  proof -
    have "q \<noteq> p" using that rp by blast
    moreover have "soft s q = SIdle \<and> \<not> sih s q \<and> (\<forall>l c e. halting s l \<noteq> HSleep c q e)" using s that by (simp add: sys_inv_def)
    ultimately show ?thesis using sl [of _ q] by simp
  qed
  moreover have "\<forall>l c. halts_on (halting ?s l) = Some c \<longrightarrow> c \<in> live s"
  proof -
    have "halts_on (halting ?s l) = halts_on (halting s l)" for l by (cases "halting s l") auto
    then show ?thesis using s by (simp add: sys_inv_def)
  qed
  moreover have "\<forall>d \<in> live s. bound w d \<longrightarrow> c_cpu (co w d) = 0" "cpu_callout w 0" using s w by (simp_all add: sys_inv_def)
  ultimately show ?thesis unfolding sys_inv_def using w(8) by (simp, blast)
qed

lemma sys_hardclock:
  assumes s: "sys_inv b s" and p: "cpu_callout (wd s) p" and t: "b \<longrightarrow> unat (cc_ticks (cc (wd s) p)) + 1 < 2 ^ 31"
    and h: "callout_hardclock p (wd s) = (need, w)"
  shows "sys_inv b (s\<lparr>wd := w, sih := (sih s)(p := need \<or> sih s p)\<rparr>)" (is "sys_inv b ?s")
proof -
  obtain Q where Q: "co_inv b (live s) Q (wd s)" using s by (auto simp: sys_inv_def)
  obtain Q' where H: "co_inv b (live s) Q' w" "need \<longleftrightarrow> Q' (Todo p) \<noteq> []" "co w = co (wd s)" "cpu_callout w = cpu_callout (wd s)"
    "cc w = (cc (wd s))(p := (cc (wd s) p)\<lparr>cc_ticks := cc_ticks (cc (wd s) p) + 1\<rparr>)" using hardclock_inv [OF Q p] t h by auto
  have "cpu_inv b ?s q" if q: "cpu_callout (wd s) q" for q
  proof (cases "q = p")
    case True
    have "unat (cc_ticks (cc w p)) \<le> unat (c_time (co w c))" if "b" "\<not> need" "c \<in> live s" "pend w c" "c_cpu (co w c) = p" for c
      using drained_later [of "live s" Q' w p c] H(1,2) that by (simp add: less_imp_le)
    then show ?thesis using sys_inv_cpu [OF s p] True H(3,5) unfolding cpu_inv_def Let_def by auto
  next
    case False
    then show ?thesis using sys_inv_cpu [OF s q] H(3,5) unfolding cpu_inv_def Let_def by simp
  qed
  then show ?thesis using s H(1,3,4) p unfolding sys_inv_def by auto
qed

section \<open>CPUs and callouts that come and go\<close>

lemma init_wheel_rep:
  assumes "rep R q Q" and "\<forall>i. Wheel p i \<notin> R"
  shows "rep (R \<union> Wheel p ` {..<n}) (init_wheel p n q) Q"
proof (induction n)
  case 0
  then show ?case using assms by simp
next
  case (Suc n)
  have "Wheel p n \<notin> R \<union> Wheel p ` {..<n}" using assms(2) by auto
  from cq.ini_rp [OF Suc this] show ?case by (simp add: cq_ini_def lessThan_Suc)
qed

lemma inv_cpu_up:
  assumes i: "co_inv b A Q w" and p: "\<not> cpu_callout w p" and w: "callout_init_cpu si p w = Some w'"
  shows "co_inv b A Q w'" "co w' = co w" "cc w' = (cc w)(p := zero_cc)" "cpu_callout w' = (cpu_callout w)(p := True)"
proof -
  have l: "links w' = init_wheel p BUCKETS (CIRCQ_INIT (Head (Todo p)) (links w))" and e: "co w' = co w" "cc w' = (cc w)(p := zero_cc)"
    "cpu_callout w' = (cpu_callout w)(p := True)" using w p by (auto simp: callout_init_cpu_def Let_def lk_def upd_cc_def zero_cc_def)
  show "co w' = co w" "cc w' = (cc w)(p := zero_cc)" "cpu_callout w' = (cpu_callout w)(p := True)" by (fact e)+
  have n: "Todo p \<notin> heads w" "\<forall>i. Wheel p i \<notin> insert (Todo p) (heads w)" using p by auto
  have h: "heads w' = insert (Todo p) (heads w) \<union> Wheel p ` {..<BUCKETS}"
  proof (rule set_eqI)
    fix g show "g \<in> heads w' \<longleftrightarrow> g \<in> insert (Todo p) (heads w) \<union> Wheel p ` {..<BUCKETS}" by (cases g) (auto simp: heads_def e)
  qed
  have r: "rep (heads w') (links w') Q" unfolding l h
    using init_wheel_rep [OF cq.ini_rp [OF inv_rep [OF i] n(1)] n(2)] by (simp add: cq_ini_def)
  have k: "c_cpu (co w c) \<noteq> p" if "c \<in> A" for c using inv_live [OF i that] p by auto
  have "co_wf A Q w'" using i r k unfolding co_inv_def co_wf_def ready_co_def e by auto
  moreover have "timed Q w'" if b
  proof -
    have "Q (Wheel p j) = []" for j using cq.rp_dom [OF inv_rep [OF i]] n by blast
    then show ?thesis using i that unfolding co_inv_def timed_def e by (auto simp: zero_cc_def)
  qed
  ultimately show "co_inv b A Q w'" by (simp add: co_inv_def)
qed

lemma sys_cpu_up:
  assumes s: "sys_inv b s" and p: "\<not> cpu_callout (wd s) p"
  shows "\<exists>w. callout_init_cpu si p (wd s) = Some w \<and> sys_inv b (s\<lparr>wd := w\<rparr>)"
proof -
  obtain Q where Q: "co_inv b (live s) Q (wd s)" using s by (auto simp: sys_inv_def)
  obtain w where w: "callout_init_cpu si p (wd s) = Some w" using p by (auto simp: callout_init_cpu_def Let_def)
  note U = inv_cpu_up [OF Q p w]
  have np: "soft s p = SIdle" "\<not> sih s p" "\<forall>l c e. halting s l \<noteq> HSleep c p e" using s p by (auto simp: sys_inv_def)
  have k: "c_cpu (co (wd s) c) \<noteq> p" if "c \<in> live s" for c using inv_live [OF Q that] p by auto
  have "cpu_inv b (s\<lparr>wd := w\<rparr>) q" if "cpu_callout w q" for q
  proof (cases "q = p")
    case True
    then show ?thesis using np k U unfolding cpu_inv_def Let_def by (auto simp: zero_cc_def)
  next
    case False
    then show ?thesis using sys_inv_cpu [OF s, of q] that U unfolding cpu_inv_def Let_def by simp
  qed
  then have "sys_inv b (s\<lparr>wd := w\<rparr>)" using s U unfolding sys_inv_def by auto
  then show ?thesis using w by blast
qed

lemma sys_init:
  assumes s: "sys_inv b s" and c: "c \<notin> live s" "\<forall>p. cpu_callout (wd s) p \<longrightarrow> cc_active (cc (wd s) p) \<noteq> Some c" and f: "flags AND NOT CALLOUT_FLAGMASK = 0"
  shows "\<exists>w. callout_init p c flags (wd s) = Some w \<and> sys_inv b (s\<lparr>wd := w, live := insert c (live s)\<rparr>)"
proof -
  obtain Q where Q: "co_inv b (live s) Q (wd s)" using s by (auto simp: sys_inv_def)
  have z: "cpu_callout (wd s) 0" using s by (simp add: sys_inv_def)
  let ?f = "\<lambda>x. let x = x\<lparr>c_func := None, c_magic := CALLOUT_MAGIC\<rparr> in
      if flags AND CALLOUT_MPSAFE \<noteq> 0 \<and> cpu_callout (wd s) p then x\<lparr>c_flags := flags, c_cpu := p\<rparr> else x\<lparr>c_flags := flags OR CALLOUT_BOUND, c_cpu := 0\<rparr>"
  let ?w = "upd_co c ?f (wd s)"
  have w: "callout_init p c flags (wd s) = Some ?w" using f by (simp add: callout_init_def)
  have u: "\<not> bit flags 0" "\<not> bit flags 1" using user_flags [OF f] by simp_all
  have n: "\<not> pend ?w c" "c_magic (co ?w c) = CALLOUT_MAGIC" "cpu_callout ?w (c_cpu (co ?w c))" "bound ?w c \<longrightarrow> c_cpu (co ?w c) = 0"
    using u z by (auto simp: Let_def flags)
  have "co_inv b (live s - {c}) Q ?w" using inv_change [OF Q c(1)] c(1) by simp
  then have "co_inv b (insert c (live s)) Q ?w" by (rule inv_add) (use n in auto)
  moreover have "cpu_inv b (s\<lparr>wd := ?w, live := insert c (live s)\<rparr>) q" if q: "cpu_callout (wd s) q" for q
  proof -
    note I = sys_inv_cpu [OF s q, unfolded cpu_inv_def Let_def]
    have "runs (soft s q) \<noteq> Some c" using I c(2) q by auto
    moreover have "co ?w d = co (wd s) d" if "d \<in> live s" for d using that c(1) by auto
    ultimately show ?thesis using I n(1) unfolding cpu_inv_def Let_def csys.simps upd_simps(8) by auto
  qed
  moreover have "\<forall>d \<in> insert c (live s). bound ?w d \<longrightarrow> c_cpu (co ?w d) = 0" using s n(4) c(1) by (auto simp: sys_inv_def)
  ultimately have "sys_inv b (s\<lparr>wd := ?w, live := insert c (live s)\<rparr>)" using s unfolding sys_inv_def by (simp, blast)
  then show ?thesis using w by blast
qed

lemma sys_destroy:
  assumes s: "sys_inv b s" and c: "c \<in> live s" "callout_pending c (wd s) = Some False"
      "cc_lwp (cc (wd s) (c_cpu (co (wd s) c))) = Some l \<or> cc_active (cc (wd s) (c_cpu (co (wd s) c))) \<noteq> Some c"
      "\<forall>k. halts_on (halting s k) \<noteq> Some c"
  shows "\<exists>w. callout_destroy l c (wd s) = Some w \<and> sys_inv b (s\<lparr>wd := w, live := live s - {c}\<rparr>)"
proof -
  obtain Q where Q: "co_inv b (live s) Q (wd s)" using s by (auto simp: sys_inv_def)
  note L = inv_live [OF Q c(1)]
  let ?w = "upd_co c (\<lambda>x. x\<lparr>c_magic := 0\<rparr>) (wd s)"
  have np: "\<not> pend (wd s) c" using c(2) L by (simp add: callout_pending_def flags)
  then have w: "callout_destroy l c (wd s) = Some ?w" using c(3) L by (simp add: callout_destroy_def Let_def flags)
  have "co_inv b (live s - {c}) Q ?w" using inv_change [OF inv_drop [OF Q]] L np by simp
  moreover have "cpu_inv b (s\<lparr>wd := ?w, live := live s - {c}\<rparr>) q" if "cpu_callout (wd s) q" for q
    using sys_inv_cpu [OF s that] unfolding cpu_inv_def Let_def by auto
  ultimately have "sys_inv b (s\<lparr>wd := ?w, live := live s - {c}\<rparr>)" using s c(4) unfolding sys_inv_def by (simp, blast)
  then show ?thesis using w by blast
qed

lemma sys_softclock:
  assumes s: "sys_inv b s" and p: "cpu_callout (wd s) p" "soft s p = SIdle"
  shows "\<exists>r. softclock_enter l p (wd s) = Some r \<and> sys_inv b ((soft_done p s r)\<lparr>sih := (sih s)(p := False)\<rparr>)"
proof -
  let ?w = "upd_cc p (\<lambda>x. x\<lparr>cc_lwp := Some l\<rparr>) (wd s)"
  let ?s = "s\<lparr>wd := ?w, soft := (soft s)(p := SWake), sih := (sih s)(p := False)\<rparr>"
  obtain Q where Q: "co_inv b (live s) Q (wd s)" using s by (auto simp: sys_inv_def)
  have "co_inv b (live s) Q ?w" using Q by (rule inv_cc) simp
  moreover have "cpu_inv b ?s q" if q: "cpu_callout (wd s) q" for q
    using sys_inv_cpu [OF s q] p(2) unfolding cpu_inv_def Let_def by (cases "q = p") auto
  ultimately have "sys_inv b ?s" using s p(1) unfolding sys_inv_def by auto
  from sys_relock [OF this, of p] obtain r where r: "soft_loop p ?w = Some r" "sys_inv b (soft_done p ?s r)" by auto
  have "soft_done p ?s r = (soft_done p s r)\<lparr>sih := (sih s)(p := False)\<rparr>" by (simp add: soft_done_def)
  then show ?thesis using r by (auto simp: softclock_enter_def)
qed

lemma sys_same:
  assumes "sys_inv b s" and "c \<in> live s" and "\<And>x. c_magic (f x) = c_magic x \<and> c_cpu (f x) = c_cpu x \<and> c_time (f x) = c_time x"
    and "\<And>x. (bit (c_flags (f x)) 0 \<longleftrightarrow> bit (c_flags x) 0) \<and> (bit (c_flags (f x)) 1 \<longleftrightarrow> bit (c_flags x) 1) \<and> (bit (c_flags (f x)) 2 \<longleftrightarrow> bit (c_flags x) 2)"
    and "\<And>x. c_func x \<noteq> None \<Longrightarrow> c_func (f x) \<noteq> None"
  shows "sys_inv b (s\<lparr>wd := upd_co c f (wd s)\<rparr>)" "\<exists>Q. co_inv b (live s) Q (upd_co c f (wd s))"
proof -
  obtain Q where Q: "co_inv b (live s) Q (wd s)" using assms(1) by (auto simp: sys_inv_def)
  have "co_inv b (live s) Q (upd_co c f (wd s))"
  proof (rule inv_same [OF Q])
    show "ready_co (upd_co c f (wd s)) c" if "queued Q c"
      using that inv_queued [OF Q] assms(4,5) by (fastforce simp: queued_def ready_co_def)
    show "unat (c_time (f (co (wd s) c))) < 2 ^ 31 \<and> unat (c_time (co (wd s) c)) \<le> unat (c_time (f (co (wd s) c)))" if b "queued Q c"
      using that Q assms(3) by (auto simp: queued_def co_inv_def timed_def)
  qed (use assms(3,4) in auto)
  then show "\<exists>Q. co_inv b (live s) Q (upd_co c f (wd s))" "sys_inv b (s\<lparr>wd := upd_co c f (wd s)\<rparr>)"
    using sys_co [OF assms(1,2), of Q "upd_co c f (wd s)"] assms(3,4) by auto
qed

section \<open>Runs\<close>

lemma sys_schedule:
  assumes s: "sys_inv b s" "c \<in> live s" and p: "cpu_callout (wd s) p" and t: "delay_ok b (wd s) t" and f: "f = id \<or> f = (\<lambda>x. x\<lparr>c_func := Some g, c_arg := a\<rparr>)"
    and n: "c_func (f (co (wd s) c)) \<noteq> None"
  shows "\<exists>w. callout_schedule_locked p te c t (upd_co c f (wd s)) = Some w \<and> sys_inv b (s\<lparr>wd := w\<rparr>)"
proof -
  let ?w = "upd_co c f (wd s)"
  obtain Q where Q: "co_inv b (live s) Q ?w" using sys_same(2) [OF s, of f] f n by auto
  have d: "0 \<le> sint t" "b \<Longrightarrow> \<forall>q. cpu_callout ?w q \<longrightarrow> unat t + unat (cc_ticks (cc ?w q)) < 2 ^ 31" using t by (auto simp: delay_ok_def)
  obtain w' where "callout_schedule_locked p te c t ?w = Some w'" "sched_post b (live s) c t ?w w'"
    using schedule_inv [OF Q s(2) _ d(1) _ d(2), of p te] n p by auto
  moreover have "sys_inv b (s\<lparr>wd := w'\<rparr>)" by (rule sys_sched [OF s _ _ _ _ _ t calculation(2)]) (use f in auto)
  ultimately show ?thesis by blast
qed

lemma upd_co_id: "upd_co c id w = w"
  by (simp add: upd_co_def)

theorem co_step_ok:
  assumes s: "sys_inv b s" and "co_step b s r"
  shows "\<exists>s'. r = Some s' \<and> sys_inv b s'"
  using assms(2)
proof cases
  case (Cpu_up p si)
  then show ?thesis using sys_cpu_up [OF s] by fastforce
next
  case (Init c flags p)
  then show ?thesis using sys_init [OF s, of c flags p] by auto
next
  case (Destroy c l)
  then show ?thesis using sys_destroy [OF s, of c l] by auto
next
  case (Reset c p t te f a)
  obtain Q where "co_inv b (live s) Q (wd s)" using s by (auto simp: sys_inv_def)
  then have "c_magic (co (wd s) c) = CALLOUT_MAGIC" using inv_live Reset(2) by blast
  then show ?thesis using Reset sys_schedule [OF s Reset(2-4), where f = "\<lambda>x. x\<lparr>c_func := Some f, c_arg := a\<rparr>" and g = f and a = a and te = te] by (auto simp: callout_reset_def)
next
  case (Schedule c p t te)
  obtain Q where "co_inv b (live s) Q (wd s)" using s by (auto simp: sys_inv_def)
  then have "c_magic (co (wd s) c) = CALLOUT_MAGIC" using inv_live Schedule(2) by blast
  then show ?thesis using Schedule sys_schedule [OF s Schedule(2,4,5), of id _ _ te] by (auto simp: callout_schedule_def upd_co_id)
next
  case (Stop c)
  obtain Q where "co_inv b (live s) Q (wd s)" using s by (auto simp: sys_inv_def)
  then have m: "c_magic (co (wd s) c) = CALLOUT_MAGIC" using inv_live Stop(2) by blast
  let ?w = "callout_cancel c (wd s)"
  have I: "sys_inv b (s\<lparr>wd := ?w\<rparr>)" using sys_cancel [OF s Stop(2)] .
  then obtain Q' where Q': "co_inv b (live s) Q' ?w" by (auto simp: sys_inv_def)
  let ?v = "if cc_active (cc ?w (c_cpu (co ?w c))) = Some c then upd_cc (c_cpu (co ?w c)) (\<lambda>x. x\<lparr>cc_cancel := Some c\<rparr>) ?w else ?w"
  have "co_inv b (live s) Q' ?v" using Q' inv_cc [OF Q'] by auto
  moreover have "\<forall>p. cc_core (cc ?v p) = cc_core (cc ?w p)" "co ?v = co ?w" "cpu_callout ?v = cpu_callout ?w" by (auto simp: cc_core_def)
  ultimately have "sys_inv b (s\<lparr>wd := ?w, wd := ?v\<rparr>)" by (intro sys_co [OF I]) (use Stop(2) in auto)
  then show ?thesis using Stop m by (auto simp: callout_stop_def Let_def)
next
  case (Halt c l il)
  obtain Q where "co_inv b (live s) Q (wd s)" using s by (auto simp: sys_inv_def)
  then have m: "c_magic (co (wd s) c) = CALLOUT_MAGIC" using inv_live Halt(2) by blast
  obtain r' w where "halt_pass l c il (c_flags (co (wd s) c) AND CALLOUT_FIRED \<noteq> 0) (callout_cancel c (wd s)) = (r', w)" by fastforce
  then show ?thesis using Halt m sys_halt_pass [OF sys_cancel [OF s Halt(2)], of c l il _ r' w] by (auto simp: callout_halt_def)
next
  case (Halt_again l c e r' w)
  have "halts_on (halting s l) = Some c" using Halt_again(2) by simp
  then have "c \<in> live s" using s unfolding sys_inv_def by blast
  then show ?thesis using Halt_again sys_halt_pass [OF s, of c l False e r' w] by auto
next
  case (Setfunc c f a)
  obtain Q where "co_inv b (live s) Q (wd s)" using s by (auto simp: sys_inv_def)
  then have "c_magic (co (wd s) c) = CALLOUT_MAGIC" using inv_live Setfunc(2) by blast
  then show ?thesis using Setfunc sys_same(1) [OF s Setfunc(2), of "\<lambda>x. x\<lparr>c_func := Some f, c_arg := a\<rparr>"] by (auto simp: callout_setfunc_def)
next
  case (Ack c)
  obtain Q where "co_inv b (live s) Q (wd s)" using s by (auto simp: sys_inv_def)
  then have "c_magic (co (wd s) c) = CALLOUT_MAGIC" using inv_live Ack(2) by blast
  then show ?thesis using Ack sys_same(1) [OF s Ack(2), of "\<lambda>x. x\<lparr>c_flags := c_flags x AND NOT CALLOUT_INVOKING\<rparr>"] by (auto simp: callout_ack_def flags)
next
  case (Hardclock p need w)
  then show ?thesis using sys_hardclock [OF s] by auto
next
  case (Softclock p l)
  then show ?thesis using sys_softclock [OF s, of p l] by auto
next
  case (Return p f w)
  have "sys_inv b (s\<lparr>wd := w, soft := (soft s)(p := SWake), halting := halting s\<rparr>)" using sys_return [OF s Return(2,3)] by simp
  from sys_relock [OF this, of p] show ?thesis using Return by (auto simp: soft_done_def)
next
  case (Return_wake p f ls w)
  then show ?thesis using sys_return [OF s Return_wake(2,3)] by simp
next
  case (Relock p)
  then show ?thesis using sys_relock [OF s, of p] by auto
qed

lemma co_init_ok: "\<exists>s. co_init q x y = Some s \<and> sys_inv b s"
proof -
  let ?u = "\<lparr>links = q, co = x, cc = y(0 := zero_cc), cpu_callout = (\<lambda>_. False)\<rparr>"
  let ?w = "\<lparr>links = init_wheel 0 BUCKETS (CIRCQ_INIT (Head (Todo 0)) q), co = x, cc = y(0 := zero_cc), cpu_callout = (\<lambda>_. False)(0 := True)\<rparr>"
  have r: "rep (heads ?u) (links ?u) (\<lambda>_. [])" by (simp add: rep_def heads_def)
  have i: "co_inv b {} (\<lambda>_. []) ?u" using r by (simp add: co_inv_def co_wf_def timed_def queued_def)
  have u: "callout_init_cpu True 0 ?u = Some ?w" by (simp add: callout_init_cpu_def Let_def lk_def upd_cc_def zero_cc_def)
  have I: "co_inv b {} (\<lambda>_. []) ?w" by (rule inv_cpu_up(1) [OF i _ u]) simp
  have "co_init q x y = Some \<lparr>wd = ?w, soft = (\<lambda>_. SIdle), sih = (\<lambda>_. False), halting = (\<lambda>_. HNone), live = {}\<rparr>" (is "_ = Some ?s")
    by (simp add: co_init_def callout_startup_def callout_init_cpu_def Let_def lk_def upd_cc_def zero_cc_def fun_eq_iff)
  moreover have "sys_inv b ?s" using I by (auto simp: sys_inv_def cpu_inv_def Let_def zero_cc_def)
  ultimately show ?thesis by blast
qed

lemma co_reach_inv: "co_reach b s \<Longrightarrow> sys_inv b s"
proof (induction rule: co_reach.induct)
  case (Start q x y s)
  then show ?case using co_init_ok [of q x y b] by auto
next
  case (Step s s')
  then show ?case using co_step_ok by blast
qed

end
