(* ===== verification/Callout_Props.thy ===== *)
theory Callout_Props
  imports Callout_World "HOL-Library.Code_Target_Nat"
begin

text \<open>The properties of the callout facility.\<close>

section \<open>A run\<close>

text \<open>The boot CPU, a callout, a timeout of no ticks, and two ticks.\<close>

definition links0 :: links where
  "links0 = \<lparr>cq_next = id, cq_prev = id\<rparr>"

definition callout0 :: callout_impl where
  "callout0 = \<lparr>c_func = None, c_arg = 0, c_cpu = 0, c_time = 0, c_flags = 0, c_magic = 0\<rparr>"

definition run0 :: csys where
  "run0 = the (co_init links0 (\<lambda>_. callout0) (\<lambda>_. zero_cc))"

definition run1 :: csys where
  "run1 = run0\<lparr>wd := the (callout_init 0 7 0 (wd run0)), live := {7}\<rparr>"

definition run2 :: csys where
  "run2 = run1\<lparr>wd := the (callout_reset 0 True 7 0 (Some 2) 5 (wd run1))\<rparr>"

definition ticked :: "csys \<Rightarrow> csys" where
  "ticked s = (let (need, w) = callout_hardclock 0 (wd s) in s\<lparr>wd := w, sih := (sih s)(0 := need \<or> sih s 0)\<rparr>)"

lemma run0_facts: "co_init links0 (\<lambda>_. callout0) (\<lambda>_. zero_cc) = Some run0" "live run0 = {}" "co (wd run0) = (\<lambda>_. callout0)"
  "cc (wd run0) = (\<lambda>_. zero_cc)" "cpu_callout (wd run0) = (\<lambda>p. p = 0)" "halting run0 = (\<lambda>_. HNone)" "soft run0 = (\<lambda>_. SIdle)"
proof -
  obtain s where s: "co_init links0 (\<lambda>_. callout0) (\<lambda>_. zero_cc) = Some s" using co_init_ok by blast
  then show "co_init links0 (\<lambda>_. callout0) (\<lambda>_. zero_cc) = Some run0" by (simp add: run0_def)
  show "live run0 = {}" "co (wd run0) = (\<lambda>_. callout0)" "cc (wd run0) = (\<lambda>_. zero_cc)" "cpu_callout (wd run0) = (\<lambda>p. p = 0)"
    "halting run0 = (\<lambda>_. HNone)" "soft run0 = (\<lambda>_. SIdle)"
    by (auto simp: run0_def co_init_def callout_startup_def callout_init_cpu_def Let_def lk_def upd_cc_def zero_cc_def fun_eq_iff)
qed

lemma run0_reach: "co_reach b run0"
  using run0_facts(1) by (rule co_reach.Start)

lemma run1_step: "co_step b run0 (map_option (\<lambda>w. run0\<lparr>wd := w, live := insert 7 (live run0)\<rparr>) (callout_init 0 7 0 (wd run0)))"
  by (rule co_step.Init) (simp_all add: run0_facts zero_cc_def)

lemma run1_facts: "callout_init 0 7 0 (wd run0) = Some (wd run1)" "live run1 = {7}" "cc (wd run1) = (\<lambda>_. zero_cc)" "cpu_callout (wd run1) = (\<lambda>p. p = 0)"
  "co (wd run1) 7 = callout0\<lparr>c_magic := CALLOUT_MAGIC, c_flags := CALLOUT_BOUND\<rparr>" "halting run1 = (\<lambda>_. HNone)" "soft run1 = (\<lambda>_. SIdle)"
  by (simp_all add: run1_def callout_init_def run0_facts callout0_def)

lemma run1_reach: "co_reach b run1"
proof (rule co_reach.Step [OF run0_reach])
  show "co_step b run0 (Some run1)" using run1_step [of b] by (simp add: run1_facts(1) run0_facts(2)) (simp add: run1_def)
qed

lemma run2_facts: "callout_reset 0 True 7 0 (Some 2) 5 (wd run1) = Some (wd run2)" "live run2 = {7}" "cc (wd run2) = (\<lambda>_. zero_cc)" "cpu_callout (wd run2) = (\<lambda>p. p = 0)"
  "co (wd run2) 7 = \<lparr>c_func = Some 2, c_arg = 5, c_cpu = 0, c_time = 0, c_flags = CALLOUT_BOUND OR CALLOUT_PENDING, c_magic = CALLOUT_MAGIC\<rparr>"
  by (simp_all add: run2_def callout_reset_def callout_schedule_locked_def run1_facts callout0_def Let_def zero_cc_def flags
      CALLOUT_BOUND_def CALLOUT_PENDING_def CALLOUT_FIRED_def CALLOUT_INVOKING_def)

lemma run2_reach: "co_reach b run2"
proof (rule co_reach.Step [OF run1_reach])
  have "co_step b run1 (map_option (\<lambda>w. run1\<lparr>wd := w\<rparr>) (callout_reset 0 True 7 0 (Some 2) 5 (wd run1)))"
    by (rule co_step.Reset) (simp_all add: run1_facts delay_ok_def zero_cc_def)
  then show "co_step b run1 (Some run2)" by (simp add: run2_facts(1)) (simp add: run2_def)
qed

lemma ticked_facts: "co (wd (ticked s)) = co (wd s)" "cc (wd (ticked s)) = (cc (wd s))(0 := (cc (wd s) 0)\<lparr>cc_ticks := cc_ticks (cc (wd s) 0) + 1\<rparr>)"
  "cpu_callout (wd (ticked s)) = cpu_callout (wd s)" "live (ticked s) = live s"
  by (auto simp: ticked_def callout_hardclock_def Let_def)

lemma ticked_reach: "co_reach b s \<Longrightarrow> cpu_callout (wd s) 0 \<Longrightarrow> unat (cc_ticks (cc (wd s) 0)) + 1 < 2 ^ 31 \<Longrightarrow> co_reach b (ticked s)"
proof -
  assume s: "co_reach b s" "cpu_callout (wd s) 0" "unat (cc_ticks (cc (wd s) 0)) + 1 < 2 ^ 31"
  obtain need w where h: "callout_hardclock 0 (wd s) = (need, w)" by fastforce
  have "co_step b s (Some (s\<lparr>wd := w, sih := (sih s)(0 := need \<or> sih s 0)\<rparr>))" using s(2) _ h by (rule co_step.Hardclock) (use s(3) in simp)
  then have "co_step b s (Some (ticked s))" by (simp add: ticked_def h)
  then show ?thesis by (rule co_reach.Step [OF s(1)])
qed

lemma run4_reach: "co_reach b (ticked (ticked run2))"
  by (intro ticked_reach run2_reach) (simp_all add: ticked_facts run2_facts zero_cc_def)

lemma run4_facts: "cpu_callout (wd (ticked (ticked run2))) 0" "live (ticked (ticked run2)) = {7}" "unat (cc_ticks (cc (wd (ticked (ticked run2))) 0)) = 2"
  "co (wd (ticked (ticked run2))) 7 = co (wd run2) 7" "soft (ticked (ticked run2)) 0 = SIdle" "halting (ticked (ticked run2)) = (\<lambda>_. HNone)"
  by (simp_all add: ticked_facts run2_facts zero_cc_def) (simp_all add: ticked_def run2_def run1_facts split: prod.splits)

text \<open>The soft interrupt then calls the function.\<close>

lemma run4_fires:
  "\<exists>f a m w. softclock_enter 3 0 (wd (ticked (ticked run2))) = Some (Some (7, f, a, m), w) \<and> cc_lwp (cc w 0) = Some 3 \<and> cc_active (cc w 0) = Some 7 \<and>
     co w 7 = (co (wd run2) 7)\<lparr>c_flags := CALLOUT_BOUND OR CALLOUT_FIRED OR CALLOUT_INVOKING\<rparr>"
proof -
  let ?s = "ticked (ticked run2)"
  let ?w = "upd_cc 0 (\<lambda>x. x\<lparr>cc_lwp := Some 3\<rparr>) (wd ?s)"
  obtain Q where "co_inv True (live ?s) Q (wd ?s)" using co_reach_inv [OF run4_reach, of True] by (auto simp: sys_inv_def)
  then have I: "co_inv True (live ?s) Q ?w" by (rule inv_cc) simp
  obtain r w Q' where R: "soft_loop 0 ?w = Some (r, w)" "co_inv True (live ?s) Q' w" "soft_frame 0 ?w w" "soft_post 0 ?w r w Q'" "\<forall>f. r = Some f \<longrightarrow> fst f \<in> live ?s"
    using soft_loop_inv [OF I, of 0] run4_facts(1) by auto
  have "r \<noteq> None"
  proof
    assume "r = None"
    then show False using drained_later [OF R(2), of 0 7] R(3,4) run4_facts
      by (simp add: soft_frame_def run2_facts CALLOUT_PENDING_def CALLOUT_BOUND_def)
  qed
  then obtain g where g: "r = Some (7, g)" using R(5) run4_facts(2) by (metis not_None_eq prod.collapse singletonD)
  then obtain f a m where r: "r = Some (7, f, a, m)" by (cases g) auto
  have "co w 7 = (co (wd run2) 7)\<lparr>c_flags := CALLOUT_BOUND OR CALLOUT_FIRED OR CALLOUT_INVOKING\<rparr>" "cc_lwp (cc w 0) = Some 3" "cc_active (cc w 0) = Some 7"
    using R(4) r run4_facts(4) by (simp_all add: run2_facts CALLOUT_BOUND_def CALLOUT_PENDING_def CALLOUT_FIRED_def CALLOUT_INVOKING_def)
  then show ?thesis using R(1) r by (auto simp: softclock_enter_def)
qed

text \<open>A callout whose function runs, and a thread that waits for it.\<close>

lemma runner_exists:
  "\<exists>s f. co_reach True s \<and> live s = {7} \<and> soft s 0 = SCall f \<and> fst f = 7 \<and> halting s = (\<lambda>_. HNone) \<and> cc_lwp (cc (wd s) 0) = Some 3 \<and>
     cc_active (cc (wd s) 0) = Some 7 \<and> co (wd s) 7 = (co (wd run2) 7)\<lparr>c_flags := CALLOUT_BOUND OR CALLOUT_FIRED OR CALLOUT_INVOKING\<rparr>"
proof -
  let ?s = "ticked (ticked run2)"
  obtain f a m w where F: "softclock_enter 3 0 (wd ?s) = Some (Some (7, f, a, m), w)" "cc_lwp (cc w 0) = Some 3" "cc_active (cc w 0) = Some 7"
    "co w 7 = (co (wd run2) 7)\<lparr>c_flags := CALLOUT_BOUND OR CALLOUT_FIRED OR CALLOUT_INVOKING\<rparr>" using run4_fires by blast
  have s: "sys_inv True ?s" using run4_reach by (rule co_reach_inv)
  have "sih ?s 0" using sys_inv_cpu [OF s run4_facts(1)] run4_facts unfolding cpu_inv_def Let_def
    by (auto simp: run2_facts CALLOUT_PENDING_def CALLOUT_BOUND_def)
  then have "co_step True ?s (map_option (\<lambda>r. (soft_done 0 ?s r)\<lparr>sih := (sih ?s)(0 := False)\<rparr>) (softclock_enter 3 0 (wd ?s)))"
    using run4_facts(1,5) by (intro co_step.Softclock)
  then have "co_reach True ((soft_done 0 ?s (Some (7, f, a, m), w))\<lparr>sih := (sih ?s)(0 := False)\<rparr>)" (is "co_reach True ?t")
    using co_reach.Step [OF run4_reach] F(1) by simp
  moreover have "live ?t = {7}" "soft ?t 0 = SCall (7, f, a, m)" "halting ?t = (\<lambda>_. HNone)" "wd ?t = w" using run4_facts by (simp_all add: soft_done_def)
  ultimately show ?thesis using F(2-4) by (intro exI [of _ ?t] exI [of _ "(7, f, a, m)"]) simp
qed

lemma sleeper_exists: "\<exists>s. co_reach True s \<and> halting s 9 = HSleep 7 0 True"
proof -
  obtain s f where s: "co_reach True s" "live s = {7}" "halting s = (\<lambda>_. HNone)" "cc_lwp (cc (wd s) 0) = Some 3" "cc_active (cc (wd s) 0) = Some 7"
    "co (wd s) 7 = (co (wd run2) 7)\<lparr>c_flags := CALLOUT_BOUND OR CALLOUT_FIRED OR CALLOUT_INVOKING\<rparr>" using runner_exists by blast
  have "co_step True s (map_option (\<lambda>(r, w). s\<lparr>wd := w, halting := (halting s)(9 := halt_next 7 r)\<rparr>) (callout_halt 9 7 False (wd s)))"
    using s(2,3) by (intro co_step.Halt) simp_all
  moreover have "\<exists>v. callout_halt 9 7 False (wd s) = Some (Sleep 0 True, v)"
    using s by (simp add: callout_halt_def callout_cancel_def halt_pass_def Let_def run2_facts CALLOUT_BOUND_def CALLOUT_PENDING_def CALLOUT_FIRED_def CALLOUT_INVOKING_def)
  ultimately obtain v where "co_step True s (Some (s\<lparr>wd := v, halting := (halting s)(9 := HSleep 7 0 True)\<rparr>))" by auto
  then have "co_reach True (s\<lparr>wd := v, halting := (halting s)(9 := HSleep 7 0 True)\<rparr>)" by (rule co_reach.Step [OF s(1)])
  then show ?thesis by (intro exI, intro conjI) (assumption, simp)
qed

section \<open>Properties\<close>

text \<open>C19: The queue macros, which work on next and previous pointers, are operations on lists: \<open>CIRCQ_INSERT\<close> adds a callout
  at the end of a queue, \<open>CIRCQ_REMOVE\<close> takes it out of whichever queue it is on, \<open>CIRCQ_APPEND\<close> empties one queue onto
  the end of another, \<open>CIRCQ_EMPTY\<close> and \<open>CIRCQ_FIRST\<close> read them; all other queues stay as they are.\<close>
theorem circq_refines_lists:
  assumes "rep R q Q"
  shows "(h \<in> R \<and> \<not> queued Q c \<longrightarrow> rep R (CIRCQ_INSERT (Elem c) (Head h) q) (Q(h := Q h @ [c]))) \<and>
    (c \<in> set (Q h) \<longrightarrow> rep R (CIRCQ_REMOVE (Elem c) q) (Q(h := remove1 c (Q h)))) \<and>
    (h \<in> R \<and> g \<in> R \<and> h \<noteq> g \<longrightarrow> rep R (CIRCQ_APPEND (Head h) (Head g) q) (Q(h := Q h @ Q g, g := []))) \<and>
    (h \<in> R \<longrightarrow> (CIRCQ_EMPTY (Head h) q \<longleftrightarrow> Q h = []) \<and> (Q h \<noteq> [] \<longrightarrow> CIRCQ_FIRST (Head h) q = Elem (hd (Q h))))"
  using cq.ins_rp [OF assms] cq.rem_rp [OF assms] cq.app_rp [OF assms] cq.emp_rp [OF assms] cq.fst_rp [OF assms] by (simp add: cq_defs)

theorem circq_refines_lists_witness:
  "rep {Todo 0, Wheel 0 3} (CIRCQ_INSERT (Elem 7) (Head (Todo 0)) links0) ((\<lambda>_. [])(Todo 0 := [7])) \<and> CIRCQ_EMPTY (Head (Wheel 0 3)) links0"
proof -
  have r: "rep {Todo 0, Wheel 0 3} links0 (\<lambda>_. [])" by (simp add: rep_def circ_def links0_def)
  show ?thesis using circq_refines_lists [OF r, of "Todo 0" 7] circq_refines_lists [OF r, of "Wheel 0 3"] by (simp add: queued_def)
qed

text \<open>C9: No assertion of the callout facility fails, no queue is corrupted and the loop of the soft interrupt ends, in every
  interleaving of calls, ticks and soft interrupts on any number of CPUs, if callers keep to the contract.\<close>
theorem callout_no_abort:
  assumes "co_reach b s" and "co_step b s r"
  shows "r \<noteq> None"
  using co_step_ok [OF co_reach_inv [OF assms(1)] assms(2)] by auto

theorem callout_no_abort_witness: "callout_init 0 7 0 (wd run0) \<noteq> None"
  using callout_no_abort [OF run0_reach [of True] run1_step] by simp

text \<open>C10: A timeout is not missed.  While the clock of its CPU has not counted \<open>2^31\<close> ticks, a pending callout whose time has
  passed always has the soft interrupt of its CPU scheduled or running.\<close>
theorem callout_timely:
  assumes "co_reach True s" and "c \<in> live s" and "callout_pending c (wd s) = Some True"
    and "unat (c_time (co (wd s) c)) < unat (cc_ticks (cc (wd s) (c_cpu (co (wd s) c))))"
  shows "sih s (c_cpu (co (wd s) c)) \<or> soft s (c_cpu (co (wd s) c)) \<noteq> SIdle"
proof -
  let ?p = "c_cpu (co (wd s) c)"
  have s: "sys_inv True s" using assms(1) by (rule co_reach_inv)
  then obtain Q where Q: "co_inv True (live s) Q (wd s)" by (auto simp: sys_inv_def)
  have L: "cpu_callout (wd s) ?p" using inv_live [OF Q assms(2)] by simp
  moreover have "pend (wd s) c" using assms(3) by (auto simp: callout_pending_def flags split: if_splits)
  ultimately show ?thesis using sys_inv_cpu [OF s L] assms(2,4) unfolding cpu_inv_def Let_def by force
qed

theorem callout_timely_witness: "sih (ticked (ticked run2)) 0"
proof -
  let ?s = "ticked (ticked run2)"
  have "callout_pending 7 (wd ?s) = Some True" "7 \<in> live ?s" "c_cpu (co (wd ?s) 7) = 0" "unat (c_time (co (wd ?s) 7)) < unat (cc_ticks (cc (wd ?s) 0))"
    by (simp_all add: callout_pending_def ticked_facts run2_facts zero_cc_def CALLOUT_PENDING_def CALLOUT_BOUND_def)
  moreover have "soft ?s 0 = SIdle" by (simp add: ticked_def run2_def run1_facts split: prod.splits)
  ultimately show ?thesis using callout_timely [OF run4_reach, of 7] by simp
qed



text \<open>C20: \<open>callout_halt\<close> of a callout that is bound to a CPU, as all those without \<open>CALLOUT_MPSAFE\<close> are, waits: when it
  returns, at once or after it has dropped its interlock or slept, the function of the callout does not run on any CPU,
  unless it is the function itself that called.\<close>
theorem callout_halt_waits:
  assumes "co_reach b s" and "c \<in> live s" and "c_flags (co (wd s) c) AND CALLOUT_BOUND \<noteq> 0"
    and "callout_halt l c il (wd s) = Some (Halted e, w) \<or> halting s l = HAgain c e' \<and> halt_pass l c False e' (wd s) = (Halted e, w)"
  shows "\<forall>p f. soft s p = SCall f \<and> fst f = c \<longrightarrow> cc_lwp (cc (wd s) p) = Some l"
proof (intro allI impI)
  fix p f assume p: "soft s p = SCall f \<and> fst f = c"
  have s: "sys_inv b s" using assms(1) by (rule co_reach_inv)
  then obtain Q where Q: "co_inv b (live s) Q (wd s)" by (auto simp: sys_inv_def)
  have bd: "bound (wd s) c" using assms(3) by (simp add: flags)
  have rp: "cpu_callout (wd s) p" using s p by (force simp: sys_inv_def)
  have a: "cc_active (cc (wd s) p) = Some c" "p = 0" using sys_inv_cpu [OF s rp] p bd assms(2) by (auto simp: cpu_inv_def Let_def)
  have z: "c_cpu (co (wd s) c) = 0" using s bd assms(2) by (auto simp: sys_inv_def)
  have "c_cpu (co (callout_cancel c (wd s)) c) = 0" "cc (callout_cancel c (wd s)) = cc (wd s)"
    using cancel_inv(2,4) [OF Q assms(2)] z by (simp_all add: other_same_def)
  then show "cc_lwp (cc (wd s) p) = Some l" using assms(4) a z
    by (auto simp: callout_halt_def halt_pass_def Let_def split: if_splits)
qed

theorem callout_halt_waits_witness:
  "\<exists>s f e w. co_reach True s \<and> soft s 0 = SCall f \<and> fst f = 7 \<and> callout_halt 3 7 False (wd s) = Some (Halted e, w) \<and> cc_lwp (cc (wd s) 0) = Some 3"
proof -
  obtain s f where s: "co_reach True s" "live s = {7}" "soft s 0 = SCall f" "fst f = 7" "cc_lwp (cc (wd s) 0) = Some 3"
    "co (wd s) 7 = (co (wd run2) 7)\<lparr>c_flags := CALLOUT_BOUND OR CALLOUT_FIRED OR CALLOUT_INVOKING\<rparr>" using runner_exists by blast
  obtain e w where h: "callout_halt 3 7 False (wd s) = Some (Halted e, w)"
    using s by (auto simp: callout_halt_def callout_cancel_def halt_pass_def Let_def run2_facts CALLOUT_BOUND_def CALLOUT_PENDING_def CALLOUT_FIRED_def CALLOUT_INVOKING_def)
  have "c_flags (co (wd s) 7) AND CALLOUT_BOUND \<noteq> 0" using s(6) by (simp add: CALLOUT_BOUND_def CALLOUT_FIRED_def CALLOUT_INVOKING_def)
  then have "\<forall>p f. soft s p = SCall f \<and> fst f = 7 \<longrightarrow> cc_lwp (cc (wd s) p) = Some 3" using callout_halt_waits [OF s(1), of 7 3 False e w] s(2) h by simp
  then have "cc_lwp (cc (wd s) 0) = Some 3" using s(3,4) by blast
  then show ?thesis using s h by blast
qed

text \<open>C21: No thread sleeps in \<open>callout_halt\<close> for ever: the CPU it sleeps on runs the function of a callout, and when that
  function returns the thread is awakened.\<close>
theorem callout_halt_woken:
  assumes "co_reach b s" and "halting s l = HSleep c p e"
  shows "(\<exists>f. soft s p = SCall f) \<and> l \<in> set (fst (softclock_return p (wd s)))"
proof -
  have s: "sys_inv b s" using assms(1) by (rule co_reach_inv)
  have rp: "cpu_callout (wd s) p" using s assms(2) by (auto simp: sys_inv_def)
  note I = sys_inv_cpu [OF s rp, unfolded cpu_inv_def Let_def]
  have l: "l \<in> set (cc_sleepq (cc (wd s) p))" using I assms(2) by blast
  then have "cc_sleepq (cc (wd s) p) \<noteq> []" by auto
  then have "runs (soft s p) \<noteq> None" "cc_nwait (cc (wd s) p) = length (cc_sleepq (cc (wd s) p))" "cc_nwait (cc (wd s) p) \<noteq> 0" using I by auto
  then show ?thesis using l by (cases "soft s p") (auto simp: softclock_return_def Let_def)
qed

theorem callout_halt_woken_witness:
  "\<exists>s. co_reach True s \<and> halting s 9 = HSleep 7 0 True \<and> 9 \<in> set (fst (softclock_return 0 (wd s)))"
proof -
  obtain s where s: "co_reach True s" "halting s 9 = HSleep 7 0 True" using sleeper_exists by blast
  then show ?thesis using callout_halt_woken [OF s] by blast
qed

section \<open>What goes wrong\<close>

definition busy :: callouts where
  "busy = \<lparr>links = links0, co = (\<lambda>_. callout0\<lparr>c_func := Some 2, c_flags := CALLOUT_MPSAFE, c_magic := CALLOUT_MAGIC\<rparr>),
     cc = (\<lambda>p. zero_cc\<lparr>cc_ticks := 0x7fffffff, cc_lwp := if p = 0 then Some 3 else None, cc_active := if p = 0 then Some 7 else None\<rparr>), cpu_callout = (\<lambda>_. True)\<rparr>"

declare soft_loop.simps [code]



text \<open>A callout that schedules itself is pending again when the thread that halts it wakes up and returns.\<close>

lemma callout_halt_rescheduled:
  "(case callout_halt 9 7 False busy of
      Some (Sleep p e, w) \<Rightarrow> map_option (\<lambda>w. let (r, w) = halt_pass 9 7 False e (snd (softclock_return 0 w)) in (r, callout_pending 7 w)) (callout_schedule 0 True 7 10 w)
    | _ \<Rightarrow> None) = Some (Halted False, Some True)"
  by code_simp

end
