(* ===== verification/Spec2Isabelle.thy ===== *)
theory Spec2Isabelle
  imports Bpf_Safety Extent_Correct Clist_Blocks Pcq_Interleaved Npf_State_Correct Lockf_Calls Rwlock_Correct Blist_Pool Callout_Props
begin

text \<open>
  A verification library for parts of the NetBSD kernel, \<open>src/sys\<close>.

  \<^bold>\<open>The program.\<close>  The kernel consists of machine-dependent ports (\<open>arch\<close>), device drivers
  (\<open>dev\<close>), virtual memory (\<open>uvm\<close>), file systems (\<open>ufs\<close>, \<open>fs\<close>, \<open>kern/vfs_*\<close>), the network stack
  (\<open>net\<close>, \<open>netinet\<close>, \<open>netinet6\<close>) and the machine-independent core in \<open>kern\<close>.  The library takes
  the components that carry algorithms of their own and depend on little else: resource maps,
  queues, the packet filter machine, connection tracking, locks.  Each component has a theory
  with its data and operations, translated from the C text in the order the file has them, and
  one or more theories with the invariant, the lemmas and the properties.

  \<^bold>\<open>Conventions.\<close>  The machine is LP64: \<open>u_long\<close> and pointers are 64-bit words, \<open>u_int\<close> is a 32-bit
  word, and \<open>+\<close> and \<open>-\<close> on words wrap as in C.  Signed integers are \<^typ>\<open>int\<close> where the code keeps
  them small, and the place says so.  A value \<open>None\<close> of an operation whose result is an option
  stands for behaviour that C leaves undefined (an access outside an array, a null pointer, a
  shift that is too long), so that a result \<open>Some\<close> is also the statement that no such access
  happens.  Panics and error returns are values of their own.  What an operation asks of the
  rest of the kernel (does an allocation succeed, was a sleep interrupted) is an argument.

  \<^bold>\<open>Prelude.\<close>  \<open>Kern_Prelude\<close> has the machine integers, the error codes and generic lemmas on words.
  \<open>Ring_Buffer\<close> has lists read as rings and the locale \<open>bounded_queue\<close>, the contract of a bounded
  FIFO queue; terminal character lists and producer/consumer queues both interpret it.

  \<^bold>\<open>BPF virtual machine\<close> (\<open>sys/net/bpf_filter.c\<close>; \<open>Bpf_Filter\<close>, \<open>Bpf_Safety\<close>).  The interpreter as a step
  function with a fuelled loop, the packet accessors on contiguous packets and on mbuf chains,
  and the validator.  An accepted program returns after at most one step per instruction
  (so the length of the program is enough fuel) and none of its steps is undefined, except a
  shift by 32 or more, which the validator lets pass.  The accessors on a chain agree with reads
  of the flattened packet.

  \<^bold>\<open>Extent manager\<close> (\<open>sys/kern/subr_extent.c\<close>; \<open>Extent\<close>, \<open>Extent_Correct\<close>).  The sorted list of allocated
  regions, the descriptor free list of fixed extents, and every operation.  The locale
  \<open>region_map\<close> is the contract of a map of allocated addresses.  Allocation of a given region
  succeeds exactly when it is free; the search returns a free, aligned region that crosses no
  boundary, and fails only when there is no room; freeing removes exactly the range.  Sleeping
  for a descriptor or for space is a result of its own, after which the caller starts over.

  \<^bold>\<open>Terminal character lists\<close> (\<open>sys/kern/tty_subr.c\<close>; \<open>Clist\<close>, \<open>Clist_Correct\<close>, \<open>Clist_Blocks\<close>).  The ring
  buffer with its optional quote bits and all its operations; the copying loops are partial
  functions, and the lemmas show that they return.  The operations refine a bounded queue of
  characters.

  \<^bold>\<open>Producer/consumer queue\<close> (\<open>sys/kern/subr_pcq.c\<close>; \<open>Pcq\<close>, \<open>Pcq_Correct\<close>, \<open>Pcq_Interleaved\<close>).  The
  operations without interference, and every load, store and compare-and-swap as a transition
  of a system with any number of producers and one consumer.  Rule induction over its runs shows
  that items come out in the order of reservation, none lost or duplicated.

  \<^bold>\<open>NPF helpers and connection tracking\<close> (\<open>sys/net/npf/npf_inet.c\<close>, \<open>npf_state.c\<close>, \<open>npf_state_tcp.c\<close>;
  \<open>Npf_Inet\<close>, \<open>Npf_Inet_Correct\<close>, \<open>Npf_State\<close>, \<open>Npf_State_Correct\<close>).  Incremental checksums, address
  masks, TCP option parsing, the TCP state table and the window checks.  A connection is
  established only by a handshake; a packet is accepted exactly when it is inside the window;
  no table or option byte is read outside its bounds.

  \<^bold>\<open>Advisory byte-range locks\<close> (\<open>sys/kern/vfs_lockf.c\<close>; \<open>Lockf\<close>, \<open>Lockf_Correct\<close>, \<open>Lockf_World\<close>).  The lock
  lists with the requests queued on each lock, \<open>lf_findoverlap\<close>, \<open>lf_split\<close>, \<open>lf_clearlock\<close>, \<open>lf_setlock\<close>
  with its sleep as a result of its own, \<open>lf_getlock\<close> and \<open>lf_advlock\<close>.  Setting and clearing act on
  exactly the bytes of the range.  The step relation \<open>lf_step\<close> has any number of processes and
  vnodes: calls, wake-ups, signals and retries.  In every reachable state two owners of a byte
  share it, a sleeping request is queued on a lock that still conflicts with it, and
  single-threaded processes with POSIX requests do not wait in a circle.

  \<^bold>\<open>Lock system calls\<close> (\<open>sys/kern/sys_descrip.c\<close>, \<open>kern_descrip.c\<close>, \<open>sys/ufs/ufs/ufs_vnops.c\<close>; \<open>Lockf_Calls\<close>).
  \<open>fcntl\<close> record locks, \<open>flock\<close> and the releases when a descriptor is closed are clients of the
  lock manager and stay within its contract.

  \<^bold>\<open>Reader/writer locks\<close> (\<open>sys/kern/kern_rwlock.c\<close>; \<open>Rwlock\<close>, \<open>Rwlock_Correct\<close>).  Each load, compare-and-swap
  and swap of the owner word is a transition of a system of threads with the two sleep queues
  of the turnstile.  The invariant reads the word as a count or an owner and three flags.  From
  it follow mutual exclusion, that no assertion fails, that a sleeping thread always has
  somebody to pass the lock on, and that the read count is exact.

  \<^bold>\<open>Swap block allocator\<close> (\<open>sys/kern/subr_blist.c\<close>; \<open>Blist\<close>, \<open>Blist_Leaf\<close>, \<open>Blist_Tree\<close>, \<open>Blist_Alloc\<close>, \<open>Blist_Free\<close>,
  \<open>Blist_Correct\<close>, \<open>Blist_Pool\<close>).  The radix tree of bitmaps in its array; a pointer into the tree is an
  index, and each loop over the children of a node is a function that is mutually recursive with
  the one for the node.  \<open>Blist_Tree\<close> has the layout and the invariant: the end marks are in place and
  the count of every node that is not collapsed is the sum of its children's.  Allocation, release
  and filling take exactly their blocks out of, or add them to, the set of free blocks; creation
  ends for up to \<open>2^29\<close> blocks; resizing keeps what both sizes share.  The locale \<open>block_pool\<close> is
  what a client relies on: its runs never overlap and no block is lost.  Not so the hints, which
  bound the largest free run: a release can leave one too low, and an allocation then fails.

  \<^bold>\<open>Callouts\<close> (\<open>sys/kern/kern_timeout.c\<close>; \<open>Callout\<close>, \<open>Callout_Queue\<close>, \<open>Callout_Correct\<close>, \<open>Callout_Ops\<close>, \<open>Callout_World\<close>,
  \<open>Callout_Props\<close>).  The timing wheel of each CPU as circular queues of next and previous pointers.
  \<open>Callout_Queue\<close> reads the pointers as lists and states the contract of the queues as the locale
  \<open>timer_queues\<close>; the rest rests on its interpretation.  The invariant says that a callout is pending
  exactly if it is on a queue of its CPU and that its bucket is emptied no later than it is due; the
  relation \<open>co_step\<close> interleaves calls, ticks, soft interrupts and threads in \<open>callout_halt\<close>.  No assertion
  fails, no timeout is missed, no thread sleeps for ever.  With its first argument the relation
  stays within the first \<open>2^31\<close> ticks, which the statements about time need: the code compares times
  directly, and a timeout set just before the wrap runs at once.

  \<^bold>\<open>Not modelled.\<close>  Ports, drivers, vendored code and system call compatibility: hardware behaviour
  that the sources do not describe, or generated and third-party code.  In the modelled files:
  printing, debugging output, statistics counters and pool setup.  Virtual memory, the file systems
  and the rest of the network stack are not modelled; nor are the scheduler and the priorities
  that turnstiles lend, which decide when a step happens and not what it does.
\<close>

end
